(* ===== verification/Prelude.thy ===== *)
theory Prelude
  imports Main "HOL-Library.Word" "HOL-Library.Monad_Syntax"
begin

text \<open>
  Shared vocabulary of the development: the machine integer types of the kernel, the
  byte-addressed memory that its pointers refer to, little-endian reads and writes of
  that memory, and the word lemmas the component proofs share.

  Memory is a total function from 64-bit addresses to bytes. The kernel runs with its own
  memory identity mapped, so a pointer dereference is an application of this function
  and an assignment through a pointer is a function update; an out-of-bounds access of the
  source is an access of whatever byte is there, as on the machine.
\<close>

unbundle bit_operations_syntax

section \<open>Machine integers and memory\<close>

type_synonym byte = "8 word"
type_synonym u8 = "8 word"
type_synonym u16 = "16 word"
type_synonym u32 = "32 word"
type_synonym u64 = "64 word"
type_synonym addr = "64 word"
type_synonym mem = "addr \<Rightarrow> byte"

definition MAX_CPU_COUNT :: nat where "MAX_CPU_COUNT = 16"

text \<open>
  The macro \<open>CATCH_FIRE\<close> of \<open>kstdio.hpp\<close>: a message, then \<open>hlt\<close>. A failed check stops the machine, which
  in the result type of the operations is \<open>None\<close>.
\<close>

definition CATCH_FIRE :: "bool \<Rightarrow> unit option" where
  "CATCH_FIRE condition = (if condition then None else Some ())"

lemma CATCH_FIRE_bind [simp]: "CATCH_FIRE c \<bind> f = (if c then None else f ())"
  by (simp add: CATCH_FIRE_def)

named_theorems mem_simps \<open>reads of what was just written\<close>
named_theorems mem_frame \<open>reads of what was not written\<close>

subsection \<open>Word facts\<close>

lemma unat_minus_1_u64 [simp]: "unat (- 1 :: u64) = 18446744073709551615"
  by (simp add: unsigned_minus_1_eq_mask mask_eq_exp_minus_1)

lemma sint_inject [simp]: "sint (a :: 'a::len word) = sint b \<longleftrightarrow> a = b"
  by (auto intro: signed_word_eqI)

lemma unat_ucast_up:
  "LENGTH('a) \<le> LENGTH('b) \<Longrightarrow> unat (ucast (x :: 'a::len word) :: 'b::len word) = unat x"
  by (simp add: unsigned_ucast_eq take_bit_nat_eq_self_iff)
    (meson order_less_le_trans unsigned_less power_increasing one_le_numeral)

lemma unat_u64_less: "unat (x :: u64) < 2 ^ 64"
  using unsigned_less [of x, where 'a = nat] by simp

lemma ucast_u32_Suc:
  assumes "unat (i :: u32) + 1 < 2 ^ 32"
  shows "(ucast (i + 1) :: u64) = ucast i + 1"
proof (rule word_unat_eq_iff [THEN iffD2])
  have "unat (i + 1) = unat i + 1" using assms by (simp add: unat_word_ariths)
  then show "unat (ucast (i + 1) :: u64) = unat (ucast i + 1 :: u64)"
    using assms by (simp add: unat_ucast_up unat_word_ariths)
qed

text \<open>The two facts every counting loop \<open>for (l = 0; l < n; l++)\<close> rests on.\<close>

lemma word_loop_measure [termination_simp]:
  "(l :: u64) < n \<Longrightarrow> unat (n - (l + 1)) < unat (n - l)"
  by unat_arith

lemma word_le_iff_Suc:
  "(l :: u64) < n \<Longrightarrow> l + 1 \<le> y \<or> y = l \<longleftrightarrow> l \<le> y"
  by unat_arith

subsection \<open>Address ranges\<close>

text \<open>
  \<open>within a n x\<close>: the address \<open>x\<close> is one of the \<open>n\<close> bytes from \<open>a\<close>, also when the range
  wraps around the address space. \<open>apart\<close>: two such ranges share no byte.
\<close>

definition within :: "addr \<Rightarrow> u64 \<Rightarrow> addr \<Rightarrow> bool" where
  "within a n x \<longleftrightarrow> x - a < n"

definition apart :: "addr \<Rightarrow> u64 \<Rightarrow> addr \<Rightarrow> u64 \<Rightarrow> bool" where
  "apart a n b k \<longleftrightarrow> n \<le> b - a \<and> k \<le> a - b"

lemma apart_sym: "apart a n b k \<longleftrightarrow> apart b k a n"
  by (auto simp: apart_def)

lemma apart_not_within:
  assumes "apart a n b k" and "i < n"
  shows "\<not> within b k (a + i)"
  using assms unfolding apart_def within_def by unat_arith

lemma within_shift:
  fixes d n k :: u64
  assumes "unat d + unat n \<le> unat k"
  shows "within (a + d) n x \<Longrightarrow> within a k x"
proof -
  assume "within (a + d) n x"
  then have "x - a - d < n" by (simp add: within_def algebra_simps)
  moreover have "unat (x - a) < 2 ^ 64" by (rule unat_u64_less)
  ultimately have "x - a < k" using assms by unat_arith
  then show ?thesis by (simp add: within_def)
qed

lemma below_not_within:
  fixes n t d :: u64
  assumes "x < t" and "unat t + unat d + unat n \<le> 2 ^ 63"
  shows "\<not> within (t + d) n x"
proof
  assume "within (t + d) n x"
  then have "unat (x - (t + d)) < unat n" by (simp add: within_def word_less_nat_alt)
  moreover have "unat (t + d) = unat t + unat d" using assms(2) by (simp add: unat_word_ariths)
  moreover have "unat x < unat t" using assms(1) by (simp add: word_less_nat_alt)
  ultimately show False using assms(2) by (auto simp: unat_sub_if' split: if_splits)
qed

lemma within_range:
  fixes a n :: u64
  assumes "unat a + unat n < 2 ^ 64"
  shows "within a n x \<longleftrightarrow> unat a \<le> unat x \<and> unat x < unat a + unat n"
  using assms by (auto simp: within_def word_less_nat_alt unat_sub_if' split: if_splits)

lemma unat_uminus_u64: "(z :: u64) \<noteq> 0 \<Longrightarrow> unat (- z) = 2 ^ 64 - unat z"
  using unat_sub_if' [of 0 z] by (simp add: unat_gt_0)

lemma apart_sub:
  fixes a b d e n n' k k' :: u64
  assumes "apart a n b k" and "unat d + unat n' \<le> unat n" "unat e + unat k' \<le> unat k"
    and pos: "n' \<noteq> 0" "k' \<noteq> 0"
  shows "apart (a + d) n' (b + e) k'"
proof -
  define y where "y = b - a"
  have p: "0 < unat n'" "0 < unat k'" using pos by (simp_all add: unat_gt_0)
  have y: "unat n \<le> unat y" "unat k \<le> unat (- y)"
    using assms(1) by (simp_all add: apart_def y_def word_le_nat_alt)
  then have "y \<noteq> 0" using p assms(2) by auto
  then have k: "unat k + unat y \<le> 2 ^ 64" using y(2) unat_uminus_u64 [of y] p assms(3) by linarith
  have "unat (y + e) = unat y + unat e" using k p assms(3) by (simp add: unat_word_ariths)
  then have z: "unat (y + e - d) = unat y + unat e - unat d"
    using y(1) assms(2) by (simp add: unat_sub_if')
  then have zp: "unat n' \<le> unat (y + e - d)" using y(1) assms(2) by linarith
  then have "y + e - d \<noteq> 0" using p by auto
  then have "unat k' \<le> unat (- (y + e - d))"
    using unat_uminus_u64 [of "y + e - d"] z k assms(3) by linarith
  moreover have "b + e - (a + d) = y + e - d" "a + d - (b + e) = - (y + e - d)"
    by (simp_all add: y_def)
  ultimately show ?thesis using zp unfolding apart_def word_le_nat_alt by (simp only: simp_thms)
qed

section \<open>Little-endian memory\<close>

primrec read_le :: "nat \<Rightarrow> mem \<Rightarrow> addr \<Rightarrow> nat" where
  "read_le 0 m a = 0"
| "read_le (Suc n) m a = unat (m a) + 256 * read_le n m (a + 1)"

primrec write_le :: "nat \<Rightarrow> nat \<Rightarrow> addr \<Rightarrow> mem \<Rightarrow> mem" where
  "write_le 0 v a m = m"
| "write_le (Suc n) v a m = write_le n (v div 256) (a + 1) (m(a := of_nat v))"

lemma read_le_less: "read_le n m a < 256 ^ n"
proof (induction n arbitrary: a)
  case 0
  then show ?case by simp
next
  case (Suc n)
  have "unat (m a) < 256" using unsigned_less [of "m a", where 'a = nat] by simp
  then show ?case using Suc.IH [of "a + 1"] by simp
qed

lemma write_le_outside:
  "n \<le> unat (x - a) \<Longrightarrow> write_le n v a m x = m x"
proof (induction n arbitrary: v a m)
  case 0
  then show ?case by simp
next
  case (Suc n)
  then have "x \<noteq> a" by auto
  moreover have "n \<le> unat (x - (a + 1))"
    using Suc.prems by unat_arith
  ultimately show ?case using Suc.IH by simp
qed

lemma write_le_apply:
  "n < 2 ^ 64 \<Longrightarrow> write_le n v a m x =
     (if unat (x - a) < n then of_nat (v div 256 ^ unat (x - a)) else m x)"
proof (induction n arbitrary: v a m)
  case 0
  then show ?case by simp
next
  case (Suc n)
  show ?case
  proof (cases "x = a")
    case True
    have "n \<le> unat (a - (a + 1))" using Suc.prems by simp
    then show ?thesis using True by (simp add: write_le_outside)
  next
    case False
    then have "x - a \<noteq> 0" "0 < unat (x - a)" by (simp_all add: unat_gt_0)
    then have "unat (x - a) = Suc (unat (x - a - 1))" 
      by (simp add: unat_minus_one)
    then have "unat (x - a) = Suc (unat (x - (a + 1)))" by (simp add: algebra_simps)
    then show ?thesis using Suc False by (simp add: div_mult2_eq)
  qed
qed

lemma read_le_cong:
  "(\<And>i. i < n \<Longrightarrow> m (a + of_nat i) = m' (a + of_nat i)) \<Longrightarrow> read_le n m a = read_le n m' a"
proof (induction n arbitrary: a)
  case 0
  then show ?case by simp
next
  case (Suc n)
  have "m a = m' a" using Suc.prems [of 0] by simp
  moreover have "read_le n m (a + 1) = read_le n m' (a + 1)"
  proof (rule Suc.IH)
    fix i assume "i < n"
    then show "m (a + 1 + of_nat i) = m' (a + 1 + of_nat i)"
      using Suc.prems [of "Suc i"] by (simp add: algebra_simps)
  qed
  ultimately show ?case by simp
qed

lemma read_write_le:
  "n < 2 ^ 64 \<Longrightarrow> read_le n (write_le n v a m) a = v mod 256 ^ n"
proof (induction n arbitrary: v a m)
  case 0
  then show ?case by simp
next
  case (Suc n)
  have out: "n \<le> unat (a - (a + 1))" using Suc.prems by simp
  have "write_le n (v div 256) (a + 1) (m(a := of_nat v)) a = of_nat v"
    using write_le_outside [OF out] by simp
  moreover have "read_le n (write_le n (v div 256) (a + 1) (m(a := of_nat v))) (a + 1)
      = v div 256 mod 256 ^ n"
    using Suc by simp
  moreover have "v mod 256 ^ Suc n = v mod 256 + 256 * (v div 256 mod 256 ^ n)"
    by (simp add: mod_mult2_eq)
  ultimately show ?case by (simp add: unat_of_nat)
qed

subsection \<open>64-bit cells\<close>

definition read64 :: "mem \<Rightarrow> addr \<Rightarrow> u64" where
  "read64 m a = of_nat (read_le 8 m a)"

definition write64 :: "addr \<Rightarrow> u64 \<Rightarrow> mem \<Rightarrow> mem" where
  "write64 a v m = write_le 8 (unat v) a m"

lemma read64_cong:
  assumes "\<And>x. within a 8 x \<Longrightarrow> m x = m' x"
  shows "read64 m a = read64 m' a"
proof -
  have "read_le 8 m a = read_le 8 m' a"
  proof (rule read_le_cong)
    fix i :: nat assume "i < 8"
    then have "within a 8 (a + of_nat i)"
      by (simp add: within_def word_less_nat_alt unat_of_nat)
    then show "m (a + of_nat i) = m' (a + of_nat i)" by (rule assms)
  qed
  then show ?thesis by (simp add: read64_def)
qed

lemma read64_write64 [simp, mem_simps]: "read64 (write64 a v m) a = v"
proof -
  have "unat v < 256 ^ 8" using unsigned_less [of v, where 'a = nat] by simp
  then show ?thesis by (simp add: read64_def write64_def read_write_le)
qed

lemma write64_outside [mem_frame]: "\<not> within a 8 x \<Longrightarrow> write64 a v m x = m x"
  unfolding write64_def
  by (rule write_le_outside) (simp add: within_def not_less word_le_nat_alt)

lemma write64_overwrite [simp, mem_simps]: "write64 a v (write64 a w m) = write64 a v m"
  by (rule ext) (simp add: write64_def write_le_apply)

lemma read64_below:
  assumes "\<And>x. x < t \<Longrightarrow> m' x = m x" and "unat a + 8 \<le> unat t"
  shows "read64 m' a = read64 m a"
proof (rule read64_cong)
  fix x assume "within a 8 x"
  moreover have "unat a + 8 < 2 ^ 64" using assms(2) unat_u64_less [of t] by simp
  ultimately have "unat x < unat t" using within_range [of a 8 x] assms(2)
    by (simp add: unat_ucast_up)
  then show "m' x = m x" using assms(1) by (simp add: word_less_nat_alt)
qed

lemma read64_frame:
  assumes "\<And>x. \<not> within b k x \<Longrightarrow> m' x = m x" and "apart a 8 b k"
  shows "read64 m' a = read64 m a"
proof (rule read64_cong)
  fix x assume "within a 8 x"
  then have "x - a < 8" by (simp add: within_def)
  with assms(2) have "\<not> within b k (a + (x - a))" by (rule apart_not_within)
  then show "m' x = m x" using assms(1) by simp
qed

lemma read64_write64_apart [mem_frame]:
  "apart a 8 b 8 \<Longrightarrow> read64 (write64 b v m) a = read64 m a"
  by (rule read64_frame) (rule write64_outside)

lemma read64_upd_apart [mem_frame]:
  "apart a 8 b 1 \<Longrightarrow> read64 (m(b := v)) a = read64 m a"
  by (rule read64_frame) (auto simp: within_def)

subsection \<open>16- and 32-bit cells\<close>

definition read16 :: "mem \<Rightarrow> addr \<Rightarrow> u16" where
  "read16 m a = of_nat (read_le 2 m a)"

definition read32 :: "mem \<Rightarrow> addr \<Rightarrow> u32" where
  "read32 m a = of_nat (read_le 4 m a)"

definition write16 :: "addr \<Rightarrow> u16 \<Rightarrow> mem \<Rightarrow> mem" where
  "write16 a v m = write_le 2 (unat v) a m"

definition write32 :: "addr \<Rightarrow> u32 \<Rightarrow> mem \<Rightarrow> mem" where
  "write32 a v m = write_le 4 (unat v) a m"

subsection \<open>Byte lists in memory\<close>

text \<open>A list of bytes stored from an address on.\<close>

primrec puts_at :: "addr \<Rightarrow> byte list \<Rightarrow> mem \<Rightarrow> mem" where
  "puts_at a [] m = m"
| "puts_at a (c # cs) m = puts_at (a + 1) cs (m(a := c))"

lemma puts_at_snoc: "puts_at a (cs @ [c]) m = (puts_at a cs m)(a + of_nat (length cs) := c)"
  by (induction cs arbitrary: a m) (simp_all add: ac_simps)

lemma puts_at_append: "puts_at a (cs @ ds) m = puts_at (a + of_nat (length cs)) ds (puts_at a cs m)"
  by (induction cs arbitrary: a m) (simp_all add: ac_simps)

lemma off_eq:
  assumes "k < 2 ^ 64"
  shows "x = a + of_nat k \<longleftrightarrow> unat (x - a :: u64) = k"
proof
  assume "x = a + of_nat k"
  then show "unat (x - a) = k" using assms by (simp add: unsigned_of_nat take_bit_nat_eq_self)
next
  assume "unat (x - a) = k"
  then have "of_nat k = x - a" by auto
  then show "x = a + of_nat k" by simp
qed

lemma puts_at_nth:
  assumes "length cs < 2 ^ 64"
  shows "puts_at a cs m x = (if unat (x - a) < length cs then cs ! unat (x - a) else m x)"
  using assms
proof (induction cs rule: rev_induct)
  case (snoc c cs)
  then show ?case using off_eq [of "length cs" x a] by (auto simp: puts_at_snoc nth_append less_Suc_eq)
qed simp

lemma puts_at_off:
  assumes "length cs < 2 ^ 64" "\<not> within a (of_nat (length cs)) x"
  shows "puts_at a cs m x = m x"
  using assms by (simp add: puts_at_nth within_def word_less_nat_alt unsigned_of_nat take_bit_nat_eq_self)

subsection \<open>Bits of memory cells\<close>

lemma bit_nat_add_256:
  assumes "b < 256"
  shows "bit (b + 256 * r :: nat) n = (if n < 8 then bit b n else bit r (n - 8))"
proof -
  have "take_bit 8 (b + 256 * r) = b" "drop_bit 8 (b + 256 * r) = r"
    using assms by (simp_all add: take_bit_eq_mod drop_bit_eq_div)
  then have "bit b n = bit (take_bit 8 (b + 256 * r)) n" "bit r (n - 8) = bit (drop_bit 8 (b + 256 * r)) (n - 8)"
    by simp_all
  then show ?thesis by (simp add: bit_simps)
qed

lemma bit_read_le: "bit (read_le k m a) n \<longleftrightarrow> n < 8 * k \<and> bit (m (a + of_nat (n div 8))) (n mod 8)"
proof (induction k arbitrary: a n)
  case (Suc k)
  have b: "unat (m a) < 256" using unsigned_less [of "m a", where 'a = nat] by simp
  show ?case
  proof (cases "n < 8")
    case True
    then show ?thesis using b by (simp add: bit_nat_add_256 bit_simps)
  next
    case False
    then obtain j where "n = 8 + j" by (metis le_add_diff_inverse not_less)
    moreover have "(8 + j) div 8 = Suc (j div 8)" by simp
    ultimately show ?thesis using b Suc.IH [of "a + 1" j]
      by (simp add: bit_nat_add_256 add.assoc del: read_le.simps(1))
  qed
qed simp

lemma bit_read64: "bit (read64 m a) n \<longleftrightarrow> n < 64 \<and> bit (m (a + of_nat (n div 8))) (n mod 8)"
  by (auto simp: read64_def bit_simps bit_read_le)

lemma bit_read32: "bit (read32 m a) n \<longleftrightarrow> n < 32 \<and> bit (m (a + of_nat (n div 8))) (n mod 8)"
  by (auto simp: read32_def bit_simps bit_read_le)

lemma write64_byte:
  assumes "j < 8"
  shows "write64 a v m (a + of_nat j) = ucast (drop_bit (8 * j) v)"
proof (rule bit_word_eqI)
  fix n :: nat assume n: "n < LENGTH(8)"
  have dm: "(8 * j + n) div 8 = j" "(8 * j + n) mod 8 = n" using n by simp_all
  have "bit v (8 * j + n) = bit (read64 (write64 a v m) a) (8 * j + n)" by simp
  also have "\<dots> = bit (write64 a v m (a + of_nat j)) n"
    using assms n unfolding bit_read64 by (simp add: dm)
  finally show "bit (write64 a v m (a + of_nat j)) n = bit (ucast (drop_bit (8 * j) v) :: byte) n"
    using n by (simp add: bit_simps)
qed

lemma byte_eqI:
  fixes x y :: byte
  assumes "bit x 0 = bit y 0" "bit x 1 = bit y 1" "bit x 2 = bit y 2" "bit x 3 = bit y 3"
    "bit x 4 = bit y 4" "bit x 5 = bit y 5" "bit x 6 = bit y 6" "bit x 7 = bit y 7"
  shows "x = y"
proof (rule bit_word_eqI)
  fix n :: nat assume "n < LENGTH(8)"
  then have "n \<in> {0, 1, 2, 3, 4, 5, 6, 7}" by auto
  then show "bit x n = bit y n" using assms by auto
qed

lemma less_8_cases:
  assumes "P 0" "P 1" "P 2" "P 3" "P 4" "P 5" "P 6" "P 7" "j < 8"
  shows "P (j :: nat)"
proof -
  have "j \<in> {0, 1, 2, 3, 4, 5, 6, 7}" using assms(9) by auto
  then show ?thesis using assms by auto
qed

lemma not_bit_u8: "8 \<le> n \<Longrightarrow> \<not> bit (t :: u8) n"
  by (auto dest: bit_imp_le_length)

lemma word32_eqI:
  fixes x y :: u32
  assumes "ucast x = (ucast y :: byte)" "ucast (drop_bit 8 x) = (ucast (drop_bit 8 y) :: byte)"
    "ucast (drop_bit 16 x) = (ucast (drop_bit 16 y) :: byte)" "ucast (drop_bit 24 x) = (ucast (drop_bit 24 y) :: byte)"
  shows "x = y"
proof (rule bit_word_eqI)
  fix n :: nat assume "n < LENGTH(32)"
  moreover have "bit (ucast (drop_bit (8 * j) x) :: byte) k = bit (ucast (drop_bit (8 * j) y) :: byte) k"
    if "j < 4" for j k
  proof -
    have "j \<in> {0, 1, 2, 3}" using that by auto
    then show ?thesis using assms by auto
  qed
  from this [of "n div 8" "n mod 8"] show "bit x n = bit y n"
    using \<open>n < LENGTH(32)\<close> by (simp add: bit_simps)
qed

end
