(* ===== verification/Kstring.thy ===== *)
theory Kstring
  imports Prelude
begin

text \<open>
  The string and memory routines of \<open>src/src/kernel/libk/kstring.cpp\<close> over the byte
  memory of the prelude. A \<open>char*\<close> is an address. Loops that stop at a NUL byte, which need
  not exist, are \<open>partial_function (option)\<close>: \<open>None\<close> is a loop that never ends. Loops that
  are bounded by a byte count are total. \<open>char\<close> is signed, so differences of characters are
  taken with \<open>sint\<close>; the comparison routines index with a 32-bit counter, which is kept.

  The lemmas relate the routines to byte lists: \<open>cstr m a xs\<close> says that the bytes \<open>xs\<close>
  and a terminating NUL are stored at \<open>a\<close>.
\<close>

section \<open>Definitions\<close>

partial_function (option) strlen_loop :: "mem \<Rightarrow> addr \<Rightarrow> u64 \<Rightarrow> u64 option" where
  "strlen_loop m string len =
     (if m (string + len) \<noteq> 0 then strlen_loop m string (len + 1) else Some len)"

definition strlen :: "mem \<Rightarrow> addr \<Rightarrow> u64 option" where
  "strlen m string = strlen_loop m string 0"

partial_function (option) strcpy_loop :: "addr \<Rightarrow> addr \<Rightarrow> u64 \<Rightarrow> mem \<Rightarrow> (u64 \<times> mem) option" where
  "strcpy_loop stringDst stringSrc len m =
     (if m (stringSrc + len) \<noteq> 0
      then strcpy_loop stringDst stringSrc (len + 1)
             (m(stringDst + len := m (stringSrc + len)))
      else Some (len, m))"

definition strcpy :: "addr \<Rightarrow> addr \<Rightarrow> mem \<Rightarrow> (u64 \<times> mem) option" where
  "strcpy stringDst stringSrc m = strcpy_loop stringDst stringSrc 0 m"

function strncpy_loop :: "addr \<Rightarrow> addr \<Rightarrow> u64 \<Rightarrow> u64 \<Rightarrow> mem \<Rightarrow> u64 \<times> mem" where
  "strncpy_loop stringDst stringSrc bytesNo len m =
     (if len < bytesNo \<and> m (stringSrc + len) \<noteq> 0
      then strncpy_loop stringDst stringSrc bytesNo (len + 1)
             (m(stringDst + len := m (stringSrc + len)))
      else (len, m))"
  by pat_completeness auto
termination
  by (relation "measure (\<lambda>(d, s, n, l, m). unat (n - l))") (auto simp: word_loop_measure)

definition strncpy :: "addr \<Rightarrow> addr \<Rightarrow> u64 \<Rightarrow> mem \<Rightarrow> u64 \<times> mem" where
  "strncpy stringDst stringSrc bytesNo m = strncpy_loop stringDst stringSrc bytesNo 0 m"

function memcpy_loop :: "addr \<Rightarrow> addr \<Rightarrow> u64 \<Rightarrow> u64 \<Rightarrow> mem \<Rightarrow> mem" where
  "memcpy_loop destAddr srcAddr bytesNo l m =
     (if l < bytesNo
      then memcpy_loop destAddr srcAddr bytesNo (l + 1) (m(destAddr + l := m (srcAddr + l)))
      else m)"
  by pat_completeness auto
termination
  by (relation "measure (\<lambda>(d, s, n, l, m). unat (n - l))") (auto simp: word_loop_measure)

definition memcpy :: "addr \<Rightarrow> addr \<Rightarrow> u64 \<Rightarrow> mem \<Rightarrow> addr \<times> mem" where
  "memcpy destAddr srcAddr bytesNo m = (destAddr, memcpy_loop destAddr srcAddr bytesNo 0 m)"

function memset_loop :: "addr \<Rightarrow> byte \<Rightarrow> u64 \<Rightarrow> u64 \<Rightarrow> mem \<Rightarrow> mem" where
  "memset_loop addr byte bytesNo l m =
     (if l < bytesNo then memset_loop addr byte bytesNo (l + 1) (m(addr + l := byte)) else m)"
  by pat_completeness auto
termination
  by (relation "measure (\<lambda>(a, b, n, l, m). unat (n - l))") (auto simp: word_loop_measure)

definition memset :: "addr \<Rightarrow> byte \<Rightarrow> u64 \<Rightarrow> mem \<Rightarrow> addr \<times> mem" where
  "memset addr byte bytesNo m = (addr, memset_loop addr byte bytesNo 0 m)"

declare strncpy_loop.simps [simp del] memcpy_loop.simps [simp del] memset_loop.simps [simp del]

text \<open>
  The four comparison routines share one loop shape; what differs is the test that ends
  it (\<open>bound\<close>, the \<open>idx < n\<close> of the \<open>n\<close> variants) and the relation on characters (\<open>same\<close>), and
  all four end in the same three-way \<open>return\<close>.
\<close>

partial_function (option) cmp_loop ::
    "(u32 \<Rightarrow> bool) \<Rightarrow> (byte \<Rightarrow> byte \<Rightarrow> bool) \<Rightarrow> mem \<Rightarrow> addr \<Rightarrow> addr \<Rightarrow> u32 \<Rightarrow> u32 option" where
  "cmp_loop bound same m str1 str2 idx =
     (if bound idx \<and> (m (str1 + ucast idx) \<noteq> 0 \<and> m (str2 + ucast idx) \<noteq> 0)
         \<and> same (m (str1 + ucast idx)) (m (str2 + ucast idx))
      then cmp_loop bound same m str1 str2 (idx + 1) else Some idx)"

definition cmp_tail :: "mem \<Rightarrow> addr \<Rightarrow> addr \<Rightarrow> u32 \<Rightarrow> int" where
  "cmp_tail m str1 str2 idx =
     (let c1 = m (str1 + ucast idx); c2 = m (str2 + ucast idx) in
      if c1 = 0 \<and> c2 \<noteq> 0 then 1
      else if c1 \<noteq> 0 \<and> c2 = 0 then - 1
      else sint c1 - sint c2)"

definition ieq :: "byte \<Rightarrow> byte \<Rightarrow> bool" where
  "ieq c1 c2 \<longleftrightarrow> c1 = c2 \<or> sint c1 + 32 = sint c2 \<or> sint c1 - 32 = sint c2"

definition strcmp :: "mem \<Rightarrow> addr \<Rightarrow> addr \<Rightarrow> int option" where
  "strcmp m str1 str2 =
     map_option (cmp_tail m str1 str2) (cmp_loop (\<lambda>idx. True) (=) m str1 str2 0)"

definition istrcmp :: "mem \<Rightarrow> addr \<Rightarrow> addr \<Rightarrow> int option" where
  "istrcmp m str1 str2 =
     map_option (cmp_tail m str1 str2) (cmp_loop (\<lambda>idx. True) ieq m str1 str2 0)"

definition strncmp :: "mem \<Rightarrow> addr \<Rightarrow> addr \<Rightarrow> u64 \<Rightarrow> int option" where
  "strncmp m str1 str2 n =
     map_option (\<lambda>idx. cmp_tail m str1 str2 (if ucast idx = n then idx - 1 else idx))
       (cmp_loop (\<lambda>idx. ucast idx < n) (=) m str1 str2 0)"

definition istrncmp :: "mem \<Rightarrow> addr \<Rightarrow> addr \<Rightarrow> u64 \<Rightarrow> int option" where
  "istrncmp m str1 str2 n =
     map_option (\<lambda>idx. cmp_tail m str1 str2 (if ucast idx = n then idx - 1 else idx))
       (cmp_loop (\<lambda>idx. ucast idx < n) ieq m str1 str2 0)"

text \<open>
  \<open>strtok\<close> keeps the static pointer \<open>end\<close> between calls; it is the first component of the
  state here. The static \<open>start\<close> is always assigned before it is read. The result is the
  token's address, \<open>0\<close> for NULL.
\<close>

partial_function (option) delim_loop :: "mem \<Rightarrow> addr \<Rightarrow> byte \<Rightarrow> u64 \<Rightarrow> bool option" where
  "delim_loop m delim c idx =
     (if m (delim + idx) \<noteq> 0
      then (if c = m (delim + idx) then Some True else delim_loop m delim c (idx + 1))
      else Some False)"

partial_function (option) strtok_loop :: "mem \<Rightarrow> addr \<Rightarrow> addr \<Rightarrow> addr option option" where
  "strtok_loop m delim str =
     (if m str \<noteq> 0
      then do { hit \<leftarrow> delim_loop m delim (m str) 0;
                if hit then Some (Some str) else strtok_loop m delim (str + 1) }
      else Some None)"

definition strtok :: "addr \<Rightarrow> addr \<Rightarrow> addr \<times> mem \<Rightarrow> (addr \<times> addr \<times> mem) option" where
  "strtok str delim st =
     (let (end_p, m) = st in
      if str \<noteq> 0 \<and> m str = 0 then Some (0, end_p, m)
      else if str = 0 \<and> end_p = 0 then Some (0, end_p, m)
      else (let start = (if str \<noteq> 0 then str else end_p + 1) in
            do { r \<leftarrow> strtok_loop m delim start;
                 case r of
                   Some hit \<Rightarrow> Some (start, hit, m(hit := 0))
                 | None \<Rightarrow> Some (start, 0, m) }))"

section \<open>NUL-terminated strings\<close>

primrec cstr :: "mem \<Rightarrow> addr \<Rightarrow> byte list \<Rightarrow> bool" where
  "cstr m a [] \<longleftrightarrow> m a = 0"
| "cstr m a (c # cs) \<longleftrightarrow> m a = c \<and> c \<noteq> 0 \<and> cstr m (a + 1) cs"

lemma cstr_nth:
  "cstr m a xs \<Longrightarrow> i \<le> length xs \<Longrightarrow> m (a + of_nat i) = (xs @ [0]) ! i"
proof (induction xs arbitrary: a i)
  case Nil
  then show ?case by simp
next
  case (Cons x xs)
  then show ?case by (cases i) (auto simp flip: add.assoc)
qed

lemma cstr_nonzero: "cstr m a xs \<Longrightarrow> 0 \<notin> set xs"
  by (induction xs arbitrary: a) auto

lemma cstr_cong:
  "(\<And>i. i \<le> length cs \<Longrightarrow> m (a + of_nat i) = m' (a + of_nat i)) \<Longrightarrow> cstr m a cs = cstr m' a cs"
proof (induction cs arbitrary: a)
  case Nil
  then show ?case using Nil [of 0] by simp
next
  case (Cons c cs)
  have "cstr m (a + 1) cs = cstr m' (a + 1) cs"
  proof (rule Cons.IH)
    fix i assume "i \<le> length cs"
    then show "m (a + 1 + of_nat i) = m' (a + 1 + of_nat i)"
      using Cons.prems [of "Suc i"] by (simp add: algebra_simps)
  qed
  moreover have "m a = m' a" using Cons.prems [of 0] by simp
  ultimately show ?case by simp
qed

lemma cstr_iff:
  "cstr m a xs \<longleftrightarrow> (\<forall>i < length xs. m (a + of_nat i) = xs ! i) \<and> 0 \<notin> set xs
     \<and> m (a + of_nat (length xs)) = 0"
proof (induction xs arbitrary: a)
  case Nil
  then show ?case by simp
next
  case (Cons x xs)
  show ?case
    unfolding cstr.simps Cons.IH [of "a + 1"]
    by (auto simp: All_less_Suc2 algebra_simps)
qed

lemma cstr_zero_upd:
  assumes "cstr m a xs" "length xs < 2 ^ 64" "k < length xs"
  shows "cstr (m(a + of_nat k := 0)) a (take k xs)"
    and "cstr (m(a + of_nat k := 0)) (a + of_nat k + 1) (drop (Suc k) xs)"
proof -
  have ne: "(of_nat i :: u64) \<noteq> of_nat k" if "i \<noteq> k" "i \<le> length xs" for i
    using that assms(2,3) by (simp add: word_unat_eq_iff unat_of_nat)
  have m: "m (a + of_nat i) = xs ! i" if "i < length xs" for i
    using assms(1) that by (simp add: cstr_iff)
  have nz: "0 \<notin> set xs" and z: "m (a + of_nat (length xs)) = 0"
    using assms(1) by (simp_all add: cstr_iff)
  show "cstr (m(a + of_nat k := 0)) a (take k xs)"
    using assms(3) m ne nz by (auto simp: cstr_iff dest: in_set_takeD)
  have sh: "a + of_nat k + 1 + of_nat i = a + of_nat (Suc k + i)" for i
    by (simp add: algebra_simps)
  show "cstr (m(a + of_nat k := 0)) (a + of_nat k + 1) (drop (Suc k) xs)"
  proof -
    have len: "Suc k + length (drop (Suc k) xs) = length xs" using assms(3) by simp
    show ?thesis
      unfolding cstr_iff sh len
      using assms(3) m ne nz z by (auto simp del: of_nat_add of_nat_Suc dest: in_set_dropD)
  qed
qed

lemma strlen_loop_cstr:
  "cstr m (s + l) cs \<Longrightarrow> strlen_loop m s l = Some (l + of_nat (length cs))"
proof (induction cs arbitrary: l)
  case Nil
  then show ?case by (simp add: strlen_loop.simps)
next
  case (Cons c cs)
  then have "cstr m (s + (l + 1)) cs" by (simp add: add.assoc)
  with Cons show ?case by (subst strlen_loop.simps) (auto simp: add.assoc)
qed

lemma strlen_cstr: "cstr m s cs \<Longrightarrow> strlen m s = Some (of_nat (length cs))"
  using strlen_loop_cstr [of m s 0 cs] by (simp add: strlen_def)

section \<open>Block copies\<close>

lemma memcpy_loop_spec:
  assumes "d = s \<or> n \<le> d - s" and "l \<le> n"
  shows "memcpy_loop d s n l m x = (if l \<le> x - d \<and> x - d < n then m (s + (x - d)) else m x)"
  using assms
proof (induction d s n l m rule: memcpy_loop.induct)
  case (1 d s n l m)
  show ?case
  proof (cases "l < n")
    case True
    then have "l + 1 \<le> n" by (simp add: inc_le)
    note IH = "1.IH" [OF True "1.prems"(1) this]
    have x: "l + 1 \<le> x - d \<or> x = d + l \<longleftrightarrow> l \<le> x - d"
      using word_le_iff_Suc [OF True, of "x - d"] by (auto simp: algebra_simps)
    have "s + (x - d) \<noteq> d + l" if "l + 1 \<le> x - d" "x - d < n"
    proof
      assume "s + (x - d) = d + l"
      then have e: "d - s = (x - d) - l" by (simp add: algebra_simps)
      have "(x - d) - l < n" "(x - d) - l \<noteq> 0" using that True by unat_arith+
      with "1.prems"(1) show False unfolding e [symmetric] by auto
    qed
    then show ?thesis
      using True x by (auto simp: memcpy_loop.simps [of d s n l] IH)
  next
    case False
    then show ?thesis by (auto simp: memcpy_loop.simps [of d s n l])
  qed
qed

lemma memset_loop_spec:
  assumes "l \<le> n"
  shows "memset_loop a b n l m x = (if l \<le> x - a \<and> x - a < n then b else m x)"
  using assms
proof (induction a b n l m rule: memset_loop.induct)
  case (1 a b n l m)
  show ?case
  proof (cases "l < n")
    case True
    then have "l + 1 \<le> n" by (simp add: inc_le)
    note IH = "1.IH" [OF True this]
    have "l + 1 \<le> x - a \<or> x = a + l \<longleftrightarrow> l \<le> x - a"
      using word_le_iff_Suc [OF True, of "x - a"] by (auto simp: algebra_simps)
    then show ?thesis
      using True by (auto simp: memset_loop.simps [of a b n l] IH)
  next
    case False
    then show ?thesis by (auto simp: memset_loop.simps [of a b n l])
  qed
qed

lemma memset_apply: "snd (memset a b n m) x = (if within a n x then b else m x)"
  by (simp add: memset_def memset_loop_spec within_def)

lemma strncpy_loop_memcpy:
  assumes "cstr m (s + l) cs" and "d = s \<or> of_nat (length cs) < d - s"
    and "unat l + length cs < 2 ^ 64" "l \<le> n"
    and "k = l + of_nat (min (unat (n - l)) (length cs))"
  shows "strncpy_loop d s n l m = (k, memcpy_loop d s k l m)"
  using assms
proof (induction cs arbitrary: l m)
  case Nil
  then show ?case by (simp add: strncpy_loop.simps [of d s n l] memcpy_loop.simps [of d s l l])
next
  case (Cons c cs)
  show ?case
  proof (cases "l < n")
    case True
    let ?m = "m(d + l := m (s + l))" and ?j = "min (unat (n - l)) (Suc (length cs))"
    have u: "unat (l + 1) = unat l + 1" using Cons.prems(3) by (simp add: unat_word_ariths)
    have nl: "unat (n - l) = Suc (unat (n - (l + 1)))" using True by unat_arith
    have c: "cstr ?m (s + (l + 1)) cs"
    proof (cases "d = s")
      case True
      then have "?m = m" by simp
      with Cons.prems(1) show ?thesis by (simp add: add.assoc)
    next
      case False
      have "s + (l + 1) + of_nat i \<noteq> d + l" if "i \<le> length cs" for i
      proof
        assume "s + (l + 1) + of_nat i = d + l"
        then have "d - s = of_nat (Suc i)" by (simp add: algebra_simps)
        with False that Cons.prems(2,3) show False
          by (auto simp: word_less_nat_alt unat_of_nat simp del: of_nat_Suc)
      qed
      with Cons.prems(1) show ?thesis
        by (subst cstr_cong [where m' = m]) (auto simp: add.assoc)
    qed
    have j: "?j = Suc (min (unat (n - (l + 1))) (length cs))" using nl by simp
    have k: "k = l + 1 + of_nat (min (unat (n - (l + 1))) (length cs))"
      unfolding Cons.prems(5) list.size(4) add_0_right Nat.add_Suc_right j by simp
    have "l < k"
      using Cons.prems(3) unfolding k by (simp add: word_less_nat_alt unat_word_ariths unat_of_nat)
    moreover have "strncpy_loop d s n (l + 1) ?m = (k, memcpy_loop d s k (l + 1) ?m)"
    proof (rule Cons.IH [OF c _ _ _ k])
      show "d = s \<or> of_nat (length cs) < d - s"
        using Cons.prems(2,3) by (auto simp: word_less_nat_alt unat_of_nat simp del: of_nat_Suc)
      show "unat (l + 1) + length cs < 2 ^ 64" using u Cons.prems(3) by simp
      show "l + 1 \<le> n" using True by unat_arith
    qed
    ultimately show ?thesis
      using True Cons.prems(1)
      by (simp add: strncpy_loop.simps [of d s n l] memcpy_loop.simps [of d s k l])
  next
    case False
    with Cons.prems have "n = l" by simp
    then show ?thesis
      using Cons.prems(5) by (simp add: strncpy_loop.simps [of d s l l] memcpy_loop.simps [of d s l l])
  qed
qed
section \<open>Comparison\<close>

fun common_prefix :: "(byte \<Rightarrow> byte \<Rightarrow> bool) \<Rightarrow> byte list \<Rightarrow> byte list \<Rightarrow> nat" where
  "common_prefix same (x # xs) (y # ys) = (if same x y then Suc (common_prefix same xs ys) else 0)"
| "common_prefix same [] ys = 0"
| "common_prefix same (x # xs) [] = 0"

lemma common_prefix_le: "common_prefix same xs ys \<le> length xs \<and> common_prefix same xs ys \<le> length ys"
  by (induction same xs ys rule: common_prefix.induct) auto

lemma cmp_loop_cstr:
  assumes "\<And>j. bound j \<longleftrightarrow> unat j < B"
    and "cstr m (s1 + ucast idx) xs" and "cstr m (s2 + ucast idx) ys"
    and "unat idx + length xs < 2 ^ 32"
  shows "cmp_loop bound same m s1 s2 idx
         = Some (idx + of_nat (min (B - unat idx) (common_prefix same xs ys)))"
  using assms
proof (induction xs arbitrary: ys idx)
  case Nil
  then show ?case by (simp add: cmp_loop.simps)
next
  case (Cons c cs)
  show ?case
  proof (cases "\<exists>ds d. ys = d # ds \<and> same c d \<and> bound idx")
    case True
    then obtain d ds where ys: "ys = d # ds" and same: "same c d" and b: "bound idx" by blast
    have nxt: "(ucast (idx + 1) :: u64) = ucast idx + 1"
      using Cons.prems by (intro ucast_u32_Suc) simp
    have u: "unat (idx + 1) = unat idx + 1"
      using Cons.prems by (simp add: unat_word_ariths)
    have "cmp_loop bound same m s1 s2 (idx + 1)
      = Some (idx + 1 + of_nat (min (B - unat (idx + 1)) (common_prefix same cs ds)))"
      using Cons.prems u nxt ys by (intro Cons.IH) (auto simp: add.assoc)
    moreover have "Suc (min (B - unat (idx + 1)) (common_prefix same cs ds))
      = min (B - unat idx) (common_prefix same (c # cs) ys)"
      using ys same b u Cons.prems(1) by (simp add: min_def) arith
    then have "of_nat (min (B - unat idx) (common_prefix same (c # cs) ys))
      = 1 + (of_nat (min (B - unat (idx + 1)) (common_prefix same cs ds)) :: u32)"
      by (metis of_nat_Suc)
    ultimately show ?thesis
      using Cons.prems ys same b by (subst cmp_loop.simps) (simp add: add.assoc)
  next
    case False
    then have "min (B - unat idx) (common_prefix same (c # cs) ys) = 0"
      using Cons.prems(1) by (cases ys) auto
    moreover have "cmp_loop bound same m s1 s2 idx = Some idx"
      using False Cons.prems by (subst cmp_loop.simps) (cases ys; auto)
    ultimately show ?thesis by simp
  qed
qed

lemma cmp_tail_cstr:
  assumes "cstr m s1 xs" "cstr m s2 ys" "k \<le> length xs" "k \<le> length ys" "k < 2 ^ 32"
  shows "cmp_tail m s1 s2 (of_nat k) = 0 \<longleftrightarrow> (xs @ [0]) ! k = (ys @ [0]) ! k"
proof -
  have "(ucast (of_nat k :: u32) :: u64) = of_nat k"
    using assms(5) by (intro word_unat_eq_iff [THEN iffD2]) (simp add: unat_ucast_up unat_of_nat)
  then show ?thesis
    using cstr_nth [OF assms(1,3)] cstr_nth [OF assms(2,4)]
    by (auto simp: cmp_tail_def Let_def)
qed

lemma common_prefix_stop:
  assumes "0 \<notin> set xs" "0 \<notin> set ys" "\<And>x. same x x"
  shows "(xs @ [0]) ! common_prefix same xs ys = (ys @ [0]) ! common_prefix same xs ys
     \<longleftrightarrow> list_all2 same xs ys"
  using assms
proof (induction same xs ys rule: common_prefix.induct)
  case (1 same x xs y ys)
  then show ?case by (auto 4 3)
next
  case (2 same ys)
  then show ?case by (cases ys) auto
next
  case (3 same x xs)
  then show ?case by simp
qed

lemma str_compare_zero:
  assumes "cstr m s1 xs" "cstr m s2 ys" "length xs < 2 ^ 32" "\<And>x. same x x"
  shows "\<exists>r. map_option (cmp_tail m s1 s2) (cmp_loop (\<lambda>idx. True) same m s1 s2 0) = Some r
    \<and> (r = 0 \<longleftrightarrow> list_all2 same xs ys)"
proof -
  let ?k = "common_prefix same xs ys"
  have k: "?k \<le> length xs" "?k \<le> length ys" using common_prefix_le by auto
  have b: "\<And>j :: u32. True \<longleftrightarrow> unat j < 2 ^ 32" using unsigned_less [where 'b = 32 and 'a = nat] by simp
  have "cmp_loop (\<lambda>idx. True) same m s1 s2 0 = Some (of_nat (min (2 ^ 32) ?k))"
    using cmp_loop_cstr [OF b, of m s1 0 xs s2 ys same] assms by simp
  moreover have "min (2 ^ 32) ?k = ?k" using k assms(3) by simp
  moreover have "cmp_tail m s1 s2 (of_nat ?k) = 0 \<longleftrightarrow> list_all2 same xs ys"
    using cmp_tail_cstr [OF assms(1,2) k] common_prefix_stop [of xs ys same] assms cstr_nonzero k by auto
  ultimately show ?thesis by simp
qed
lemma strn_compare:
  fixes n :: u64
  assumes "cstr m s1 xs" "cstr m s2 ys" "length xs < 2 ^ 32" "0 < n" "\<And>x. same x x"
    and "k = min (unat n) (common_prefix same xs ys)"
    and "j = (if k = unat n then k - 1 else k)"
  shows "\<exists>r. map_option (\<lambda>idx. cmp_tail m s1 s2 (if ucast idx = n then idx - 1 else idx))
           (cmp_loop (\<lambda>idx. ucast idx < n) same m s1 s2 0) = Some r
    \<and> (r = 0 \<longleftrightarrow> (xs @ [0]) ! j = (ys @ [0]) ! j)"
proof -
  have b: "\<And>j :: u32. ucast j < n \<longleftrightarrow> unat j < unat n"
    by (simp add: word_less_nat_alt unat_ucast_up)
  have k: "k \<le> length xs" "k \<le> length ys" "k < 2 ^ 32"
    using common_prefix_le [of same xs ys] assms(3,6) by auto
  have loop: "cmp_loop (\<lambda>idx. ucast idx < n) same m s1 s2 0 = Some (of_nat k)"
    using cmp_loop_cstr [OF b, of m s1 0 xs s2 ys same] assms by simp
  have "(ucast (of_nat k :: u32) = n) = (k = unat n)"
    using k(3) by (auto simp: word_unat_eq_iff unat_ucast_up unat_of_nat)
  moreover have "0 < unat n" using assms(4) by (simp add: word_less_nat_alt)
  ultimately have idx: "(if ucast (of_nat k :: u32) = n then of_nat k - 1 else of_nat k) = (of_nat j :: u32)"
    using assms(7) by (auto simp: of_nat_diff)
  have j: "j \<le> length xs" "j \<le> length ys" "j < 2 ^ 32" using k assms(7) by auto
  show ?thesis
    using loop cmp_tail_cstr [OF assms(1,2) j] idx by auto
qed

lemma common_prefix_eq_take:
  "n \<le> common_prefix (=) xs ys \<Longrightarrow> take n xs = take n ys"
  by (induction "(=) :: byte \<Rightarrow> byte \<Rightarrow> bool" xs ys arbitrary: n rule: common_prefix.induct)
    (auto simp: take_Cons' split: if_splits)

lemma common_prefix_eq_lt:
  "common_prefix (=) xs ys < n \<Longrightarrow> take n xs = take n ys \<longleftrightarrow> xs = ys"
proof (induction "(=) :: byte \<Rightarrow> byte \<Rightarrow> bool" xs ys arbitrary: n rule: common_prefix.induct)
  case (1 x xs y ys)
  then show ?case by (cases n) auto
next
  case (2 ys)
  then show ?case by (cases n; cases ys) auto
next
  case (3 x xs)
  then show ?case by (cases n) auto
qed

section \<open>Tokens\<close>

lemma delim_loop_cstr:
  "cstr m (delim + idx) ds \<Longrightarrow> delim_loop m delim c idx = Some (c \<in> set ds)"
proof (induction ds arbitrary: idx)
  case Nil
  then show ?case by (simp add: delim_loop.simps)
next
  case (Cons d ds)
  then have "delim_loop m delim c (idx + 1) = Some (c \<in> set ds)" by (simp add: add.assoc)
  with Cons.prems show ?case by (subst delim_loop.simps) auto
qed

lemma strtok_loop_cstr:
  assumes "cstr m delim ds" "cstr m a xs"
  shows "strtok_loop m delim a =
    Some (if set xs \<inter> set ds = {} then None
          else Some (a + of_nat (length (takeWhile (\<lambda>c. c \<notin> set ds) xs))))"
  using assms(2)
proof (induction xs arbitrary: a)
  case Nil
  then show ?case by (simp add: strtok_loop.simps)
next
  case (Cons x xs)
  have "delim_loop m delim x 0 = Some (x \<in> set ds)" using assms(1) by (simp add: delim_loop_cstr)
  with Cons show ?case by (subst strtok_loop.simps) (auto simp: algebra_simps)
qed

section \<open>Properties\<close>

text \<open>
  C20. \<open>memcpy\<close> copies every byte of the source block to the same offset of the destination
  block, returns the destination and changes nothing else, as long as the destination does
  not start inside the source block: the forward loop is also right for overlapping blocks
  whose destination lies below the source, as the shell's \<open>removeLead\<close> uses it.
\<close>

theorem memcpy_copies:
  assumes "d = s \<or> n \<le> d - s"
  shows "memcpy d s n m = (d, \<lambda>x. if within d n x then m (s + (x - d)) else m x)"
  using memcpy_loop_spec [OF assms, of 0] by (auto simp: memcpy_def within_def)

theorem memcpy_copies_witness:
  "memcpy 10 11 2 ((\<lambda>_. 0)(11 := 97, 12 := 98))
   = (10, \<lambda>x. if within 10 2 x then ((\<lambda>_. 0)(11 := 97, 12 := 98)) (11 + (x - 10))
            else ((\<lambda>_. 0)(11 := 97, 12 := 98)) x)"
  by (rule memcpy_copies) simp

text \<open>
  C21. \<open>strncpy\<close> copies \<open>min n (strlen src)\<close> bytes, exactly as \<open>memcpy\<close> of that many bytes would,
  and returns that number; in particular it writes no terminating NUL.
\<close>

theorem strncpy_is_memcpy:
  assumes "cstr m s cs" and "d = s \<or> of_nat (length cs) < d - s" and "length cs < 2 ^ 64"
  shows "strncpy d s n m = (let k = of_nat (min (unat n) (length cs)) in (k, snd (memcpy d s k m)))"
  using strncpy_loop_memcpy [of m s 0 cs d n] assms by (simp add: strncpy_def memcpy_def Let_def)

theorem strncpy_is_memcpy_witness:
  "strncpy 20 10 8 ((\<lambda>_. 0)(10 := 97, 11 := 98))
   = (let k = of_nat (min (unat (8 :: u64)) (length [97 :: byte, 98]))
      in (k, snd (memcpy 20 10 k ((\<lambda>_. 0)(10 := 97, 11 := 98)))))"
  by (rule strncpy_is_memcpy) simp_all

text \<open>
  \<open>strcmp\<close> and \<open>istrcmp\<close> return on every pair of strings of less than \<open>2^32\<close> bytes;
  \<open>strcmp\<close> returns 0 exactly on equal strings, \<open>istrcmp\<close> exactly on strings of the same
  length whose characters are pairwise equal or 32 apart.
\<close>

lemma strcmp_istrcmp_zero:
  assumes "cstr m s1 xs" and "cstr m s2 ys" and "length xs < 2 ^ 32"
  shows "(\<exists>r. strcmp m s1 s2 = Some r \<and> (r = 0 \<longleftrightarrow> xs = ys))
       \<and> (\<exists>r. istrcmp m s1 s2 = Some r \<and> (r = 0 \<longleftrightarrow> list_all2 ieq xs ys))"
  using str_compare_zero [OF assms, of "(=)"] str_compare_zero [OF assms, of ieq]
  by (simp add: strcmp_def istrcmp_def list.rel_eq ieq_def)

definition two_strings :: mem where
  "two_strings = (\<lambda>_. 0)(16 := 97, 17 := 98, 32 := 97, 33 := 66)"

text \<open>
  C40. For a positive bound \<open>n\<close> and two NUL-terminated strings, the first shorter than \<open>2^32\<close>, \<open>strncmp\<close> returns,
  and it returns 0 exactly when the first \<open>n\<close> characters of the two strings agree.
\<close>

lemma strncmp_zero:
  assumes "cstr m s1 xs" "cstr m s2 ys" "length xs < 2 ^ 32" "0 < n"
  shows "\<exists>r. strncmp m s1 s2 n = Some r \<and> (r = 0 \<longleftrightarrow> take (unat n) xs = take (unat n) ys)"
proof -
  let ?c = "common_prefix (=) xs ys" and ?n = "unat n"
  let ?k = "min ?n ?c"
  let ?j = "if ?k = ?n then ?k - 1 else ?k"
  obtain r where r: "strncmp m s1 s2 n = Some r"
      "r = 0 \<longleftrightarrow> (xs @ [0]) ! ?j = (ys @ [0]) ! ?j"
    using strn_compare [OF assms, of "(=)"] unfolding strncmp_def by blast
  have n: "0 < ?n" using assms(4) by (simp add: word_less_nat_alt)
  have le: "?c \<le> length xs" "?c \<le> length ys" using common_prefix_le by auto
  have "(xs @ [0]) ! ?j = (ys @ [0]) ! ?j \<longleftrightarrow> take ?n xs = take ?n ys"
  proof (cases "?n \<le> ?c")
    case True
    then have t: "take ?n xs = take ?n ys" by (rule common_prefix_eq_take)
    have "xs ! (?n - 1) = ys ! (?n - 1)"
      using arg_cong [OF t, of "\<lambda>zs. zs ! (?n - 1)"] n by simp
    moreover have "?n - 1 < length xs" "?n - 1 < length ys" using True le n by linarith+
    moreover have "?j = ?n - 1" using True by simp
    ultimately show ?thesis using t by (simp only: nth_append if_True simp_thms)
  next
    case False
    then have "take ?n xs = take ?n ys \<longleftrightarrow> xs = ys" by (intro common_prefix_eq_lt) simp
    moreover have "(xs @ [0]) ! ?c = (ys @ [0]) ! ?c \<longleftrightarrow> xs = ys"
      using common_prefix_stop [of xs ys "(=)"] assms cstr_nonzero by (auto simp: list.rel_eq)
    ultimately show ?thesis using False by simp
  qed
  with r show ?thesis by blast
qed

lemma strncmp_zero_witness:
  "\<exists>r. strncmp two_strings 16 32 1 = Some r
     \<and> (r = 0 \<longleftrightarrow> take (unat (1 :: u64)) [97, 98 :: byte] = take (unat (1 :: u64)) [97, 66])"
  by (rule strncmp_zero) (simp_all add: two_strings_def)

text \<open>
  \<open>istrncmp\<close> is not the bounded form of \<open>istrcmp\<close>: after \<open>n\<close> matching characters it steps
  back and compares the last pair exactly, so two strings that \<open>istrcmp\<close> calls equal are told
  apart when their last compared characters differ in case.
\<close>

lemma istrncmp_last_char_exact:
  "istrcmp two_strings 16 32 = Some 0 \<and> istrncmp two_strings 16 32 2 = Some 32"
  by (simp add: istrcmp_def istrncmp_def cmp_loop.simps ieq_def cmp_tail_def two_strings_def)

text \<open>\<open>istrcmp\<close> takes the strings A1 and AQ for equal: the digit and the letter are 32 apart.\<close>

lemma istrcmp_digit_letter:
  "istrcmp ((\<lambda>_. 0)(16 := 0x41, 17 := 0x31, 32 := 0x41, 33 := 0x51)) 16 32 = Some 0"
  by (simp add: istrcmp_def cmp_loop.simps ieq_def cmp_tail_def)

text \<open>
  One call of \<open>strtok\<close> on the string \<open>xs\<close> (the argument itself, or what follows the
  previous token when the argument is NULL) returns its start; up to the first delimiter it
  leaves the string as it is, the delimiter becomes the NUL that ends the token, and the
  static \<open>end\<close> points there; without a delimiter the token is the whole rest and \<open>end\<close> is NULL.
\<close>

lemma strtok_cases:
  assumes "cstr m delim ds" "cstr m a xs" "str \<noteq> 0 \<longrightarrow> a = str \<and> xs \<noteq> []"
    and "str = 0 \<longrightarrow> end_p \<noteq> 0 \<and> a = end_p + 1"
    and "w = takeWhile (\<lambda>c. c \<notin> set ds) xs"
  shows "strtok str delim (end_p, m) =
    (if w = xs then Some (a, 0, m)
     else Some (a, a + of_nat (length w), m(a + of_nat (length w) := 0)))"
proof -
  have "w = xs \<longleftrightarrow> set xs \<inter> set ds = {}"
    using assms(5) by (auto simp: takeWhile_eq_all_conv)
  then have loop: "strtok_loop m delim a
      = Some (if w = xs then None else Some (a + of_nat (length w)))"
    using strtok_loop_cstr [OF assms(1,2)] assms(5) by simp
  show ?thesis
  proof (cases "str = 0")
    case True
    with assms(4) loop show ?thesis by (simp add: strtok_def)
  next
    case False
    with assms(2,3) have "m str \<noteq> 0" by (cases xs) auto
    with False assms(3) loop show ?thesis by (simp add: strtok_def)
  qed
qed

lemma strtok_rest:
  assumes "cstr m a xs" "length xs < 2 ^ 64"
    and "w = takeWhile (\<lambda>c. c \<notin> set ds) xs" "w \<noteq> xs"
  shows "cstr (m(a + of_nat (length w) := 0)) a w"
    and "cstr (m(a + of_nat (length w) := 0)) (a + of_nat (length w) + 1) (drop (Suc (length w)) xs)"
proof -
  have "length w < length xs"
    using assms(3,4) by (metis length_takeWhile_le nat_less_le takeWhile_eq_take take_all_iff order_refl)
  moreover have "take (length w) xs = w" using assms(3) by (metis takeWhile_eq_take)
  ultimately show "cstr (m(a + of_nat (length w) := 0)) a w"
    and "cstr (m(a + of_nat (length w) := 0)) (a + of_nat (length w) + 1) (drop (Suc (length w)) xs)"
    using cstr_zero_upd [OF assms(1,2)] by force+
qed

end
