(* ===== verification/Kdsa.thy ===== *)
theory Kdsa
  imports Prelude
begin

text \<open>
  The linked structures of \<open>src/src/kernel/libk/includes/kdsa.hpp\<close>: nodes in byte memory, the
  \<open>LinkedList\<close> object and the operations of \<open>LinkedList\<close>, \<open>Stack\<close> and \<open>Queue\<close> that allocate
  nothing. The operations that allocate a node (\<open>push\<close>) follow the allocator, in \<open>Kpkheap\<close>
  (\<open>Stack\<close>, which the allocator's own buckets use) and \<open>Kqueue\<close> (\<open>Queue\<close>).

  A \<open>node<T>\<close> holds \<open>next\<close> at offset 0 and \<open>data\<close> at offset 8; for both instances of the
  kernel (\<open>T = chunk*\<close> and \<open>T = uint8_t\<close>) it takes 16 bytes. The list abstraction
  \<open>chain m p ns\<close> says that following \<open>next\<close> from \<open>p\<close> visits exactly the nodes \<open>ns\<close>.
\<close>

section \<open>State\<close>

text \<open>
  \<open>kernel_mem\<close> is the part of the kernel state every component below shares: memory and the
  diagnostics printed so far. Components extend the record.
\<close>

record kernel_mem =
  kmem :: mem
  kout :: "string list"

definition kpwarn :: "string \<Rightarrow> 'a kernel_mem_scheme \<Rightarrow> 'a kernel_mem_scheme" where
  "kpwarn s h = h\<lparr>kout := kout h @ [s]\<rparr>"

record llist =
  ll_head :: addr
  ll_last :: addr
  ll_size :: u64

definition node_next :: "mem \<Rightarrow> addr \<Rightarrow> addr" where
  "node_next m n = read64 m n"

definition node_data_addr :: "addr \<Rightarrow> addr" where
  "node_data_addr n = n + 8"

definition sizeof_node :: u64 where
  "sizeof_node = 16"

section \<open>LinkedList\<close>

definition LinkedList :: llist where
  "LinkedList = \<lparr>ll_head = 0, ll_last = 0, ll_size = 0\<rparr>"

definition isEmpty :: "llist \<Rightarrow> bool" where
  "isEmpty l \<longleftrightarrow> ll_size l = 0 \<or> ll_head l = 0 \<or> ll_last l = 0"

definition getSize :: "llist \<Rightarrow> u64" where
  "getSize l = ll_size l"

definition ll_get :: "mem \<Rightarrow> llist \<Rightarrow> int \<Rightarrow> addr" where
  "ll_get m l idx =
     (if idx = 0 then node_data_addr (ll_head l)
      else node_data_addr ((node_next m ^^ nat idx) (ll_head l)))"

text \<open>
  \<open>deleteElem(size_t)\<close> unlinks by position, \<open>deleteElem(T)\<close> the first node with the given
  data. The latter's loop condition \<open>it != NULL || it != last\<close> does not stop at the end of the
  list, so the search of a missing element runs on through the bytes at address 0.
\<close>

definition deleteElem_idx :: "u64 \<Rightarrow> llist \<Rightarrow> mem \<Rightarrow> llist \<times> mem" where
  "deleteElem_idx idx l m =
     (if idx = 0 then (l\<lparr>ll_head := node_next m (ll_head l)\<rparr>, m)
      else (let tmp = (node_next m ^^ (unat idx - 1)) (ll_head l);
                curr = (node_next m ^^ unat idx) (ll_head l)
            in (l, write64 tmp (node_next m curr) m)))"

partial_function (option) deleteElem_loop ::
    "(mem \<Rightarrow> addr \<Rightarrow> 'd) \<Rightarrow> 'd \<Rightarrow> llist \<Rightarrow> addr \<Rightarrow> addr \<Rightarrow> mem \<Rightarrow> (bool \<times> llist \<times> mem) option" where
  "deleteElem_loop rd data l tmp it m =
     (if it \<noteq> 0 \<or> it \<noteq> ll_last l
      then (if rd m (node_data_addr it) = data
            then (if tmp = 0 then Some (True, l\<lparr>ll_head := node_next m it\<rparr>, m)
                  else Some (True, l, write64 tmp (node_next m it) m))
            else deleteElem_loop rd data l it (node_next m it) m)
      else Some (False, l, m))"

definition deleteElem ::
    "(mem \<Rightarrow> addr \<Rightarrow> 'd) \<Rightarrow> 'd \<Rightarrow> llist \<Rightarrow> 'a kernel_mem_scheme \<Rightarrow> (llist \<times> 'a kernel_mem_scheme) option"
  where
  "deleteElem rd data l h =
     (if isEmpty l then Some (l, kpwarn ''List empty!'' h)
      else do { (found, l', m') \<leftarrow> deleteElem_loop rd data l 0 (ll_head l) (kmem h);
                Some (l', if found then h\<lparr>kmem := m'\<rparr>
                          else kpwarn ''No such element in list!'' (h\<lparr>kmem := m'\<rparr>)) })"

text \<open>\<open>LinkedList::pop\<close>: a pointer to the data \<open>getSize()\<close> links from the head, then unlinks there.\<close>

definition ll_pop :: "llist \<Rightarrow> 'a kernel_mem_scheme \<Rightarrow> addr \<times> llist \<times> 'a kernel_mem_scheme" where
  "ll_pop l h =
     (if getSize l = 0 then (0, l, kpwarn ''List is empty!'' h)
      else (let it = ll_get (kmem h) l (sint (ucast (getSize l) :: u32));
                (l', m') = deleteElem_idx (getSize l) l (kmem h)
            in (it, l'\<lparr>ll_size := ll_size l' - 1\<rparr>, h\<lparr>kmem := m'\<rparr>)))"

section \<open>Stack and Queue: removal\<close>

definition Stack_pop :: "mem \<Rightarrow> llist \<Rightarrow> addr \<times> llist" where
  "Stack_pop m l =
     (if getSize l = 0 then (0, l)
      else (let it = ll_get m l 0; (l', m') = deleteElem_idx 0 l m
            in (it, l'\<lparr>ll_size := ll_size l' - 1\<rparr>)))"

definition Queue_pop :: "llist \<Rightarrow> 'a kernel_mem_scheme \<Rightarrow> addr \<times> llist \<times> 'a kernel_mem_scheme" where
  "Queue_pop l h =
     (if getSize l = 0 then (0, l, kpwarn ''Queue is empty!'' h)
      else (let it = ll_get (kmem h) l 0; (l', m') = deleteElem_idx 0 l (kmem h)
            in (it, l'\<lparr>ll_size := ll_size l' - 1\<rparr>, h\<lparr>kmem := m'\<rparr>)))"

section \<open>Chains of nodes\<close>

primrec chain :: "mem \<Rightarrow> addr \<Rightarrow> addr list \<Rightarrow> bool" where
  "chain m p [] \<longleftrightarrow> p = 0"
| "chain m p (n # ns) \<longleftrightarrow> p = n \<and> n \<noteq> 0 \<and> chain m (node_next m n) ns"

lemma chain_null [simp]: "chain m 0 ns \<longleftrightarrow> ns = []"
  by (cases ns) auto

lemma chain_unique: "chain m p ns \<Longrightarrow> chain m p ns' \<Longrightarrow> ns = ns'"
proof (induction ns arbitrary: p ns')
  case Nil
  then show ?case by simp
next
  case (Cons n ns)
  then show ?case by (cases ns') auto
qed

lemma chain_cong:
  "(\<And>n. n \<in> set ns \<Longrightarrow> node_next m' n = node_next m n) \<Longrightarrow> chain m' p ns = chain m p ns"
  by (induction ns arbitrary: p) auto

lemma chain_snoc:
  assumes "chain m p (ns @ [n])" and "\<And>k. k \<in> set ns \<Longrightarrow> node_next m' k = node_next m k"
    and "node_next m' n = q" and "q \<noteq> 0" and "node_next m' q = 0"
  shows "chain m' p (ns @ [n, q])"
  using assms by (induction ns arbitrary: p) auto

lemma Stack_pop_chain:
  assumes "chain m (ll_head l) (n # ns)" and "ll_size l \<noteq> 0"
  shows "Stack_pop m l = (n + 8, l\<lparr>ll_head := node_next m n, ll_size := ll_size l - 1\<rparr>)"
  using assms
  by (simp add: Stack_pop_def getSize_def ll_get_def deleteElem_idx_def node_data_addr_def)

lemma Queue_pop_chain:
  assumes "chain (kmem h) (ll_head l) (n # ns)" and "ll_size l \<noteq> 0"
  shows "Queue_pop l h = (n + 8, l\<lparr>ll_head := node_next (kmem h) n, ll_size := ll_size l - 1\<rparr>, h)"
  using assms
  by (simp add: Queue_pop_def getSize_def ll_get_def deleteElem_idx_def node_data_addr_def)

end
