(* ===== verification/Allocator.thy ===== *)
theory Allocator
  imports Prelude
begin

text \<open>
  The contract every allocator of the kernel is held to, as a locale: a request with room
  succeeds, the region it hands out was not in use, and what was in use stays in use. The
  kernel heap (\<open>Kpkheap\<close>) and the page frame allocator (\<open>Paging_Alloc\<close>) interpret it. The
  extension \<open>zeroing_allocator\<close> adds what \<open>kpkZalloc\<close> promises about contents.
\<close>

text \<open>A sequence of requests, as a caller makes them one after the other.\<close>

primrec alloc_all ::
    "('z \<Rightarrow> 's \<Rightarrow> (addr \<times> 's) option) \<Rightarrow> 'z list \<Rightarrow> 's \<Rightarrow> (addr list \<times> 's) option" where
  "alloc_all alloc [] s = Some ([], s)"
| "alloc_all alloc (z # zs) s =
     do { (p, s1) \<leftarrow> alloc z s;
          (ps, s2) \<leftarrow> alloc_all alloc zs s1;
          Some (p # ps, s2) }"

locale region_allocator =
  fixes alloc :: "'z \<Rightarrow> 's \<Rightarrow> (addr \<times> 's) option"
    and region :: "addr \<Rightarrow> 'z \<Rightarrow> addr set"
    and used :: "'s \<Rightarrow> addr set"
    and room :: "'z list \<Rightarrow> 's \<Rightarrow> bool"
  assumes alloc_room:
    "room (z # zs) s \<Longrightarrow> \<exists>p s'. alloc z s = Some (p, s') \<and> room zs s' \<and>
       region p z \<inter> used s = {} \<and> region p z \<union> used s \<subseteq> used s'"
begin

lemma alloc_all_room:
  assumes "room zs s"
  shows "\<exists>ps s'. alloc_all alloc zs s = Some (ps, s') \<and> length ps = length zs \<and> used s \<subseteq> used s' \<and>
    (\<forall>i < length zs. region (ps ! i) (zs ! i) \<inter> used s = {} \<and> region (ps ! i) (zs ! i) \<subseteq> used s') \<and>
    (\<forall>j < length zs. \<forall>i < j. region (ps ! i) (zs ! i) \<inter> region (ps ! j) (zs ! j) = {})"
  using assms
proof (induction zs arbitrary: s)
  case Nil
  then show ?case by simp
next
  case (Cons z zs)
  obtain p s1 where a: "alloc z s = Some (p, s1)" "room zs s1"
      "region p z \<inter> used s = {}" "region p z \<union> used s \<subseteq> used s1"
    using alloc_room [OF Cons.prems] by blast
  obtain ps s2 where r: "alloc_all alloc zs s1 = Some (ps, s2)" "length ps = length zs"
      "used s1 \<subseteq> used s2"
      "\<forall>i < length zs. region (ps ! i) (zs ! i) \<inter> used s1 = {} \<and> region (ps ! i) (zs ! i) \<subseteq> used s2"
      "\<forall>j < length zs. \<forall>i < j. region (ps ! i) (zs ! i) \<inter> region (ps ! j) (zs ! j) = {}"
    using Cons.IH [OF a(2)] by blast
  have "region p z \<subseteq> used s2" "used s \<subseteq> used s2" using a(4) r(3) by blast+
  moreover have "region ((p # ps) ! i) ((z # zs) ! i) \<inter> used s = {} \<and>
      region ((p # ps) ! i) ((z # zs) ! i) \<subseteq> used s2" if "i < length (z # zs)" for i
  proof (cases i)
    case 0
    then show ?thesis using a(3) \<open>region p z \<subseteq> used s2\<close> by simp
  next
    case (Suc k)
    then have "region (ps ! k) (zs ! k) \<inter> used s1 = {} \<and> region (ps ! k) (zs ! k) \<subseteq> used s2"
      using that r(4) by simp
    then show ?thesis using Suc a(4) by auto
  qed
  moreover have "region ((p # ps) ! i) ((z # zs) ! i) \<inter> region ((p # ps) ! j) ((z # zs) ! j) = {}"
    if ij: "j < length (z # zs)" "i < j" for i j
  proof -
    obtain k where k: "j = Suc k" using ij(2) by (cases j) auto
    have d: "region (ps ! k) (zs ! k) \<inter> used s1 = {}" using ij(1) k r(4) by simp
    show ?thesis
    proof (cases i)
      case 0
      then show ?thesis using d a(4) k by auto
    next
      case (Suc l)
      then show ?thesis using r(5) ij k by simp
    qed
  qed
  ultimately show ?case using a(1) r(1,2) by simp
qed

end

locale zeroing_allocator = region_allocator alloc region used room
  for alloc :: "'z \<Rightarrow> 's \<Rightarrow> (addr \<times> 's) option"
    and region :: "addr \<Rightarrow> 'z \<Rightarrow> addr set"
    and used :: "'s \<Rightarrow> addr set"
    and room :: "'z list \<Rightarrow> 's \<Rightarrow> bool" +
  fixes memory :: "'s \<Rightarrow> mem"
  assumes alloc_zero:
    "room (z # zs) s \<Longrightarrow> alloc z s = Some (p, s') \<Longrightarrow> x \<in> region p z \<Longrightarrow> memory s' x = 0"
    and alloc_frame:
    "room (z # zs) s \<Longrightarrow> alloc z s = Some (p, s') \<Longrightarrow> x \<in> used s \<Longrightarrow> memory s' x = memory s x"
begin

lemma alloc_all_memory:
  assumes "room zs s" and "alloc_all alloc zs s = Some (ps, s')"
  shows "(\<forall>x \<in> used s. memory s' x = memory s x) \<and>
    (\<forall>i < length zs. \<forall>x \<in> region (ps ! i) (zs ! i). memory s' x = 0)"
  using assms
proof (induction zs arbitrary: s ps)
  case Nil
  then show ?case by simp
next
  case (Cons z zs)
  obtain p s1 where a: "alloc z s = Some (p, s1)" "room zs s1" "region p z \<union> used s \<subseteq> used s1"
    using alloc_room [OF Cons.prems(1)] by blast
  then obtain qs where q: "alloc_all alloc zs s1 = Some (qs, s')" "ps = p # qs"
    using Cons.prems(2) by (auto split: bind_splits)
  note ih = Cons.IH [OF a(2) q(1)]
  have z: "\<forall>x \<in> region p z. memory s' x = 0"
    using ih a(3) alloc_zero [OF Cons.prems(1) a(1)] by auto
  have "\<forall>x \<in> used s. memory s' x = memory s x"
    using ih a(3) alloc_frame [OF Cons.prems(1) a(1)] by auto
  moreover have "\<forall>i < length (z # zs). \<forall>x \<in> region (ps ! i) ((z # zs) ! i). memory s' x = 0"
    using ih z by (auto simp: q(2) less_Suc_eq_0_disj)
  ultimately show ?case by blast
qed

end

end
