(* ===== verification/Kpkheap.thy ===== *)
theory Kpkheap
  imports Kdsa Kstring Allocator
begin

text \<open>
  The kernel heap, \<open>src/src/kernel/memory/heap/kpkheap.cpp\<close>: chunks with a 32-byte header cut
  from the top of a fixed range, and one stack of freed chunks per power-of-two size class. The
  stacks are the \<open>Stack<chunk*>\<close> of \<open>kdsa.hpp\<close>, whose nodes come from this same heap, so
  \<open>Stack::push\<close> is modelled here, after \<open>kpkZalloc\<close>, and \<open>kpkFree\<close> may itself allocate.

  \<open>None\<close> stands for a call the source gives no meaning: \<open>bsr\<close>/\<open>bsf\<close> of 0 and an access
  outside the array \<open>bucket\<close>. The heap interprets the allocator contract of \<open>Allocator\<close>.
\<close>

section \<open>State\<close>

record heap = kernel_mem +
  topChunk :: addr
  bucket :: "llist list"

definition KPKHEAP_START :: addr where "KPKHEAP_START = 0x200000"
definition KPKHEAP_END :: addr where "KPKHEAP_END = 0x3000000"
definition KPKBUCKET_SIZE :: nat where "KPKBUCKET_SIZE = 21"
definition MIN_CHUNK_SIZE :: u64 where "MIN_CHUNK_SIZE = 0x10"

text \<open>
  The header of a chunk: \<open>metadata.free\<close> at offset 0, \<open>metadata.size\<close> at 8, \<open>link.next\<close>
  at 16 and \<open>link.prev\<close> at 24; the array \<open>takenChunk\<close> of the union has no elements.
\<close>

definition sizeof_chunk :: u64 where "sizeof_chunk = 32"

definition chunk_free_addr :: "addr \<Rightarrow> addr" where "chunk_free_addr c = c"
definition chunk_size_addr :: "addr \<Rightarrow> addr" where "chunk_size_addr c = c + 8"
definition chunk_next_addr :: "addr \<Rightarrow> addr" where "chunk_next_addr c = c + 16"
definition chunk_prev_addr :: "addr \<Rightarrow> addr" where "chunk_prev_addr c = c + 24"

text \<open>The state before the first request: lines 8 and 9, with the constructor run on each stack.\<close>

definition heap_init :: "mem \<Rightarrow> heap" where
  "heap_init m = \<lparr>kmem = m, kout = [], topChunk = KPKHEAP_START,
     bucket = replicate KPKBUCKET_SIZE LinkedList\<rparr>"

section \<open>Operations\<close>

text \<open>The instructions \<open>bsr\<close> and \<open>bsf\<close>: index of the highest and of the lowest set bit.\<close>

fun bsr_nat :: "nat \<Rightarrow> nat" where
  "bsr_nat n = (if n < 2 then 0 else Suc (bsr_nat (n div 2)))"

fun bsf_nat :: "nat \<Rightarrow> nat" where
  "bsf_nat n = (if n = 0 \<or> odd n then 0 else Suc (bsf_nat (n div 2)))"

declare bsr_nat.simps [simp del] bsf_nat.simps [simp del]

definition msb :: "u64 \<Rightarrow> u64 option" where
  "msb sz = (if sz = 0 then None else Some (of_nat (bsr_nat (unat sz))))"

definition lsb :: "u64 \<Rightarrow> u64 option" where
  "lsb sz = (if sz = 0 then None else Some (of_nat (bsf_nat (unat sz))))"

definition alignSize :: "u64 \<Rightarrow> u64 option" where
  "alignSize sz =
     do { msb64 \<leftarrow> msb sz;
          lsb64 \<leftarrow> lsb sz;
          let sizeMSB = (ucast msb64 :: u8);
          let sizeLSB = (ucast lsb64 :: u8);
          if sizeMSB \<noteq> sizeLSB \<or> sizeLSB < 4
          then (if sz < MIN_CHUNK_SIZE then Some MIN_CHUNK_SIZE
                else Some (push_bit 5 (drop_bit 4 sz)))
          else Some sz }"

text \<open>
  The bucket of a size: \<open>(uint8_t) msb - 4\<close>. In \<open>checkBucket\<close> the clamp for sizes above
  \<open>MAX_CHUNK_SIZE\<close> is overwritten by the next statement, so the same index is computed there.
\<close>

definition bucket_index :: "u64 \<Rightarrow> nat option" where
  "bucket_index sz = map_option (\<lambda>b. unat ((ucast b :: u8) - 4)) (msb sz)"

definition makeChunk :: "addr \<Rightarrow> u64 \<Rightarrow> 'a heap_scheme \<Rightarrow> addr \<times> 'a heap_scheme" where
  "makeChunk addr sz h =
     (if addr \<ge> KPKHEAP_END then (0, kpwarn ''No more Kernel Heap Space!'' h)
      else (let m1 = (kmem h)(chunk_free_addr addr := 1);
                m2 = write64 (chunk_size_addr addr) sz m1;
                m3 = write64 (chunk_prev_addr addr) 0 m2;
                m4 = write64 (chunk_next_addr addr) 0 m3
            in (addr, h\<lparr>kmem := m4\<rparr>)))"

definition chunkEaddr :: "mem \<Rightarrow> addr \<Rightarrow> addr" where
  "chunkEaddr m it = it + read64 m (chunk_size_addr it)"

definition checkBucket :: "u64 \<Rightarrow> 'a heap_scheme \<Rightarrow> (addr \<times> 'a heap_scheme) option" where
  "checkBucket sz h =
     do { bucketIdx \<leftarrow> bucket_index sz;
          if bucketIdx \<ge> length (bucket h) then None
          else if isEmpty (bucket h ! bucketIdx) then Some (0, h)
          else (let (it, st) = Stack_pop (kmem h) (bucket h ! bucketIdx)
                in Some (read64 (kmem h) it, h\<lparr>bucket := (bucket h)[bucketIdx := st]\<rparr>)) }"

definition kpkMalloc :: "u64 \<Rightarrow> 'a heap_scheme \<Rightarrow> (addr \<times> 'a heap_scheme) option" where
  "kpkMalloc sz h =
     do { asize \<leftarrow> alignSize sz;
          (ret0, h0) \<leftarrow> checkBucket asize h;
          let (ret, h1) =
            (if ret0 = 0
             then (let (r, h') = makeChunk (topChunk h0) asize h0
                   in (r, if r \<noteq> 0 then h'\<lparr>topChunk := topChunk h' + sz + sizeof_chunk\<rparr> else h'))
             else (ret0, h0));
          Some (ret + sizeof_chunk, h1\<lparr>kmem := (kmem h1)(chunk_free_addr ret := 0)\<rparr>) }"

definition kpkZalloc :: "u64 \<Rightarrow> 'a heap_scheme \<Rightarrow> (addr \<times> 'a heap_scheme) option" where
  "kpkZalloc sz h =
     do { (p, h1) \<leftarrow> kpkMalloc sz h;
          if p = 0 then Some (0, h1)
          else Some (p, h1\<lparr>kmem := snd (memset p 0 sz (kmem h1))\<rparr>) }"

text \<open>
  \<open>Stack::push\<close> on the bucket with the given index. The node is allocated by \<open>kpkZalloc\<close>,
  which may pop from the buckets, so \<open>last\<close> and \<open>size\<close> are read after it.
\<close>

definition Stack_push :: "nat \<Rightarrow> addr \<Rightarrow> 'a heap_scheme \<Rightarrow> 'a heap_scheme option" where
  "Stack_push k data h =
     (if ll_head (bucket h ! k) = 0
      then do { (n, h1) \<leftarrow> kpkZalloc sizeof_node h;
                let m = write64 n 0 (write64 (node_data_addr n) data (kmem h1));
                let st = bucket h1 ! k;
                Some (h1\<lparr>kmem := m,
                         bucket := (bucket h1)[k := \<lparr>ll_head = n, ll_last = n, ll_size = ll_size st + 1\<rparr>]\<rparr>) }
      else do { (n, h1) \<leftarrow> kpkZalloc sizeof_node h;
                let st = bucket h1 ! k;
                let m = write64 n (ll_last st) (write64 n 0 (write64 (node_data_addr n) data (kmem h1)));
                Some (h1\<lparr>kmem := m,
                         bucket := (bucket h1)[k := st\<lparr>ll_head := n, ll_size := ll_size st + 1\<rparr>]\<rparr>) })"

definition pushChunk :: "addr \<Rightarrow> 'a heap_scheme \<Rightarrow> 'a heap_scheme option" where
  "pushChunk c h =
     do { bucketIdx \<leftarrow> bucket_index (read64 (kmem h) (chunk_size_addr c));
          if bucketIdx \<ge> length (bucket h) then None else Stack_push bucketIdx c h }"

definition kpkFree :: "addr \<Rightarrow> 'a heap_scheme \<Rightarrow> 'a heap_scheme option" where
  "kpkFree p h =
     (let it = p - sizeof_chunk in
      if kmem h (chunk_free_addr it) = 1 then Some h
      else pushChunk it (h\<lparr>kmem := (kmem h)(chunk_free_addr it := 1)\<rparr>))"


section \<open>Specification vocabulary\<close>

text \<open>The size class of a request.\<close>

definition size_class :: "u64 \<Rightarrow> nat option" where
  "size_class sz = alignSize sz \<bind> bucket_index"

text \<open>Memory after a fresh chunk is cut at \<open>c\<close>, and memory with a block zeroed.\<close>

definition chunk_header :: "addr \<Rightarrow> u64 \<Rightarrow> mem \<Rightarrow> mem" where
  "chunk_header c asz m =
     (write64 (c + 16) 0 (write64 (c + 24) 0 (write64 (c + 8) asz (m(c := 1)))))(c := 0)"

definition zeroed :: "addr \<Rightarrow> u64 \<Rightarrow> mem \<Rightarrow> mem" where
  "zeroed p n m = (\<lambda>x. if within p n x then 0 else m x)"

text \<open>
  \<open>heap_room K n h\<close>: the size classes in \<open>K\<close> hold no freed chunk and \<open>n\<close> more bytes fit
  below \<open>KPKHEAP_END\<close>. \<open>zalloc_room ss h\<close>: the requests \<open>ss\<close> fit, headers included.
\<close>

definition heap_room :: "nat set \<Rightarrow> nat \<Rightarrow> 'a heap_scheme \<Rightarrow> bool" where
  "heap_room K n h \<longleftrightarrow> length (bucket h) = KPKBUCKET_SIZE \<and>
     (\<forall>k \<in> K. ll_head (bucket h ! k) = 0) \<and>
     KPKHEAP_START \<le> topChunk h \<and> unat (topChunk h) + n \<le> unat KPKHEAP_END"

definition zalloc_need :: "u64 list \<Rightarrow> nat" where
  "zalloc_need ss = (\<Sum>s\<leftarrow>ss. unat s + 32)"

definition zalloc_room :: "u64 list \<Rightarrow> 'a heap_scheme \<Rightarrow> bool" where
  "zalloc_room ss h \<longleftrightarrow> heap_room {..<21} (zalloc_need ss) h \<and> (\<forall>s \<in> set ss. s \<noteq> 0 \<and> s < 2 ^ 24)"

section \<open>Frames\<close>

lemma kpkZalloc_frame: "kpkZalloc sz s = Some (p, s') \<Longrightarrow> heap.more s' = heap.more s"
  by (auto simp: kpkZalloc_def kpkMalloc_def checkBucket_def makeChunk_def kpwarn_def Let_def
      split: bind_splits if_splits prod.splits)

lemma Stack_push_frame: "Stack_push k d s = Some s' \<Longrightarrow> heap.more s' = heap.more s"
  by (auto simp: Stack_push_def Let_def dest: kpkZalloc_frame split: bind_splits if_splits prod.splits)

lemma kpkFree_frame: "kpkFree p s = Some s' \<Longrightarrow> heap.more s' = heap.more s"
  by (auto simp: kpkFree_def pushChunk_def Let_def dest!: Stack_push_frame split: bind_splits if_splits prod.splits)

section \<open>Size classes\<close>

lemma bsr_nat_bounds: "0 < n \<Longrightarrow> 2 ^ bsr_nat n \<le> n \<and> n < 2 * 2 ^ bsr_nat n"
proof (induction n rule: bsr_nat.induct)
  case (1 n)
  show ?case
  proof (cases "n < 2")
    case True
    with 1 show ?thesis by (simp add: bsr_nat.simps)
  next
    case False
    with 1 have "2 ^ bsr_nat (n div 2) \<le> n div 2 \<and> n div 2 < 2 * 2 ^ bsr_nat (n div 2)" by simp
    with False show ?thesis by (auto simp: bsr_nat.simps [of n])
  qed
qed

lemma bsr_nat_unique:
  assumes "2 ^ k \<le> n" and "n < 2 * 2 ^ k"
  shows "bsr_nat n = k"
proof -
  have "0 < n" using assms(1) by (cases n) auto
  note b = bsr_nat_bounds [OF this]
  have "(2::nat) ^ bsr_nat n < 2 ^ Suc k" using b assms by simp
  moreover have "(2::nat) ^ k < 2 ^ Suc (bsr_nat n)" using b assms by simp
  ultimately show ?thesis by (simp only: power_strict_increasing_iff)
qed

lemma bsr_nat_less: "n < 2 ^ k \<Longrightarrow> 0 < k \<Longrightarrow> bsr_nat n < k"
proof (cases "n = 0")
  case False
  assume "n < 2 ^ k"
  with False bsr_nat_bounds [of n] have "(2::nat) ^ bsr_nat n < 2 ^ k" by linarith
  then show ?thesis by simp
qed (simp add: bsr_nat.simps)

lemma bsf_nat_le_bsr: "0 < n \<Longrightarrow> bsf_nat n \<le> bsr_nat n"
proof (induction n rule: bsf_nat.induct)
  case (1 n)
  show ?case
  proof (cases "n = 0 \<or> odd n")
    case True
    then show ?thesis by (simp add: bsf_nat.simps [of n])
  next
    case False
    then have "2 \<le> n" by presburger
    with 1 False show ?thesis by (auto simp: bsf_nat.simps [of n] bsr_nat.simps [of n])
  qed
qed

lemma bsf_eq_bsr_iff: "0 < n \<Longrightarrow> bsf_nat n = bsr_nat n \<longleftrightarrow> (\<exists>k. n = 2 ^ k)"
proof (induction n rule: bsf_nat.induct)
  case (1 n)
  show ?case
  proof (cases "odd n")
    case True
    have "(\<exists>k. n = 2 ^ k) \<longleftrightarrow> n = 1"
      using True by (metis even_power even_numeral gr0I power_0)
    then show ?thesis using True "1.prems" by (auto simp: bsf_nat.simps [of n] bsr_nat.simps [of n])
  next
    case False
    then have n: "2 \<le> n" "n = 2 * (n div 2)" using "1.prems" by presburger+
    have "(\<exists>k. n = 2 ^ k) \<longleftrightarrow> (\<exists>k. n div 2 = 2 ^ k)"
    proof
      assume "\<exists>k. n = 2 ^ k"
      then obtain k where "n = 2 ^ k" ..
      with n(1) show "\<exists>k. n div 2 = 2 ^ k" by (cases k) auto
    next
      assume "\<exists>k. n div 2 = 2 ^ k"
      then show "\<exists>k. n = 2 ^ k" using n(2) by (metis power_Suc)
    qed
    with 1 False n show ?thesis by (auto simp: bsf_nat.simps [of n] bsr_nat.simps [of n])
  qed
qed

lemma bsr_u64_less: "bsr_nat (unat (x :: u64)) < 64"
  by (rule bsr_nat_less) (use unat_u64_less [of x] in simp_all)

lemma alignSize_eq:
  assumes "sz \<noteq> 0"
  shows "alignSize sz = Some (if \<exists>k\<ge>4. unat sz = 2 ^ k then sz
           else if sz < 16 then 16 else push_bit 5 (drop_bit 4 sz))"
proof -
  let ?r = "bsr_nat (unat sz)" and ?f = "bsf_nat (unat sz)"
  have pos: "0 < unat sz" using assms by (simp add: unat_gt_0)
  have r: "?r < 64" "?f < 64" using bsr_u64_less [of sz] bsf_nat_le_bsr [OF pos] by auto
  have u: "unat (ucast (of_nat i :: u64) :: u8) = i" if "i < 64" for i
    using that by (simp add: unsigned_ucast_eq unat_of_nat take_bit_eq_mod)
  have "(ucast (of_nat ?r :: u64) :: u8) = ucast (of_nat ?f :: u64) \<longleftrightarrow> ?r = ?f"
    using u [OF r(1)] u [OF r(2)] by metis
  moreover have "(ucast (of_nat ?f :: u64) :: u8) < 4 \<longleftrightarrow> ?f < 4"
    using u [OF r(2)] by (simp add: word_less_nat_alt)
  moreover have "(\<exists>k\<ge>4. unat sz = 2 ^ k) \<longleftrightarrow> ?r = ?f \<and> \<not> ?f < 4"
  proof
    assume "\<exists>k\<ge>4. unat sz = 2 ^ k"
    then obtain k where k: "4 \<le> k" "unat sz = 2 ^ k" by blast
    then have "?r = k" by (intro bsr_nat_unique) auto
    with k show "?r = ?f \<and> \<not> ?f < 4" using bsf_eq_bsr_iff [OF pos] by auto
  next
    assume "?r = ?f \<and> \<not> ?f < 4"
    then obtain k where "unat sz = 2 ^ k" using bsf_eq_bsr_iff [OF pos] by metis
    moreover from this have "?r = k" by (intro bsr_nat_unique) auto
    ultimately show "\<exists>k\<ge>4. unat sz = 2 ^ k" using \<open>?r = ?f \<and> \<not> ?f < 4\<close> by auto
  qed
  ultimately show ?thesis
    using assms by (simp add: alignSize_def msb_def lsb_def MIN_CHUNK_SIZE_def Let_def)
qed

lemma unat_align_round:
  assumes "sz < 2 ^ 62"
  shows "unat (push_bit 5 (drop_bit 4 (sz :: u64))) = 32 * (unat sz div 16)"
proof -
  have "unat sz < 2 ^ 62" using assms by (simp add: word_less_nat_alt)
  then have "32 * (unat sz div 16) < 2 ^ 64" by simp
  then show ?thesis
    by (simp add: push_bit_eq_mult drop_bit_eq_div unat_word_ariths)
qed

lemma alignSize_ge:
  assumes "sz \<noteq> 0" and "sz < 2 ^ 62"
  shows "\<exists>r. alignSize sz = Some r \<and> sz \<le> r \<and> 16 \<le> r \<and> unat r \<le> max 16 (2 * unat sz)"
proof -
  have "unat sz < 2 ^ 62" using assms by (simp add: word_less_nat_alt)
  have p: "16 \<le> unat sz" if "unat sz = 2 ^ k" "4 \<le> k" for k
    using power_increasing [OF that(2), of "2::nat"] that(1) by simp
  have "unat sz \<le> 32 * (unat sz div 16)" if "16 \<le> unat sz" using that by presburger
  then show ?thesis
    using assms unat_align_round [OF assms(2)] p
    by (auto simp: alignSize_eq word_le_nat_alt word_less_nat_alt)
qed

text \<open>
  C23. \<open>alignSize\<close> returns for every size below \<open>2^62\<close> but 0: at least the size asked for, at
  least \<open>MIN_CHUNK_SIZE\<close>, and at most twice the size asked for above that minimum. A power of two
  from 16 on is left alone.
\<close>

theorem alignSize_bounds:
  assumes "sz \<noteq> 0" and "sz < 2 ^ 62"
  shows "\<exists>r. alignSize sz = Some r \<and> sz \<le> r \<and> MIN_CHUNK_SIZE \<le> r \<and>
    unat r \<le> max 16 (2 * unat sz) \<and> (\<forall>k\<ge>4. unat sz = 2 ^ k \<longrightarrow> r = sz)"
  using alignSize_ge [OF assms] alignSize_eq [OF assms(1)] by (auto simp: MIN_CHUNK_SIZE_def)

theorem alignSize_bounds_witness:
  "\<exists>r. alignSize 48 = Some r \<and> 48 \<le> r \<and> MIN_CHUNK_SIZE \<le> r \<and>
     unat r \<le> max 16 (2 * unat (48 :: u64)) \<and> (\<forall>k\<ge>4. unat (48 :: u64) = 2 ^ k \<longrightarrow> r = 48)"
  by (rule alignSize_bounds) simp_all

section \<open>Allocation\<close>

lemma chunk_header_outside: "\<not> within c 32 x \<Longrightarrow> chunk_header c asz m x = m x"
proof -
  assume out: "\<not> within c 32 x"
  then have "\<not> within (c + 8) 8 x" "\<not> within (c + 16) 8 x" "\<not> within (c + 24) 8 x"
    using within_shift [of 8 8 32 c x] within_shift [of 16 8 32 c x] within_shift [of 24 8 32 c x]
    by auto
  moreover have "x \<noteq> c" using out by (auto simp: within_def)
  ultimately show ?thesis by (simp add: chunk_header_def write64_outside)
qed

lemma chunk_header_free [simp]: "chunk_header c asz m c = 0"
  by (simp add: chunk_header_def)

lemma chunk_header_size [simp]: "read64 (chunk_header c asz m) (c + 8) = asz"
  by (simp add: chunk_header_def mem_frame apart_def)

lemma kpkMalloc_fresh:
  assumes "alignSize sz = Some asz" "bucket_index asz = Some k" "k < length (bucket h)"
    and "isEmpty (bucket h ! k)" "topChunk h < KPKHEAP_END" "topChunk h \<noteq> 0"
  shows "kpkMalloc sz h = Some (topChunk h + 32,
           h\<lparr>kmem := chunk_header (topChunk h) asz (kmem h), topChunk := topChunk h + sz + 32\<rparr>)"
  using assms
  by (simp add: kpkMalloc_def checkBucket_def makeChunk_def chunk_header_def chunk_free_addr_def
      chunk_size_addr_def chunk_prev_addr_def chunk_next_addr_def sizeof_chunk_def Let_def not_le)

lemma bucket_index_eq:
  assumes "16 \<le> asz"
  shows "bucket_index asz = Some (bsr_nat (unat asz) - 4)"
proof -
  let ?r = "bsr_nat (unat asz)"
  have a: "2 ^ 4 \<le> unat asz" using assms by (simp add: word_le_nat_alt)
  have "4 \<le> ?r"
  proof (rule ccontr)
    assume "\<not> 4 \<le> ?r"
    then have "(2::nat) ^ Suc ?r \<le> 2 ^ 4" by (intro power_increasing) auto
    moreover have "unat asz < 2 ^ Suc ?r" using bsr_nat_bounds [of "unat asz"] a by simp
    ultimately show False using a by linarith
  qed
  moreover have "?r < 64" by (rule bsr_u64_less)
  moreover have "asz \<noteq> 0" using assms by auto
  ultimately show ?thesis
    by (simp add: bucket_index_def msb_def unat_sub_if' unsigned_ucast_eq unat_of_nat take_bit_eq_mod)
qed

lemma bucket_index_bound:
  assumes "16 \<le> asz" "asz < 2 ^ 25"
  shows "\<exists>k < 21. bucket_index asz = Some k"
proof -
  have "unat asz < 2 ^ 25" using assms(2) by (simp add: word_less_nat_alt)
  then have "bsr_nat (unat asz) < 25" by (intro bsr_nat_less) simp_all
  then show ?thesis using bucket_index_eq [OF assms(1)] by auto
qed

text \<open>A size of \<open>2^25\<close> or more indexes past the end of \<open>bucket\<close>: the clamp above it has no effect.\<close>

lemma checkBucket_out_of_bounds:
  assumes "2 ^ 25 \<le> asz" and "length (bucket h) = KPKBUCKET_SIZE"
  shows "checkBucket asz h = None"
proof -
  have a: "2 ^ 25 \<le> unat asz" using assms(1) by (simp add: word_le_nat_alt)
  then have "16 \<le> asz" by (simp add: word_le_nat_alt)
  have "(2::nat) ^ 25 < 2 ^ Suc (bsr_nat (unat asz))" using a bsr_nat_bounds [of "unat asz"] by simp
  then have "25 < Suc (bsr_nat (unat asz))" by (simp only: power_strict_increasing_iff)
  then have "21 \<le> bsr_nat (unat asz) - 4" by simp
  then show ?thesis
    using bucket_index_eq [OF \<open>16 \<le> asz\<close>] assms(2) by (simp add: checkBucket_def KPKBUCKET_SIZE_def)
qed

lemma size_class_bound:
  assumes "sz \<noteq> 0" "sz < 2 ^ 24"
  shows "\<exists>k < 21. size_class sz = Some k"
proof -
  have "sz < 2 ^ 62" using assms(2) by (simp add: word_less_nat_alt)
  then obtain asz where a: "alignSize sz = Some asz" "16 \<le> asz" "unat asz \<le> max 16 (2 * unat sz)"
    using alignSize_ge [OF assms(1)] by auto
  have "asz < 2 ^ 25" using a(3) assms(2) by (simp add: word_less_nat_alt max_def split: if_splits)
  with bucket_index_bound [OF a(2)] show ?thesis by (auto simp: size_class_def a(1))
qed

lemma heap_room_mono: "heap_room K n h \<Longrightarrow> K' \<subseteq> K \<Longrightarrow> n' \<le> n \<Longrightarrow> heap_room K' n' h"
  by (auto simp: heap_room_def)

lemma heap_room_kmem [simp]: "heap_room K n (h\<lparr>kmem := m\<rparr>) = heap_room K n h"
  by (simp add: heap_room_def)

lemma heap_room_top:
  assumes "heap_room K n h"
  shows "0x200000 \<le> unat (topChunk h)" and "unat (topChunk h) + n \<le> 0x3000000"
  using assms by (simp_all add: heap_room_def KPKHEAP_END_def KPKHEAP_START_def word_le_nat_alt)

lemma heap_room_add:
  fixes d :: u64
  assumes "heap_room K n h" and "unat d \<le> n"
  shows "unat (topChunk h + d) = unat (topChunk h) + unat d"
  using heap_room_top [OF assms(1)] assms(2) by (simp add: unat_word_ariths)

lemma kpkMalloc_room:
  assumes room: "heap_room K (unat sz + 32 + n) h"
    and cls: "alignSize sz = Some asz" "bucket_index asz = Some k" "k \<in> K" "k < 21"
  shows "kpkMalloc sz h = Some (topChunk h + 32,
           h\<lparr>kmem := chunk_header (topChunk h) asz (kmem h), topChunk := topChunk h + (sz + 32)\<rparr>)"
    and "unat (sz + 32) = unat sz + 32"
    and "heap_room K n (h\<lparr>kmem := m, topChunk := topChunk h + (sz + 32)\<rparr>)"
    and "topChunk h + 32 \<noteq> 0"
proof -
  note t = heap_room_top [OF room]
  have "topChunk h < KPKHEAP_END" "topChunk h \<noteq> 0"
    using t by (auto simp: KPKHEAP_END_def word_less_nat_alt)
  moreover have "k < length (bucket h)" "isEmpty (bucket h ! k)"
    using room cls(3,4) by (auto simp: heap_room_def KPKBUCKET_SIZE_def isEmpty_def)
  ultimately show "kpkMalloc sz h = Some (topChunk h + 32,
           h\<lparr>kmem := chunk_header (topChunk h) asz (kmem h), topChunk := topChunk h + (sz + 32)\<rparr>)"
    using kpkMalloc_fresh [OF cls(1,2)] by (simp add: add.assoc)
  show s: "unat (sz + 32) = unat sz + 32" using t by (simp add: unat_word_ariths)
  have "unat (topChunk h + (sz + 32)) = unat (topChunk h) + (unat sz + 32)"
    using heap_room_add [OF room, of "sz + 32"] s by simp
  then show "heap_room K n (h\<lparr>kmem := m, topChunk := topChunk h + (sz + 32)\<rparr>)"
    using room t by (simp add: heap_room_def KPKHEAP_START_def KPKHEAP_END_def word_le_nat_alt)
  have "unat (topChunk h + 32) \<noteq> unat (0 :: u64)"
    using heap_room_add [OF room, of 32] t by simp
  then show "topChunk h + 32 \<noteq> 0" by metis
qed

lemma memset_zeroed: "snd (memset p 0 n m) = zeroed p n m"
  by (rule ext) (simp add: memset_apply zeroed_def)

lemma kpkZalloc_room:
  assumes room: "heap_room K (unat sz + 32 + n) h"
    and cls: "alignSize sz = Some asz" "bucket_index asz = Some k" "k \<in> K" "k < 21"
  shows "kpkZalloc sz h = Some (topChunk h + 32,
           h\<lparr>kmem := zeroed (topChunk h + 32) sz (chunk_header (topChunk h) asz (kmem h)),
             topChunk := topChunk h + (sz + 32)\<rparr>)"
  using kpkMalloc_room [OF assms] by (simp add: kpkZalloc_def memset_zeroed)

lemma zalloc_room_step:
  assumes "zalloc_room (s # ss) h"
  obtains asz where "kpkZalloc s h = Some (topChunk h + 32,
      h\<lparr>kmem := zeroed (topChunk h + 32) s (chunk_header (topChunk h) asz (kmem h)),
        topChunk := topChunk h + (s + 32)\<rparr>)"
    "\<And>m. zalloc_room ss (h\<lparr>kmem := m, topChunk := topChunk h + (s + 32)\<rparr>)"
    "unat (topChunk h + (s + 32)) = unat (topChunk h) + unat s + 32"
    "unat (topChunk h + 32) = unat (topChunk h) + 32"
    "unat (topChunk h) + unat s + 32 \<le> 0x3000000"
proof -
  have room: "heap_room {..<21} (unat s + 32 + zalloc_need ss) h"
    using assms by (simp add: zalloc_room_def zalloc_need_def)
  obtain k asz where k: "k < 21" "alignSize s = Some asz" "bucket_index asz = Some k"
    using size_class_bound [of s] assms
    by (auto simp: zalloc_room_def size_class_def split: bind_splits)
  note m = kpkMalloc_room [OF room k(2,3) _ k(1)] and z = kpkZalloc_room [OF room k(2,3) _ k(1)]
  show ?thesis
  proof (rule that)
    show "zalloc_room ss (h\<lparr>kmem := m, topChunk := topChunk h + (s + 32)\<rparr>)" for m
      using m(3) k(1) assms by (simp add: zalloc_room_def)
    show "unat (topChunk h + (s + 32)) = unat (topChunk h) + unat s + 32"
      using heap_room_add [OF room, of "s + 32"] m(2) k(1) by simp
    show "unat (topChunk h + 32) = unat (topChunk h) + 32"
      using heap_room_add [OF room, of 32] by simp
    show "unat (topChunk h) + unat s + 32 \<le> 0x3000000" using heap_room_top(2) [OF room] by simp
  qed (use z k(1) in simp)
qed

text \<open>The heap keeps the allocator contract: its used part is everything below \<open>topChunk\<close>.\<close>

interpretation kheap: zeroing_allocator kpkZalloc "\<lambda>p s. {x. within p s x}"
    "\<lambda>h :: 'a heap_scheme. {x. x < topChunk h}" zalloc_room kmem
proof unfold_locales
  fix z zs and s :: "'a heap_scheme"
  assume room: "zalloc_room (z # zs) s"
  obtain asz where a: "kpkZalloc z s = Some (topChunk s + 32,
      s\<lparr>kmem := zeroed (topChunk s + 32) z (chunk_header (topChunk s) asz (kmem s)),
        topChunk := topChunk s + (z + 32)\<rparr>)"
    and r: "\<And>m. zalloc_room zs (s\<lparr>kmem := m, topChunk := topChunk s + (z + 32)\<rparr>)"
    and u: "unat (topChunk s + (z + 32)) = unat (topChunk s) + unat z + 32"
      "unat (topChunk s + 32) = unat (topChunk s) + 32" "unat (topChunk s) + unat z + 32 \<le> 0x3000000"
    using zalloc_room_step [OF room] by metis
  have w: "within (topChunk s + 32) z x \<longleftrightarrow> unat (topChunk s) + 32 \<le> unat x \<and> unat x < unat (topChunk s) + 32 + unat z"
    for x using within_range [of "topChunk s + 32" z x] u by simp
  show "\<exists>p s'. kpkZalloc z s = Some (p, s') \<and> zalloc_room zs s' \<and>
      {x. within p z x} \<inter> {x. x < topChunk s} = {} \<and>
      {x. within p z x} \<union> {x. x < topChunk s} \<subseteq> {x. x < topChunk s'}"
    using a r u by (auto simp: w word_less_nat_alt)
  fix p s' x
  assume "kpkZalloc z s = Some (p, s')"
  then have s': "p = topChunk s + 32"
      "kmem s' = zeroed (topChunk s + 32) z (chunk_header (topChunk s) asz (kmem s))"
    using a by auto
  show "kmem s' x = 0" if "x \<in> {x. within p z x}" 
    using that s' by (simp add: zeroed_def)
  show "kmem s' x = kmem s x" if "x \<in> {x. x < topChunk s}"
    using that s' below_not_within [of x "topChunk s" 0 32] u
    by (auto simp: zeroed_def w word_less_nat_alt chunk_header_outside)
qed

text \<open>
  C6. On a heap whose 21 free lists are all empty, as before the first \<open>kpkFree\<close>, a sequence of \<open>kpkZalloc\<close>
  requests of 1 to \<open>2^24 - 1\<close> bytes that fits between the top and the end of the heap succeeds; the blocks
  returned are pairwise disjoint, disjoint from everything allocated before, below the new top, all zero, and
  memory in use before the sequence is unchanged after it. Nothing is claimed for reused chunks: one may be shorter
  than the request it is reused for, as \<open>kpkMalloc_reuse_overlap\<close> shows.
\<close>

theorem kpkZalloc_disjoint:
  fixes h :: "'a heap_scheme"
  assumes "zalloc_room ss h"
  shows "\<exists>ps h'. alloc_all kpkZalloc ss h = Some (ps, h') \<and> length ps = length ss \<and>
    (\<forall>i < length ss. \<forall>x. within (ps ! i) (ss ! i) x \<longrightarrow>
        topChunk h \<le> x \<and> x < topChunk h' \<and> kmem h' x = 0) \<and>
    (\<forall>j < length ss. \<forall>i < j. \<forall>x. \<not> (within (ps ! i) (ss ! i) x \<and> within (ps ! j) (ss ! j) x)) \<and>
    (\<forall>x < topChunk h. kmem h' x = kmem h x)"
proof -
  obtain ps h' where r: "alloc_all kpkZalloc ss h = Some (ps, h')" "length ps = length ss"
    "\<forall>i < length ss. {x. within (ps ! i) (ss ! i) x} \<inter> {x. x < topChunk h} = {} \<and>
       {x. within (ps ! i) (ss ! i) x} \<subseteq> {x. x < topChunk h'}"
    "\<forall>j < length ss. \<forall>i < j. {x. within (ps ! i) (ss ! i) x} \<inter> {x. within (ps ! j) (ss ! j) x} = {}"
    using kheap.alloc_all_room [OF assms] by blast
  note mm = kheap.alloc_all_memory [OF assms r(1)]
  have "topChunk h \<le> x \<and> x < topChunk h' \<and> kmem h' x = 0"
    if "i < length ss" "within (ps ! i) (ss ! i) x" for i x
    using r(3) mm that by (auto simp: disjoint_iff not_less)
  then show ?thesis using r mm by blast
qed

theorem kpkZalloc_disjoint_witness:
  "\<exists>ps h'. alloc_all kpkZalloc [17, 64] (heap_init (\<lambda>_. 7)) = Some (ps, h') \<and> length ps = 2 \<and>
     (\<forall>x. \<not> (within (ps ! 0) 17 x \<and> within (ps ! 1) 64 x))"
proof -
  have "zalloc_room [17, 64] (heap_init (\<lambda>_. 7))"
    by (auto simp: zalloc_room_def zalloc_need_def heap_room_def heap_init_def LinkedList_def
        KPKBUCKET_SIZE_def KPKHEAP_START_def KPKHEAP_END_def)
  from kpkZalloc_disjoint [OF this] show ?thesis by fastforce
qed

lemma size_class_16: "alignSize 16 = Some 16" "bucket_index 16 = Some 0"
proof -
  have "bsr_nat 16 = 4" by (rule bsr_nat_unique) auto
  then show "bucket_index 16 = Some 0" using bucket_index_eq [of 16] by simp
  have "unat (16 :: u64) = 2 ^ 4" by simp
  then have "\<exists>k\<ge>4. unat (16 :: u64) = 2 ^ k" by blast
  then show "alignSize 16 = Some 16" using alignSize_eq [of 16] by simp
qed

text \<open>
  C24. An exhausted heap is not reported to the caller: \<open>kpkMalloc\<close> prints its warning, then
  clears the byte at address 0 through the null chunk and returns the address 32, never
  \<open>NULL\<close>.
\<close>

theorem kpkMalloc_exhausted:
  assumes "alignSize sz = Some asz" "bucket_index asz = Some k" "k < length (bucket h)"
    and "isEmpty (bucket h ! k)" "KPKHEAP_END \<le> topChunk h"
  shows "kpkMalloc sz h = Some (32,
           (kpwarn ''No more Kernel Heap Space!'' h)\<lparr>kmem := (kmem h)(0 := 0)\<rparr>)"
  using assms
  by (simp add: kpkMalloc_def checkBucket_def makeChunk_def chunk_free_addr_def sizeof_chunk_def
      Let_def kpwarn_def)

theorem kpkMalloc_exhausted_witness:
  "kpkMalloc 16 ((heap_init (\<lambda>_. 7))\<lparr>topChunk := KPKHEAP_END\<rparr>) = Some (32,
     (kpwarn ''No more Kernel Heap Space!'' ((heap_init (\<lambda>_. 7))\<lparr>topChunk := KPKHEAP_END\<rparr>))
       \<lparr>kmem := (\<lambda>_. 7)(0 := 0)\<rparr>)"
  using kpkMalloc_exhausted [OF size_class_16, of "(heap_init (\<lambda>_. 7))\<lparr>topChunk := KPKHEAP_END\<rparr>"]
  by (simp add: heap_init_def KPKBUCKET_SIZE_def isEmpty_def LinkedList_def)

section \<open>Freeing and reuse\<close>

lemma kpkZalloc_node:
  assumes "heap_room K (48 + n) h" "0 \<in> K"
  obtains m where "kpkZalloc sizeof_node h = Some (topChunk h + 32, h\<lparr>kmem := m, topChunk := topChunk h + 48\<rparr>)"
    "\<And>x. x < topChunk h \<Longrightarrow> m x = kmem h x"
    "\<And>m. heap_room K n (h\<lparr>kmem := m, topChunk := topChunk h + 48\<rparr>)"
proof -
  have room: "heap_room K (unat (16 :: u64) + 32 + n) h" using assms(1) by simp
  note z = kpkZalloc_room [OF room size_class_16 assms(2)]
    and r = kpkMalloc_room(3) [OF room size_class_16 assms(2)]
  let ?m = "zeroed (topChunk h + 32) 16 (chunk_header (topChunk h) 16 (kmem h))"
  have t: "unat (topChunk h) + 48 \<le> 0x3000000" using heap_room_top(2) [OF room] by simp
  have "?m x = kmem h x" if "x < topChunk h" for x
    using that below_not_within [of x "topChunk h" 0 32] below_not_within [of x "topChunk h" 32 16] t
    by (simp add: zeroed_def chunk_header_outside)
  then show ?thesis using z r that by (simp add: sizeof_node_def)
qed

lemma Stack_push_room:
  fixes h :: "'a heap_scheme"
  assumes "heap_room K (48 + n) h" "0 \<in> K" "k < 21"
  defines "nd \<equiv> topChunk h + 32" and "st \<equiv> bucket h ! k"
  obtains m where "Stack_push k c h = Some (h\<lparr>kmem := m, topChunk := topChunk h + 48,
      bucket := (bucket h)[k := (if ll_head st = 0 then \<lparr>ll_head = nd, ll_last = nd, ll_size = ll_size st + 1\<rparr>
                                 else st\<lparr>ll_head := nd, ll_size := ll_size st + 1\<rparr>)]\<rparr>)"
    "\<And>x. x < topChunk h \<Longrightarrow> m x = kmem h x"
    "read64 m nd = (if ll_head st = 0 then 0 else ll_last st)" "read64 m (nd + 8) = c"
proof -
  obtain m where z: "kpkZalloc sizeof_node h = Some (nd, h\<lparr>kmem := m, topChunk := topChunk h + 48\<rparr>)"
    and fr: "\<And>x. x < topChunk h \<Longrightarrow> m x = kmem h x"
    using kpkZalloc_node [OF assms(1,2)] unfolding nd_def by metis
  let ?m = "write64 nd (if ll_head st = 0 then 0 else ll_last st) (write64 (nd + 8) c m)"
  have t: "unat (topChunk h) + 48 \<le> 0x3000000" using heap_room_top(2) [OF assms(1)] by simp
  have b: "\<not> within nd 8 x" "\<not> within (nd + 8) 8 x" if "x < topChunk h" for x
    using below_not_within [of x "topChunk h" 32 8] below_not_within [of x "topChunk h" 40 8] that t
    by (simp_all add: nd_def add.assoc)
  show ?thesis
  proof (rule that [of ?m])
    show "?m x = kmem h x" if "x < topChunk h" for x
      using fr b that by (simp add: write64_outside)
    show "read64 ?m (nd + 8) = c" by (simp add: mem_frame apart_def)
  qed (simp_all add: Stack_push_def z node_data_addr_def Let_def st_def)
qed

lemma free_then_malloc:
  fixes h :: "'a heap_scheme"
  assumes room: "heap_room {0} 48 h"
    and k: "k < 21" "ll_head (bucket h ! k) = 0" "ll_size (bucket h ! k) = 0"
    and c: "c \<noteq> 0" "unat c + 32 \<le> unat (topChunk h)" "kmem h c \<noteq> 1"
      "bucket_index (read64 (kmem h) (c + 8)) = Some k"
    and sz: "alignSize sz = Some asz" "bucket_index asz = Some k"
  shows "\<exists>h2 h3. kpkFree (c + 32) h = Some h2 \<and> kpkFree (c + 32) h2 = Some h2 \<and>
    kpkMalloc sz h2 = Some (c + 32, h3) \<and> (\<forall>x < topChunk h. x \<noteq> c \<longrightarrow> kmem h3 x = kmem h x)"
proof -
  define g where "g = h\<lparr>kmem := (kmem h)(c := 1)\<rparr>"
  define nd where "nd = topChunk h + 32"
  have ctop: "c < topChunk h" using c(2) by (simp add: word_less_nat_alt)
  have gr: "heap_room {0} (48 + 0) g" using room by (simp add: g_def)
  have rd: "read64 (kmem g) (c + 8) = read64 (kmem h) (c + 8)"
    by (simp add: g_def mem_frame apart_def)
  have len: "length (bucket h) = 21" using room by (simp add: heap_room_def KPKBUCKET_SIZE_def)
  obtain m where p: "Stack_push k c g = Some (g\<lparr>kmem := m, topChunk := topChunk g + 48,
      bucket := (bucket g)[k := \<lparr>ll_head = nd, ll_last = nd, ll_size = 1\<rparr>]\<rparr>)"
    and fr: "\<And>x. x < topChunk g \<Longrightarrow> m x = kmem g x"
    and m: "read64 m nd = 0" "read64 m (nd + 8) = c"
    using Stack_push_room [OF gr _ k(1), of c] k(2,3) by (auto simp: g_def nd_def)
  define h2 where "h2 = g\<lparr>kmem := m, topChunk := topChunk g + 48,
      bucket := (bucket g)[k := \<lparr>ll_head = nd, ll_last = nd, ll_size = 1\<rparr>]\<rparr>"
  have "kpkFree (c + 32) h = pushChunk c g"
    using c(3) by (simp add: kpkFree_def sizeof_chunk_def chunk_free_addr_def g_def)
  also have "\<dots> = Some h2"
    using p c(4) rd len k(1) by (simp add: pushChunk_def chunk_size_addr_def h2_def g_def)
  finally have f: "kpkFree (c + 32) h = Some h2" .
  have "kmem h2 c = 1" using fr [of c] ctop by (simp add: h2_def g_def)
  then have f2: "kpkFree (c + 32) h2 = Some h2"
    by (simp add: kpkFree_def sizeof_chunk_def chunk_free_addr_def)
  have "nd \<noteq> 0" using heap_room_add [OF room, of 32] heap_room_top [OF room]
    by (auto simp: nd_def)
  then have "checkBucket asz h2 = Some (c, h2\<lparr>bucket := (bucket h2)
      [k := \<lparr>ll_head = 0, ll_last = nd, ll_size = 0\<rparr>]\<rparr>)"
    using sz(2) len k(1) m
    by (simp add: checkBucket_def h2_def g_def isEmpty_def Stack_pop_def getSize_def ll_get_def
        deleteElem_idx_def node_next_def node_data_addr_def Let_def)
  then have "kpkMalloc sz h2 = Some (c + 32, h2\<lparr>kmem := m(c := 0),
      bucket := (bucket h2)[k := \<lparr>ll_head = 0, ll_last = nd, ll_size = 0\<rparr>]\<rparr>)"
    using sz(1) c(1)
    by (simp add: kpkMalloc_def sizeof_chunk_def chunk_free_addr_def Let_def h2_def)
  moreover have "\<forall>x < topChunk h. x \<noteq> c \<longrightarrow> (m(c := 0)) x = kmem h x"
    using fr by (simp add: g_def)
  ultimately show ?thesis using f f2 by fastforce
qed

lemma heap_init_room:
  "heap_room K n (heap_init m) \<longleftrightarrow> n \<le> 0x2E00000"
  if "K \<subseteq> {..<21}"
  using that by (auto simp: heap_room_def heap_init_def LinkedList_def KPKBUCKET_SIZE_def
      KPKHEAP_START_def KPKHEAP_END_def)

lemma heap_init_sizes [simp]: "b \<in> set (bucket (heap_init m)) \<Longrightarrow> ll_size b = 0"
  by (auto simp: heap_init_def LinkedList_def split: if_splits)

lemma size_class_17_32: "size_class 32 = size_class 17"
  by code_simp

lemma heap_room_0: "heap_room {..<21} n h \<Longrightarrow> heap_room {0} n h"
  by (erule heap_room_mono) auto

lemma malloc_room:
  fixes h :: "'a heap_scheme"
  assumes room: "heap_room {..<21} (unat sz + 32 + n) h" and sz: "sz \<noteq> 0" "sz < 2 ^ 24"
  obtains k asz h1 where "size_class sz = Some k" "k < 21" "bucket_index asz = Some k"
    "kpkMalloc sz h = Some (topChunk h + 32, h1)" "heap_room {..<21} n h1" "bucket h1 = bucket h"
    "topChunk h1 = topChunk h + (sz + 32)" "unat (topChunk h1) = unat (topChunk h) + unat sz + 32"
    "kmem h1 (topChunk h) = 0" "read64 (kmem h1) (topChunk h + 8) = asz"
    "\<And>x. x < topChunk h \<Longrightarrow> kmem h1 x = kmem h x"
proof -
  obtain k asz where k: "k < 21" "alignSize sz = Some asz" "bucket_index asz = Some k"
    using size_class_bound [OF sz] by (auto simp: size_class_def split: bind_splits)
  note ml = kpkMalloc_room [OF room k(2,3) _ k(1)] and t = heap_room_top [OF room]
  let ?h1 = "h\<lparr>kmem := chunk_header (topChunk h) asz (kmem h), topChunk := topChunk h + (sz + 32)\<rparr>"
  have fr: "kmem ?h1 x = kmem h x" if "x < topChunk h" for x
    using below_not_within [of x "topChunk h" 0 32] that t by (simp add: chunk_header_outside)
  have u: "unat (topChunk h + (sz + 32)) = unat (topChunk h) + unat sz + 32"
    using heap_room_add [OF room, of "sz + 32"] ml(2) k(1) by simp
  show ?thesis
    by (rule that [of k asz ?h1]) (use ml(1,3) k u fr in \<open>simp_all add: size_class_def\<close>)
qed

lemma size_class_align:
  assumes "size_class sz = Some k"
  obtains asz where "alignSize sz = Some asz" "bucket_index asz = Some k"
  using assms by (auto simp: size_class_def split: bind_splits)

text \<open>
  C22. On a heap whose 21 free lists are all empty, a chunk of 1 to \<open>2^24 - 1\<close> bytes that is cut from the top and
  freed is handed out again by the next request of its size class, at the same address and with its contents
  untouched; freeing it a second time before that changes nothing. The theorem is about one chunk: the node of a free list
  may be put into a freed chunk that is shorter than the node.
\<close>

theorem kpkFree_reuse:
  fixes h :: "'a heap_scheme"
  assumes room: "heap_room {..<21} (unat sz + 32 + 48) h"
    and empty: "\<forall>b \<in> set (bucket h). ll_size b = 0"
    and sz: "sz \<noteq> 0" "sz < 2 ^ 24" "size_class sz' = size_class sz"
  shows "\<exists>p h1 h2 h3. kpkMalloc sz h = Some (p, h1) \<and> kpkFree p h1 = Some h2 \<and>
    kpkFree p h2 = Some h2 \<and> kpkMalloc sz' h2 = Some (p, h3) \<and>
    (\<forall>x. within p sz x \<longrightarrow> kmem h3 x = kmem h1 x)"
proof -
  let ?c = "topChunk h"
  obtain k asz h1 where a: "size_class sz = Some k" "k < 21" "bucket_index asz = Some k"
    "kpkMalloc sz h = Some (?c + 32, h1)" "heap_room {..<21} 48 h1" "bucket h1 = bucket h"
    "unat (topChunk h1) = unat ?c + unat sz + 32"
    "kmem h1 ?c = 0" "read64 (kmem h1) (?c + 8) = asz"
    using malloc_room [OF room sz(1,2)] by metis
  note t = heap_room_top [OF room]
  obtain asz' where s': "alignSize sz' = Some asz'" "bucket_index asz' = Some k"
    using size_class_align [of sz' k] sz(3) a(1) by auto
  have b: "ll_head (bucket h1 ! k) = 0" "ll_size (bucket h1 ! k) = 0"
    using room empty a(2,6) by (simp_all add: heap_room_def KPKBUCKET_SIZE_def)
  have c: "?c \<noteq> 0" "unat ?c + 32 \<le> unat (topChunk h1)" "kmem h1 ?c \<noteq> 1"
      "bucket_index (read64 (kmem h1) (?c + 8)) = Some k"
    using t a by auto
  obtain h2 h3 where r: "kpkFree (?c + 32) h1 = Some h2" "kpkFree (?c + 32) h2 = Some h2"
      "kpkMalloc sz' h2 = Some (?c + 32, h3)"
      "\<forall>x < topChunk h1. x \<noteq> ?c \<longrightarrow> kmem h3 x = kmem h1 x"
    using free_then_malloc [OF heap_room_0 [OF a(5)] a(2) b c s'] by blast
  have "kmem h3 x = kmem h1 x" if "within (?c + 32) sz x" for x
  proof -
    have "unat ?c + 32 \<le> unat x" "unat x < unat ?c + 32 + unat sz"
      using that within_range [of "?c + 32" sz x] heap_room_add [OF room, of 32] t by simp_all
    then have "x < topChunk h1" "x \<noteq> ?c" using a(7) by (auto simp: word_less_nat_alt)
    then show ?thesis using r(4) by blast
  qed
  then show ?thesis using a(4) r by blast
qed

theorem kpkFree_reuse_witness:
  "\<exists>p h1 h2 h3. kpkMalloc 17 (heap_init (\<lambda>_. 7)) = Some (p, h1) \<and> kpkFree p h1 = Some h2 \<and>
     kpkFree p h2 = Some h2 \<and> kpkMalloc 32 h2 = Some (p, h3) \<and>
     (\<forall>x. within p 17 x \<longrightarrow> kmem h3 x = kmem h1 x)"
  by (rule kpkFree_reuse) (simp_all add: heap_init_room heap_init_sizes size_class_17_32)

text \<open>
  The top of the heap advances by the requested size and not by the size recorded in the
  header, so a reused chunk can be too small for its class: after two requests, freeing the
  first and requesting a larger size of its class returns a block that contains the header
  of the second chunk.
\<close>

lemma kpkMalloc_reuse_overlap:
  fixes h :: "'a heap_scheme"
  assumes room: "heap_room {..<21} (unat sz + 32 + (unat sz2 + 32 + 48)) h"
    and empty: "\<forall>b \<in> set (bucket h). ll_size b = 0"
    and sz: "sz \<noteq> 0" "sz < 2 ^ 24" "sz2 \<noteq> 0" "sz2 < 2 ^ 24" "size_class sz' = size_class sz"
    and less: "sz < sz'"
  shows "\<exists>p q h1 h2 h3 h4. kpkMalloc sz h = Some (p, h1) \<and> kpkMalloc sz2 h1 = Some (q, h2) \<and>
    kpkFree p h2 = Some h3 \<and> kpkMalloc sz' h3 = Some (p, h4) \<and> within p sz' (q - sizeof_chunk)"
proof -
  let ?c = "topChunk h"
  obtain k asz h1 where a: "size_class sz = Some k" "k < 21" "bucket_index asz = Some k"
    "kpkMalloc sz h = Some (?c + 32, h1)" "heap_room {..<21} (unat sz2 + 32 + 48) h1"
    "bucket h1 = bucket h" "topChunk h1 = ?c + (sz + 32)"
    "unat (topChunk h1) = unat ?c + unat sz + 32"
    "kmem h1 ?c = 0" "read64 (kmem h1) (?c + 8) = asz"
    using malloc_room [OF room sz(1,2)] by metis
  obtain h2 where d: "kpkMalloc sz2 h1 = Some (topChunk h1 + 32, h2)" "heap_room {..<21} 48 h2"
    "bucket h2 = bucket h1" "unat (topChunk h2) = unat (topChunk h1) + unat sz2 + 32"
    and fr: "\<And>x. x < topChunk h1 \<Longrightarrow> kmem h2 x = kmem h1 x"
    using malloc_room [OF a(5) sz(3,4)] by metis
  obtain asz' where s': "alignSize sz' = Some asz'" "bucket_index asz' = Some k"
    using size_class_align [of sz' k] sz(5) a(1) by auto
  have b: "ll_head (bucket h2 ! k) = 0" "ll_size (bucket h2 ! k) = 0"
    using room empty a(2,6) d(3) by (simp_all add: heap_room_def KPKBUCKET_SIZE_def)
  have "kmem h2 ?c = 0" using fr [of ?c] a(8,9) by (simp add: word_less_nat_alt)
  moreover have "read64 (kmem h2) (?c + 8) = read64 (kmem h1) (?c + 8)"
    by (rule read64_below [where t = "topChunk h1", OF fr]) (use heap_room_add [OF room, of 8] a(8) in auto)
  ultimately have c: "?c \<noteq> 0" "unat ?c + 32 \<le> unat (topChunk h2)" "kmem h2 ?c \<noteq> 1"
      "bucket_index (read64 (kmem h2) (?c + 8)) = Some k"
    using heap_room_top [OF room] a d(4) by auto
  obtain h3 h4 where r: "kpkFree (?c + 32) h2 = Some h3" "kpkMalloc sz' h3 = Some (?c + 32, h4)"
    using free_then_malloc [OF heap_room_0 [OF d(2)] a(2) b c s'] by blast
  have "within (?c + 32) sz' (topChunk h1 + 32 - sizeof_chunk)"
    using less by (simp add: within_def a(7) sizeof_chunk_def)
  then show ?thesis using a(4) d(1) r by blast
qed

lemma kpkMalloc_reuse_overlap_witness:
  "\<exists>p q h1 h2 h3 h4. kpkMalloc 17 (heap_init (\<lambda>_. 7)) = Some (p, h1) \<and>
     kpkMalloc 8 h1 = Some (q, h2) \<and> kpkFree p h2 = Some h3 \<and> kpkMalloc 32 h3 = Some (p, h4) \<and>
     within p 32 (q - sizeof_chunk)"
  by (rule kpkMalloc_reuse_overlap) (simp_all add: heap_init_room heap_init_sizes size_class_17_32)

lemma Stack_push_keeps_room:
  assumes "heap_room {0} (48 + n) h" and "0 < k"
  shows "heap_room {0} n (h\<lparr>kmem := m, topChunk := topChunk h + 48, bucket := (bucket h)[k := st]\<rparr>)"
  using heap_room_add [OF assms(1), of 48] heap_room_top [OF assms(1)] assms
  by (simp add: heap_room_def KPKHEAP_START_def KPKHEAP_END_def word_le_nat_alt)

lemma Stack_push_step:
  fixes h :: "'a heap_scheme"
  assumes "heap_room {0} (48 + n) h" "0 < k" "k < 21"
  defines "nd \<equiv> topChunk h + 32" and "st \<equiv> bucket h ! k"
  shows "\<exists>h'. Stack_push k c h = Some h' \<and> topChunk h' = topChunk h + 48 \<and> heap_room {0} n h' \<and>
    bucket h' = (bucket h)[k := (if ll_head st = 0
       then \<lparr>ll_head = nd, ll_last = nd, ll_size = ll_size st + 1\<rparr>
       else st\<lparr>ll_head := nd, ll_size := ll_size st + 1\<rparr>)] \<and>
    (\<forall>x < topChunk h. kmem h' x = kmem h x) \<and>
    read64 (kmem h') nd = (if ll_head st = 0 then 0 else ll_last st) \<and> read64 (kmem h') (nd + 8) = c"
  using Stack_push_keeps_room [OF assms(1,2)]
  by (rule_tac c = c in Stack_push_room [OF assms(1) _ assms(3)]) (auto simp: nd_def st_def)

text \<open>
  Of three chunks pushed on one bucket the second is lost: \<open>Stack::push\<close> links the new
  head to \<open>last\<close> (the bottom of the stack) instead of the previous head, so the pops give the
  third and the first chunk and then find the stack empty with its size still 1.
\<close>

lemma Stack_push_loses_second:
  fixes h :: "'a heap_scheme"
  assumes room: "heap_room {0} 144 h" and k: "0 < k" "k < 21"
    and empty: "ll_head (bucket h ! k) = 0" "ll_size (bucket h ! k) = 0"
  shows "\<exists>h1 h2 h3 it st it' st'. Stack_push k c1 h = Some h1 \<and> Stack_push k c2 h1 = Some h2 \<and>
    Stack_push k c3 h2 = Some h3 \<and>
    Stack_pop (kmem h3) (bucket h3 ! k) = (it, st) \<and> read64 (kmem h3) it = c3 \<and>
    Stack_pop (kmem h3) st = (it', st') \<and> read64 (kmem h3) it' = c1 \<and>
    isEmpty st' \<and> getSize st' = 1"
proof -
  let ?n1 = "topChunk h + 32" and ?n3 = "topChunk h + 128"
  have len: "length (bucket h) = 21" using room by (simp add: heap_room_def KPKBUCKET_SIZE_def)
  have r1: "heap_room {0} (48 + 96) h" using room by simp
  note add = heap_room_add [OF room]
  have nz: "?n1 \<noteq> 0" "?n3 \<noteq> 0" using add [of 32] add [of 128] heap_room_top [OF room] by auto
  obtain h1 where p1: "Stack_push k c1 h = Some h1" "topChunk h1 = topChunk h + 48"
      "heap_room {0} (48 + 48) h1"
      "bucket h1 = (bucket h)[k := \<lparr>ll_head = ?n1, ll_last = ?n1, ll_size = 1\<rparr>]"
      "read64 (kmem h1) ?n1 = 0" "read64 (kmem h1) (?n1 + 8) = c1"
    using Stack_push_step [OF r1 k, of c1] empty by (auto simp: add.commute)
  obtain h2 where p2: "Stack_push k c2 h1 = Some h2" "topChunk h2 = topChunk h + 96"
      "heap_room {0} (48 + 0) h2"
      "bucket h2 = (bucket h)[k := \<lparr>ll_head = topChunk h + 80, ll_last = ?n1, ll_size = 2\<rparr>]"
      "\<forall>x < topChunk h1. kmem h2 x = kmem h1 x"
    using Stack_push_step [OF p1(3) k, of c2] p1(2,4) len k nz by (auto simp: add.commute)
  have "topChunk h + 80 \<noteq> 0" using add [of 80] heap_room_top [OF room] by auto
  then obtain h3 where p3: "Stack_push k c3 h2 = Some h3"
      "bucket h3 = (bucket h)[k := \<lparr>ll_head = ?n3, ll_last = ?n1, ll_size = 3\<rparr>]"
      "read64 (kmem h3) ?n3 = ?n1" "read64 (kmem h3) (?n3 + 8) = c3"
      "\<forall>x < topChunk h2. kmem h3 x = kmem h2 x"
    using Stack_push_step [OF p2(3) k, of c3] p2(2,4) len k by (auto simp: add.commute)
  have fr: "kmem h3 x = kmem h1 x" if "x < topChunk h1" for x
    using that p2(2,5) p3(5) p1(2) add [of 48] add [of 96] by (simp add: word_less_nat_alt)
  have u: "unat ?n1 + 16 = unat (topChunk h1)" "unat (?n1 + 8) = unat ?n1 + 8"
    using add [of 32] add [of 40] add [of 48] p1(2) by (simp_all add: add.assoc)
  have "read64 (kmem h3) ?n1 = read64 (kmem h1) ?n1"
    by (rule read64_below [where t = "topChunk h1", OF fr]) (assumption, use u in linarith)
  moreover have "read64 (kmem h3) (?n1 + 8) = read64 (kmem h1) (?n1 + 8)"
    by (rule read64_below [where t = "topChunk h1", OF fr]) (assumption, use u in linarith)
  ultimately show ?thesis
    using p1 p2(1) p3 nz len k
    by (simp add: Stack_pop_def getSize_def ll_get_def deleteElem_idx_def node_next_def
        node_data_addr_def isEmpty_def)
qed

lemma Stack_push_loses_second_witness:
  "\<exists>h1 h2 h3 it st it' st'. Stack_push 3 111 (heap_init (\<lambda>_. 7)) = Some h1 \<and>
     Stack_push 3 222 h1 = Some h2 \<and> Stack_push 3 333 h2 = Some h3 \<and>
     Stack_pop (kmem h3) (bucket h3 ! 3) = (it, st) \<and> read64 (kmem h3) it = 333 \<and>
     Stack_pop (kmem h3) st = (it', st') \<and> read64 (kmem h3) it' = 111 \<and>
     isEmpty st' \<and> getSize st' = 1"
  by (rule Stack_push_loses_second)
    (simp_all add: heap_init_room, simp_all add: heap_init_def KPKBUCKET_SIZE_def LinkedList_def)

end
