(* ===== verification/Kqueue.thy ===== *)
theory Kqueue
  imports Kpkheap
begin

text \<open>
  \<open>LinkedList::push\<close> and \<open>Queue<uint8_t>::push\<close> of \<open>kdsa.hpp\<close>, on the kernel heap, and the
  refinement of the queue to a list: every sequence of pushes and pops on the linked nodes gives
  the results it gives on a list. The contract is the locale \<open>fifo\<close>, interpreted on
  \<open>Queue_push\<close> and \<open>Queue_pop\<close>; the scheduler of \<open>Task\<close> uses its queues through it.
\<close>

section \<open>Operations\<close>

text \<open>\<open>wr\<close> stores a value of the element type at an address.\<close>

definition LinkedList_push ::
    "(addr \<Rightarrow> 'd \<Rightarrow> mem \<Rightarrow> mem) \<Rightarrow> 'd \<Rightarrow> llist \<Rightarrow> 'a heap_scheme \<Rightarrow> (llist \<times> 'a heap_scheme) option" where
  "LinkedList_push wr data l h =
     do { (l1, h1) \<leftarrow>
            (if ll_head l = 0
             then do { (n, h1) \<leftarrow> kpkZalloc sizeof_node h;
                       Some (l\<lparr>ll_head := n, ll_last := n\<rparr>,
                             h1\<lparr>kmem := write64 n 0 (wr (node_data_addr n) data (kmem h1))\<rparr>) }
             else if ll_last l = ll_head l
             then do { (n, h1) \<leftarrow> kpkZalloc sizeof_node h;
                       let m = write64 n 0 (wr (node_data_addr n) data (kmem h1));
                       Some (l\<lparr>ll_last := n\<rparr>, h1\<lparr>kmem := write64 (ll_head l) n m\<rparr>) }
             else do { (n, h1) \<leftarrow> kpkZalloc sizeof_node h;
                       let m = write64 n 0 (wr (node_data_addr n) data (kmem h1));
                       Some (l\<lparr>ll_last := n\<rparr>, h1\<lparr>kmem := write64 (ll_last l) n m\<rparr>) });
          Some (l1\<lparr>ll_size := ll_size l1 + 1\<rparr>, h1) }"

definition Queue_push :: "u8 \<Rightarrow> llist \<Rightarrow> 'a heap_scheme \<Rightarrow> (llist \<times> 'a heap_scheme) option" where
  "Queue_push data l h =
     do { (l1, h1) \<leftarrow>
            (if ll_head l = 0
             then do { (n, h1) \<leftarrow> kpkZalloc sizeof_node h;
                       Some (l\<lparr>ll_head := n, ll_last := n\<rparr>,
                             h1\<lparr>kmem := write64 n 0 ((kmem h1)(node_data_addr n := data))\<rparr>) }
             else if ll_last l = ll_head l
             then do { (n, h1) \<leftarrow> kpkZalloc sizeof_node h;
                       let m = write64 n 0 ((kmem h1)(node_data_addr n := data));
                       Some (l\<lparr>ll_last := n\<rparr>, h1\<lparr>kmem := write64 (ll_head l) n m\<rparr>) }
             else do { (n, h1) \<leftarrow> kpkZalloc sizeof_node h;
                       let m = write64 n 0 ((kmem h1)(node_data_addr n := data));
                       Some (l\<lparr>ll_last := n\<rparr>, h1\<lparr>kmem := write64 (ll_last l) n m\<rparr>) });
          Some (l1\<lparr>ll_size := ll_size l1 + 1\<rparr>, h1) }"

section \<open>The queue contract\<close>

datatype 'd queue_op = Push 'd | Pop

primrec run_queue ::
    "('d \<Rightarrow> 'q \<Rightarrow> 'q option) \<Rightarrow> ('q \<Rightarrow> 'd option \<times> 'q) \<Rightarrow> 'd queue_op list \<Rightarrow> 'q \<Rightarrow> ('d option list \<times> 'q) option"
  where
  "run_queue push pop [] q = Some ([], q)"
| "run_queue push pop (opn # ops) q =
     (case opn of
        Push d \<Rightarrow> do { q1 \<leftarrow> push d q; run_queue push pop ops q1 }
      | Pop \<Rightarrow> (let (r, q1) = pop q in map_option (\<lambda>(rs, q2). (r # rs, q2)) (run_queue push pop ops q1)))"

definition list_pop :: "'d list \<Rightarrow> 'd option \<times> 'd list" where
  "list_pop xs = (case xs of [] \<Rightarrow> (None, []) | x # ys \<Rightarrow> (Some x, ys))"

abbreviation run_list :: "'d queue_op list \<Rightarrow> 'd list \<Rightarrow> ('d option list \<times> 'd list) option" where
  "run_list \<equiv> run_queue (\<lambda>d xs. Some (xs @ [d])) list_pop"

abbreviation pushes :: "'d queue_op list \<Rightarrow> nat" where
  "pushes ops \<equiv> length (filter (\<lambda>opn. opn \<noteq> Pop) ops)"

locale fifo =
  fixes push :: "'d \<Rightarrow> 'q \<Rightarrow> 'q option"
    and pop :: "'q \<Rightarrow> 'd option \<times> 'q"
    and abs :: "'q \<Rightarrow> 'd list"
    and room :: "nat \<Rightarrow> 'q \<Rightarrow> bool"
  assumes push_room:
    "room (Suc n) q \<Longrightarrow> \<exists>q'. push d q = Some q' \<and> room n q' \<and> abs q' = abs q @ [d]"
    and pop_room:
    "room n q \<Longrightarrow> \<exists>q'. pop q = (fst (list_pop (abs q)), q') \<and> room n q' \<and> abs q' = snd (list_pop (abs q))"
begin

lemma run_refines:
  assumes "room (pushes ops + n) q"
  shows "\<exists>rs xs q'. run_queue push pop ops q = Some (rs, q') \<and>
    run_list ops (abs q) = Some (rs, xs) \<and> abs q' = xs \<and> room n q'"
  using assms
proof (induction ops arbitrary: q)
  case Nil
  then show ?case by simp
next
  case (Cons opn ops)
  show ?case
  proof (cases opn)
    case (Push d)
    then have "room (Suc (pushes ops + n)) q" using Cons.prems by simp
    then obtain q1 where "push d q = Some q1" "room (pushes ops + n) q1" "abs q1 = abs q @ [d]"
      using push_room by blast
    then show ?thesis using Cons.IH Push by fastforce
  next
    case Pop
    then have "room (pushes ops + n) q" using Cons.prems by simp
    then obtain q1 where q1: "pop q = (fst (list_pop (abs q)), q1)" "room (pushes ops + n) q1"
        "abs q1 = snd (list_pop (abs q))"
      using pop_room by blast
    obtain rs xs q2 where "run_queue push pop ops q1 = Some (rs, q2)"
        "run_list ops (snd (list_pop (abs q))) = Some (rs, xs)" "abs q2 = xs" "room n q2"
      using Cons.IH [OF q1(2)] q1(3) by auto
    then show ?thesis using Pop q1(1) by (simp add: case_prod_beta)
  qed
qed

end

section \<open>Nodes on the heap\<close>

definition Queue_data :: "mem \<Rightarrow> llist \<Rightarrow> u8 list" where
  "Queue_data m l =
     map (\<lambda>i. m (node_data_addr ((node_next m ^^ i) (ll_head l)))) [0..<unat (ll_size l)]"

definition queue_nodes :: "llist \<Rightarrow> 'a heap_scheme \<Rightarrow> addr list \<Rightarrow> bool" where
  "queue_nodes l h ns \<longleftrightarrow> chain (kmem h) (ll_head l) ns \<and> ll_size l = of_nat (length ns) \<and>
     (ns \<noteq> [] \<longrightarrow> last ns = ll_last l) \<and> distinct ns \<and>
     (\<forall>a \<in> set ns. unat a + 16 \<le> unat (topChunk h)) \<and>
     (\<forall>a \<in> set ns. \<forall>b \<in> set ns. a \<noteq> b \<longrightarrow> apart a 16 b 16) \<and>
     48 * length ns \<le> unat (topChunk h)"

definition queue_room :: "nat \<Rightarrow> llist \<times> 'a heap_scheme \<Rightarrow> bool" where
  "queue_room n q \<longleftrightarrow> heap_room {0} (48 * n) (snd q) \<and> (\<exists>ns. queue_nodes (fst q) (snd q) ns)"

text \<open>Several queues on one heap: each a chain of its own nodes.\<close>

definition queues_ok :: "llist list \<Rightarrow> 'a heap_scheme \<Rightarrow> bool" where
  "queues_ok qs h \<longleftrightarrow> (\<exists>nss. length nss = length qs \<and>
     (\<forall>i < length qs. queue_nodes (qs ! i) h (nss ! i)) \<and>
     (\<forall>i < length qs. \<forall>j < length qs. i \<noteq> j \<longrightarrow>
        (\<forall>a \<in> set (nss ! i). \<forall>b \<in> set (nss ! j). apart a 16 b 16)))"

definition queue_pop_val :: "llist \<times> 'a heap_scheme \<Rightarrow> u8 option \<times> llist \<times> 'a heap_scheme" where
  "queue_pop_val q = (let (p, l, h) = Queue_pop (fst q) (snd q)
     in (if p = 0 then None else Some (kmem h p), l, h))"

definition link_node :: "addr list \<Rightarrow> addr \<Rightarrow> u8 \<Rightarrow> mem \<Rightarrow> mem" where
  "link_node ns n d m = (let m1 = write64 n 0 (m(n + 8 := d))
     in if ns = [] then m1 else write64 (last ns) n m1)"

lemma chain_nth:
  "chain m p ns \<Longrightarrow> i < length ns \<Longrightarrow> (node_next m ^^ i) p = ns ! i"
proof (induction ns arbitrary: p i)
  case (Cons n ns)
  then show ?case by (cases i) (simp_all add: funpow_Suc_right del: funpow.simps(2))
qed simp

lemma queue_nodes_length: "queue_nodes l h ns \<Longrightarrow> unat (ll_size l) = length ns"
  using unat_u64_less [of "topChunk h"] by (simp add: queue_nodes_def unat_of_nat)

lemma Queue_data_nodes:
  assumes "queue_nodes l h ns"
  shows "Queue_data (kmem h) l = map (\<lambda>n. kmem h (n + 8)) ns"
proof (rule nth_equalityI)
  show "length (Queue_data (kmem h) l) = length (map (\<lambda>n. kmem h (n + 8)) ns)"
    using queue_nodes_length [OF assms] by (simp add: Queue_data_def)
  fix i assume "i < length (Queue_data (kmem h) l)"
  then have "i < length ns" using queue_nodes_length [OF assms] by (simp add: Queue_data_def)
  then show "Queue_data (kmem h) l ! i = map (\<lambda>n. kmem h (n + 8)) ns ! i"
    using queue_nodes_length [OF assms] chain_nth [of "kmem h" "ll_head l" ns i] assms
    by (simp add: Queue_data_def node_data_addr_def) (simp add: queue_nodes_def)
qed


lemma chain_append_node:
  assumes "chain m p ns" "distinct ns" "n \<noteq> 0" "ns \<noteq> []"
    and "\<And>a. a \<in> set ns \<Longrightarrow> a \<noteq> last ns \<Longrightarrow> node_next m' a = node_next m a"
    and "node_next m' (last ns) = n" "node_next m' n = 0"
  shows "chain m' p (ns @ [n])"
  using assms
proof (induction ns arbitrary: p)
  case (Cons a ns)
  show ?case
  proof (cases "ns = []")
    case True
    then show ?thesis using Cons.prems by simp
  next
    case False
    then have l: "last (a # ns) = last ns" "a \<noteq> last ns" using Cons.prems(2) by auto
    then have "node_next m' a = node_next m a" using Cons.prems(5) by simp
    moreover have "chain m' (node_next m a) (ns @ [n])"
      by (rule Cons.IH) (use Cons.prems False l in auto)
    ultimately show ?thesis using Cons.prems(1) by simp
  qed
qed simp

text \<open>What \<open>Queue_push\<close> writes: a fresh node, linked behind the last one if there is one.\<close>

lemma Queue_push_eq:
  assumes "queue_nodes l h ns" "kpkZalloc sizeof_node h = Some (n, h1)"
  shows "Queue_push d l h = Some
     (\<lparr>ll_head = (if ns = [] then n else ll_head l), ll_last = n, ll_size = ll_size l + 1\<rparr>,
      h1\<lparr>kmem := link_node ns n d (kmem h1)\<rparr>)"
proof (cases ns)
  case Nil
  then have "ll_head l = 0" using assms(1) by (simp add: queue_nodes_def)
  then show ?thesis using Nil assms(2) by (simp add: Queue_push_def link_node_def node_data_addr_def)
next
  case (Cons a as)
  then have "ll_head l \<noteq> 0" "last ns = ll_last l" using assms(1) by (auto simp: queue_nodes_def)
  then show ?thesis
    using Cons assms(2) by (auto simp: Queue_push_def link_node_def node_data_addr_def Let_def)
qed

lemma apart_16:
  assumes "apart a 16 b 16"
  shows "apart a 8 b 8" "apart a 8 (b + 8) 1" "\<not> within b 8 (a + 8)" "a + 8 \<noteq> b + 8"
proof -
  show "apart a 8 b 8" using apart_sub [OF assms, of 0 8 0 8] by simp
  show "apart a 8 (b + 8) 1" using apart_sub [OF assms, of 0 8 8 1] by simp
  show "\<not> within b 8 (a + 8)"
    using apart_not_within [OF assms, of 8] by (auto simp: within_def word_less_nat_alt)
  show "a + 8 \<noteq> b + 8" using assms by (auto simp: apart_def)
qed

lemma apart_fresh:
  fixes a t :: addr
  assumes "unat a + 16 \<le> unat t" "unat t + 48 \<le> 0x3000000"
  shows "apart a 16 (t + 32) 16"
proof -
  have u: "unat (t + 32) = unat t + 32" using assms(2) by (simp add: unat_word_ariths)
  have "unat (t + 32 - a) = unat t + 32 - unat a" using u assms by (simp add: unat_sub_if')
  moreover have "unat (a - (t + 32)) = 2 ^ 64 + unat a - (unat t + 32)"
    using u assms unat_sub_if' [of a "t + 32"] by simp
  moreover have "16 \<le> unat t + 32 - unat a" "16 \<le> 18446744073709551584 + unat a - unat t"
    using assms by linarith+
  ultimately show ?thesis unfolding apart_def word_le_nat_alt by simp
qed

lemma link_node_new:
  assumes "ns \<noteq> [] \<longrightarrow> apart n 16 (last ns) 16"
  shows "read64 (link_node ns n d m) n = 0" "link_node ns n d m (n + 8) = d"
proof -
  have "\<not> within n 8 (n + 8)" by (simp add: within_def)
  then show "read64 (link_node ns n d m) n = 0" "link_node ns n d m (n + 8) = d"
    using assms apart_16 [of n "last ns"]
    by (simp_all add: link_node_def mem_frame write64_outside Let_def)
qed

lemma link_node_old:
  assumes "apart a 16 n 16" "ns \<noteq> [] \<Longrightarrow> a \<noteq> last ns \<Longrightarrow> apart a 16 (last ns) 16"
  shows "link_node ns n d m (a + 8) = m (a + 8)"
    "read64 (link_node ns n d m) a = (if ns \<noteq> [] \<and> a = last ns then n else read64 m a)"
proof -
  have s: "\<not> within a 8 (a + 8)" by (simp add: within_def)
  show "link_node ns n d m (a + 8) = m (a + 8)"
    using assms(2) apart_16 [OF assms(1)] apart_16 [of a "last ns"] s
    by (cases "ns = []"; cases "a = last ns") (simp_all add: link_node_def write64_outside Let_def)
  show "read64 (link_node ns n d m) a = (if ns \<noteq> [] \<and> a = last ns then n else read64 m a)"
    using assms(2) apart_16 [OF assms(1)] apart_16 [of a "last ns"]
    by (cases "ns = []"; cases "a = last ns") (simp_all add: link_node_def mem_frame Let_def)
qed

text \<open>A node of any queue keeps its data, and its link unless it is the last node of this queue.\<close>

lemma link_node_frame:
  assumes room: "heap_room {0} (48 + k) h" and fr: "\<And>x. x < topChunk h \<Longrightarrow> m0 x = kmem h x"
    and low: "unat a + 16 \<le> unat (topChunk h)"
    and ap: "ns \<noteq> [] \<Longrightarrow> a \<noteq> last ns \<Longrightarrow> apart a 16 (last ns) 16"
  shows "link_node ns (topChunk h + 32) d m0 (a + 8) = kmem h (a + 8)"
    "read64 (link_node ns (topChunk h + 32) d m0) a =
       (if ns \<noteq> [] \<and> a = last ns then topChunk h + 32 else read64 (kmem h) a)"
proof -
  note t = heap_room_top [OF room]
  have f: "m0 (a + 8) = kmem h (a + 8)" "read64 m0 a = read64 (kmem h) a"
    using low fr [of "a + 8"] read64_below [of "topChunk h" m0 "kmem h" a] fr t
    by (auto simp: word_less_nat_alt unat_word_ariths)
  have "apart a 16 (topChunk h + 32) 16" using apart_fresh [OF low] t by simp
  from link_node_old [OF this ap] f
  show "link_node ns (topChunk h + 32) d m0 (a + 8) = kmem h (a + 8)"
    "read64 (link_node ns (topChunk h + 32) d m0) a =
       (if ns \<noteq> [] \<and> a = last ns then topChunk h + 32 else read64 (kmem h) a)" by simp_all
qed

lemma queue_push_nodes:
  fixes h :: "'a heap_scheme"
  assumes room: "heap_room {0} (48 + k) h" and q: "queue_nodes l h ns"
  defines "n \<equiv> topChunk h + 32"
  obtains l' m where "Queue_push d l h = Some (l', h\<lparr>kmem := m, topChunk := topChunk h + 48\<rparr>)"
    "heap_room {0} k (h\<lparr>kmem := m, topChunk := topChunk h + 48\<rparr>)"
    "queue_nodes l' (h\<lparr>kmem := m, topChunk := topChunk h + 48\<rparr>) (ns @ [n])" "m (n + 8) = d"
    "\<forall>a. unat a + 16 \<le> unat (topChunk h) \<and> (\<forall>b \<in> set ns. a \<noteq> b \<longrightarrow> apart a 16 b 16) \<longrightarrow>
       m (a + 8) = kmem h (a + 8) \<and> (a \<notin> set ns \<longrightarrow> read64 m a = read64 (kmem h) a)"
proof -
  obtain m0 where z: "kpkZalloc sizeof_node h = Some (n, h\<lparr>kmem := m0, topChunk := topChunk h + 48\<rparr>)"
    and fr: "\<And>x. x < topChunk h \<Longrightarrow> m0 x = kmem h x"
    and r': "\<And>m. heap_room {0} k (h\<lparr>kmem := m, topChunk := topChunk h + 48\<rparr>)"
    using kpkZalloc_node [OF room] unfolding n_def by auto
  note t = heap_room_top [OF room]
  have u: "unat n = unat (topChunk h) + 32" "unat (topChunk h + 48) = unat (topChunk h) + 48"
    using heap_room_add [OF room, of 32] heap_room_add [OF room, of 48] by (simp_all add: n_def)
  have low: "unat a + 16 \<le> unat (topChunk h)" if "a \<in> set ns" for a
    using q that by (simp add: queue_nodes_def)
  have ap: "apart a 16 n 16" "apart n 16 a 16" if "a \<in> set ns" for a
    using apart_fresh [OF low [OF that]] t apart_sym [of a 16 n 16] by (simp_all add: n_def)
  have ap2: "apart a 16 b 16" if "a \<in> set ns" "b \<in> set ns" "a \<noteq> b" for a b
    using q that by (simp add: queue_nodes_def)
  define m where "m = link_node ns n d m0"
  define l' where "l' = \<lparr>ll_head = (if ns = [] then n else ll_head l), ll_last = n, ll_size = ll_size l + 1\<rparr>"
  let ?h = "h\<lparr>kmem := m, topChunk := topChunk h + 48\<rparr>"
  have p: "Queue_push d l h = Some (l', ?h)"
    using Queue_push_eq [OF q z, of d] by (simp add: l'_def m_def)
  have new: "read64 m n = 0" "m (n + 8) = d"
    using link_node_new [of ns n d m0] ap(2) [of "last ns"] by (auto simp: m_def)
  have old: "m (a + 8) = kmem h (a + 8)"
      "read64 m a = (if ns \<noteq> [] \<and> a = last ns then n else read64 (kmem h) a)"
    if "unat a + 16 \<le> unat (topChunk h)" "\<forall>b \<in> set ns. a \<noteq> b \<longrightarrow> apart a 16 b 16" for a
    using link_node_frame [OF room fr that(1), of ns] that(2) by (simp_all add: m_def n_def)
  have "n \<noteq> 0" using u(1) by auto
  have ch: "chain m (ll_head l') (ns @ [n])"
  proof (cases "ns = []")
    case True
    then show ?thesis using new \<open>n \<noteq> 0\<close> by (simp add: l'_def node_next_def)
  next
    case False
    then show ?thesis
      using chain_append_node [of "kmem h" "ll_head l" ns n m] q new old(2) [OF low] ap2 \<open>n \<noteq> 0\<close>
      by (simp add: queue_nodes_def l'_def node_next_def)
  qed
  have nin: "n \<notin> set ns" using low [of n] u(1) by auto
  have "\<forall>a \<in> set (ns @ [n]). \<forall>b \<in> set (ns @ [n]). a \<noteq> b \<longrightarrow> apart a 16 b 16"
    using ap ap2 by simp
  moreover have "\<forall>a \<in> set (ns @ [n]). unat a + 16 \<le> unat (topChunk ?h)" using low u by fastforce
  moreover have "distinct (ns @ [n])" "ll_size l' = of_nat (length (ns @ [n]))"
    "48 * length (ns @ [n]) \<le> unat (topChunk ?h)"
    using q nin u by (simp_all add: queue_nodes_def l'_def)
  ultimately have "queue_nodes l' ?h (ns @ [n])" using ch by (simp add: queue_nodes_def l'_def)
  moreover have "last ns \<in> set ns" if "ns \<noteq> []" using that by simp
  ultimately show ?thesis using that [OF p r'] new(2) old by fastforce
qed

text \<open>What \<open>Queue_pop\<close> leaves: the rest of the chain, or the queue as it was if empty.\<close>

lemma queue_pop_nodes:
  assumes "queue_nodes l h ns"
  obtains l' h' where
    "queue_pop_val (l, h) = (if ns = [] then None else Some (kmem h (hd ns + 8)), l', h')"
    "queue_nodes l' h' (tl ns)" "topChunk h' = topChunk h" "bucket h' = bucket h" "kmem h' = kmem h"
proof (cases ns)
  case Nil
  then have "ll_size l = 0" using assms by (simp add: queue_nodes_def)
  then show ?thesis
    using that [of l "kpwarn ''Queue is empty!'' h"] assms Nil
    by (simp add: queue_pop_val_def Queue_pop_def getSize_def kpwarn_def queue_nodes_def)
next
  case (Cons a as)
  have sz: "ll_size l \<noteq> 0" using queue_nodes_length [OF assms] Cons by auto
  have ch: "chain (kmem h) (ll_head l) (a # as)" using assms Cons by (simp add: queue_nodes_def)
  have "unat a + 16 \<le> unat (topChunk h)" using assms Cons by (simp add: queue_nodes_def)
  then have "unat (a + 8) = unat a + 8"
    using unat_u64_less [of "topChunk h"] by (simp add: unat_word_ariths)
  then have "a + 8 \<noteq> 0" by auto
  let ?l = "l\<lparr>ll_head := node_next (kmem h) a, ll_size := ll_size l - 1\<rparr>"
  have "queue_nodes ?l h as" using assms Cons by (auto simp: queue_nodes_def)
  then show ?thesis
    using that [of ?l h] Queue_pop_chain [OF ch sz] Cons \<open>a + 8 \<noteq> 0\<close> by (simp add: queue_pop_val_def)
qed

section \<open>Several queues\<close>

lemma chain_nonzero: "chain m p ns \<Longrightarrow> n \<in> set ns \<Longrightarrow> n \<noteq> 0"
  by (induction ns arbitrary: p) auto

lemma isEmpty_nodes: "queue_nodes l h ns \<Longrightarrow> isEmpty l \<longleftrightarrow> ns = []"
proof (cases ns)
  case (Cons n ns')
  assume q: "queue_nodes l h ns"
  have "ll_size l \<noteq> 0" using queue_nodes_length [OF q] Cons by auto
  moreover have ch: "chain (kmem h) (ll_head l) ns" "last ns = ll_last l"
    using q Cons by (simp_all add: queue_nodes_def)
  have "last ns \<in> set ns" using Cons by simp
  then have "ll_last l \<noteq> 0" using chain_nonzero [OF ch(1)] ch(2) by metis
  moreover have "ll_head l \<noteq> 0" using ch(1) Cons by auto
  ultimately show ?thesis using Cons by (simp add: isEmpty_def)
qed (simp add: queue_nodes_def isEmpty_def)

lemma queues_ok_isEmpty:
  assumes "queues_ok qs h" "i < length qs"
  shows "isEmpty (qs ! i) \<longleftrightarrow> Queue_data (kmem h) (qs ! i) = []"
proof -
  obtain ns where "queue_nodes (qs ! i) h ns" using assms unfolding queues_ok_def by blast
  then show ?thesis using isEmpty_nodes Queue_data_nodes by fastforce
qed

lemma queue_nodes_frame:
  assumes "queue_nodes l h ns" "\<And>a. a \<in> set ns \<Longrightarrow> read64 m a = read64 (kmem h) a"
    and "unat (topChunk h) \<le> unat t"
  shows "queue_nodes l (h\<lparr>kmem := m, topChunk := t\<rparr>) ns"
proof -
  have "chain m (ll_head l) ns = chain (kmem h) (ll_head l) ns"
    by (rule chain_cong) (simp add: node_next_def assms(2))
  then show ?thesis using assms(1,3) unfolding queue_nodes_def by fastforce
qed

text \<open>A push on one queue appends there and leaves the contents of the others.\<close>

lemma queues_push:
  fixes h :: "'a heap_scheme"
  assumes room: "heap_room {0} (48 + k) h" and qs: "queues_ok qs h" and i: "i < length qs"
  shows "\<exists>l' m. Queue_push d (qs ! i) h = Some (l', h\<lparr>kmem := m, topChunk := topChunk h + 48\<rparr>) \<and>
    heap_room {0} k (h\<lparr>kmem := m, topChunk := topChunk h + 48\<rparr>) \<and>
    queues_ok (qs[i := l']) (h\<lparr>kmem := m, topChunk := topChunk h + 48\<rparr>) \<and>
    (\<forall>j < length qs. Queue_data m (qs[i := l'] ! j) =
       (if j = i then Queue_data (kmem h) (qs ! i) @ [d] else Queue_data (kmem h) (qs ! j)))"
proof -
  obtain nss where n: "length nss = length qs" "\<And>j. j < length qs \<Longrightarrow> queue_nodes (qs ! j) h (nss ! j)"
    and ap: "\<And>j j' a b. j < length qs \<Longrightarrow> j' < length qs \<Longrightarrow> j \<noteq> j' \<Longrightarrow>
      a \<in> set (nss ! j) \<Longrightarrow> b \<in> set (nss ! j') \<Longrightarrow> apart a 16 b 16"
    using qs unfolding queues_ok_def by blast
  let ?n = "topChunk h + 32" and ?ns = "nss ! i"
  obtain l' m where p: "Queue_push d (qs ! i) h = Some (l', h\<lparr>kmem := m, topChunk := topChunk h + 48\<rparr>)"
    "heap_room {0} k (h\<lparr>kmem := m, topChunk := topChunk h + 48\<rparr>)"
    "queue_nodes l' (h\<lparr>kmem := m, topChunk := topChunk h + 48\<rparr>) (?ns @ [?n])" "m (?n + 8) = d"
    "\<forall>a. unat a + 16 \<le> unat (topChunk h) \<and> (\<forall>b \<in> set ?ns. a \<noteq> b \<longrightarrow> apart a 16 b 16) \<longrightarrow>
       m (a + 8) = kmem h (a + 8) \<and> (a \<notin> set ?ns \<longrightarrow> read64 m a = read64 (kmem h) a)"
    using queue_push_nodes [OF room n(2) [OF i], of d] .
  let ?h = "h\<lparr>kmem := m, topChunk := topChunk h + 48\<rparr>"
  have low: "unat a + 16 \<le> unat (topChunk h)" if "j < length qs" "a \<in> set (nss ! j)" for j a
    using n(2) [OF that(1)] that(2) by (simp add: queue_nodes_def)
  have u: "unat (topChunk h) \<le> unat (topChunk h + 48)" using heap_room_add [OF room, of 48] by simp
  have fr: "m (a + 8) = kmem h (a + 8)" "j \<noteq> i \<Longrightarrow> read64 m a = read64 (kmem h) a"
    if j: "j < length qs" "a \<in> set (nss ! j)" for j a
  proof -
    have c: "\<forall>b \<in> set ?ns. a \<noteq> b \<longrightarrow> apart a 16 b 16"
      using ap [OF j(1) i] j n(2) [OF i] by (cases "j = i") (auto simp: queue_nodes_def)
    show "m (a + 8) = kmem h (a + 8)" using p(5) low [OF j] c by blast
    assume "j \<noteq> i"
    then have "a \<notin> set ?ns" using ap [OF j(1) i _ j(2), of a] by (auto simp: apart_def)
    then show "read64 m a = read64 (kmem h) a" using p(5) low [OF j] c by blast
  qed
  have q': "queue_nodes (qs[i := l'] ! j) ?h (nss[i := ?ns @ [?n]] ! j)" if "j < length qs" for j
  proof (cases "j = i")
    case True
    then show ?thesis using p(3) i n(1) by simp
  next
    case False
    then show ?thesis using queue_nodes_frame [OF n(2) [OF that] fr(2) [OF that] u] by simp
  qed
  have apn: "apart a 16 ?n 16" "apart ?n 16 a 16" if "j < length qs" "a \<in> set (nss ! j)" for j a
    using apart_fresh [OF low [OF that]] heap_room_top(2) [OF room] apart_sym [of ?n 16 a 16] by simp_all
  have "queues_ok (qs[i := l']) ?h"
    unfolding queues_ok_def
    by (rule exI [of _ "nss[i := ?ns @ [?n]]"])
      (use q' n(1) ap apn i in \<open>auto simp: nth_list_update\<close>)
  moreover have "Queue_data m (qs[i := l'] ! j) =
      (if j = i then Queue_data (kmem h) (qs ! i) @ [d] else Queue_data (kmem h) (qs ! j))"
    if j: "j < length qs" for j
    using Queue_data_nodes [OF q' [OF j]] Queue_data_nodes [OF n(2) [OF j]] fr(1) [OF j] p(4) n(1) j
    by (auto simp: nth_list_update)
  ultimately show ?thesis using p(1,2) by blast
qed

text \<open>A pop of one queue, both exits.\<close>

lemma queues_pop:
  fixes h :: "'a heap_scheme"
  assumes qs: "queues_ok qs h" and i: "i < length qs"
  shows "case Queue_data (kmem h) (qs ! i) of
      [] \<Rightarrow> Queue_pop (qs ! i) h = (0, qs ! i, kpwarn ''Queue is empty!'' h)
    | d # ds \<Rightarrow> (\<exists>p l'. Queue_pop (qs ! i) h = (p, l', h) \<and> kmem h p = d \<and> queues_ok (qs[i := l']) h \<and>
        Queue_data (kmem h) l' = ds)"
proof -
  obtain nss where n: "length nss = length qs" "\<And>j. j < length qs \<Longrightarrow> queue_nodes (qs ! j) h (nss ! j)"
    and ap: "\<And>j j' a b. j < length qs \<Longrightarrow> j' < length qs \<Longrightarrow> j \<noteq> j' \<Longrightarrow>
      a \<in> set (nss ! j) \<Longrightarrow> b \<in> set (nss ! j') \<Longrightarrow> apart a 16 b 16"
    using qs unfolding queues_ok_def by blast
  note q = n(2) [OF i]
  show ?thesis
  proof (cases "nss ! i")
    case Nil
    then have "ll_size (qs ! i) = 0" using q by (simp add: queue_nodes_def)
    then show ?thesis using Queue_data_nodes [OF q] Nil by (simp add: Queue_pop_def getSize_def)
  next
    case (Cons a as)
    let ?l = "(qs ! i)\<lparr>ll_head := node_next (kmem h) a, ll_size := ll_size (qs ! i) - 1\<rparr>"
    have sz: "ll_size (qs ! i) \<noteq> 0" using queue_nodes_length [OF q] Cons by auto
    have "chain (kmem h) (ll_head (qs ! i)) (a # as)" using q Cons by (simp add: queue_nodes_def)
    note pop = Queue_pop_chain [OF this sz]
    have l: "queue_nodes ?l h as" using q Cons by (auto simp: queue_nodes_def)
    have "queues_ok (qs[i := ?l]) h"
      unfolding queues_ok_def
    proof (rule exI [of _ "nss[i := as]"], intro conjI allI impI ballI)
      fix j assume j: "j < length (qs[i := ?l])"
      then show "queue_nodes (qs[i := ?l] ! j) h (nss[i := as] ! j)"
        using l n i by (cases "i = j") simp_all
      fix j' a' b assume j': "j' < length (qs[i := ?l])" "j \<noteq> j'" "a' \<in> set (nss[i := as] ! j)"
        "b \<in> set (nss[i := as] ! j')"
      have sub: "set (nss[i := as] ! k) \<subseteq> set (nss ! k)" if "k < length qs" for k
        using Cons i n(1) by (cases "i = k") auto
      show "apart a' 16 b 16"
        using ap [of j j' a' b] sub [of j] sub [of j'] j j' by auto
    qed (simp add: n(1))
    then show ?thesis
      using pop Queue_data_nodes [OF q] Queue_data_nodes [OF l] Cons by simp
  qed
qed

section \<open>The queue contract on the heap\<close>

text \<open>The queue on the heap is a FIFO queue: \<open>Queue_data\<close> is its contents.\<close>

interpretation kq: fifo "\<lambda>d (l, h). Queue_push d l h" queue_pop_val
    "\<lambda>(l, h :: 'a heap_scheme). Queue_data (kmem h) l" queue_room
proof unfold_locales
  fix n d and q :: "llist \<times> 'a heap_scheme"
  obtain l h where q: "q = (l, h)" by force
  assume "queue_room (Suc n) q"
  then obtain ns where ns: "heap_room {0} (48 + 48 * n) h" "queue_nodes l h ns"
    by (auto simp: queue_room_def q)
  obtain l' m where p: "Queue_push d l h = Some (l', h\<lparr>kmem := m, topChunk := topChunk h + 48\<rparr>)"
    "heap_room {0} (48 * n) (h\<lparr>kmem := m, topChunk := topChunk h + 48\<rparr>)"
    "queue_nodes l' (h\<lparr>kmem := m, topChunk := topChunk h + 48\<rparr>) (ns @ [topChunk h + 32])"
    "m (topChunk h + 32 + 8) = d"
    "\<forall>a. unat a + 16 \<le> unat (topChunk h) \<and> (\<forall>b \<in> set ns. a \<noteq> b \<longrightarrow> apart a 16 b 16) \<longrightarrow>
       m (a + 8) = kmem h (a + 8) \<and> (a \<notin> set ns \<longrightarrow> read64 m a = read64 (kmem h) a)"
    using queue_push_nodes [OF ns, of d] .
  have "m (a + 8) = kmem h (a + 8)" if "a \<in> set ns" for a
    using p(5) ns(2) that by (simp add: queue_nodes_def)
  then have "Queue_data m l' = Queue_data (kmem h) l @ [d]"
    using p(4) Queue_data_nodes [OF p(3)] Queue_data_nodes [OF ns(2)] by simp
  then show "\<exists>q'. (case q of (l, h) \<Rightarrow> Queue_push d l h) = Some q' \<and> queue_room n q' \<and>
      (case q' of (l, h) \<Rightarrow> Queue_data (kmem h) l) = (case q of (l, h) \<Rightarrow> Queue_data (kmem h) l) @ [d]"
    using p(1-3) by (auto simp: q queue_room_def)
next
  fix n and q :: "llist \<times> 'a heap_scheme"
  obtain l h where q: "q = (l, h)" by force
  assume "queue_room n q"
  then obtain ns where ns: "heap_room {0} (48 * n) h" "queue_nodes l h ns"
    by (auto simp: queue_room_def q)
  obtain l' h' where p: "queue_pop_val (l, h) = (if ns = [] then None else Some (kmem h (hd ns + 8)), l', h')"
    "queue_nodes l' h' (tl ns)" "topChunk h' = topChunk h" "bucket h' = bucket h" "kmem h' = kmem h"
    using queue_pop_nodes [OF ns(2)] by metis
  have "Queue_data (kmem h') l' = tl (Queue_data (kmem h) l)"
    using Queue_data_nodes [OF p(2)] Queue_data_nodes [OF ns(2)] p(5) by (simp add: map_tl)
  moreover have "heap_room {0} (48 * n) h'" using ns(1) p(3,4) by (simp add: heap_room_def)
  ultimately show "\<exists>q'. queue_pop_val q = (fst (list_pop (case q of (l, h) \<Rightarrow> Queue_data (kmem h) l)), q') \<and>
      queue_room n q' \<and> (case q' of (l, h) \<Rightarrow> Queue_data (kmem h) l)
        = snd (list_pop (case q of (l, h) \<Rightarrow> Queue_data (kmem h) l))"
    using p(1,2) Queue_data_nodes [OF ns(2)]
    by (cases ns) (auto simp: q queue_room_def list_pop_def)
qed

text \<open>
  C4. Every sequence of pushes and pops on a \<open>Queue<uint8_t>\<close> with heap room for its pushes
  returns, and gives exactly the results and the final contents of the same sequence on a list:
  the queue is first-in first-out, and a pop of an empty queue gives \<open>NULL\<close> and changes nothing.
\<close>

theorem Queue_fifo:
  fixes h :: "'a heap_scheme"
  assumes "queue_room (pushes ops) (l, h)"
  shows "\<exists>rs xs l' h'. run_queue (\<lambda>d (l, h). Queue_push d l h) queue_pop_val ops (l, h) = Some (rs, l', h') \<and>
    run_list ops (Queue_data (kmem h) l) = Some (rs, xs) \<and> Queue_data (kmem h') l' = xs"
  using kq.run_refines [of ops 0 "(l, h)"] assms by auto

theorem Queue_fifo_witness:
  "\<exists>rs xs l' h'. run_queue (\<lambda>d (l, h). Queue_push d l h) queue_pop_val
       [Push 1, Push 2, Pop, Push 3, Pop, Pop, Pop] (LinkedList, heap_init (\<lambda>_. 7)) = Some (rs, l', h') \<and>
     rs = [Some 1, Some 2, Some 3, None] \<and> Queue_data (kmem h') l' = xs \<and> xs = []"
proof -
  let ?ops = "[Push 1, Push 2, Pop, Push 3, Pop, Pop, Pop] :: u8 queue_op list"
  have "queue_nodes LinkedList (heap_init (\<lambda>_. 7)) []"
    by (simp add: queue_nodes_def LinkedList_def)
  then have "queue_room (pushes ?ops) (LinkedList, heap_init (\<lambda>_. 7))"
    by (auto simp: queue_room_def heap_init_room)
  moreover have "Queue_data (kmem (heap_init (\<lambda>_. 7))) LinkedList = []"
    by (simp add: Queue_data_def LinkedList_def)
  ultimately show ?thesis using Queue_fifo [of ?ops LinkedList "heap_init (\<lambda>_. 7)"]
    by (auto simp: list_pop_def)
qed

text \<open>\<open>Queue::push\<close> is \<open>LinkedList::push\<close> at the element type \<open>uint8_t\<close>.\<close>

lemma Queue_push_LinkedList: "Queue_push = LinkedList_push (\<lambda>a d m. m(a := d))"
  by (intro ext) (simp add: Queue_push_def LinkedList_push_def)

end
