(* ===== verification/Bitmap.thy ===== *)
theory Bitmap
  imports Kpkheap
begin

text \<open>
  The bit map of \<open>src/src/kernel/libk/kdsa.cpp\<close>: its length and the address of its buffer in a
  record, the bits in byte memory, most significant bit of each byte first. The page frame
  allocator relies on it through the locale \<open>bit_store\<close>, interpreted here.
\<close>

section \<open>Operations\<close>

record bitmap =
  bm_length :: u64
  bm_buffer :: addr

definition initBitMap :: "u64 \<Rightarrow> 'a heap_scheme \<Rightarrow> (bitmap \<times> 'a heap_scheme) option" where
  "initBitMap len h =
     do { (b, h1) \<leftarrow> kpkZalloc (drop_bit 3 len) h;
          Some (\<lparr>bm_length = len, bm_buffer = b\<rparr>, h1) }"

definition bitIdx :: "u64 \<Rightarrow> u8" where
  "bitIdx idx = drop_bit (unat (idx mod 8)) 0x80"

definition BitMap_get :: "bitmap \<Rightarrow> mem \<Rightarrow> u64 \<Rightarrow> bool" where
  "BitMap_get b m idx \<longleftrightarrow> 0 < (m (bm_buffer b + idx div 8) AND bitIdx idx)"

definition BitMap_set :: "bitmap \<Rightarrow> u64 \<Rightarrow> bool \<Rightarrow> mem \<Rightarrow> bool \<times> mem" where
  "BitMap_set b idx val m =
     (if idx > bm_length b * 8 then (False, m)
      else (let a = bm_buffer b + idx div 8;
                m1 = m(a := m a AND NOT (bitIdx idx));
                m2 = (if val then m1(a := m1 a OR bitIdx idx) else m1)
            in (True, m2)))"

definition BitMap_getSize :: "bitmap \<Rightarrow> u64" where
  "BitMap_getSize b = bm_length b"

section \<open>Bits of a buffer\<close>

text \<open>What a client of the bit map uses: a bit reads back as it was last set, the others are kept.\<close>

locale bit_store =
  fixes get :: "'m \<Rightarrow> 'i \<Rightarrow> bool"
    and set :: "'i \<Rightarrow> bool \<Rightarrow> 'm \<Rightarrow> bool \<times> 'm"
    and ok :: "'i \<Rightarrow> bool"
  assumes set_ok: "fst (set i v m) = ok i"
    and get_set: "get (snd (set i v m)) j = (if ok i \<and> j = i then v else get m j)"
begin

text \<open>A sequence of calls, each with its own index and value: the last accepted call for an index decides.\<close>

lemma get_fold_set:
  "get (fold (\<lambda>(i, v) m. snd (set i v m)) cs m) j \<longleftrightarrow>
     (case map_of (rev (filter (\<lambda>(i, v). ok i) cs)) j of Some v \<Rightarrow> v | None \<Rightarrow> get m j)"
proof (induction cs rule: rev_induct)
  case (snoc c cs)
  then show ?case by (cases c) (auto simp: get_set)
qed simp

lemma set_idem: "get (snd (set i v (snd (set i v m)))) j = get (snd (set i v m)) j"
  by (simp add: get_set)

end

lemma bitIdx_bit: "bit (bitIdx idx) j \<longleftrightarrow> j = 7 - unat (idx mod 8)"
proof -
  have "unat (idx mod 8) < 8" by (simp add: unat_mod)
  then have "unat (idx mod 8) + j = 7 \<longleftrightarrow> j = 7 - unat (idx mod 8)" by linarith
  moreover have "bit (0x80 :: u8) n \<longleftrightarrow> n = 7" for n
  proof -
    have "(0x80 :: u8) = 2 ^ 7" by simp
    then show ?thesis using bit_exp_iff [of 7 n, where 'a = "8 word"] by auto
  qed
  ultimately show ?thesis by (simp only: bitIdx_def bit_drop_bit_eq comp_apply)
qed

lemma and_bitIdx: "0 < (w AND bitIdx idx) \<longleftrightarrow> bit w (7 - unat (idx mod 8))"
proof -
  have "(w AND bitIdx idx) = 0 \<longleftrightarrow> \<not> bit w (7 - unat (idx mod 8))"
    using bit_eq_iff [of "w AND bitIdx idx" 0] bit_imp_le_length [of w "7 - unat (idx mod 8)"]
    by (auto simp: bit_and_iff bitIdx_bit)
  then show ?thesis by (simp add: word_neq_0_conv [symmetric])
qed

lemma BitMap_get_bit: "BitMap_get b m idx \<longleftrightarrow> bit (m (bm_buffer b + idx div 8)) (7 - unat (idx mod 8))"
  by (simp add: BitMap_get_def and_bitIdx)

lemma index_eq_iff: "(i :: u64) div 8 = j div 8 \<Longrightarrow> unat (i mod 8) = unat (j mod 8) \<Longrightarrow> i = j"
  by (metis word_unat_eq_iff div_mult_mod_eq)

lemma BitMap_get_set:
  "BitMap_get b (snd (BitMap_set b i v m)) j =
     (if \<not> i > bm_length b * 8 \<and> j = i then v else BitMap_get b m j)"
proof (cases "i > bm_length b * 8 \<or> j div 8 \<noteq> i div 8")
  case True
  then show ?thesis by (auto simp: BitMap_set_def BitMap_get_def Let_def)
next
  case False
  have lt: "unat (i mod 8) < 8" "unat (j mod 8) < 8" by (simp_all add: unat_mod)
  have "7 - unat (j mod 8) = 7 - unat (i mod 8) \<longleftrightarrow> j = i"
    using index_eq_iff [of j i] False lt by auto
  then show ?thesis
    using False lt by (auto simp: BitMap_set_def BitMap_get_bit Let_def bit_simps bitIdx_bit)
qed

interpretation bm: bit_store "BitMap_get b" "BitMap_set b" "\<lambda>i. \<not> i > bm_length b * 8" for b
  by unfold_locales (simp add: BitMap_set_def Let_def, rule BitMap_get_set)

lemma BitMap_set_outside:
  "x \<noteq> bm_buffer b + idx div 8 \<Longrightarrow> snd (BitMap_set b idx v m) x = m x"
  by (simp add: BitMap_set_def Let_def)

text \<open>
  C25. After any sequence of \<open>set\<close> calls, each with its own index and its own value, a bit reads as the last of these
  calls for it that was accepted has set it, and as before the sequence if there is none. A call is
  accepted, and returns true, exactly if its index is at most \<open>length * 8\<close>.
\<close>

theorem BitMap_set_get:
  "fst (BitMap_set b i v m) = (i \<le> bm_length b * 8) \<and>
   BitMap_get b (fold (\<lambda>(i, v) m. snd (BitMap_set b i v m)) cs m) j =
     (case map_of (rev (filter (\<lambda>(i, v). i \<le> bm_length b * 8) cs)) j of Some v \<Rightarrow> v | None \<Rightarrow> BitMap_get b m j)"
  using bm.get_fold_set [of b cs m j] bm.set_ok [of b i v m] by (simp add: not_less)

text \<open>
  The bound \<open>set\<close> checks is not the size of the buffer: for every map of at least 8 bits the
  last accepted index lies in a byte past the \<open>length >> 3\<close> bytes that \<open>initBitMap\<close> allocates,
  and setting it changes that byte.
\<close>

lemma BitMap_set_past_buffer:
  assumes "8 \<le> bm_length b" "bm_length b < 2 ^ 60" "m (bm_buffer b + bm_length b) = 0"
  shows "fst (BitMap_set b (bm_length b * 8) True m) \<and>
    \<not> within (bm_buffer b) (drop_bit 3 (bm_length b)) (bm_buffer b + bm_length b) \<and>
    snd (BitMap_set b (bm_length b * 8) True m) (bm_buffer b + bm_length b) \<noteq> 0"
proof -
  have u: "unat (bm_length b) < 2 ^ 60" using assms(2) by (simp add: word_less_nat_alt)
  then have "unat (bm_length b * 8) = unat (bm_length b) * 8" by (simp add: unat_word_ariths)
  then have d: "bm_length b * 8 div 8 = bm_length b"
    by (simp add: word_unat_eq_iff unat_div)
  have "drop_bit 3 (bm_length b) \<le> bm_length b"
    by (simp add: word_le_nat_alt unat_div drop_bit_eq_div)
  moreover have "BitMap_get b (snd (BitMap_set b (bm_length b * 8) True m)) (bm_length b * 8)"
    by (simp add: bm.get_set)
  then have "snd (BitMap_set b (bm_length b * 8) True m) (bm_buffer b + bm_length b) \<noteq> 0"
    by (auto simp: BitMap_get_def d)
  ultimately show ?thesis by (simp add: within_def BitMap_set_def Let_def)
qed

lemma BitMap_set_past_buffer_witness:
  "fst (BitMap_set \<lparr>bm_length = 64, bm_buffer = 0x200000\<rparr> (64 * 8) True (\<lambda>_. 0)) \<and>
   \<not> within 0x200000 (drop_bit 3 64) (0x200000 + 64) \<and>
   snd (BitMap_set \<lparr>bm_length = 64, bm_buffer = 0x200000\<rparr> (64 * 8) True (\<lambda>_. 0)) (0x200000 + 64) \<noteq> 0"
  using BitMap_set_past_buffer [of "\<lparr>bm_length = 64, bm_buffer = 0x200000\<rparr>" "\<lambda>_. 0"]
  by (simp only: bitmap.simps) simp

end
