(* ===== verification/Paging_Alloc.thy ===== *)
theory Paging_Alloc
  imports Bitmap
begin

text \<open>
  The page frame allocator \<open>PgFrAllocator\<close> of \<open>src/src/kernel/memory/paging/paging.cpp\<close>: one bit
  per page frame, a search position below which nothing is free, and the two counters of free and
  used memory. It interprets the allocator contract of \<open>Allocator\<close>.
\<close>

section \<open>State\<close>

text \<open>
  The globals of the name space \<open>MMU\<close> and the members of \<open>PgFrAllocator\<close> and \<open>PgMgr\<close>, beside the
  heap state. The map handed over by the boot loader stays in memory, at \<open>MEM_MAP_ADDR\<close>.
\<close>

record mmu = heap +
  freeMem :: u64
  usedMem :: u64
  memRegionCount :: u8
  PgsMap :: bitmap
  bitmapIdx :: u64
  PML4 :: addr
  userPD :: addr

definition MEM_REGION_COUNT_ADDR :: addr where "MEM_REGION_COUNT_ADDR = 0x520"
definition MEM_MAP_ADDR :: addr where "MEM_MAP_ADDR = 0x521"
definition KERNEL_USED_MEM :: u64 where "KERNEL_USED_MEM = 0x400000"
definition KERNEL_START_ADDR :: addr where "KERNEL_START_ADDR = 0x100000"
definition PAGE_SIZE :: u64 where "PAGE_SIZE = 4096"
definition USABLE_MEM :: u32 where "USABLE_MEM = 1"

text \<open>A \<open>memRegionDescriptor\<close> takes 24 bytes: base, length, type and attributes, packed.\<close>

record memRegionDescriptor =
  baseAddr :: u64
  md_length :: u64
  md_type :: u32

definition memMap :: "mem \<Rightarrow> int \<Rightarrow> memRegionDescriptor" where
  "memMap m i = (let a = MEM_MAP_ADDR + of_int (24 * i) in
     \<lparr>baseAddr = read64 m a, md_length = read64 m (a + 8), md_type = of_nat (read_le 4 m (a + 16))\<rparr>)"

definition memEnd :: "memRegionDescriptor \<Rightarrow> u64" where
  "memEnd md = baseAddr md + md_length md"

section \<open>Operations\<close>

definition pg_used :: "'a mmu_scheme \<Rightarrow> u64 \<Rightarrow> bool" where
  "pg_used s idx = BitMap_get (PgsMap s) (kmem s) idx"

definition allocPg :: "addr \<Rightarrow> 'a mmu_scheme \<Rightarrow> 'a mmu_scheme" where
  "allocPg addr s =
     (let idx = addr div PAGE_SIZE in
      if BitMap_get (PgsMap s) (kmem s) idx then s
      else (let (ok, m) = BitMap_set (PgsMap s) idx True (kmem s); s1 = s\<lparr>kmem := m\<rparr>
            in if ok then s1\<lparr>freeMem := freeMem s1 - PAGE_SIZE, usedMem := usedMem s1 + PAGE_SIZE\<rparr>
               else s1))"

definition freePg :: "addr \<Rightarrow> 'a mmu_scheme \<Rightarrow> 'a mmu_scheme" where
  "freePg addr s =
     (let idx = addr div PAGE_SIZE in
      if \<not> BitMap_get (PgsMap s) (kmem s) idx then s
      else (let (ok, m) = BitMap_set (PgsMap s) idx False (kmem s); s1 = s\<lparr>kmem := m\<rparr>
            in if ok
               then (let s2 = s1\<lparr>freeMem := freeMem s1 + PAGE_SIZE, usedMem := usedMem s1 - PAGE_SIZE\<rparr>
                     in if bitmapIdx s2 > idx then s2\<lparr>bitmapIdx := idx\<rparr> else s2)
               else s1))"

function pgs_loop :: "(addr \<Rightarrow> 's \<Rightarrow> 's) \<Rightarrow> addr \<Rightarrow> u64 \<Rightarrow> u64 \<Rightarrow> 's \<Rightarrow> 's" where
  "pgs_loop f addr count idx s =
     (if idx < count then pgs_loop f addr count (idx + 1) (f (addr + idx * PAGE_SIZE) s) else s)"
  by pat_completeness auto
termination
  by (relation "measure (\<lambda>(f, addr, count, idx, s). unat (count - idx))") (auto simp: word_loop_measure)

declare pgs_loop.simps [simp del]

definition allocPgs :: "addr \<Rightarrow> u64 \<Rightarrow> 'a mmu_scheme \<Rightarrow> 'a mmu_scheme" where
  "allocPgs addr count s = pgs_loop allocPg addr count 0 s"

definition freePgs :: "addr \<Rightarrow> u64 \<Rightarrow> 'a mmu_scheme \<Rightarrow> 'a mmu_scheme" where
  "freePgs addr count s = pgs_loop freePg addr count 0 s"

function reqPg_loop :: "u64 \<Rightarrow> 'a mmu_scheme \<Rightarrow> addr \<times> 'a mmu_scheme" where
  "reqPg_loop lim s =
     (if bitmapIdx s < lim
      then (if BitMap_get (PgsMap s) (kmem s) (bitmapIdx s)
            then reqPg_loop lim (s\<lparr>bitmapIdx := bitmapIdx s + 1\<rparr>)
            else (let s1 = allocPg (bitmapIdx s * PAGE_SIZE) s;
                      s2 = s1\<lparr>bitmapIdx := bitmapIdx s1 + 1\<rparr>
                  in ((bitmapIdx s2 - 1) * PAGE_SIZE, s2)))
      else (0, s))"
  by pat_completeness auto
termination
  by (relation "measure (\<lambda>(lim, s). unat (lim - bitmapIdx s))") (auto simp: word_loop_measure)

declare reqPg_loop.simps [simp del]

definition reqPg :: "'a mmu_scheme \<Rightarrow> addr \<times> 'a mmu_scheme" where
  "reqPg s = reqPg_loop (BitMap_getSize (PgsMap s) * 8) s"

text \<open>
  \<open>for (pg = from; pg < lim; pg += PAGE_SIZE)\<close> as a partial function: with a limit in the last page
  of the address space the counter wraps and the loop has no end.
\<close>

partial_function (option) page_loop ::
    "(addr \<Rightarrow> 's \<Rightarrow> 's) \<Rightarrow> addr \<Rightarrow> addr \<Rightarrow> 's \<Rightarrow> (addr \<times> 's) option" where
  "page_loop f pg lim s =
     (if pg < lim then page_loop f (pg + PAGE_SIZE) lim (f pg s) else Some (pg, s))"

definition markPg :: "addr \<Rightarrow> 'a mmu_scheme \<Rightarrow> 'a mmu_scheme" where
  "markPg pg s = s\<lparr>kmem := snd (BitMap_set (PgsMap s) (pg div PAGE_SIZE) True (kmem s))\<rparr>"

text \<open>
  The loop over the memory map, from entry \<open>i\<close>: the pages of a region that is not usable are
  marked.
\<close>

fun regions_loop :: "nat \<Rightarrow> nat \<Rightarrow> 'a mmu_scheme \<Rightarrow> 'a mmu_scheme option" where
  "regions_loop 0 i s = Some s"
| "regions_loop (Suc n) i s =
     (let md = memMap (kmem s) (int i) in
      if md_type md \<noteq> USABLE_MEM
      then do { (pg, s1) \<leftarrow> page_loop markPg (baseAddr md - baseAddr md mod PAGE_SIZE)
                              (memEnd md + memEnd md mod PAGE_SIZE) s;
                regions_loop n (Suc i) s1 }
      else regions_loop n (Suc i) s)"

definition initPgAlloc :: "'a mmu_scheme \<Rightarrow> 'a mmu_scheme option" where
  "initPgAlloc s0 =
     do { let s1 = s0\<lparr>memRegionCount := kmem s0 MEM_REGION_COUNT_ADDR\<rparr>;
          let s2 = s1\<lparr>freeMem := memEnd (memMap (kmem s1) (int (unat (memRegionCount s1)) - 1))\<rparr>;
          let memSize = freeMem s2;
          (p, s3) \<leftarrow> kpkZalloc 16 s2;
          (bm, s4) \<leftarrow> initBitMap (memSize div PAGE_SIZE) s3;
          s5 \<leftarrow> regions_loop (unat (memRegionCount s4)) 0 (s4\<lparr>PgsMap := bm\<rparr>);
          (pg, s6) \<leftarrow> page_loop allocPg 0 0x9000 s5;
          let s7 = s6\<lparr>bitmapIdx := pg div PAGE_SIZE\<rparr>;
          (pg1, s8) \<leftarrow> page_loop allocPg 0x80000 0xfffff s7;
          (pg2, s9) \<leftarrow> page_loop allocPg KERNEL_START_ADDR KERNEL_USED_MEM s8;
          (pg3, s10) \<leftarrow> page_loop allocPg KPKHEAP_START KPKHEAP_END s9;
          Some s10 }"

section \<open>Specification vocabulary\<close>

abbreviation pg_lim :: "'a mmu_scheme \<Rightarrow> u64" where
  "pg_lim s \<equiv> bm_length (PgsMap s) * 8"

text \<open>No frame below the search position is free; the number of frames marked as used.\<close>

definition pg_hint :: "'a mmu_scheme \<Rightarrow> bool" where
  "pg_hint s \<longleftrightarrow> (\<forall>j < bitmapIdx s. pg_used s j)"

definition pg_count :: "'a mmu_scheme \<Rightarrow> nat" where
  "pg_count s = card {j. j \<le> pg_lim s \<and> pg_used s j}"

text \<open>The states the allocator passes through, by any interleaving of its operations.\<close>

inductive pg_reach :: "'a mmu_scheme \<Rightarrow> 'a mmu_scheme \<Rightarrow> bool" for s0 where
  start: "pg_reach s0 s0"
| req: "pg_reach s0 s \<Longrightarrow> pg_reach s0 (snd (reqPg s))"
| alloc: "pg_reach s0 s \<Longrightarrow> pg_reach s0 (allocPg a s)"
| free: "pg_reach s0 s \<Longrightarrow> pg_reach s0 (freePg a s)"

text \<open>The free counter and the number of frames marked as used move in opposite directions.\<close>

definition pg_balance :: "'a mmu_scheme \<Rightarrow> u64" where
  "pg_balance s = freeMem s + PAGE_SIZE * of_nat (pg_count s)"

text \<open>Requests in the form of the allocator contract: \<open>NULL\<close> as \<open>None\<close>.\<close>

definition reqPg_opt :: "unit \<Rightarrow> 'a mmu_scheme \<Rightarrow> (addr \<times> 'a mmu_scheme) option" where
  "reqPg_opt u s = (let (p, s') = reqPg s in if p = 0 then None else Some (p, s'))"

definition pg_free_frames :: "'a mmu_scheme \<Rightarrow> nat" where
  "pg_free_frames s = card {j. j < pg_lim s \<and> \<not> pg_used s j}"

definition pg_room :: "unit list \<Rightarrow> 'a mmu_scheme \<Rightarrow> bool" where
  "pg_room us s \<longleftrightarrow> pg_hint s \<and> pg_used s 0 \<and> pg_lim s \<le> 2 ^ 52 \<and> length us \<le> pg_free_frames s"

section \<open>One page\<close>

lemma allocPg_eq:
  "allocPg a s = (if pg_used s (a div PAGE_SIZE) \<or> a div PAGE_SIZE > pg_lim s then s
     else s\<lparr>kmem := snd (BitMap_set (PgsMap s) (a div PAGE_SIZE) True (kmem s)),
            freeMem := freeMem s - PAGE_SIZE, usedMem := usedMem s + PAGE_SIZE\<rparr>)"
  by (simp add: allocPg_def pg_used_def BitMap_set_def Let_def)

lemma freePg_eq:
  "freePg a s = (if \<not> pg_used s (a div PAGE_SIZE) \<or> a div PAGE_SIZE > pg_lim s then s
     else s\<lparr>kmem := snd (BitMap_set (PgsMap s) (a div PAGE_SIZE) False (kmem s)),
            freeMem := freeMem s + PAGE_SIZE, usedMem := usedMem s - PAGE_SIZE,
            bitmapIdx := min (bitmapIdx s) (a div PAGE_SIZE)\<rparr>)"
  by (cases "a div PAGE_SIZE > pg_lim s"; cases "bitmapIdx s > a div PAGE_SIZE")
    (simp_all add: freePg_def pg_used_def BitMap_set_def Let_def min_def not_less)

lemma allocPg_fields [simp]:
  "PgsMap (allocPg a s) = PgsMap s" "bitmapIdx (allocPg a s) = bitmapIdx s"
  "PML4 (allocPg a s) = PML4 s"
  by (simp_all add: allocPg_eq)

lemma freePg_fields [simp]: "PgsMap (freePg a s) = PgsMap s"
  by (simp add: freePg_eq)

lemma pg_used_upd [simp]:
  "pg_used (s\<lparr>kmem := snd (BitMap_set (PgsMap s) i v (kmem s))\<rparr>) j =
     (if i \<le> pg_lim s \<and> j = i then v else pg_used s j)"
  "pg_used (s\<lparr>freeMem := x\<rparr>) j = pg_used s j"
  "pg_used (s\<lparr>usedMem := x\<rparr>) j = pg_used s j"
  "pg_used (s\<lparr>bitmapIdx := x\<rparr>) j = pg_used s j"
  by (simp_all add: pg_used_def bm.get_set not_less)

lemma pg_used_allocPg:
  "pg_used (allocPg a s) j \<longleftrightarrow> pg_used s j \<or> j = a div PAGE_SIZE \<and> j \<le> pg_lim s"
  by (auto simp: allocPg_eq)

lemma pg_used_freePg:
  "pg_used (freePg a s) j \<longleftrightarrow> pg_used s j \<and> \<not> (j = a div PAGE_SIZE \<and> j \<le> pg_lim s)"
  by (auto simp: freePg_eq)

lemma pg_hint_allocPg: "pg_hint s \<Longrightarrow> pg_hint (allocPg a s)"
  by (simp add: pg_hint_def pg_used_allocPg)

lemma pg_hint_freePg: "pg_hint s \<Longrightarrow> pg_hint (freePg a s)"
  unfolding pg_hint_def by (auto simp: freePg_eq min_less_iff_conj)

lemma allocPg_sum: "freeMem (allocPg a s) + usedMem (allocPg a s) = freeMem s + usedMem s"
  by (simp add: allocPg_eq)

lemma freePg_sum: "freeMem (freePg a s) + usedMem (freePg a s) = freeMem s + usedMem s"
  by (simp add: freePg_eq)

lemma finite_u64 [simp]: "finite (A :: u64 set)"
  by (rule finite_subset [of _ UNIV]) simp_all

lemma pg_balance_allocPg: "pg_balance (allocPg a s) = pg_balance s"
proof (cases "pg_used s (a div PAGE_SIZE) \<or> a div PAGE_SIZE > pg_lim s")
  case False
  let ?S = "{j. j \<le> pg_lim s \<and> pg_used s j}" and ?i = "a div PAGE_SIZE"
  have "{j. j \<le> pg_lim s \<and> pg_used (allocPg a s) j} = insert ?i ?S"
    using False by (auto simp: pg_used_allocPg)
  moreover have "?i \<notin> ?S" using False by simp
  ultimately have "pg_count (allocPg a s) = Suc (pg_count s)" by (simp add: pg_count_def)
  then show ?thesis using False by (simp add: pg_balance_def allocPg_eq algebra_simps)
qed (simp add: allocPg_eq)

lemma pg_balance_freePg: "pg_balance (freePg a s) = pg_balance s"
proof (cases "\<not> pg_used s (a div PAGE_SIZE) \<or> a div PAGE_SIZE > pg_lim s")
  case False
  let ?S = "{j. j \<le> pg_lim s \<and> pg_used s j}" and ?i = "a div PAGE_SIZE"
  have i: "?i \<in> ?S" using False by (simp add: not_less)
  have "{j. j \<le> pg_lim s \<and> pg_used (freePg a s) j} = ?S - {?i}"
    using False by (auto simp: pg_used_freePg)
  then have "Suc (pg_count (freePg a s)) = pg_count s"
    using card_Suc_Diff1 [OF _ i] by (simp add: pg_count_def)
  then have "pg_count s = Suc (pg_count (freePg a s))" by simp
  then show ?thesis using False by (simp add: pg_balance_def freePg_eq algebra_simps)
qed (simp add: freePg_eq)

section \<open>The search\<close>

lemma allocPg_bitmapIdx: "allocPg a (s\<lparr>bitmapIdx := x\<rparr>) = (allocPg a s)\<lparr>bitmapIdx := x\<rparr>"
  by (simp add: allocPg_eq)

lemma reqPg_loop_found:
  assumes "bitmapIdx s \<le> j" "j < lim" "\<not> pg_used s j" "\<And>i. bitmapIdx s \<le> i \<Longrightarrow> i < j \<Longrightarrow> pg_used s i"
  shows "reqPg_loop lim s = (j * PAGE_SIZE, (allocPg (j * PAGE_SIZE) s)\<lparr>bitmapIdx := j + 1\<rparr>)"
  using assms
proof (induction lim s rule: reqPg_loop.induct)
  case (1 lim s)
  have lt: "bitmapIdx s < lim" using "1.prems"(1,2) by simp
  show ?case
  proof (cases "bitmapIdx s = j")
    case True
    then have "\<not> BitMap_get (PgsMap s) (kmem s) (bitmapIdx s)" using "1.prems"(3) by (simp add: pg_used_def)
    then show ?thesis using lt True by (subst reqPg_loop.simps) (simp add: Let_def)
  next
    case False
    then have l: "bitmapIdx s < j" using "1.prems"(1) by simp
    have u: "BitMap_get (PgsMap s) (kmem s) (bitmapIdx s)"
      using "1.prems"(4) [of "bitmapIdx s"] l by (simp add: pg_used_def)
    have "reqPg_loop lim (s\<lparr>bitmapIdx := bitmapIdx s + 1\<rparr>) = (j * PAGE_SIZE,
        (allocPg (j * PAGE_SIZE) (s\<lparr>bitmapIdx := bitmapIdx s + 1\<rparr>))\<lparr>bitmapIdx := j + 1\<rparr>)"
    proof (rule "1.IH" [OF lt u])
      show "bitmapIdx (s\<lparr>bitmapIdx := bitmapIdx s + 1\<rparr>) \<le> j" using l by (simp add: inc_le)
      fix i assume "bitmapIdx (s\<lparr>bitmapIdx := bitmapIdx s + 1\<rparr>) \<le> i" "i < j"
      then show "pg_used (s\<lparr>bitmapIdx := bitmapIdx s + 1\<rparr>) i"
        using "1.prems"(4) [of i] word_le_iff_Suc [OF lt, of i] by simp
    qed (use "1.prems"(2,3) in simp_all)
    then show ?thesis using lt u by (subst reqPg_loop.simps) (simp add: allocPg_bitmapIdx)
  qed
qed

lemma reqPg_loop_full:
  assumes "\<And>i. bitmapIdx s \<le> i \<Longrightarrow> i < lim \<Longrightarrow> pg_used s i"
  shows "reqPg_loop lim s = (0, s\<lparr>bitmapIdx := max (bitmapIdx s) lim\<rparr>)"
  using assms
proof (induction lim s rule: reqPg_loop.induct)
  case (1 lim s)
  show ?case
  proof (cases "bitmapIdx s < lim")
    case True
    have u: "BitMap_get (PgsMap s) (kmem s) (bitmapIdx s)"
      using "1.prems" [of "bitmapIdx s"] True by (simp add: pg_used_def)
    have "reqPg_loop lim (s\<lparr>bitmapIdx := bitmapIdx s + 1\<rparr>) =
        (0, s\<lparr>bitmapIdx := bitmapIdx s + 1\<rparr>\<lparr>bitmapIdx := max (bitmapIdx (s\<lparr>bitmapIdx := bitmapIdx s + 1\<rparr>)) lim\<rparr>)"
      by (rule "1.IH" [OF True u]) (use "1.prems" word_le_iff_Suc [OF True] in auto)
    moreover have "max (bitmapIdx s + 1) lim = lim" "max (bitmapIdx s) lim = lim"
      using True by (simp_all add: max_absorb2 inc_le)
    ultimately show ?thesis using True u by (subst reqPg_loop.simps) simp
  next
    case False
    then show ?thesis by (subst reqPg_loop.simps) (simp add: max_def)
  qed
qed

lemma page_idx:
  fixes j :: u64
  assumes "j < 2 ^ 52"
  shows "j * PAGE_SIZE div PAGE_SIZE = j" and "unat (j * PAGE_SIZE) = unat j * 4096"
proof -
  have "unat j < 2 ^ 52" using assms by (simp add: word_less_nat_alt)
  then show u: "unat (j * PAGE_SIZE) = unat j * 4096" by (simp add: PAGE_SIZE_def unat_word_ariths)
  then show "j * PAGE_SIZE div PAGE_SIZE = j"
    by (simp add: word_unat_eq_iff unat_div) (simp add: PAGE_SIZE_def)
qed

text \<open>The outcome of a search, both exits.\<close>

lemma reqPg_cases:
  fixes s :: "'a mmu_scheme"
  assumes "pg_hint s"
  obtains (found) j where "j < pg_lim s" "bitmapIdx s \<le> j" "\<not> pg_used s j" "\<forall>i < j. pg_used s i"
      "reqPg s = (j * PAGE_SIZE, (allocPg (j * PAGE_SIZE) s)\<lparr>bitmapIdx := j + 1\<rparr>)"
    | (full) "\<forall>j < pg_lim s. pg_used s j" "reqPg s = (0, s\<lparr>bitmapIdx := max (bitmapIdx s) (pg_lim s)\<rparr>)"
proof (cases "\<forall>j < pg_lim s. pg_used s j")
  case True
  then show ?thesis
    using reqPg_loop_full [of s "pg_lim s"] by (intro full) (simp_all add: reqPg_def BitMap_getSize_def)
next
  case False
  define j where "j = (LEAST j. \<not> pg_used s j)"
  obtain k where k: "k < pg_lim s" "\<not> pg_used s k" using False by blast
  have j: "\<not> pg_used s j" unfolding j_def by (rule LeastI [of _ k]) (rule k(2))
  have low: "pg_used s i" if "i < j" for i using not_less_Least [of i] that by (auto simp: j_def)
  have "j \<le> k" unfolding j_def by (rule Least_le) (rule k(2))
  then have lt: "j < pg_lim s" using k(1) by simp
  have "bitmapIdx s \<le> j" using assms j by (auto simp: pg_hint_def not_less [symmetric])
  then show ?thesis
    using reqPg_loop_found [of s j "pg_lim s"] j low lt
    by (intro found [of j]) (simp_all add: reqPg_def BitMap_getSize_def)
qed

lemma pg_balance_bitmapIdx [simp]: "pg_balance (s\<lparr>bitmapIdx := x\<rparr>) = pg_balance s"
  by (simp add: pg_balance_def pg_count_def)

lemma less_inc: "(j :: u64) < n \<Longrightarrow> i < j + 1 \<longleftrightarrow> i < j \<or> i = j"
  using unat_u64_less [of n]
  by (auto simp: word_less_nat_alt unat_word_ariths word_unat_eq_iff)

lemma reqPg_outcome:
  fixes s :: "'a mmu_scheme"
  assumes "pg_hint s" "pg_lim s \<le> 2 ^ 52"
  obtains (found) j s' where "reqPg s = (j * PAGE_SIZE, s')" "j < pg_lim s" "j < 2 ^ 52"
      "\<not> pg_used s j" "\<forall>i < j. pg_used s i" "\<And>i. pg_used s' i \<longleftrightarrow> pg_used s i \<or> i = j" "pg_hint s'"
      "PgsMap s' = PgsMap s" "PML4 s' = PML4 s" "freeMem s' = freeMem s - PAGE_SIZE"
      "usedMem s' = usedMem s + PAGE_SIZE" "pg_balance s' = pg_balance s"
      "kmem s' = snd (BitMap_set (PgsMap s) j True (kmem s))" "bitmapIdx s' = j + 1"
    | (full) s' where "reqPg s = (0, s')" "\<forall>j < pg_lim s. pg_used s j"
      "\<And>i. pg_used s' i \<longleftrightarrow> pg_used s i" "pg_hint s'" "PgsMap s' = PgsMap s" "PML4 s' = PML4 s"
      "freeMem s' = freeMem s" "usedMem s' = usedMem s" "pg_balance s' = pg_balance s" "kmem s' = kmem s"
  using assms(1)
proof (cases rule: reqPg_cases)
  case (found j)
  define s' where "s' = (allocPg (j * PAGE_SIZE) s)\<lparr>bitmapIdx := j + 1\<rparr>"
  have j52: "j < 2 ^ 52" using found(1) assms(2) by simp
  note idx = page_idx(1) [OF j52]
  have le: "\<not> pg_lim s < j" "j \<le> pg_lim s" using found(1) by simp_all
  have u: "pg_used s' i \<longleftrightarrow> pg_used s i \<or> i = j" for i
    using idx le(2) by (auto simp: s'_def pg_used_allocPg)
  then have h: "pg_hint s'" using found(5) less_inc [OF found(1)] found(4)
    by (simp add: pg_hint_def) (simp add: s'_def)
  have b: "pg_balance s' = pg_balance s" by (simp add: s'_def pg_balance_allocPg)
  have f: "PgsMap s' = PgsMap s" "PML4 s' = PML4 s" "freeMem s' = freeMem s - PAGE_SIZE"
      "usedMem s' = usedMem s + PAGE_SIZE" "kmem s' = snd (BitMap_set (PgsMap s) j True (kmem s))"
    using idx le(1) found(3) by (simp_all add: s'_def allocPg_eq)
  show ?thesis
    by (rule that(1) [of j s']) (use found j52 u h b f in \<open>simp_all add: s'_def\<close>)
next
  case full
  show ?thesis
    by (rule that(2) [of "s\<lparr>bitmapIdx := max (bitmapIdx s) (pg_lim s)\<rparr>"])
      (use full assms(1) in \<open>auto simp: pg_hint_def less_max_iff_disj\<close>)
qed

lemma reqPg_keeps:
  assumes "pg_hint s" "pg_lim s \<le> 2 ^ 52"
  shows "pg_hint (snd (reqPg s))" "PgsMap (snd (reqPg s)) = PgsMap s"
    "pg_balance (snd (reqPg s)) = pg_balance s"
    "freeMem (snd (reqPg s)) + usedMem (snd (reqPg s)) = freeMem s + usedMem s"
  by (rule reqPg_outcome [OF assms]; simp)+

section \<open>A small allocator\<close>

text \<open>16 frames, of which frame 0 is in use.\<close>

definition mmu_small :: mmu where
  "mmu_small = \<lparr>kmem = (\<lambda>_. 0)(0x300000 := 0x80), kout = [], topChunk = KPKHEAP_START,
     bucket = replicate KPKBUCKET_SIZE LinkedList, freeMem = 0xf000, usedMem = 0x1000,
     memRegionCount = 1, PgsMap = \<lparr>bm_length = 2, bm_buffer = 0x300000\<rparr>, bitmapIdx = 1,
     PML4 = 0x1000, userPD = 0\<rparr>"

lemma mmu_small_used: "pg_used mmu_small 0" "\<not> pg_used mmu_small 1" "pg_lim mmu_small = 16"
  by (simp_all add: pg_used_def mmu_small_def BitMap_get_def bitIdx_def)

lemma mmu_small_hint: "pg_hint mmu_small"
proof -
  have "j = 0" if "j < 1" for j :: u64
  proof -
    have "unat j = 0" using that by (simp add: word_less_nat_alt)
    then show ?thesis by (simp only: unat_eq_zero)
  qed
  then show ?thesis using mmu_small_used(1) by (auto simp: pg_hint_def mmu_small_def)
qed

lemma card_u64_pos: "x \<in> S \<Longrightarrow> 0 < card (S :: u64 set)"
  by (auto simp: card_gt_0_iff)

lemma mmu_small_free: "0 < pg_free_frames mmu_small"
  unfolding pg_free_frames_def
  by (rule card_u64_pos [of 1]) (simp add: mmu_small_used)

section \<open>Properties of the allocator\<close>

text \<open>
  C9. Whatever sequence of requests, allocations and releases has run since a state whose search
  position has no free frame below it: the position still has none below it, the sum of
  \<open>freeMem\<close> and \<open>usedMem\<close> is unchanged, and \<open>freeMem\<close> has moved by exactly one page per frame
  whose bit changed, all modulo \<open>2^64\<close>.
\<close>

theorem pg_reach_invariant:
  assumes "pg_reach s0 s" "pg_hint s0" "pg_lim s0 \<le> 2 ^ 52"
  shows "pg_hint s \<and> freeMem s + usedMem s = freeMem s0 + usedMem s0 \<and>
    freeMem s + PAGE_SIZE * of_nat (pg_count s) = freeMem s0 + PAGE_SIZE * of_nat (pg_count s0)"
proof -
  have "pg_hint s \<and> PgsMap s = PgsMap s0 \<and> freeMem s + usedMem s = freeMem s0 + usedMem s0 \<and>
      pg_balance s = pg_balance s0"
    using assms
  proof (induction rule: pg_reach.induct)
    case (req s)
    then show ?case using reqPg_keeps [of s] by simp
  next
    case (alloc s a)
    then show ?case
      using pg_hint_allocPg [of s a] pg_balance_allocPg [of a s] allocPg_sum [of a s] by simp
  next
    case (free s a)
    then show ?case
      using pg_hint_freePg [of s a] pg_balance_freePg [of a s] freePg_sum [of a s] by simp
  qed simp
  then show ?thesis by (simp add: pg_balance_def)
qed

theorem pg_reach_invariant_witness:
  "pg_hint (snd (reqPg mmu_small)) \<and>
   freeMem (snd (reqPg mmu_small)) + usedMem (snd (reqPg mmu_small)) = 0x10000"
  using pg_reach_invariant [OF pg_reach.req [OF pg_reach.start] mmu_small_hint] mmu_small_used(3)
  by (simp add: mmu_small_def)

text \<open>
  C26. \<open>reqPg\<close> returns the lowest free frame and marks it used, and it alone; it returns \<open>NULL\<close>
  only when every frame below its bound is in use, and then marks nothing.
\<close>

theorem reqPg_lowest:
  assumes "pg_hint s" "pg_lim s \<le> 2 ^ 52"
  shows "case reqPg s of (p, s') \<Rightarrow>
    if \<forall>j < pg_lim s. pg_used s j then p = 0 \<and> (\<forall>i. pg_used s' i = pg_used s i)
    else \<exists>j < pg_lim s. p = j * PAGE_SIZE \<and> \<not> pg_used s j \<and> (\<forall>i < j. pg_used s i) \<and>
           (\<forall>i. pg_used s' i \<longleftrightarrow> pg_used s i \<or> i = j) \<and> freeMem s' = freeMem s - PAGE_SIZE"
  using assms
proof (cases rule: reqPg_outcome)
  case (found j s')
  then have "\<not> (\<forall>j < pg_lim s. pg_used s j)" by blast
  then show ?thesis using found by (simp only: if_False case_prod_conv) blast
next
  case (full s')
  then show ?thesis by simp
qed

theorem reqPg_lowest_witness: "fst (reqPg mmu_small) = 4096"
proof -
  have "\<not> (\<forall>j < pg_lim mmu_small. pg_used mmu_small j)" using mmu_small_used by fastforce
  then obtain j where j: "fst (reqPg mmu_small) = j * PAGE_SIZE" "\<not> pg_used mmu_small j"
      "\<forall>i < j. pg_used mmu_small i"
    using reqPg_lowest [OF mmu_small_hint] mmu_small_used(3) by (simp only: case_prod_beta if_False) auto
  have "\<not> 1 < j" "j \<noteq> 0" using j(2,3) mmu_small_used by auto
  then have "j = 1" by (simp add: word_less_nat_alt word_unat_eq_iff)
  then show ?thesis using j(1) by (simp add: PAGE_SIZE_def)
qed

section \<open>The allocator contract\<close>

lemma within_page:
  assumes "j < 2 ^ 52" "within (j * PAGE_SIZE) PAGE_SIZE x"
  shows "x div PAGE_SIZE = j"
proof -
  have u: "unat (j * PAGE_SIZE) = unat j * 4096" using page_idx(2) [OF assms(1)] .
  have "unat j < 2 ^ 52" using assms(1) by (simp add: word_less_nat_alt)
  then have "unat j * 4096 + 4096 \<le> 2 ^ 64" by simp
  then have "unat x div 4096 = unat j"
    using assms(2) u unat_u64_less [of x]
    by (auto simp: within_def word_less_nat_alt unat_sub_if' PAGE_SIZE_def split: if_splits)
  then show ?thesis by (simp add: word_unat_eq_iff unat_div PAGE_SIZE_def)
qed

lemma reqPg_found:
  fixes s :: "'a mmu_scheme"
  assumes "pg_hint s" "pg_lim s \<le> 2 ^ 52" "0 < pg_free_frames s"
  obtains j s' where "reqPg s = (j * PAGE_SIZE, s')" "j < pg_lim s" "j < 2 ^ 52" "\<not> pg_used s j"
    "\<forall>i. pg_used s' i \<longleftrightarrow> pg_used s i \<or> i = j" "pg_hint s'" "bitmapIdx s' \<le> pg_lim s"
    "PgsMap s' = PgsMap s" "PML4 s' = PML4 s" "kmem s' = snd (BitMap_set (PgsMap s) j True (kmem s))"
    "Suc (pg_free_frames s') = pg_free_frames s"
proof -
  have "\<exists>j < pg_lim s. \<not> pg_used s j"
  proof (rule ccontr)
    assume "\<not> (\<exists>j < pg_lim s. \<not> pg_used s j)"
    then have "{j. j < pg_lim s \<and> \<not> pg_used s j} = {}" by blast
    then show False using assms(3) by (simp only: pg_free_frames_def card.empty less_irrefl)
  qed
  with assms(1,2) show ?thesis
  proof (cases rule: reqPg_outcome)
    case (found j s')
    have "{i. i < pg_lim s' \<and> \<not> pg_used s' i} = {i. i < pg_lim s \<and> \<not> pg_used s i} - {j}"
      using found(6,8) by auto
    then have "Suc (pg_free_frames s') = pg_free_frames s"
      unfolding pg_free_frames_def using found(2,4) card_Suc_Diff1 [of _ j] by simp
    then show ?thesis using found that inc_le [OF found(2)] by simp
  qed blast
qed

interpretation frames: region_allocator reqPg_opt "\<lambda>p u. {x. within p PAGE_SIZE x}"
    "\<lambda>s :: 'a mmu_scheme. {x. pg_used s (x div PAGE_SIZE)}" pg_room
proof
  fix z zs and s :: "'a mmu_scheme"
  assume "pg_room (z # zs) s"
  then have r: "pg_hint s" "pg_used s 0" "pg_lim s \<le> 2 ^ 52" "Suc (length zs) \<le> pg_free_frames s"
    by (simp_all add: pg_room_def)
  have pos: "0 < pg_free_frames s" using r(4) by simp
  obtain j s' where j: "reqPg s = (j * PAGE_SIZE, s')" "j < pg_lim s" "j < 2 ^ 52" "\<not> pg_used s j"
      and u: "\<forall>i. pg_used s' i \<longleftrightarrow> pg_used s i \<or> i = j" and h: "pg_hint s'" "bitmapIdx s' \<le> pg_lim s"
      and lim: "PgsMap s' = PgsMap s" "PML4 s' = PML4 s"
        "kmem s' = snd (BitMap_set (PgsMap s) j True (kmem s))"
      and fr: "Suc (pg_free_frames s') = pg_free_frames s"
    using reqPg_found [OF r(1,3) pos] .
  have "j \<noteq> 0" using j(4) r(2) by auto
  then have "unat (j * PAGE_SIZE) \<noteq> 0" using page_idx(2) [OF j(3)] by (simp add: unat_gt_0)
  then have nz: "j * PAGE_SIZE \<noteq> 0" by auto
  have "length zs \<le> pg_free_frames s'" using r(4) fr by simp
  then have "pg_room zs s'" using r h(1) u lim(1) by (simp add: pg_room_def)
  moreover have "{x. within (j * PAGE_SIZE) PAGE_SIZE x} \<inter> {x. pg_used s (x div PAGE_SIZE)} = {}"
    using within_page [OF j(3)] j(4) by auto
  moreover have "{x. within (j * PAGE_SIZE) PAGE_SIZE x} \<union> {x. pg_used s (x div PAGE_SIZE)}
      \<subseteq> {x. pg_used s' (x div PAGE_SIZE)}"
    using within_page [OF j(3)] u by auto
  moreover have "reqPg_opt z s = Some (j * PAGE_SIZE, s')"
    using j(1) nz by (simp add: reqPg_opt_def)
  ultimately show "\<exists>p s'. reqPg_opt z s = Some (p, s') \<and> pg_room zs s' \<and>
      {x. within p PAGE_SIZE x} \<inter> {x. pg_used s (x div PAGE_SIZE)} = {} \<and>
      {x. within p PAGE_SIZE x} \<union> {x. pg_used s (x div PAGE_SIZE)} \<subseteq> {x. pg_used s' (x div PAGE_SIZE)}"
    by blast
qed

text \<open>
  C27. As many requests as there are free frames all succeed, and the frames returned are pairwise
  disjoint, were free before and are in use afterwards.
\<close>

theorem reqPg_disjoint:
  fixes s :: "'a mmu_scheme"
  assumes "pg_room us s"
  shows "\<exists>ps s'. alloc_all reqPg_opt us s = Some (ps, s') \<and> length ps = length us \<and>
    (\<forall>i < length us. \<forall>x. within (ps ! i) PAGE_SIZE x \<longrightarrow>
       \<not> pg_used s (x div PAGE_SIZE) \<and> pg_used s' (x div PAGE_SIZE)) \<and>
    (\<forall>j < length us. \<forall>i < j. \<forall>x. \<not> (within (ps ! i) PAGE_SIZE x \<and> within (ps ! j) PAGE_SIZE x))"
  using frames.alloc_all_room [OF assms] by (auto simp: disjoint_iff subset_iff)

theorem reqPg_disjoint_witness:
  "\<exists>ps s'. alloc_all reqPg_opt [()] mmu_small = Some (ps, s') \<and> length ps = 1 \<and>
     (\<forall>x. within (ps ! 0) PAGE_SIZE x \<longrightarrow> pg_used s' (x div PAGE_SIZE))"
proof -
  have "pg_room [()] mmu_small"
    using mmu_small_hint mmu_small_used mmu_small_free by (simp add: pg_room_def)
  from reqPg_disjoint [OF this] show ?thesis by fastforce
qed

end
