(* ===== verification/Paging_Map.thy ===== *)
theory Paging_Map
  imports Paging_Alloc
begin

text \<open>
  The page table manager \<open>PgMgr\<close> of \<open>src/src/kernel/memory/paging/paging.cpp\<close> and the macros of
  \<open>memory.hpp\<close>. Page tables are 512 entries of 8 bytes in byte memory; the specification is the
  walk the processor makes (\<open>resolve\<close>), and the main result is that \<open>mapPg\<close> changes the
  translation of the page it is given and of no other.
\<close>

section \<open>Macros\<close>

definition PDE_P :: u64 where "PDE_P = 1"
definition PDE_R :: u64 where "PDE_R = 2"
definition PDE_U :: u64 where "PDE_U = 4"
definition PML4T_ADDR :: addr where "PML4T_ADDR = 0x1000"
definition USERSPACE_START_ADDR :: addr where "USERSPACE_START_ADDR = 0x70000000"

definition PTidx :: "addr \<Rightarrow> u64" where "PTidx vaddr = drop_bit 12 vaddr AND 0x1ff"
definition PDidx :: "addr \<Rightarrow> u64" where "PDidx vaddr = drop_bit 21 vaddr AND 0x1ff"
definition PDTidx :: "addr \<Rightarrow> u64" where "PDTidx vaddr = drop_bit 30 vaddr AND 0x1ff"
definition PML4idx :: "addr \<Rightarrow> u64" where "PML4idx vaddr = drop_bit 39 vaddr AND 0x1ff"

definition setPgFlag :: "u64 \<Rightarrow> u64 \<Rightarrow> u64" where
  "setPgFlag pg flags = pg OR flags"

text \<open>\<open>getPgFlag\<close> shifts by its second argument, which the callers pass as a mask.\<close>

definition getPgFlag :: "u64 \<Rightarrow> u64 \<Rightarrow> bool" where
  "getPgFlag pg flag \<longleftrightarrow> pg AND push_bit (unat flag) 1 \<noteq> 0"

definition getPgAddr :: "u64 \<Rightarrow> addr" where
  "getPgAddr pg = push_bit 12 (drop_bit 12 pg) AND 0xffffffffff000"

definition setPgAddr :: "u64 \<Rightarrow> addr \<Rightarrow> u64" where
  "setPgAddr pg paddr = (pg AND 0xfff0000000000fff) OR push_bit 12 (drop_bit 12 paddr AND 0xffffffffff)"

definition entry_addr :: "addr \<Rightarrow> u64 \<Rightarrow> addr" where
  "entry_addr tbl idx = tbl + 8 * idx"

section \<open>Operations\<close>

text \<open>
  One level of the walk: a table is requested, cleared and entered if the entry at the given
  address does not have the flag. The three blocks of \<open>mapPg\<close> differ in the table only.
\<close>

definition walkLevel :: "addr \<Rightarrow> u64 \<Rightarrow> 'a mmu_scheme \<Rightarrow> 'a mmu_scheme" where
  "walkLevel ea flags s =
     (if \<not> getPgFlag (read64 (kmem s) ea) PDE_P
      then (let (tmpPg, s1) = reqPg s;
                m = snd (memset tmpPg 0 PAGE_SIZE (kmem s1));
                tbl = setPgFlag (setPgAddr 0 tmpPg) flags
            in s1\<lparr>kmem := write64 ea tbl m\<rparr>)
      else s)"

definition mapPg :: "addr \<Rightarrow> addr \<Rightarrow> u64 \<Rightarrow> 'a mmu_scheme \<Rightarrow> 'a mmu_scheme" where
  "mapPg vaddr paddr flags s =
     (let ea4 = entry_addr (PML4 s) (PML4idx vaddr);
          s1 = walkLevel ea4 flags s;
          pdt = getPgAddr (read64 (kmem s1) ea4);
          ea3 = entry_addr pdt (PDTidx vaddr);
          s2 = walkLevel ea3 flags s1;
          pd = getPgAddr (read64 (kmem s2) ea3);
          ea2 = entry_addr pd (PDidx vaddr);
          s3 = walkLevel ea2 flags s2;
          pt = getPgAddr (read64 (kmem s3) ea2);
          ea1 = entry_addr pt (PTidx vaddr);
          pte = setPgFlag (setPgAddr 0 paddr) flags
      in s3\<lparr>kmem := write64 ea1 pte (write64 ea1 0 (kmem s3))\<rparr>)"

definition PgMgr_reqPg :: "'a mmu_scheme \<Rightarrow> addr \<times> 'a mmu_scheme" where
  "PgMgr_reqPg s = reqPg s"

definition PgMgr_freePg :: "addr \<Rightarrow> 'a mmu_scheme \<Rightarrow> 'a mmu_scheme" where
  "PgMgr_freePg addr s = freePg addr s"

definition extractUserPD :: "addr \<Rightarrow> 'a mmu_scheme \<Rightarrow> 'a mmu_scheme" where
  "extractUserPD vaddr s =
     (let pd = getPgAddr vaddr;
          pd1 = getPgAddr (read64 (kmem s) (entry_addr pd (PDTidx USERSPACE_START_ADDR)))
      in s\<lparr>userPD := pd1,
           kmem := write64 (entry_addr pd1 (PDidx USERSPACE_START_ADDR)) 0 (kmem s)\<rparr>)"

definition PgMgr :: "'a mmu_scheme \<Rightarrow> 'a mmu_scheme option" where
  "PgMgr s0 =
     do { s1 \<leftarrow> initPgAlloc s0;
          let memSize = memEnd (memMap (kmem s1) (int (unat (memRegionCount s1)) - 1));
          (pg, s2) \<leftarrow> page_loop (\<lambda>pg. mapPg pg pg (PDE_P OR PDE_R)) KERNEL_USED_MEM memSize
                        (s1\<lparr>PML4 := PML4T_ADDR\<rparr>);
          let s3 = mapPg USERSPACE_START_ADDR USERSPACE_START_ADDR (PDE_P OR PDE_R OR PDE_U) s2;
          let e4 = entry_addr (PML4 s3) (PML4idx USERSPACE_START_ADDR);
          let s4 = s3\<lparr>kmem := write64 e4 (read64 (kmem s3) e4 OR PDE_U) (kmem s3)\<rparr>;
          let s5 = s4\<lparr>userPD := getPgAddr (read64 (kmem s4) e4)\<rparr>;
          let e3 = entry_addr (userPD s5) (PDTidx USERSPACE_START_ADDR);
          let s6 = s5\<lparr>kmem := write64 e3 (read64 (kmem s5) e3 OR PDE_U) (kmem s5)\<rparr>;
          let s7 = s6\<lparr>userPD := getPgAddr (read64 (kmem s6) e3)\<rparr>;
          Some (s7\<lparr>kmem := write64 (entry_addr (userPD s7) (PDidx USERSPACE_START_ADDR)) 0 (kmem s7)\<rparr>) }"

section \<open>Specification vocabulary\<close>

text \<open>The processor's walk: each index selects an entry, which must be present, of the next table.\<close>

fun resolve :: "mem \<Rightarrow> addr \<Rightarrow> u64 list \<Rightarrow> addr option" where
  "resolve m t [] = Some t"
| "resolve m t (i # is) =
     (let e = read64 m (entry_addr t i)
      in if bit e 0 then resolve m (getPgAddr e) is else None)"

definition vpath :: "addr \<Rightarrow> u64 list" where
  "vpath v = [PML4idx v, PDTidx v, PDidx v, PTidx v]"

definition translate :: "'a mmu_scheme \<Rightarrow> addr \<Rightarrow> addr option" where
  "translate s v = map_option (\<lambda>f. f OR (v AND 0xfff)) (resolve (kmem s) (PML4 s) (vpath v))"

text \<open>
  \<open>tables m own root\<close>: \<open>own\<close> gives every page table the one path of indices that leads to it from
  the root, and below the last level an entry is present exactly if it is writable and then
  leads to the table with the path extended.
\<close>

definition tables :: "mem \<Rightarrow> (addr \<Rightarrow> u64 list option) \<Rightarrow> addr \<Rightarrow> bool" where
  "tables m own root \<longleftrightarrow> own root = Some [] \<and>
     (\<forall>t p. own t = Some p \<longrightarrow> length p \<le> 3 \<and> t mod PAGE_SIZE = 0 \<and>
       (length p < 3 \<longrightarrow> (\<forall>i < 512. let e = read64 m (entry_addr t i)
          in (bit e 1 \<longleftrightarrow> bit e 0) \<and> (bit e 0 \<longrightarrow> own (getPgAddr e) = Some (p @ [i])))))"

text \<open>
  The invariant of page table management: the tables lie in frames in use, and so do the bytes of
  the frame bit map, in frames that hold no table.
\<close>

definition map_inv_own :: "(addr \<Rightarrow> u64 list option) \<Rightarrow> 'a mmu_scheme \<Rightarrow> bool" where
  "map_inv_own own s \<longleftrightarrow> pg_hint s \<and> bitmapIdx s \<le> pg_lim s \<and> pg_lim s \<le> 2 ^ 40 \<and> pg_used s 0 \<and>
     tables (kmem s) own (PML4 s) \<and>
     (\<forall>t \<in> dom own. t div PAGE_SIZE \<le> pg_lim s \<and> pg_used s (t div PAGE_SIZE)) \<and>
     (\<forall>i \<le> pg_lim s. let pg = (bm_buffer (PgsMap s) + i div 8) div PAGE_SIZE
        in pg \<le> pg_lim s \<and> pg_used s pg \<and> (\<forall>t \<in> dom own. t div PAGE_SIZE \<noteq> pg))"

definition map_inv :: "'a mmu_scheme \<Rightarrow> bool" where
  "map_inv s \<longleftrightarrow> (\<exists>own. map_inv_own own s)"

text \<open>The tables but one entry read as before.\<close>

definition same_but :: "(addr \<Rightarrow> u64 list option) \<Rightarrow> mem \<Rightarrow> mem \<Rightarrow> addr \<Rightarrow> u64 \<Rightarrow> bool" where
  "same_but own m m' t0 i0 \<longleftrightarrow> (\<forall>t \<in> dom own. \<forall>i < 512. (t, i) \<noteq> (t0, i0) \<longrightarrow>
     read64 m' (entry_addr t i) = read64 m (entry_addr t i))"

text \<open>
  A frame that holds data: in use, no table and no part of the frame bit map. A step \<open>extends\<close> the
  page tables if it leaves such frames what they are, with their contents.
\<close>

definition data_page :: "(addr \<Rightarrow> u64 list option) \<Rightarrow> 'a mmu_scheme \<Rightarrow> u64 \<Rightarrow> bool" where
  "data_page own s pg \<longleftrightarrow> pg \<le> pg_lim s \<and> pg_used s pg \<and> (\<forall>t \<in> dom own. t div PAGE_SIZE \<noteq> pg) \<and>
     (\<forall>i \<le> pg_lim s. (bm_buffer (PgsMap s) + i div 8) div PAGE_SIZE \<noteq> pg)"

definition extends ::
    "(addr \<Rightarrow> u64 list option) \<Rightarrow> 'a mmu_scheme \<Rightarrow> (addr \<Rightarrow> u64 list option) \<Rightarrow> 'a mmu_scheme \<Rightarrow> bool" where
  "extends own s own' s' \<longleftrightarrow> PgsMap s' = PgsMap s \<and> mmu.more s' = mmu.more s \<and>
     (\<forall>x. data_page own s (x div PAGE_SIZE) \<longrightarrow> data_page own' s' (x div PAGE_SIZE) \<and> kmem s' x = kmem s x)"

text \<open>
  From \<open>s\<close> the walk has reached the table \<open>t\<close> along the indices \<open>p\<close>: the mapping is as before, and \<open>n\<close> frames are still free.
\<close>

definition walked ::
    "(addr \<Rightarrow> u64 list option) \<Rightarrow> 'a mmu_scheme \<Rightarrow> (addr \<Rightarrow> u64 list option) \<Rightarrow> 'a mmu_scheme \<Rightarrow> u64 list \<Rightarrow> addr \<Rightarrow> nat \<Rightarrow> bool" where
  "walked own s own' s' p t n \<longleftrightarrow> map_inv_own own' s' \<and> extends own s own' s' \<and> n \<le> pg_free_frames s' \<and>
     own' t = Some p \<and> resolve (kmem s') (PML4 s') p = Some t \<and> (\<forall>j \<in> set p. j < 512) \<and>
     (\<forall>is. length is = 4 \<and> (\<forall>i \<in> set is. i < 512) \<longrightarrow> resolve (kmem s') (PML4 s') is = resolve (kmem s) (PML4 s) is)"

text \<open>An empty root table at \<open>0x1000\<close>, the bit map of 16 frames at \<open>0x2000\<close>.\<close>

definition mmu_map :: mmu where
  "mmu_map = \<lparr>kmem = (\<lambda>_. 0)(0x2000 := 0xe0), kout = [], topChunk = KPKHEAP_START,
     bucket = replicate KPKBUCKET_SIZE LinkedList, freeMem = 0xd000, usedMem = 0x3000,
     memRegionCount = 1, PgsMap = \<lparr>bm_length = 2, bm_buffer = 0x2000\<rparr>, bitmapIdx = 3,
     PML4 = 0x1000, userPD = 0\<rparr>"

section \<open>Bits of an entry\<close>

lemma getPgFlag_PDE_P: "getPgFlag e PDE_P \<longleftrightarrow> bit e 1"
proof -
  have "(push_bit (unat PDE_P) 1 :: u64) = 2 ^ 1" by (simp add: PDE_P_def push_bit_eq_mult)
  then show ?thesis unfolding getPgFlag_def by (simp only: and_exp_eq_0_iff_not_bit not_not simp_thms)
qed

lemma word_take_bit_self: "unat (w :: u64) < 2 ^ n \<Longrightarrow> n < 64 \<Longrightarrow> take_bit n w = w"
  by (simp add: word_unat_eq_iff unsigned_take_bit_eq take_bit_nat_eq_self)

lemma mask_40: "(0xffffffffff :: u64) = mask 40"
  by (simp add: mask_eq_exp_minus_1)

lemma mask_12_52: "(0xffffffffff000 :: u64) = push_bit 12 (mask 40)"
  by (simp add: mask_eq_exp_minus_1 push_bit_eq_mult)

lemma bit_getPgAddr: "bit (getPgAddr e) n \<longleftrightarrow> 12 \<le> n \<and> n < 52 \<and> bit e n"
  unfolding getPgAddr_def mask_12_52
  by (auto simp: bit_and_iff bit_push_bit_iff bit_drop_bit_eq bit_mask_iff)

lemma bit_entry_mask: "n < 64 \<Longrightarrow> bit (0xfff0000000000fff :: u64) n \<longleftrightarrow> \<not> (12 \<le> n \<and> n < 52)"
proof -
  assume "n < 64"
  have "(0xfff0000000000fff :: u64) = NOT (push_bit 12 (mask 40))"
    by (simp add: mask_eq_exp_minus_1 push_bit_eq_mult)
  then show ?thesis using \<open>n < 64\<close>
    by (simp only: bit_not_iff bit_push_bit_iff bit_mask_iff possible_bit_word) auto
qed

lemma bit_setPgAddr_any:
  "bit (setPgAddr e p) n \<longleftrightarrow> n < 64 \<and> (if 12 \<le> n \<and> n < 52 then bit p n else bit e n)"
proof (cases "n < 64")
  case True
  then show ?thesis
    unfolding setPgAddr_def mask_40
    by (simp only: bit_and_iff bit_or_iff bit_entry_mask)
      (auto simp: bit_push_bit_iff bit_drop_bit_eq bit_and_iff bit_mask_iff)
qed (use bit_imp_le_length [of "setPgAddr e p" n] in auto)

lemma bit_setPgAddr: "bit (setPgAddr 0 p) n \<longleftrightarrow> 12 \<le> n \<and> n < 52 \<and> bit p n"
  by (auto simp: bit_setPgAddr_any)

lemma bit_less_12: "(f :: u64) < 4096 \<Longrightarrow> 12 \<le> n \<Longrightarrow> \<not> bit f n"
proof -
  assume f: "f < 4096" and n: "12 \<le> n"
  have "take_bit 12 f = f" using f by (intro word_take_bit_self) (simp_all add: word_less_nat_alt)
  then have "bit f n \<longleftrightarrow> n < 12 \<and> bit f n" by (metis bit_take_bit_iff)
  then show ?thesis using n by simp
qed

lemma getPgAddr_entry:
  assumes "f < 4096"
  shows "getPgAddr (setPgFlag (setPgAddr 0 p) f) = getPgAddr p"
  by (rule bit_word_eqI)
    (auto simp: bit_getPgAddr setPgFlag_def bit_or_iff bit_setPgAddr bit_less_12 [OF assms])

lemma bit_entry_low:
  assumes "n < 12"
  shows "bit (setPgFlag (setPgAddr 0 p) f) n = bit f n"
  using assms by (simp add: setPgFlag_def bit_or_iff bit_setPgAddr)

lemma getPgAddr_frame:
  assumes "j < 2 ^ 40"
  shows "getPgAddr (j * PAGE_SIZE) = j * PAGE_SIZE"
proof (rule bit_word_eqI)
  fix n assume "n < LENGTH(64)"
  have j: "j * PAGE_SIZE = push_bit 12 j" by (simp add: PAGE_SIZE_def push_bit_eq_mult)
  have "take_bit 40 j = j" using assms by (intro word_take_bit_self) (simp_all add: word_less_nat_alt)
  then have "bit j k \<Longrightarrow> k < 40" for k by (metis bit_take_bit_iff)
  then show "bit (getPgAddr (j * PAGE_SIZE)) n = bit (j * PAGE_SIZE) n"
    unfolding j by (auto simp: bit_getPgAddr bit_push_bit_iff) (use not_le_imp_less in fastforce)
qed

lemma idx_less: "PML4idx v < 512" "PDTidx v < 512" "PDidx v < 512" "PTidx v < 512"
proof -
  have "(w AND 0x1ff :: u64) < 512" for w
  proof -
    have "(w AND 0x1ff) = w mod 512"
      using take_bit_eq_mask [of 9 w] by (simp add: mask_eq_exp_minus_1 take_bit_eq_mod)
    then show ?thesis by (simp add: word_less_nat_alt unat_mod)
  qed
  then show "PML4idx v < 512" "PDTidx v < 512" "PDidx v < 512" "PTidx v < 512"
    by (simp_all only: PML4idx_def PDTidx_def PDidx_def PTidx_def)
qed

section \<open>Entries of tables\<close>

lemma page_aligned:
  assumes "t mod PAGE_SIZE = 0"
  obtains q where "unat t = 4096 * q" "q < 2 ^ 52" "t div PAGE_SIZE = of_nat q"
proof -
  have "unat (t mod PAGE_SIZE) = 0" using assms by simp
  then have m: "unat t mod 4096 = 0" by (simp only: unat_mod PAGE_SIZE_def) simp
  then obtain q where q: "unat t = 4096 * q" by auto
  then have "q < 2 ^ 52" using unat_u64_less [of t] by simp
  moreover have "t div PAGE_SIZE = of_nat q"
    using q \<open>q < 2 ^ 52\<close> by (simp add: word_unat_eq_iff unat_div unat_of_nat PAGE_SIZE_def)
  ultimately show ?thesis using q that by blast
qed

lemma page_of:
  assumes "q < 2 ^ 52"
  shows "x div PAGE_SIZE = of_nat q \<longleftrightarrow> 4096 * q \<le> unat x \<and> unat x < 4096 * q + 4096"
proof -
  have "x div PAGE_SIZE = of_nat q \<longleftrightarrow> unat x div 4096 = q"
    using assms by (simp add: word_unat_eq_iff unat_div unat_of_nat PAGE_SIZE_def)
  also have "\<dots> \<longleftrightarrow> 4096 * q \<le> unat x \<and> unat x < 4096 * q + 4096" by auto
  finally show ?thesis .
qed

lemma entry_unat:
  assumes "unat t = 4096 * q" "q < 2 ^ 52" "i < 512"
  shows "unat (entry_addr t i) = 4096 * q + 8 * unat i" "unat i < 512"
proof -
  show l: "unat i < 512" using assms(3) by (simp add: word_less_nat_alt)
  have "4096 * q + 8 * unat i < 2 ^ 64" using assms(2) l by simp
  then show "unat (entry_addr t i) = 4096 * q + 8 * unat i"
    using assms(1) l by (simp add: entry_addr_def unat_word_ariths)
qed

lemma entry_page:
  assumes "t mod PAGE_SIZE = 0" "i < 512" "within (entry_addr t i) 8 x"
  shows "x div PAGE_SIZE = t div PAGE_SIZE"
proof -
  obtain q where q: "unat t = 4096 * q" "q < 2 ^ 52" "t div PAGE_SIZE = of_nat q"
    using page_aligned [OF assms(1)] .
  note e = entry_unat [OF q(1,2) assms(2)]
  have x: "unat (x - entry_addr t i) < 8" using assms(3) by (simp add: within_def word_less_nat_alt)
  have "unat (entry_addr t i + (x - entry_addr t i)) = unat (entry_addr t i) + unat (x - entry_addr t i)"
    by (subst unat_add_lem [THEN iffD1]) (use e x q(2) in simp_all)
  then have "unat x = unat (entry_addr t i) + unat (x - entry_addr t i)" by simp
  then have "4096 * q \<le> unat x \<and> unat x < 4096 * q + 4096" using e x by linarith
  then show ?thesis using page_of [OF q(2), of x] q(3) by metis
qed

lemma entry_cong:
  assumes "t mod PAGE_SIZE = 0" "i < 512" "\<And>x. x div PAGE_SIZE = t div PAGE_SIZE \<Longrightarrow> m' x = m x"
  shows "read64 m' (entry_addr t i) = read64 m (entry_addr t i)"
proof (rule read64_cong)
  fix x assume "within (entry_addr t i) 8 x"
  with assms(1,2) have "x div PAGE_SIZE = t div PAGE_SIZE" by (rule entry_page)
  then show "m' x = m x" by (rule assms(3))
qed

lemma apart_8:
  assumes "unat a + 8 \<le> unat b" "unat b + 8 \<le> 18446744073709551616"
  shows "apart a 8 b 8"
proof -
  have "unat (b - a) = unat b - unat a" using assms(1) by (simp add: unat_sub_if')
  moreover have "unat (a - b) = 2 ^ 64 + unat a - unat b"
    using assms unat_sub_if' [of a b] by simp
  moreover have "8 \<le> unat b - unat a" "8 \<le> 18446744073709551616 + unat a - unat b"
    using assms by linarith+
  ultimately show ?thesis unfolding apart_def word_le_nat_alt by simp
qed

lemma entry_apart:
  assumes "t mod PAGE_SIZE = 0" "i < 512" "t' mod PAGE_SIZE = 0" "i' < 512" "(t, i) \<noteq> (t', i')"
  shows "apart (entry_addr t i) 8 (entry_addr t' i') 8"
proof -
  obtain q where q: "unat t = 4096 * q" "q < 2 ^ 52" using page_aligned [OF assms(1)] .
  obtain q' where q': "unat t' = 4096 * q'" "q' < 2 ^ 52" using page_aligned [OF assms(3)] .
  note e = entry_unat [OF q assms(2)] and e' = entry_unat [OF q' assms(4)]
  have ne: "512 * q + unat i \<noteq> 512 * q' + unat i'"
  proof
    assume eq: "512 * q + unat i = 512 * q' + unat i'"
    have "q = q'" using arg_cong [OF eq, of "\<lambda>n. n div 512"] e(2) e'(2) by simp
    then show False using eq assms(5) q(1) q'(1) by (simp add: word_unat_eq_iff)
  qed
  have b: "unat (entry_addr t i) + 8 \<le> 18446744073709551616"
      "unat (entry_addr t' i') + 8 \<le> 18446744073709551616"
    using e e' q(2) q'(2) by simp_all
  show ?thesis
  proof (cases "512 * q + unat i < 512 * q' + unat i'")
    case True
    then have "unat (entry_addr t i) + 8 \<le> unat (entry_addr t' i')" using e e' by simp
    then show ?thesis using b(2) by (rule apart_8)
  next
    case False
    then have "unat (entry_addr t' i') + 8 \<le> unat (entry_addr t i)" using e e' ne by simp
    then show ?thesis using apart_8 [OF _ b(1)] by (subst apart_sym) simp
  qed
qed

section \<open>Changing one entry\<close>

lemma tables_step:
  assumes "tables m own root" "own t = Some p" "length p < 3" "i < 512" "bit (read64 m (entry_addr t i)) 0"
  shows "own (getPgAddr (read64 m (entry_addr t i))) = Some (p @ [i])"
  using assms unfolding tables_def by (metis (no_types, lifting))

lemma resolve_leaf:
  assumes tb: "tables m own root" and sb: "same_but own m m' t0 i0" and t0: "own t0 = Some r" "length r = 3"
    and "own t = Some p" "length p + length is \<le> 4" "\<forall>i \<in> set is. i < 512" "p @ is \<noteq> r @ [i0]"
  shows "resolve m' t is = resolve m t is"
  using assms(5-)
proof (induction "is" arbitrary: t p)
  case Nil
  then show ?case by simp
next
  case (Cons i js)
  have "(t, i) \<noteq> (t0, i0)"
  proof
    assume eq: "(t, i) = (t0, i0)"
    then have "p = r" using Cons.prems(1) t0(1) by simp
    moreover then have "js = []" using Cons.prems(2) t0(2) by simp
    ultimately show False using Cons.prems(4) eq by simp
  qed
  then have same: "read64 m' (entry_addr t i) = read64 m (entry_addr t i)"
    using sb Cons.prems(1,3) by (auto simp: same_but_def)
  show ?case
  proof (cases "bit (read64 m (entry_addr t i)) 0 \<and> js \<noteq> []")
    case True
    then have "length p < 3" using Cons.prems(2) by (cases js) auto
    then have "own (getPgAddr (read64 m (entry_addr t i))) = Some (p @ [i])"
      using tables_step [OF tb Cons.prems(1)] Cons.prems(3) True by simp
    then have "resolve m' (getPgAddr (read64 m (entry_addr t i))) js
        = resolve m (getPgAddr (read64 m (entry_addr t i))) js"
      by (rule Cons.IH) (use Cons.prems in simp_all)
    then show ?thesis using same by (simp add: Let_def)
  next
    case False
    then show ?thesis using same by (auto simp: Let_def)
  qed
qed

lemma resolve_extend:
  assumes tb: "tables m own root" and sb: "same_but own m m' t0 i0" and t0: "own t0 = Some r" "length r < 3"
    and absent: "\<not> bit (read64 m (entry_addr t0 i0)) 0"
    and zero: "\<forall>i < 512. \<not> bit (read64 m' (entry_addr (getPgAddr (read64 m' (entry_addr t0 i0))) i)) 0"
    and "own t = Some p" "length p + length is = 4" "\<forall>i \<in> set is. i < 512"
  shows "resolve m' t is = resolve m t is"
  using assms(7-)
proof (induction "is" arbitrary: t p)
  case Nil
  then show ?case by simp
next
  case (Cons i js)
  show ?case
  proof (cases "(t, i) = (t0, i0)")
    case True
    then have "p = r" using Cons.prems(1) t0(1) by simp
    then obtain j ks where "js = j # ks" using Cons.prems(2) t0(2) by (cases js) auto
    then show ?thesis using True absent zero Cons.prems(3) by (simp add: Let_def)
  next
    case False
    then have same: "read64 m' (entry_addr t i) = read64 m (entry_addr t i)"
      using sb Cons.prems(1,3) by (auto simp: same_but_def)
    show ?thesis
    proof (cases "bit (read64 m (entry_addr t i)) 0 \<and> js \<noteq> []")
      case True
      then have "length p < 3" using Cons.prems(2) by (cases js) auto
      then have "own (getPgAddr (read64 m (entry_addr t i))) = Some (p @ [i])"
        using tables_step [OF tb Cons.prems(1)] Cons.prems(3) True by simp
      then have "resolve m' (getPgAddr (read64 m (entry_addr t i))) js
          = resolve m (getPgAddr (read64 m (entry_addr t i))) js"
        by (rule Cons.IH) (use Cons.prems in simp_all)
      then show ?thesis using same by (simp add: Let_def)
    next
      case False
      then show ?thesis using same by (auto simp: Let_def)
    qed
  qed
qed

lemma resolve_mono:
  assumes tb: "tables m own root" and sb: "same_but own m m' t0 i0" and absent: "\<not> bit (read64 m (entry_addr t0 i0)) 0"
    and "own t = Some p" "length p + length is \<le> 4" "\<forall>i \<in> set is. i < 512" "resolve m t is = Some x"
  shows "resolve m' t is = Some x"
  using assms(4-)
proof (induction "is" arbitrary: t p)
  case Nil
  then show ?case by simp
next
  case (Cons i js)
  let ?e = "read64 m (entry_addr t i)"
  have b: "bit ?e 0" "resolve m (getPgAddr ?e) js = Some x"
    using Cons.prems(4) by (auto simp: Let_def split: if_splits)
  then have "(t, i) \<noteq> (t0, i0)" using absent by auto
  then have same: "read64 m' (entry_addr t i) = ?e"
    using sb Cons.prems(1,3) by (auto simp: same_but_def)
  show ?case
  proof (cases "js = []")
    case True
    then show ?thesis using same b by (simp add: Let_def)
  next
    case False
    then have "length p < 3" using Cons.prems(2) by (cases js) auto
    then have "own (getPgAddr ?e) = Some (p @ [i])"
      using tables_step [OF tb Cons.prems(1)] Cons.prems(3) b(1) by simp
    then have "resolve m' (getPgAddr ?e) js = Some x"
      by (rule Cons.IH) (use Cons.prems b in simp_all)
    then show ?thesis using same b(1) by (simp add: Let_def)
  qed
qed

lemma resolve_snoc:
  "resolve m t (is @ [i]) = (case resolve m t is of None \<Rightarrow> None
     | Some u \<Rightarrow> (let e = read64 m (entry_addr u i) in if bit e 0 then Some (getPgAddr e) else None))"
  by (induction "is" arbitrary: t) (auto simp: Let_def)

lemma tables_leaf:
  assumes "tables m own root" "same_but own m m' t0 i0" "own t0 = Some r" "length r = 3"
  shows "tables m' own root"
proof -
  have "read64 m' (entry_addr t i) = read64 m (entry_addr t i)"
    if "own t = Some p" "length p < 3" "i < 512" for t p i
  proof -
    have "t \<noteq> t0" using that(1,2) assms(3,4) by auto
    then show ?thesis using that assms(2) by (auto simp: same_but_def)
  qed
  then show ?thesis using assms(1) unfolding tables_def Let_def by metis
qed

lemma tables_extend:
  assumes tb: "tables m own root" and sb: "same_but own m m' t0 i0" and t0: "own t0 = Some r" "length r < 3" "i0 < 512"
    and q: "own q = None" "q mod PAGE_SIZE = 0" "\<forall>i < 512. read64 m' (entry_addr q i) = 0"
    and e: "getPgAddr (read64 m' (entry_addr t0 i0)) = q" "bit (read64 m' (entry_addr t0 i0)) 0"
      "bit (read64 m' (entry_addr t0 i0)) 1" "\<not> bit (read64 m (entry_addr t0 i0)) 0"
  shows "tables m' (own(q \<mapsto> r @ [i0])) root"
  unfolding tables_def
proof (intro conjI allI impI)
  have rt: "own root = Some []" using tb by (simp add: tables_def)
  then show "(own(q \<mapsto> r @ [i0])) root = Some []" using q(1) by auto
  fix t p assume t: "(own(q \<mapsto> r @ [i0])) t = Some p"
  have old: "length p \<le> 3 \<and> t mod PAGE_SIZE = 0" if "own t = Some p"
    using tb that by (simp add: tables_def)
  show "length p \<le> 3" "t mod PAGE_SIZE = 0" using t old q(2) t0(2) by (auto split: if_splits)
  fix i :: u64 assume p: "length p < 3" and i: "i < 512"
  show "let e = read64 m' (entry_addr t i)
       in (bit e 1 \<longleftrightarrow> bit e 0) \<and> (bit e 0 \<longrightarrow> (own(q \<mapsto> r @ [i0])) (getPgAddr e) = Some (p @ [i]))"
  proof (cases "t = q")
    case True
    then show ?thesis using q(3) i by (simp add: Let_def)
  next
    case False
    then have ot: "own t = Some p" using t by simp
    show ?thesis
    proof (cases "(t, i) = (t0, i0)")
      case True
      then show ?thesis using e ot t0(1) by (simp add: Let_def)
    next
      case False
      then have same: "read64 m' (entry_addr t i) = read64 m (entry_addr t i)"
        using sb ot i by (auto simp: same_but_def)
      have "let e = read64 m (entry_addr t i)
          in (bit e 1 \<longleftrightarrow> bit e 0) \<and> (bit e 0 \<longrightarrow> own (getPgAddr e) = Some (p @ [i]))"
        using tb ot p i by (simp add: tables_def)
      then show ?thesis using same q(1) by (auto simp: Let_def)
    qed
  qed
qed

lemma same_but_write:
  assumes "\<forall>t \<in> dom own. t mod PAGE_SIZE = 0" "t0 mod PAGE_SIZE = 0" "i0 < 512"
    and "\<And>t x. t \<in> dom own \<Longrightarrow> x div PAGE_SIZE = t div PAGE_SIZE \<Longrightarrow> m1 x = m x"
  shows "same_but own m (write64 (entry_addr t0 i0) v m1) t0 i0"
  unfolding same_but_def
proof (intro ballI allI impI)
  fix t i assume t: "t \<in> dom own" and i: "i < 512" and ne: "(t, i) \<noteq> (t0, i0)"
  have a: "t mod PAGE_SIZE = 0" using assms(1) t by simp
  have "read64 (write64 (entry_addr t0 i0) v m1) (entry_addr t i) = read64 m1 (entry_addr t i)"
    by (rule read64_write64_apart) (rule entry_apart [OF a i assms(2,3) ne])
  also have "\<dots> = read64 m (entry_addr t i)"
    by (rule entry_cong [OF a i]) (use assms(4) t in blast)
  finally show "read64 (write64 (entry_addr t0 i0) v m1) (entry_addr t i) = read64 m (entry_addr t i)" .
qed

lemma page_within:
  assumes "j < 2 ^ 52" "x div PAGE_SIZE = j"
  shows "within (j * PAGE_SIZE) PAGE_SIZE x"
proof -
  have j: "unat j < 2 ^ 52" using assms(1) by (simp add: word_less_nat_alt)
  have x: "4096 * unat j \<le> unat x" "unat x < 4096 * unat j + 4096"
    using page_of [OF j, of x] assms(2) by simp_all
  have "unat (j * PAGE_SIZE) = 4096 * unat j" using page_idx(2) [OF assms(1)] by simp
  then have "unat (x - j * PAGE_SIZE) = unat x - 4096 * unat j" using x by (simp add: unat_sub_if')
  also have "\<dots> < 4096" using x by linarith
  finally show ?thesis by (simp add: within_def PAGE_SIZE_def word_less_nat_alt)
qed

lemma read64_zero:
  assumes "t mod PAGE_SIZE = 0" "i < 512" "\<And>x. x div PAGE_SIZE = t div PAGE_SIZE \<Longrightarrow> m x = 0"
  shows "read64 m (entry_addr t i) = 0"
proof -
  have "read64 m (entry_addr t i) = read64 (\<lambda>_. 0) (entry_addr t i)"
    by (rule entry_cong [OF assms(1,2)]) (simp add: assms(3))
  also have "\<dots> = 0" by (simp add: read64_def eval_nat_numeral)
  finally show ?thesis .
qed

lemma map_inv_ownD:
  assumes "map_inv_own own s"
  shows "pg_hint s" "bitmapIdx s \<le> pg_lim s" "pg_lim s \<le> 2 ^ 40" "pg_used s 0" "tables (kmem s) own (PML4 s)"
    "\<And>t. t \<in> dom own \<Longrightarrow> t div PAGE_SIZE \<le> pg_lim s \<and> pg_used s (t div PAGE_SIZE) \<and> t mod PAGE_SIZE = 0"
    "\<And>i. i \<le> pg_lim s \<Longrightarrow> (bm_buffer (PgsMap s) + i div 8) div PAGE_SIZE \<le> pg_lim s \<and>
       pg_used s ((bm_buffer (PgsMap s) + i div 8) div PAGE_SIZE)"
    "\<And>i t. i \<le> pg_lim s \<Longrightarrow> t \<in> dom own \<Longrightarrow>
       t div PAGE_SIZE \<noteq> (bm_buffer (PgsMap s) + i div 8) div PAGE_SIZE"
  using assms by (auto simp: map_inv_own_def tables_def Let_def)

text \<open>The memory after a new table at frame \<open>j\<close> is entered at \<open>ea\<close>.\<close>

lemma new_table_memory:
  assumes inv: "map_inv_own own s" and t: "t \<in> dom own" "i < 512"
    and j: "j < pg_lim s" "\<not> pg_used s j" "j < 2 ^ 52"
  defines "m2 \<equiv> zeroed (j * PAGE_SIZE) PAGE_SIZE (snd (BitMap_set (PgsMap s) j True (kmem s)))"
  shows "same_but own (kmem s) (write64 (entry_addr t i) v m2) t i"
    and "k < 512 \<Longrightarrow> read64 (write64 (entry_addr t i) v m2) (entry_addr (j * PAGE_SIZE) k) = 0"
    and "k \<le> pg_lim s \<Longrightarrow> write64 (entry_addr t i) v m2 (bm_buffer (PgsMap s) + k div 8)
           = snd (BitMap_set (PgsMap s) j True (kmem s)) (bm_buffer (PgsMap s) + k div 8)"
proof -
  note I = map_inv_ownD [OF inv]
  have jq: "x div PAGE_SIZE = j" if "within (j * PAGE_SIZE) PAGE_SIZE x" for x
    using within_page [OF j(3) that] .
  have q: "j * PAGE_SIZE mod PAGE_SIZE = 0"
    using page_idx(2) [OF j(3)] by (simp add: word_unat_eq_iff unat_mod PAGE_SIZE_def)
  have out: "m2 x = kmem s x" if "u \<in> dom own" "x div PAGE_SIZE = u div PAGE_SIZE" for u x
  proof -
    have "x div PAGE_SIZE \<noteq> j" using I(6) [OF that(1)] that(2) j(2) by auto
    moreover have "x \<noteq> bm_buffer (PgsMap s) + j div 8" using I(8) [of j u] that less_imp_le [OF j(1)] by auto
    ultimately show ?thesis using jq by (auto simp: m2_def zeroed_def BitMap_set_outside)
  qed
  show "same_but own (kmem s) (write64 (entry_addr t i) v m2) t i"
    by (rule same_but_write) (use I(6) t out in auto)
  have tq: "t \<noteq> j * PAGE_SIZE" using I(6) [OF t(1)] page_idx(1) [OF j(3)] j(2) by auto
  show "read64 (write64 (entry_addr t i) v m2) (entry_addr (j * PAGE_SIZE) k) = 0" if "k < 512"
  proof -
    have "apart (entry_addr (j * PAGE_SIZE) k) 8 (entry_addr t i) 8"
      by (rule entry_apart) (use q that I(6) t tq in auto)
    then have "read64 (write64 (entry_addr t i) v m2) (entry_addr (j * PAGE_SIZE) k)
        = read64 m2 (entry_addr (j * PAGE_SIZE) k)" by (rule read64_write64_apart)
    also have "\<dots> = 0"
      by (rule read64_zero [OF q that])
        (use page_within [OF j(3)] page_idx(1) [OF j(3)] in \<open>simp add: m2_def zeroed_def\<close>)
    finally show ?thesis .
  qed
  show "write64 (entry_addr t i) v m2 (bm_buffer (PgsMap s) + k div 8)
      = snd (BitMap_set (PgsMap s) j True (kmem s)) (bm_buffer (PgsMap s) + k div 8)" if "k \<le> pg_lim s"
  proof -
    let ?x = "bm_buffer (PgsMap s) + k div 8"
    have "\<not> within (entry_addr t i) 8 ?x"
      using entry_page [of t i ?x] I(6) [OF t(1)] I(8) [OF that t(1)] t(2) by auto
    moreover have "\<not> within (j * PAGE_SIZE) PAGE_SIZE ?x" using jq [of ?x] I(7) [OF that] j(2) by auto
    ultimately show ?thesis by (simp add: write64_outside m2_def zeroed_def)
  qed
qed

lemma pg_used_cong:
  assumes "PgsMap s' = PgsMap s" "kmem s' (bm_buffer (PgsMap s) + k div 8) = kmem s (bm_buffer (PgsMap s) + k div 8)"
  shows "pg_used s' k = pg_used s k"
  using assms by (simp add: pg_used_def BitMap_get_def)


lemma pg_free_frames_cong:
  assumes "PgsMap s' = PgsMap s" "\<And>k. k \<le> pg_lim s \<Longrightarrow> pg_used s' k = pg_used s k"
  shows "pg_free_frames s' = pg_free_frames s"
proof -
  have "{j. j < pg_lim s' \<and> \<not> pg_used s' j} = {j. j < pg_lim s \<and> \<not> pg_used s j}"
    using assms by (auto simp: less_imp_le)
  then show ?thesis by (simp add: pg_free_frames_def)
qed

lemma map_inv_ownI:
  assumes inv: "map_inv_own own s" and s': "PgsMap s' = PgsMap s" "bitmapIdx s' \<le> pg_lim s" "pg_hint s'"
    and tb: "tables (kmem s') own' (PML4 s')" and d: "dom own' \<subseteq> insert q (dom own)"
    and u: "\<And>k. k \<le> pg_lim s \<Longrightarrow> pg_used s k \<Longrightarrow> pg_used s' k"
    and q: "q \<notin> dom own \<Longrightarrow> q div PAGE_SIZE \<le> pg_lim s \<and> pg_used s' (q div PAGE_SIZE) \<and>
      \<not> pg_used s (q div PAGE_SIZE)"
  shows "map_inv_own own' s'"
proof -
  note I = map_inv_ownD [OF inv]
  have dq: "t \<in> dom own \<or> (t = q \<and> q \<notin> dom own)" if "t \<in> dom own'" for t using d that by auto
  have "t div PAGE_SIZE \<le> pg_lim s \<and> pg_used s' (t div PAGE_SIZE)" if "t \<in> dom own'" for t
    using dq [OF that] I(6) [of t] q u by auto
  moreover have "let pg = (bm_buffer (PgsMap s) + i div 8) div PAGE_SIZE
      in pg \<le> pg_lim s \<and> pg_used s' pg \<and> (\<forall>t \<in> dom own'. t div PAGE_SIZE \<noteq> pg)" if "i \<le> pg_lim s" for i
    using I(7) [OF that] I(8) [OF that] dq q u by (metis (no_types, lifting))
  moreover have "pg_used s' 0" using u [of 0] I(4) by simp
  ultimately show ?thesis using I(3) s' tb by (simp add: map_inv_own_def)
qed

lemma reqPg_loop_more: "mmu.more (snd (reqPg_loop lim s)) = mmu.more s"
  by (induction lim s rule: reqPg_loop.induct) (subst reqPg_loop.simps, auto simp: Let_def allocPg_def split: prod.split)

lemma reqPg_more: "mmu.more (snd (reqPg s)) = mmu.more s"
  by (simp add: reqPg_def reqPg_loop_more)

lemma walkLevel_more: "mmu.more (walkLevel ea f s) = mmu.more s"
  using reqPg_more [of s] by (cases "reqPg s") (simp add: walkLevel_def)

lemma extends_refl [simp]: "extends own s own s"
  by (simp add: extends_def)

lemma extends_trans: "extends own s own1 s1 \<Longrightarrow> extends own1 s1 own2 s2 \<Longrightarrow> extends own s own2 s2"
  by (auto simp: extends_def)

lemma data_pageD:
  assumes "data_page own s pg"
  shows "t \<in> dom own \<Longrightarrow> pg \<noteq> t div PAGE_SIZE" "\<not> pg_used s j \<Longrightarrow> pg \<noteq> j"
    "i \<le> pg_lim s \<Longrightarrow> pg \<noteq> (bm_buffer (PgsMap s) + i div 8) div PAGE_SIZE"
  using assms by (auto simp: data_page_def)

lemma extendsI:
  assumes "PgsMap s' = PgsMap s" "mmu.more s' = mmu.more s" "dom own' \<subseteq> insert q (dom own)"
    and "\<And>k. k \<le> pg_lim s \<Longrightarrow> pg_used s k \<Longrightarrow> pg_used s' k"
    and "q \<notin> dom own \<Longrightarrow> \<not> pg_used s (q div PAGE_SIZE)"
    and "\<And>x. data_page own s (x div PAGE_SIZE) \<Longrightarrow> kmem s' x = kmem s x"
  shows "extends own s own' s'"
proof -
  have "data_page own' s' pg" if d: "data_page own s pg" for pg
  proof -
    have "t div PAGE_SIZE \<noteq> pg" if "t \<in> dom own'" for t
      using assms(3,5) d that by (cases "t \<in> dom own") (auto simp: data_page_def)
    then show ?thesis using d assms(1,4) by (simp add: data_page_def)
  qed
  then show ?thesis using assms(1,2,6) by (simp add: extends_def)
qed

lemma walkLevel_new:
  fixes s :: "'a mmu_scheme"
  assumes inv: "map_inv_own own s" and t: "own t = Some p" "length p < 3" "i < 512"
    and f: "bit f 0" "bit f 1" "f < 4096" and absent: "\<not> bit (read64 (kmem s) (entry_addr t i)) 1"
    and free: "Suc n \<le> pg_free_frames s"
  defines "s' \<equiv> walkLevel (entry_addr t i) f s"
  shows "\<exists>q. own q = None \<and> map_inv_own (own(q \<mapsto> p @ [i])) s' \<and> PML4 s' = PML4 s \<and>
    n \<le> pg_free_frames s' \<and> bit (read64 (kmem s') (entry_addr t i)) 0 \<and>
    getPgAddr (read64 (kmem s') (entry_addr t i)) = q \<and> extends own s (own(q \<mapsto> p @ [i])) s' \<and>
    (\<forall>is. length is = 4 \<and> (\<forall>i \<in> set is. i < 512) \<longrightarrow>
       resolve (kmem s') (PML4 s) is = resolve (kmem s) (PML4 s) is) \<and>
    (\<forall>is x. length is \<le> 4 \<and> (\<forall>i \<in> set is. i < 512) \<and> resolve (kmem s) (PML4 s) is = Some x \<longrightarrow>
       resolve (kmem s') (PML4 s) is = Some x)"
proof -
  note I = map_inv_ownD [OF inv]
  have lim: "pg_lim s \<le> 2 ^ 52" using I(3) by (rule order_trans) simp
  have root: "own (PML4 s) = Some []" using I(5) by (simp add: tables_def)
  have pos: "0 < pg_free_frames s" using free by simp
  obtain j s1 where j: "reqPg s = (j * PAGE_SIZE, s1)" "j < pg_lim s" "j < 2 ^ 52" "\<not> pg_used s j"
      and u: "\<forall>i. pg_used s1 i \<longleftrightarrow> pg_used s i \<or> i = j" and h: "pg_hint s1" "bitmapIdx s1 \<le> pg_lim s"
      and s1: "PgsMap s1 = PgsMap s" "PML4 s1 = PML4 s" "kmem s1 = snd (BitMap_set (PgsMap s) j True (kmem s))"
      and fr: "Suc (pg_free_frames s1) = pg_free_frames s"
    using reqPg_found [OF I(1) lim pos] .
  have more: "mmu.more s' = mmu.more s" by (simp add: s'_def walkLevel_more)
  define e where "e = setPgFlag (setPgAddr 0 (j * PAGE_SIZE)) f"
  let ?q = "j * PAGE_SIZE"
  have s': "kmem s' = write64 (entry_addr t i) e (zeroed ?q PAGE_SIZE (snd (BitMap_set (PgsMap s) j True (kmem s))))"
     "PgsMap s' = PgsMap s" "PML4 s' = PML4 s" "bitmapIdx s' = bitmapIdx s1"
    using absent j(1) s1
    by (simp_all add: s'_def walkLevel_def getPgFlag_PDE_P e_def memset_zeroed Let_def)
  have td: "t \<in> dom own" using t(1) by auto
  note M = new_table_memory [OF inv td t(3) j(2,4,3), where v = e, folded s'(1)]
  have u': "pg_used s' k = pg_used s1 k" if "k \<le> pg_lim s" for k
    by (rule pg_used_cong) (use M(3) [OF that] s' s1 in simp_all)
  have j40: "j < 2 ^ 40" using j(2) I(3) by (rule order_less_le_trans)
  have ea: "read64 (kmem s') (entry_addr t i) = e" by (simp add: s'(1))
  have eq: "getPgAddr e = ?q" using f(3) getPgAddr_frame [OF j40] by (simp add: e_def getPgAddr_entry)
  have eb: "bit e 0" "bit e 1" using f by (simp_all add: e_def bit_entry_low)
  have qn: "own ?q = None"
    using I(6) [of ?q] j(4) page_idx(1) [OF j(3)] by auto
  have absent0: "\<not> bit (read64 (kmem s) (entry_addr t i)) 0"
    using absent I(5) t unfolding tables_def Let_def by blast
  have qa: "?q mod PAGE_SIZE = 0"
    using page_idx(2) [OF j(3)] by (simp add: word_unat_eq_iff unat_mod PAGE_SIZE_def)
  have tb: "tables (kmem s') (own(?q \<mapsto> p @ [i])) (PML4 s')"
    by (rule tables_extend [OF _ M(1) t qn qa])
      (use I(5) M(2) ea eq eb absent0 s'(3) in simp_all)
  have hint: "pg_hint s'"
    unfolding pg_hint_def
  proof (intro allI impI)
    fix k assume "k < bitmapIdx s'"
    then have k: "k < bitmapIdx s1" "k \<le> pg_lim s" using s'(4) h(2) by auto
    then show "pg_used s' k" using u' [OF k(2)] h(1) by (simp add: pg_hint_def)
  qed
  have "map_inv_own (own(?q \<mapsto> p @ [i])) s'"
    by (rule map_inv_ownI [OF inv s'(2) _ hint tb, of ?q])
      (use h(2) s'(4) u u' j page_idx(1) [OF j(3)] in auto)
  moreover have "extends own s (own(?q \<mapsto> p @ [i])) s'"
  proof (rule extendsI [of s' s _ ?q, OF s'(2) more])
    fix x assume d: "data_page own s (x div PAGE_SIZE)"
    then have n: "x div PAGE_SIZE \<noteq> t div PAGE_SIZE" "x div PAGE_SIZE \<noteq> j"
        "x div PAGE_SIZE \<noteq> (bm_buffer (PgsMap s) + j div 8) div PAGE_SIZE"
      using data_pageD(1) [OF d td] data_pageD(2) [OF d j(4)] data_pageD(3) [OF d less_imp_le [OF j(2)]] by simp_all
    have "\<not> within (entry_addr t i) 8 x" "\<not> within ?q PAGE_SIZE x" "x \<noteq> bm_buffer (PgsMap s) + j div 8"
      using n entry_page [of t i x] I(6) [OF td] t(3) within_page [OF j(3), of x] by blast+
    then show "kmem s' x = kmem s x"
      by (simp add: s'(1) write64_outside zeroed_def BitMap_set_outside)
  qed (use u u' j page_idx(1) [OF j(3)] in auto)
  moreover have "pg_free_frames s' = pg_free_frames s1"
    by (rule pg_free_frames_cong) (use s' s1 u' in simp_all)
  moreover have "resolve (kmem s') (PML4 s) is = resolve (kmem s) (PML4 s) is"
    if "length is = 4" "\<forall>i \<in> set is. i < 512" for "is"
    by (rule resolve_extend [OF I(5) M(1) t(1,2) absent0 _ root]) (use that M(2) ea eq in simp_all)
  moreover have "resolve (kmem s') (PML4 s) is = Some x"
    if "length is \<le> 4" "\<forall>i \<in> set is. i < 512" "resolve (kmem s) (PML4 s) is = Some x" for "is" x
    by (rule resolve_mono [OF I(5) M(1) absent0 root]) (use that in simp_all)
  ultimately show ?thesis using qn s'(3) ea eq eb fr free by (auto intro!: exI [of _ ?q])
qed

lemma walkLevel_step:
  fixes s :: "'a mmu_scheme"
  assumes inv: "map_inv_own own s" and t: "own t = Some p" "length p < 3" "i < 512"
    and f: "bit f 0" "bit f 1" "f < 4096" and free: "Suc n \<le> pg_free_frames s"
    and reach: "resolve (kmem s) (PML4 s) p = Some t" "\<forall>j \<in> set p. j < 512"
  defines "s' \<equiv> walkLevel (entry_addr t i) f s"
  defines "t' \<equiv> getPgAddr (read64 (kmem s') (entry_addr t i))"
  obtains own' where "map_inv_own own' s'" "PML4 s' = PML4 s" "n \<le> pg_free_frames s'"
    "own' t' = Some (p @ [i])" "resolve (kmem s') (PML4 s') (p @ [i]) = Some t'" "extends own s own' s'"
    "\<forall>is. length is = 4 \<and> (\<forall>i \<in> set is. i < 512) \<longrightarrow>
       resolve (kmem s') (PML4 s') is = resolve (kmem s) (PML4 s) is"
proof (cases "bit (read64 (kmem s) (entry_addr t i)) 1")
  case True
  note I = map_inv_ownD [OF inv]
  have "s' = s" using True by (simp add: s'_def walkLevel_def getPgFlag_PDE_P)
  moreover have b: "bit (read64 (kmem s) (entry_addr t i)) 0"
    using True I(5) t unfolding tables_def Let_def by blast
  moreover have "own (getPgAddr (read64 (kmem s) (entry_addr t i))) = Some (p @ [i])"
    by (rule tables_step [OF I(5) t b])
  ultimately show ?thesis
    using inv free reach by (intro that [of own]) (simp_all add: t'_def resolve_snoc Let_def)
next
  case False
  obtain q where q: "map_inv_own (own(q \<mapsto> p @ [i])) s'" "PML4 s' = PML4 s" "n \<le> pg_free_frames s'"
    "bit (read64 (kmem s') (entry_addr t i)) 0" "t' = q" "extends own s (own(q \<mapsto> p @ [i])) s'"
    and r: "\<forall>is. length is = 4 \<and> (\<forall>i \<in> set is. i < 512) \<longrightarrow>
       resolve (kmem s') (PML4 s) is = resolve (kmem s) (PML4 s) is"
    and mono: "\<forall>is x. length is \<le> 4 \<and> (\<forall>i \<in> set is. i < 512) \<and> resolve (kmem s) (PML4 s) is = Some x \<longrightarrow>
       resolve (kmem s') (PML4 s) is = Some x"
    using walkLevel_new [OF inv t f False free] unfolding s'_def t'_def by blast
  have "resolve (kmem s') (PML4 s') p = Some t" using mono reach t(2) q(2) by simp
  then have "resolve (kmem s') (PML4 s') (p @ [i]) = Some t'"
    using q(4) by (simp add: resolve_snoc t'_def Let_def)
  then show ?thesis using q r by (intro that [of "own(q \<mapsto> p @ [i])"]) simp_all
qed

text \<open>The last level: the entry is overwritten whatever it was.\<close>

lemma leaf_step:
  fixes s :: "'a mmu_scheme"
  assumes inv: "map_inv_own own s" and t: "own t = Some p" "length p = 3" "i < 512"
    and reach: "resolve (kmem s) (PML4 s) p = Some t" "\<forall>j \<in> set p. j < 512" and e: "bit e 0"
  defines "s' \<equiv> s\<lparr>kmem := write64 (entry_addr t i) e (write64 (entry_addr t i) 0 (kmem s))\<rparr>"
  shows "map_inv_own own s'"
    and "length is = 4 \<Longrightarrow> \<forall>i \<in> set is. i < 512 \<Longrightarrow> resolve (kmem s') (PML4 s') is =
      (if is = p @ [i] then Some (getPgAddr e) else resolve (kmem s) (PML4 s) is)"
    and "extends own s own s'" "pg_free_frames s' = pg_free_frames s"
proof -
  note I = map_inv_ownD [OF inv]
  have td: "t \<in> dom own" using t(1) by auto
  have k: "kmem s' = write64 (entry_addr t i) e (kmem s)" by (simp add: s'_def)
  have sb: "same_but own (kmem s) (kmem s') t i"
    unfolding k by (rule same_but_write) (use I(6) td t(3) in auto)
  have root: "own (PML4 s) = Some []" using I(5) by (simp add: tables_def)
  have u: "pg_used s' k = pg_used s k" if "k \<le> pg_lim s" for k
  proof (rule pg_used_cong)
    have "\<not> within (entry_addr t i) 8 (bm_buffer (PgsMap s) + k div 8)"
      using entry_page [of t i "bm_buffer (PgsMap s) + k div 8"] I(6) [OF td] I(8) [OF that td] t(3) by auto
    then show "kmem s' (bm_buffer (PgsMap s) + k div 8) = kmem s (bm_buffer (PgsMap s) + k div 8)"
      by (simp add: k write64_outside)
  qed (simp add: s'_def)
  have hint: "pg_hint s'"
    unfolding pg_hint_def
  proof (intro allI impI)
    fix k assume "k < bitmapIdx s'"
    then have k: "k < bitmapIdx s" "k \<le> pg_lim s" using I(2) by (auto simp: s'_def)
    then show "pg_used s' k" using u [OF k(2)] I(1) by (simp add: pg_hint_def)
  qed
  have tb: "tables (kmem s') own (PML4 s')"
    using tables_leaf [OF I(5) sb t(1,2)] by (simp add: s'_def)
  show "map_inv_own own s'"
    by (rule map_inv_ownI [OF inv _ _ hint tb, of t]) (use I(2) u td in \<open>auto simp: s'_def\<close>)
  show "extends own s own s'"
  proof (rule extendsI [of s' s _ t])
    fix x assume "data_page own s (x div PAGE_SIZE)"
    then have "\<not> within (entry_addr t i) 8 x" using entry_page [of t i x] I(6) [OF td] t(3) td by (auto simp: data_page_def)
    then show "kmem s' x = kmem s x" by (simp add: k write64_outside)
  qed (use u td in \<open>auto simp: s'_def\<close>)
  show "pg_free_frames s' = pg_free_frames s" by (rule pg_free_frames_cong) (use u in \<open>simp_all add: s'_def\<close>)
  show "resolve (kmem s') (PML4 s') is =
      (if is = p @ [i] then Some (getPgAddr e) else resolve (kmem s) (PML4 s) is)"
    if l: "length is = 4" "\<forall>i \<in> set is. i < 512"
  proof (cases "is = p @ [i]")
    case True
    have "resolve (kmem s') (PML4 s) p = resolve (kmem s) (PML4 s) p"
      by (rule resolve_leaf [OF I(5) sb t(1,2) root]) (use t(2) reach in simp_all)
    then have "resolve (kmem s') (PML4 s') p = Some t" using reach by (simp add: s'_def)
    then show ?thesis using True e by (simp add: resolve_snoc k Let_def)
  next
    case False
    have "resolve (kmem s') (PML4 s) is = resolve (kmem s) (PML4 s) is"
      by (rule resolve_leaf [OF I(5) sb t(1,2) root]) (use l False in simp_all)
    then show ?thesis using False by (simp add: s'_def)
  qed
qed

lemma vpath_less: "length (vpath v) = 4" "\<forall>i \<in> set (vpath v). i < 512"
  by (simp_all add: vpath_def idx_less)

lemma bit_1ff: "bit (0x1ff :: u64) n \<longleftrightarrow> n < 9"
proof -
  have "(0x1ff :: u64) = mask 9" by (simp add: mask_eq_exp_minus_1)
  then show ?thesis by (simp only: bit_mask_iff possible_bit_word) auto
qed

lemma field_eq_iff:
  "(drop_bit k w AND 0x1ff) = (drop_bit k v AND (0x1ff :: u64)) \<longleftrightarrow>
     (\<forall>n. k \<le> n \<and> n < k + 9 \<longrightarrow> bit w n = bit v n)"
proof
  assume eq: "(drop_bit k w AND 0x1ff) = (drop_bit k v AND (0x1ff :: u64))"
  show "\<forall>n. k \<le> n \<and> n < k + 9 \<longrightarrow> bit w n = bit v n"
  proof (intro allI impI)
    fix n assume n: "k \<le> n \<and> n < k + 9"
    then have nk: "n - k < 9" "k + (n - k) = n" by linarith+
    have "bit (drop_bit k w AND 0x1ff) (n - k) = bit (drop_bit k v AND 0x1ff) (n - k)" by (simp only: eq)
    then show "bit w n = bit v n"
      using nk by (simp only: bit_and_iff bit_drop_bit_eq bit_1ff comp_apply) simp
  qed
next
  assume "\<forall>n. k \<le> n \<and> n < k + 9 \<longrightarrow> bit w n = bit v n"
  then show "(drop_bit k w AND 0x1ff) = (drop_bit k v AND (0x1ff :: u64))"
    by (intro bit_word_eqI) (simp only: bit_and_iff bit_drop_bit_eq bit_1ff comp_apply, auto)
qed

lemma fields_cover:
  "(\<forall>n::nat. 39 \<le> n \<and> n < 39 + 9 \<longrightarrow> P n) \<and> (\<forall>n. 30 \<le> n \<and> n < 30 + 9 \<longrightarrow> P n) \<and>
   (\<forall>n. 21 \<le> n \<and> n < 21 + 9 \<longrightarrow> P n) \<and> (\<forall>n. 12 \<le> n \<and> n < 12 + 9 \<longrightarrow> P n) \<longleftrightarrow>
   (\<forall>n. 12 \<le> n \<and> n < 48 \<longrightarrow> P n)"
proof -
  have "12 \<le> n \<and> n < 48 \<longleftrightarrow> 39 \<le> n \<and> n < 39 + 9 \<or> 30 \<le> n \<and> n < 30 + 9 \<or>
      21 \<le> n \<and> n < 21 + 9 \<or> 12 \<le> n \<and> n < 12 + 9" for n :: nat by presburger
  then show ?thesis by (simp only: ) blast
qed

lemma vpath_eq_iff: "vpath w = vpath v \<longleftrightarrow> take_bit 36 (drop_bit 12 w) = take_bit 36 (drop_bit 12 v)"
proof -
  have "vpath w = vpath v \<longleftrightarrow> (\<forall>n. 12 \<le> n \<and> n < 48 \<longrightarrow> bit w n = bit v n)"
    unfolding vpath_def PML4idx_def PDTidx_def PDidx_def PTidx_def
    by (simp only: list.inject field_eq_iff simp_thms) (rule fields_cover)
  also have "\<dots> \<longleftrightarrow> take_bit 36 (drop_bit 12 w) = take_bit 36 (drop_bit 12 v)"
  proof
    assume a: "\<forall>n. 12 \<le> n \<and> n < 48 \<longrightarrow> bit w n = bit v n"
    show "take_bit 36 (drop_bit 12 w) = take_bit 36 (drop_bit 12 v)"
      by (rule bit_word_eqI) (use a in \<open>auto simp: bit_take_bit_iff bit_drop_bit_eq\<close>)
  next
    assume a: "take_bit 36 (drop_bit 12 w) = take_bit 36 (drop_bit 12 v)"
    show "\<forall>n. 12 \<le> n \<and> n < 48 \<longrightarrow> bit w n = bit v n"
    proof (intro allI impI)
      fix n :: nat assume n: "12 \<le> n \<and> n < 48"
      have "bit (take_bit 36 (drop_bit 12 w)) (n - 12) = bit (take_bit 36 (drop_bit 12 v)) (n - 12)"
        by (simp only: a)
      moreover have "n - 12 < 36" "12 + (n - 12) = n" using n by linarith+
      ultimately show "bit w n = bit v n" by (simp add: bit_take_bit_iff bit_drop_bit_eq)
    qed
  qed
  finally show ?thesis .
qed

lemma mmu_map_used:
  "pg_used mmu_map 0" "pg_used mmu_map 1" "pg_used mmu_map 2"
  "\<not> pg_used mmu_map 3" "\<not> pg_used mmu_map 4" "\<not> pg_used mmu_map 5" "\<not> pg_used mmu_map 6"
  by (simp_all add: pg_used_def mmu_map_def BitMap_get_def bitIdx_def)

lemma mmu_map_free: "4 \<le> pg_free_frames mmu_map"
proof -
  have "{3, 4, 5, 6} \<subseteq> {j. j < pg_lim mmu_map \<and> \<not> pg_used mmu_map j}"
    using mmu_map_used by (simp add: mmu_map_def)
  then have "card {3 :: u64, 4, 5, 6} \<le> pg_free_frames mmu_map"
    unfolding pg_free_frames_def by (intro card_mono) simp_all
  then show ?thesis by simp
qed

lemma mmu_map_inv_own: "map_inv_own [0x1000 \<mapsto> []] mmu_map"
proof -
  let ?own = "[0x1000 \<mapsto> []] :: addr \<Rightarrow> u64 list option"
  have "unat j < 3 \<Longrightarrow> unat j = 0 \<or> unat j = 1 \<or> unat j = 2" for j :: u64 by linarith
  then have "j < 3 \<Longrightarrow> j = 0 \<or> j = 1 \<or> j = 2" for j :: u64
    by (simp add: word_less_nat_alt word_unat_eq_iff)
  then have h: "pg_hint mmu_map" using mmu_map_used by (auto simp: pg_hint_def mmu_map_def)
  have z: "read64 (kmem mmu_map) (entry_addr 0x1000 i) = 0" if "i < 512" for i
    by (rule read64_zero [OF _ that]) (auto simp: mmu_map_def PAGE_SIZE_def)
  have tb: "tables (kmem mmu_map) ?own 0x1000"
    using z by (auto simp: tables_def PAGE_SIZE_def)
  have pg: "(0x2000 + i div 8 :: u64) div PAGE_SIZE = 2" if "i \<le> 16" for i
  proof -
    have "unat i \<le> 16" using that by (simp add: word_le_nat_alt)
    then have "unat (i div 8) \<le> 2" by (simp add: unat_div)
    then have "unat (0x2000 + i div 8) = 0x2000 + unat (i div 8)" by (simp add: unat_word_ariths)
    then show ?thesis using \<open>unat (i div 8) \<le> 2\<close>
      by (simp add: word_unat_eq_iff unat_div PAGE_SIZE_def)
  qed
  show ?thesis
    unfolding map_inv_own_def Let_def
  proof (intro conjI)
    show "tables (kmem mmu_map) ?own (PML4 mmu_map)" using tb by (simp add: mmu_map_def)
    show "\<forall>t \<in> dom ?own. t div PAGE_SIZE \<le> pg_lim mmu_map \<and> pg_used mmu_map (t div PAGE_SIZE)"
      using mmu_map_used(2) by (simp add: PAGE_SIZE_def) (simp add: mmu_map_def)
    have "bm_buffer (PgsMap mmu_map) = 0x2000" "pg_lim mmu_map = 16" by (simp_all add: mmu_map_def)
    then show "\<forall>i \<le> pg_lim mmu_map.
        (bm_buffer (PgsMap mmu_map) + i div 8) div PAGE_SIZE \<le> pg_lim mmu_map \<and>
        pg_used mmu_map ((bm_buffer (PgsMap mmu_map) + i div 8) div PAGE_SIZE) \<and>
        (\<forall>t \<in> dom ?own. t div PAGE_SIZE \<noteq> (bm_buffer (PgsMap mmu_map) + i div 8) div PAGE_SIZE)"
      using pg mmu_map_used(3) by (simp add: PAGE_SIZE_def)
  qed (use h mmu_map_used(1) in \<open>simp_all add: mmu_map_def\<close>)
qed

lemma mmu_map_inv: "map_inv mmu_map"
  using mmu_map_inv_own by (auto simp: map_inv_def)

lemma walked_step:
  fixes s :: "'a mmu_scheme"
  assumes w: "walked own s own1 s1 p t (Suc n)" and p: "length p < 3" "i < 512" and f: "bit f 0" "bit f 1" "f < 4096"
  defines "s2 \<equiv> walkLevel (entry_addr t i) f s1"
  shows "\<exists>own2. walked own s own2 s2 (p @ [i]) (getPgAddr (read64 (kmem s2) (entry_addr t i))) n"
proof -
  note W = w [unfolded walked_def]
  have W': "map_inv_own own1 s1" "own1 t = Some p" "Suc n \<le> pg_free_frames s1" "resolve (kmem s1) (PML4 s1) p = Some t"
      "\<forall>j \<in> set p. j < 512" "extends own s own1 s1" using W by blast+
  obtain own2 where o2: "map_inv_own own2 s2" "n \<le> pg_free_frames s2" "own2 (getPgAddr (read64 (kmem s2) (entry_addr t i))) = Some (p @ [i])"
      "resolve (kmem s2) (PML4 s2) (p @ [i]) = Some (getPgAddr (read64 (kmem s2) (entry_addr t i)))" "extends own1 s1 own2 s2"
    and r: "\<forall>is. length is = 4 \<and> (\<forall>i \<in> set is. i < 512) \<longrightarrow> resolve (kmem s2) (PML4 s2) is = resolve (kmem s1) (PML4 s1) is"
    using walkLevel_step [OF W'(1,2) p f W'(3,4,5), folded s2_def] by blast
  have "\<forall>is. length is = 4 \<and> (\<forall>i \<in> set is. i < 512) \<longrightarrow> resolve (kmem s2) (PML4 s2) is = resolve (kmem s) (PML4 s) is"
    using r W by simp
  then show ?thesis
    using o2 extends_trans [OF W'(6) o2(5)] W'(5) p(2) unfolding walked_def by (intro exI [of _ own2]) simp
qed

text \<open>\<open>mapPg\<close> with all it keeps.\<close>

lemma mapPg_step:
  fixes s :: "'a mmu_scheme"
  assumes own: "map_inv_own own s" and fr: "3 + n \<le> pg_free_frames s" and f: "bit f 0" "bit f 1" "f < 4096"
  obtains own' where "map_inv_own own' (mapPg v p f s)" "extends own s own' (mapPg v p f s)"
    "n \<le> pg_free_frames (mapPg v p f s)"
    "\<And>w. translate (mapPg v p f s) w = (if take_bit 36 (drop_bit 12 w) = take_bit 36 (drop_bit 12 v)
     then Some (getPgAddr p OR (w AND 0xfff)) else translate s w)"
proof -
  define ea4 where "ea4 = entry_addr (PML4 s) (PML4idx v)"
  define s1 where "s1 = walkLevel ea4 f s"
  define pdt where "pdt = getPgAddr (read64 (kmem s1) ea4)"
  define ea3 where "ea3 = entry_addr pdt (PDTidx v)"
  define s2 where "s2 = walkLevel ea3 f s1"
  define pd where "pd = getPgAddr (read64 (kmem s2) ea3)"
  define ea2 where "ea2 = entry_addr pd (PDidx v)"
  define s3 where "s3 = walkLevel ea2 f s2"
  define pt where "pt = getPgAddr (read64 (kmem s3) ea2)"
  note defs = ea4_def s1_def pdt_def ea3_def s2_def pd_def ea2_def s3_def pt_def
  have "walked own s own s [] (PML4 s) (Suc (Suc (Suc n)))"
    using own fr by (simp add: walked_def map_inv_own_def tables_def)
  from walked_step [OF this _ idx_less(1) [of v] f, folded ea4_def, folded s1_def, folded pdt_def]
  obtain own1 where w1: "walked own s own1 s1 [PML4idx v] pdt (Suc (Suc n))" by auto
  from walked_step [OF w1 _ idx_less(2) [of v] f, folded ea3_def, folded s2_def, folded pd_def]
  obtain own2 where w2: "walked own s own2 s2 [PML4idx v, PDTidx v] pd (Suc n)" by auto
  from walked_step [OF w2 _ idx_less(3) [of v] f, folded ea2_def, folded s3_def, folded pt_def]
  obtain own3 where w3: "walked own s own3 s3 [PML4idx v, PDTidx v, PDidx v] pt n" by auto
  then have W: "map_inv_own own3 s3" "own3 pt = Some [PML4idx v, PDTidx v, PDidx v]"
      "resolve (kmem s3) (PML4 s3) [PML4idx v, PDTidx v, PDidx v] = Some pt" "\<forall>j \<in> set [PML4idx v, PDTidx v, PDidx v]. j < 512"
      "extends own s own3 s3" "n \<le> pg_free_frames s3" unfolding walked_def by blast+
  define pte where "pte = setPgFlag (setPgAddr 0 p) f"
  have e: "bit pte 0" "getPgAddr pte = getPgAddr p"
    using f by (simp_all add: pte_def bit_entry_low getPgAddr_entry)
  let ?s = "s3\<lparr>kmem := write64 (entry_addr pt (PTidx v)) pte (write64 (entry_addr pt (PTidx v)) 0 (kmem s3))\<rparr>"
  have m: "mapPg v p f s = ?s" by (simp add: mapPg_def Let_def defs pte_def)
  have l3: "length [PML4idx v, PDTidx v, PDidx v] = 3" by simp
  note leaf = leaf_step [OF W(1,2) l3 idx_less(4) [of v] W(3,4) e(1)]
  have "resolve (kmem ?s) (PML4 ?s) (vpath w) =
      (if vpath w = vpath v then Some (getPgAddr p) else resolve (kmem s) (PML4 s) (vpath w))" for w
    using leaf(2) [OF vpath_less, of w] w3 vpath_less [of w] e(2) unfolding walked_def vpath_def [of v] by simp
  then have "translate ?s w = (if take_bit 36 (drop_bit 12 w) = take_bit 36 (drop_bit 12 v)
     then Some (getPgAddr p OR (w AND 0xfff)) else translate s w)" for w
    by (simp add: translate_def vpath_eq_iff)
  moreover have "n \<le> pg_free_frames ?s" using leaf(4) W(6) by (simp only: )
  ultimately show ?thesis using leaf(1) extends_trans [OF W(5) leaf(3)] by (intro that [of own3]) (simp_all only: m)
qed

lemma resolve_same:
  assumes tb: "tables m own root" and same: "\<And>t i. t \<in> dom own \<Longrightarrow> i < 512 \<Longrightarrow> read64 m' (entry_addr t i) = read64 m (entry_addr t i)"
    and "own t = Some p" "length p + length is \<le> 4" "\<forall>i \<in> set is. i < 512"
  shows "resolve m' t is = resolve m t is"
  using assms(3-)
proof (induction "is" arbitrary: t p)
  case (Cons i js)
  have eq: "read64 m' (entry_addr t i) = read64 m (entry_addr t i)" using same Cons.prems(1,3) by auto
  show ?case
  proof (cases "bit (read64 m (entry_addr t i)) 0 \<and> js \<noteq> []")
    case True
    then have "length p < 3" using Cons.prems(2) by (cases js) auto
    then have "own (getPgAddr (read64 m (entry_addr t i))) = Some (p @ [i])"
      using tables_step [OF tb Cons.prems(1)] Cons.prems(3) True by simp
    then show ?thesis using Cons.IH Cons.prems eq by (simp add: Let_def)
  qed (use eq in \<open>auto simp: Let_def\<close>)
qed simp

text \<open>A requested frame is a data page that was none before.\<close>

lemma reqPg_step:
  fixes s :: "'a mmu_scheme"
  assumes inv: "map_inv_own own s" and fr: "Suc n \<le> pg_free_frames s"
  obtains j s' where "reqPg s = (j * PAGE_SIZE, s')" "0 < j" "j < 2 ^ 40" "map_inv_own own s'" "extends own s own s'"
    "n \<le> pg_free_frames s'" "data_page own s' j" "\<not> data_page own s j" "\<And>w. translate s' w = translate s w"
proof -
  note I = map_inv_ownD [OF inv]
  have lim: "pg_lim s \<le> 2 ^ 52" using I(3) by (rule order_trans) simp
  have pos: "0 < pg_free_frames s" using fr by simp
  obtain j s1 where j: "reqPg s = (j * PAGE_SIZE, s1)" "j < pg_lim s" "j < 2 ^ 52" "\<not> pg_used s j"
      and u: "\<forall>i. pg_used s1 i \<longleftrightarrow> pg_used s i \<or> i = j" and h: "pg_hint s1" "bitmapIdx s1 \<le> pg_lim s"
      and s1: "PgsMap s1 = PgsMap s" "PML4 s1 = PML4 s" "kmem s1 = snd (BitMap_set (PgsMap s) j True (kmem s))"
      and free: "Suc (pg_free_frames s1) = pg_free_frames s"
    using reqPg_found [OF I(1) lim pos] .
  have b: "kmem s1 x = kmem s x" if "x div PAGE_SIZE \<noteq> (bm_buffer (PgsMap s) + j div 8) div PAGE_SIZE" for x
    using that by (auto simp: s1(3) intro!: BitMap_set_outside)
  have sb: "read64 (kmem s1) (entry_addr t i) = read64 (kmem s) (entry_addr t i)" if "t \<in> dom own" "i < 512" for t i
    using I(6) [OF that(1)] I(8) [OF less_imp_le [OF j(2)] that(1)] that(2) b by (intro entry_cong) auto
  have root: "own (PML4 s) = Some []" using I(5) by (simp add: tables_def)
  have tr: "translate s1 w = translate s w" for w
    using resolve_same [OF I(5) sb root, of "vpath w"] vpath_less [of w] s1(2) by (simp add: translate_def)
  have tb: "tables (kmem s1) own (PML4 s1)"
    using I(5) sb s1(2) unfolding tables_def Let_def by (metis domI)
  have "map_inv_own own s1"
    by (rule map_inv_ownI [OF inv s1(1) h(2,1) tb, of "PML4 s"]) (use u root in auto)
  moreover have "extends own s own s1"
  proof (rule extendsI [of s1 s _ "PML4 s"])
    show "mmu.more s1 = mmu.more s" using reqPg_more [of s] j(1) by simp
    show "kmem s1 x = kmem s x" if "data_page own s (x div PAGE_SIZE)" for x
      using that b less_imp_le [OF j(2)] unfolding data_page_def by metis
  qed (use s1(1) u root in auto)
  moreover have "data_page own s1 j"
    using j(2,4) u I(6,7) s1(1) unfolding data_page_def by (metis less_imp_le)
  moreover have "\<not> data_page own s j" using j(4) by (simp add: data_page_def)
  moreover have "0 < j" using j(4) I(4) word_gt_0 by blast
  moreover have "j < 2 ^ 40" using j(2) I(3) by (rule order_less_le_trans)
  ultimately show ?thesis using j(1) tr free fr by (intro that [of j s1]) simp_all
qed

text \<open>A change of data pages only leaves the page tables what they are.\<close>

lemma data_write:
  fixes s :: "'a mmu_scheme"
  assumes inv: "map_inv_own own s" and m: "\<And>x. \<not> data_page own s (x div PAGE_SIZE) \<Longrightarrow> m x = kmem s x"
  shows "map_inv_own own (s\<lparr>kmem := m\<rparr>)" "translate (s\<lparr>kmem := m\<rparr>) w = translate s w"
    "data_page own (s\<lparr>kmem := m\<rparr>) pg = data_page own s pg" "pg_free_frames (s\<lparr>kmem := m\<rparr>) = pg_free_frames s"
proof -
  note I = map_inv_ownD [OF inv]
  let ?s = "s\<lparr>kmem := m\<rparr>"
  have lim: "pg_lim ?s = pg_lim s" "PgsMap ?s = PgsMap s" "bitmapIdx ?s = bitmapIdx s" "PML4 ?s = PML4 s" by simp_all
  have same: "read64 m (entry_addr t i) = read64 (kmem s) (entry_addr t i)" if t: "t \<in> dom own" and "i < 512" for t i
  proof (rule entry_cong)
    show "m x = kmem s x" if "x div PAGE_SIZE = t div PAGE_SIZE" for x
      using m [of x] data_pageD(1) [OF _ t, of s "x div PAGE_SIZE"] that by blast
  qed (use I(6) [OF t] that in auto)
  have u: "pg_used ?s k = pg_used s k" if k: "k \<le> pg_lim s" for k
  proof (rule pg_used_cong)
    show "kmem ?s (bm_buffer (PgsMap s) + k div 8) = kmem s (bm_buffer (PgsMap s) + k div 8)"
      using m data_pageD(3) [OF _ k, of own "(bm_buffer (PgsMap s) + k div 8) div PAGE_SIZE"] by auto
  qed simp
  have hint: "pg_hint ?s"
    unfolding pg_hint_def
  proof (intro allI impI)
    fix k assume "k < bitmapIdx ?s"
    then have k: "k < bitmapIdx s" "k \<le> pg_lim s" using I(2) by auto
    then show "pg_used ?s k" using u [OF k(2)] I(1) by (simp add: pg_hint_def)
  qed
  have root: "own (PML4 s) = Some []" using I(5) by (simp add: tables_def)
  have tb: "tables (kmem ?s) own (PML4 ?s)" using I(5) same unfolding tables_def Let_def by (simp add: domI)
  show "map_inv_own own ?s"
    by (rule map_inv_ownI [OF inv _ _ hint tb, of "PML4 s"]) (use I(2) u root in auto)
  show "translate ?s w = translate s w"
    using resolve_same [OF I(5) same root, of "vpath w"] vpath_less [of w] by (simp add: translate_def)
  show "data_page own ?s pg = data_page own s pg"
    using u by (auto simp: data_page_def)
  show "pg_free_frames ?s = pg_free_frames s" by (rule pg_free_frames_cong) (use u in simp_all)
qed

section \<open>Properties of the page tables\<close>

text \<open>
  C3. With three free frames at hand and flags that include present and writable, \<open>mapPg\<close> makes
  the processor translate every address of the page of \<open>vaddr\<close> to the frame of \<open>paddr\<close> and leaves
  the translation of every other address, mapped or not, as it was; and the page table invariant
  holds again afterwards.
\<close>

theorem mapPg_maps:
  fixes s :: "'a mmu_scheme"
  assumes inv: "map_inv s" and free: "3 \<le> pg_free_frames s" and f: "bit f 0" "bit f 1" "f < 4096"
  shows "map_inv (mapPg v p f s) \<and> translate (mapPg v p f s) w =
    (if take_bit 36 (drop_bit 12 w) = take_bit 36 (drop_bit 12 v)
     then Some (getPgAddr p OR (w AND 0xfff)) else translate s w)"
proof -
  obtain own where own: "map_inv_own own s" using inv by (auto simp: map_inv_def)
  have "3 + 0 \<le> pg_free_frames s" using free by simp
  then obtain own' where "map_inv_own own' (mapPg v p f s)"
      "\<And>w. translate (mapPg v p f s) w = (if take_bit 36 (drop_bit 12 w) = take_bit 36 (drop_bit 12 v)
         then Some (getPgAddr p OR (w AND 0xfff)) else translate s w)"
    using mapPg_step [OF own _ f, of 0 v p] by blast
  then show ?thesis unfolding map_inv_def by blast
qed

theorem mapPg_maps_witness:
  "translate (mapPg 0x70000000 0x5000 7 mmu_map) 0x70000123 = Some 0x5123"
  using mapPg_maps [OF mmu_map_inv, where f = 7 and v = "0x70000000" and p = "0x5000" and w = "0x70000123"] mmu_map_free
  by (simp add: getPgAddr_def)

text \<open>
  An entry reads back what was put into it: the frame of the address written, whatever the
  flags and the previous contents, and the low bits of the flags.
\<close>

lemma page_entry_roundtrip:
  assumes "flags < 4096"
  shows "getPgAddr (setPgFlag (setPgAddr pg paddr) flags) = getPgAddr paddr \<and>
    (n < 12 \<longrightarrow> bit (setPgFlag (setPgAddr pg paddr) flags) n = (bit pg n \<or> bit flags n))"
proof -
  have "getPgAddr (setPgFlag (setPgAddr pg paddr) flags) = getPgAddr paddr"
    by (rule bit_word_eqI)
      (auto simp: bit_getPgAddr setPgFlag_def bit_or_iff bit_setPgAddr_any bit_less_12 [OF assms])
  moreover have "bit (setPgFlag (setPgAddr pg paddr) flags) n = (bit pg n \<or> bit flags n)" if "n < 12"
    using that by (simp add: setPgFlag_def bit_or_iff bit_setPgAddr_any)
  ultimately show ?thesis by blast
qed

text \<open>
  \<open>getPgFlag(e, PDE_P)\<close> tests the writable bit and not the present bit, because the macro
  shifts by the mask it is given: a present read-only entry counts as missing, and a writable
  entry that is not present as there.
\<close>

lemma getPgFlag_tests_writable:
  "(getPgFlag e PDE_P \<longleftrightarrow> bit e 1) \<and> \<not> getPgFlag PDE_P PDE_P \<and> getPgFlag PDE_R PDE_P"
  unfolding getPgFlag_PDE_P by (simp add: PDE_P_def PDE_R_def)

end
