(* ===== verification/Task.thy ===== *)
theory Task
  imports Kqueue Paging_Map
begin

text \<open>
  The task manager, \<open>src/src/kernel/task/task.cpp\<close> and \<open>task.hpp\<close>: the table of tasks, the queues
  that tids travel through (to load, per processor, to reap), the scheduler that the timer
  interrupt calls, the bodies of the loader and reaper threads, and the ending of tasks. The two
  \<open>createTask\<close> are in \<open>Process\<close>.

  The queues are the linked queues of \<open>Kqueue\<close>, on the kernel heap. The task structures are
  objects at the addresses \<open>kpkZalloc\<close> returns, in one store per structure type; fields keep the
  width of the source, and \<open>pid\<close> is the signed reading of a byte. What runs concurrently is
  sequenced: a busy wait for another processor is a result of its own (\<open>Waiting\<close>, or the slot
  waited for), after which the operation is resumed by the next call.
\<close>

section \<open>State\<close>

record CtxRegisters =
  ctx_rax :: u64
  ctx_rbx :: u64
  ctx_rcx :: u64
  ctx_rdx :: u64
  ctx_rdi :: u64
  ctx_rsi :: u64
  ctx_rbp :: u64
  ctx_r8 :: u64
  ctx_r9 :: u64
  ctx_r10 :: u64
  ctx_r11 :: u64
  ctx_r12 :: u64
  ctx_r13 :: u64
  ctx_r14 :: u64
  ctx_r15 :: u64
  ctx_rip :: u64
  ctx_cs :: u64
  ctx_flags :: u64
  ctx_rsp :: u64
  ctx_ss :: u64
  ctx_gs :: u64
  ctx_fs :: u64

record ThreadHdr =
  ctxReg :: CtxRegisters
  stack :: addr
  argc :: u32
  argv :: addr
  tid :: u8
  tcb_statusEnd :: bool
  timeSlices :: u8

record ProcessHdr =
  pid :: u8
  ppid :: u8
  filename :: "byte list"
  lastVaddr :: addr
  pd :: addr
  pcb_heap :: addr
  pcb_statusEnd :: bool
  tlsSize :: u64
  ogTLS :: addr
  threadPoolCount :: u64

record TaskHeader =
  TCB :: addr
  PCB :: addr
  estimate :: u32

record tmgr = mmu +
  tasks :: "addr list"
  tasksCount :: u8
  kernelPHdr :: addr
  tasksToReap :: llist
  tasksToLoad :: llist
  threadsQue :: "llist list"
  hdrs :: "addr \<Rightarrow> TaskHeader"
  tcbs :: "addr \<Rightarrow> ThreadHdr"
  pcbs :: "addr \<Rightarrow> ProcessHdr"

definition MAX_TASKS_COUNT :: nat where "MAX_TASKS_COUNT = 255"
definition TIME_SLICE :: u32 where "TIME_SLICE = 2"
definition ACTIVE_CPUS :: addr where "ACTIVE_CPUS = 0x509"
definition KERNEL_CODE :: u64 where "KERNEL_CODE = 0x8"
definition KERNEL_DATA :: u64 where "KERNEL_DATA = 0x10"
definition USER_DATA :: u64 where "USER_DATA = 0x1b"
definition USER_CODE :: u64 where "USER_CODE = 0x23"

text \<open>Sizes of the packed structures, and the zero objects that \<open>kpkZalloc\<close> leaves.\<close>

definition sizeof_TaskHeader :: u64 where "sizeof_TaskHeader = 20"
definition sizeof_ThreadHdr :: u64 where "sizeof_ThreadHdr = 203"
definition sizeof_ProcessHdr :: u64 where "sizeof_ProcessHdr = 66"

definition zero_ctx :: CtxRegisters where
  "zero_ctx = \<lparr>ctx_rax = 0, ctx_rbx = 0, ctx_rcx = 0, ctx_rdx = 0, ctx_rdi = 0, ctx_rsi = 0, ctx_rbp = 0,
     ctx_r8 = 0, ctx_r9 = 0, ctx_r10 = 0, ctx_r11 = 0, ctx_r12 = 0, ctx_r13 = 0, ctx_r14 = 0, ctx_r15 = 0,
     ctx_rip = 0, ctx_cs = 0, ctx_flags = 0, ctx_rsp = 0, ctx_ss = 0, ctx_gs = 0, ctx_fs = 0\<rparr>"

definition zero_TCB :: ThreadHdr where
  "zero_TCB = \<lparr>ctxReg = zero_ctx, stack = 0, argc = 0, argv = 0, tid = 0, tcb_statusEnd = False,
     timeSlices = 0\<rparr>"

definition zero_PCB :: ProcessHdr where
  "zero_PCB = \<lparr>pid = 0, ppid = 0, filename = replicate 15 0, lastVaddr = 0, pd = 0, pcb_heap = 0,
     pcb_statusEnd = False, tlsSize = 0, ogTLS = 0, threadPoolCount = 0\<rparr>"

definition zero_Hdr :: TaskHeader where
  "zero_Hdr = \<lparr>TCB = 0, PCB = 0, estimate = 0\<rparr>"

section \<open>Access\<close>

abbreviation tcb_of :: "'a tmgr_scheme \<Rightarrow> addr \<Rightarrow> ThreadHdr" where
  "tcb_of s t \<equiv> tcbs s (TCB (hdrs s t))"

abbreviation pcb_of :: "'a tmgr_scheme \<Rightarrow> addr \<Rightarrow> ProcessHdr" where
  "pcb_of s t \<equiv> pcbs s (PCB (hdrs s t))"

definition upd_tcb :: "addr \<Rightarrow> (ThreadHdr \<Rightarrow> ThreadHdr) \<Rightarrow> 'a tmgr_scheme \<Rightarrow> 'a tmgr_scheme" where
  "upd_tcb a f s = s\<lparr>tcbs := (tcbs s)(a := f (tcbs s a))\<rparr>"

definition upd_pcb :: "addr \<Rightarrow> (ProcessHdr \<Rightarrow> ProcessHdr) \<Rightarrow> 'a tmgr_scheme \<Rightarrow> 'a tmgr_scheme" where
  "upd_pcb a f s = s\<lparr>pcbs := (pcbs s)(a := f (pcbs s a))\<rparr>"

definition upd_hdr :: "addr \<Rightarrow> (TaskHeader \<Rightarrow> TaskHeader) \<Rightarrow> 'a tmgr_scheme \<Rightarrow> 'a tmgr_scheme" where
  "upd_hdr a f s = s\<lparr>hdrs := (hdrs s)(a := f (hdrs s a))\<rparr>"

text \<open>\<open>statusEnd\<close> of a task: its process or its thread has been told to end.\<close>

definition task_ended :: "'a tmgr_scheme \<Rightarrow> addr \<Rightarrow> bool" where
  "task_ended s t \<longleftrightarrow> pcb_statusEnd (pcb_of s t) \<or> tcb_statusEnd (tcb_of s t)"

definition push_reap :: "u8 \<Rightarrow> 'a tmgr_scheme \<Rightarrow> 'a tmgr_scheme option" where
  "push_reap d s = do { (l, s1) \<leftarrow> Queue_push d (tasksToReap s) s; Some (s1\<lparr>tasksToReap := l\<rparr>) }"

definition push_load :: "u8 \<Rightarrow> 'a tmgr_scheme \<Rightarrow> 'a tmgr_scheme option" where
  "push_load d s = do { (l, s1) \<leftarrow> Queue_push d (tasksToLoad s) s; Some (s1\<lparr>tasksToLoad := l\<rparr>) }"

definition push_thread :: "u8 \<Rightarrow> u8 \<Rightarrow> 'a tmgr_scheme \<Rightarrow> 'a tmgr_scheme option" where
  "push_thread cpu d s =
     (if unat cpu \<ge> length (threadsQue s) then None
      else do { (l, s1) \<leftarrow> Queue_push d (threadsQue s ! unat cpu) s;
                Some (s1\<lparr>threadsQue := (threadsQue s1)[unat cpu := l]\<rparr>) })"

text \<open>The slot of the user page directory that every switch of address space rewrites.\<close>

definition userPD_slot :: "'a tmgr_scheme \<Rightarrow> addr" where
  "userPD_slot s = entry_addr (userPD s) (PDidx USERSPACE_START_ADDR)"

definition set_userPD :: "addr \<Rightarrow> 'a tmgr_scheme \<Rightarrow> 'a tmgr_scheme" where
  "set_userPD p s = s\<lparr>kmem := write64 (userPD_slot s) p (kmem s)\<rparr>"

section \<open>Scheduler\<close>

datatype sched_result = Continue | Waiting | Switch addr

text \<open>From the pop of the processor's queue on: lines 158 to 189.\<close>

partial_function (option) sched_next :: "u8 \<Rightarrow> 'a tmgr_scheme \<Rightarrow> (sched_result \<times> 'a tmgr_scheme) option" where
  "sched_next cpu s =
     (if unat cpu \<ge> length (threadsQue s) then None
      else if isEmpty (threadsQue s ! unat cpu) then Some (Waiting, s)
      else let (p, l, s1) = Queue_pop (threadsQue s ! unat cpu) s;
               s2 = s1\<lparr>threadsQue := (threadsQue s1)[unat cpu := l]\<rparr>;
               slot = unat (kmem s2 p)
           in if slot \<ge> length (tasks s2) then None
              else let task = tasks s2 ! slot
                   in if task \<noteq> 0 \<and> task_ended s2 task
                      then Option.bind (push_reap (tid (tcb_of s2 task)) s2) (\<lambda>s3. sched_next cpu s3)
                      else if task = 0 then None
                      else Some (Switch task,
                             set_userPD (pd (pcb_of s2 task))
                               (upd_tcb (TCB (hdrs s2 task))
                                  (\<lambda>t. t\<lparr>timeSlices := ucast (estimate (hdrs s2 task) * TIME_SLICE)\<rparr>) s2)))"

definition schedule ::
    "u8 \<Rightarrow> addr \<Rightarrow> CtxRegisters \<Rightarrow> 'a tmgr_scheme \<Rightarrow> (sched_result \<times> 'a tmgr_scheme) option" where
  "schedule cpu oldTask ctx s =
     (if oldTask \<noteq> 0 \<and> TCB (hdrs s oldTask) \<noteq> 0 \<and> PCB (hdrs s oldTask) \<noteq> 0
      then (if task_ended s oldTask
            then do { s1 \<leftarrow> push_reap (tid (tcb_of s oldTask)) s; sched_next cpu s1 }
            else if timeSlices (tcb_of s oldTask) > 0
            then Some (Continue, upd_tcb (TCB (hdrs s oldTask)) (\<lambda>t. t\<lparr>timeSlices := timeSlices t - 1\<rparr>) s)
            else do { let s1 = upd_tcb (TCB (hdrs s oldTask))
                        (\<lambda>t. t\<lparr>ctxReg := ctx\<lparr>ctx_gs := ctx_gs (ctxReg t), ctx_fs := ctx_fs (ctxReg t)\<rparr>\<rparr>) s;
                      s2 \<leftarrow> push_thread cpu (tid (tcb_of s1 oldTask)) s1;
                      sched_next cpu s2 })
      else sched_next cpu s)"

text \<open>The timer interrupt: \<open>lapicTimerIRQ\<close> of \<open>apic.cpp\<close>.\<close>

definition lapicTimerIRQ ::
    "u8 \<Rightarrow> addr \<Rightarrow> CtxRegisters \<Rightarrow> 'a tmgr_scheme \<Rightarrow> (sched_result \<times> 'a tmgr_scheme) option" where
  "lapicTimerIRQ cpu gsBase ctx s =
     (if tasksCount s > 2 then schedule cpu gsBase ctx s else Some (Continue, s))"

definition schedYield :: "addr \<Rightarrow> 'a tmgr_scheme \<Rightarrow> 'a tmgr_scheme" where
  "schedYield gsBase s = upd_tcb (TCB (hdrs s gsBase)) (\<lambda>t. t\<lparr>timeSlices := 0\<rparr>) s"

section \<open>Loader and reaper\<close>

text \<open>
  One round of the loader's endless loop, with its local variable \<open>ap\<close>. The addresses of the two
  kernel threads are arguments.
\<close>

definition loader_round ::
    "addr \<Rightarrow> addr \<Rightarrow> u8 \<times> 'a tmgr_scheme \<Rightarrow> (u8 \<times> 'a tmgr_scheme) option" where
  "loader_round loader reaper st = (case st of (ap, s) \<Rightarrow>
     if isEmpty (tasksToLoad s) then Some (ap, s)
     else let (p, l, s1) = Queue_pop (tasksToLoad s) s;
              s2 = s1\<lparr>tasksToLoad := l\<rparr>;
              newTid = kmem s2 p
          in if unat newTid \<ge> length (tasks s2) then None
             else let task = tasks s2 ! unat newTid
                  in if task = 0 then Some (ap, s2)
                     else if ctx_rip (ctxReg (tcb_of s2 task)) \<noteq> loader \<and>
                             ctx_rip (ctxReg (tcb_of s2 task)) \<noteq> reaper
                     then do { s3 \<leftarrow> push_thread ap newTid s2;
                               Some (if ap + 1 = kmem s3 ACTIVE_CPUS then 1 else ap + 1, s3) }
                     else do { s3 \<leftarrow> push_thread 0 newTid s2; Some (ap, s3) })"

text \<open>\<open>freeTask\<close>; the frames of a process are released from the last one down.\<close>

definition freeTask_pages :: "addr \<Rightarrow> int \<Rightarrow> 'a tmgr_scheme \<Rightarrow> 'a tmgr_scheme" where
  "freeTask_pages pt n s =
     fold (\<lambda>i s. PgMgr_freePg (read64 (kmem s) (entry_addr pt (of_nat i))) s) (rev [0..<nat (n + 1)]) s"

definition freeTask :: "u8 \<Rightarrow> 'a tmgr_scheme \<Rightarrow> 'a tmgr_scheme option" where
  "freeTask i s =
     (if unat i \<ge> length (tasks s) then None
      else let task = tasks s ! unat i
           in if task = 0 then Some s
              else do { s1 \<leftarrow>
                (if PCB (hdrs s task) \<noteq> 0
                 then do { s1 \<leftarrow>
                   (if sint (pid (pcb_of s task)) = uint i
                    then do { s0 \<leftarrow> (if ogTLS (pcb_of s task) \<noteq> 0 then kpkFree (ogTLS (pcb_of s task)) s else Some s);
                              let pt = getPgAddr (pd (pcb_of s0 task));
                              let s1 = upd_pcb (PCB (hdrs s0 task)) (\<lambda>p. p\<lparr>lastVaddr := lastVaddr p - PAGE_SIZE\<rparr>) s0;
                              let n = sint (ucast ((lastVaddr (pcb_of s1 task) - USERSPACE_START_ADDR) div PAGE_SIZE) :: u32);
                              Some (PgMgr_freePg pt (freeTask_pages pt n s1)) }
                    else Some s);
                           s2 \<leftarrow> kpkFree (PCB (hdrs s1 task)) s1;
                           Some (upd_hdr task (\<lambda>h. h\<lparr>PCB := 0\<rparr>) s2) }
                 else Some s);
                s2 \<leftarrow> kpkFree task s1;
                Some (s2\<lparr>tasks := (tasks s2)[unat i := 0], tasksCount := tasksCount s2 - 1\<rparr>) })"

definition reaper_round :: "'a tmgr_scheme \<Rightarrow> 'a tmgr_scheme option" where
  "reaper_round s =
     (if isEmpty (tasksToReap s) then Some s
      else let (p, l, s1) = Queue_pop (tasksToReap s) s
           in freeTask (kmem s1 p) (s1\<lparr>tasksToReap := l\<rparr>))"

section \<open>Accesses through the page tables, the constructor\<close>

text \<open>Loads and stores through a virtual address of the current address space; \<open>None\<close> is a page fault.\<close>

definition vread :: "'a mmu_scheme \<Rightarrow> addr \<Rightarrow> byte option" where
  "vread s v = map_option (kmem s) (translate s v)"

definition vwrite :: "addr \<Rightarrow> byte \<Rightarrow> 'a mmu_scheme \<Rightarrow> 'a mmu_scheme option" where
  "vwrite v b s = map_option (\<lambda>p. s\<lparr>kmem := (kmem s)(p := b)\<rparr>) (translate s v)"

primrec vwrites :: "addr \<Rightarrow> byte list \<Rightarrow> 'a mmu_scheme \<Rightarrow> 'a mmu_scheme option" where
  "vwrites v [] s = Some s"
| "vwrites v (b # bs) s = do { s1 \<leftarrow> vwrite v b s; vwrites (v + 1) bs s1 }"

definition u64_bytes :: "u64 \<Rightarrow> byte list" where
  "u64_bytes x = map (\<lambda>i. ucast (drop_bit (8 * i) x)) [0..<8]"

definition threadEnd :: "byte list" where
  "threadEnd = [0x48, 0xc7, 0xc0, 0x07, 0x0, 0x0, 0x0, 0xcd, 0x80, 0xeb, 0xfe]"

text \<open>The constructor: the process header that all kernel threads share.\<close>

definition kernelFilename :: "byte list" where
  "kernelFilename = map of_char ''Kernel Thread'' @ [0]"

definition TaskMgr :: "'a tmgr_scheme \<Rightarrow> 'a tmgr_scheme option" where
  "TaskMgr s =
     do { (p, s1) \<leftarrow> kpkZalloc sizeof_ProcessHdr s;
          let hdr = zero_PCB\<lparr>pid := - 1, ppid := - 1, lastVaddr := USERSPACE_START_ADDR, pd := 0, pcb_heap := 0,
                pcb_statusEnd := False, filename := kernelFilename @ drop (length kernelFilename) (filename zero_PCB)\<rparr>;
          Some (s1\<lparr>kernelPHdr := p, pcbs := (pcbs s1)(p := hdr), tasks := replicate MAX_TASKS_COUNT 0, tasksCount := 0,
                  tasksToReap := LinkedList, tasksToLoad := LinkedList, threadsQue := replicate MAX_CPU_COUNT LinkedList\<rparr>) }"

section \<open>Ending tasks\<close>

text \<open>
  \<open>endTask(pid)\<close>: the result names the slot the caller then waits for, if any. The comparison
  \<open>i <= initialTasksCount\<close> on bytes is always true for a count of 255.
\<close>

partial_function (option) endTask_loop :: "u8 \<Rightarrow> u8 \<Rightarrow> u8 \<Rightarrow> 'a tmgr_scheme \<Rightarrow> (u8 option \<times> 'a tmgr_scheme) option" where
  "endTask_loop initial p i s =
     (if i \<le> initial
      then if unat i \<ge> length (tasks s) then None
           else let task = tasks s ! unat i
                in if task \<noteq> 0 \<and> pid (pcb_of s task) = p \<and> uint (tid (tcb_of s task)) \<noteq> sint p
                   then Some (Some i,
                          upd_tcb (TCB (hdrs s task)) (\<lambda>t. t\<lparr>tcb_statusEnd := True, timeSlices := 0\<rparr>)
                            (upd_pcb (PCB (hdrs s task)) (\<lambda>q. q\<lparr>pcb_statusEnd := True\<rparr>) s))
                   else endTask_loop initial p (i + 1) s
      else Some (None, s))"

definition endTask_pid :: "u8 \<Rightarrow> 'a tmgr_scheme \<Rightarrow> (u8 option \<times> 'a tmgr_scheme) option" where
  "endTask_pid p s = endTask_loop (tasksCount s) p 0 s"

text \<open>
  The end of \<open>endTask()\<close>, lines 526 to 532. The last store goes through \<open>TCB\<close> even if that has just been cleared: address 0 is
  mapped, so that it is carried out there, as for \<open>kpkMalloc\<close>. \<open>None\<close> comes from \<open>kpkFree\<close> only.
\<close>

definition endTask_tail :: "addr \<Rightarrow> 'a tmgr_scheme \<Rightarrow> 'a tmgr_scheme option" where
  "endTask_tail task s =
     do { s1 \<leftarrow> (if TCB (hdrs s task) \<noteq> 0 \<and> tcb_statusEnd (tcb_of s task)
                 then do { s0 \<leftarrow> kpkFree (TCB (hdrs s task)) s; Some (upd_hdr task (\<lambda>h. h\<lparr>TCB := 0\<rparr>) s0) }
                 else Some s);
          Some (upd_tcb (TCB (hdrs s1 task)) (\<lambda>t. t\<lparr>tcb_statusEnd := True, timeSlices := 0\<rparr>)
                 (upd_pcb (PCB (hdrs s1 task)) (\<lambda>q. q\<lparr>pcb_statusEnd := True\<rparr>) s1)) }"

definition endTask :: "addr \<Rightarrow> 'a tmgr_scheme \<Rightarrow> (u8 option \<times> 'a tmgr_scheme) option" where
  "endTask task s =
     (if uint (tid (tcb_of s task)) = sint (pid (pcb_of s task))
      then do { (w, s1) \<leftarrow> endTask_pid (pid (pcb_of s task)) s;
                case w of Some i \<Rightarrow> Some (Some i, s1)
                | None \<Rightarrow> map_option (Pair None) (endTask_tail task s1) }
      else map_option (Pair None) (endTask_tail task s))"

section \<open>Queries\<close>

definition alignPAGE_SIZE :: "addr \<Rightarrow> addr" where
  "alignPAGE_SIZE a = (let remainder = a mod PAGE_SIZE in if remainder \<noteq> 0 then a + (PAGE_SIZE - remainder) else a)"

text \<open>\<open>alignPAGE_SIZE\<close> rounds up to the next multiple of the page size.\<close>

lemma alignPAGE_SIZE_rounds_up:
  assumes "unat a + 4096 \<le> 2 ^ 64"
  shows "unat (alignPAGE_SIZE a) = 4096 * ((unat a + 4095) div 4096)"
proof -
  define q r where "q = unat a div 4096" and "r = unat a mod 4096"
  have a: "unat a = 4096 * q + r" "r < 4096" by (simp_all add: q_def r_def)
  have r: "unat (a mod PAGE_SIZE) = r" by (simp add: PAGE_SIZE_def unat_mod r_def)
  show ?thesis
  proof (cases "r = 0")
    case True
    then have "a mod PAGE_SIZE = 0" using r by (simp add: unat_eq_0)
    moreover have "(4096 * q + 4095) div 4096 = q" by simp
    ultimately show ?thesis using a True by (simp add: alignPAGE_SIZE_def)
  next
    case False
    then have n: "a mod PAGE_SIZE \<noteq> 0" unfolding r [symmetric] by (simp only: unat_eq_0 not_False_eq_True)
    have "unat (PAGE_SIZE - a mod PAGE_SIZE) = 4096 - r"
      using r a(2) by (simp add: unat_sub_if' PAGE_SIZE_def)
    moreover have "(4096 * q + r + 4095) div 4096 = Suc q" using False a(2) by simp
    ultimately show ?thesis
      using n a assms by (simp add: alignPAGE_SIZE_def unat_word_ariths)
  qed
qed

definition getTasksCount :: "'a tmgr_scheme \<Rightarrow> u8" where
  "getTasksCount s = tasksCount s"

definition getKernelPHdr :: "'a tmgr_scheme \<Rightarrow> addr" where
  [simp]: "getKernelPHdr s = kernelPHdr s"

definition taskReady :: "u8 \<Rightarrow> 'a tmgr_scheme \<Rightarrow> bool option" where
  "taskReady i s = (if unat i \<ge> length (tasks s) then None else Some (tasks s ! unat i = 0))"

text \<open>The rows \<open>printPS\<close> prints, without their formatting.\<close>

definition printPS :: "'a tmgr_scheme \<Rightarrow> (u8 \<times> u8 \<times> u8 \<times> byte list) list" where
  "printPS s = map (\<lambda>t. (tid (tcb_of s t), pid (pcb_of s t), ppid (pcb_of s t), filename (pcb_of s t)))
     (filter (\<lambda>t. t \<noteq> 0) (take (unat (tasksCount s)) (tasks s)))"

section \<open>Specification vocabulary\<close>

abbreviation all_queues :: "'a tmgr_scheme \<Rightarrow> llist list" where
  "all_queues s \<equiv> tasksToReap s # tasksToLoad s # threadsQue s"

abbreviation reap_q :: "'a tmgr_scheme \<Rightarrow> u8 list" where
  "reap_q s \<equiv> Queue_data (kmem s) (tasksToReap s)"

abbreviation load_q :: "'a tmgr_scheme \<Rightarrow> u8 list" where
  "load_q s \<equiv> Queue_data (kmem s) (tasksToLoad s)"

abbreviation run_q :: "'a tmgr_scheme \<Rightarrow> nat \<Rightarrow> u8 list" where
  "run_q s c \<equiv> Queue_data (kmem s) (threadsQue s ! c)"

abbreviation task_at :: "'a tmgr_scheme \<Rightarrow> u8 \<Rightarrow> addr" where
  "task_at s d \<equiv> tasks s ! unat d"

text \<open>
  The invariant of the task manager: its queues are sound and lie on a heap with room for \<open>n\<close> more
  nodes, a task knows the slot it is in, and the page directory slot lies above the heap.
\<close>

definition task_inv :: "nat \<Rightarrow> 'a tmgr_scheme \<Rightarrow> bool" where
  "task_inv n s \<longleftrightarrow> heap_room {0} (48 * n) s \<and> queues_ok (all_queues s) s \<and>
     length (threadsQue s) = MAX_CPU_COUNT \<and> length (tasks s) = MAX_TASKS_COUNT \<and>
     (\<forall>d. unat d < MAX_TASKS_COUNT \<longrightarrow> task_at s d \<noteq> 0 \<longrightarrow> tid (tcb_of s (task_at s d)) = d) \<and>
     KPKHEAP_END \<le> userPD_slot s \<and> userPD_slot s \<le> - 8"

text \<open>A tid whose task is there and has been told to end, or is there and runs on.\<close>

definition dead_tid :: "'a tmgr_scheme \<Rightarrow> u8 \<Rightarrow> bool" where
  "dead_tid s d \<longleftrightarrow> unat d < MAX_TASKS_COUNT \<and> task_at s d \<noteq> 0 \<and> task_ended s (task_at s d)"

definition live_tid :: "'a tmgr_scheme \<Rightarrow> u8 \<Rightarrow> bool" where
  "live_tid s d \<longleftrightarrow> unat d < MAX_TASKS_COUNT \<and> task_at s d \<noteq> 0 \<and> \<not> task_ended s (task_at s d)"


section \<open>The queues of the task manager\<close>

lemma task_inv_queues:
  assumes "task_inv n s"
  shows "queues_ok (all_queues s) s" "length (all_queues s) = MAX_CPU_COUNT + 2" "length (threadsQue s) = MAX_CPU_COUNT"
    "length (tasks s) = MAX_TASKS_COUNT"
    "unat d < MAX_TASKS_COUNT \<Longrightarrow> task_at s d \<noteq> 0 \<Longrightarrow> tid (tcb_of s (task_at s d)) = d"
  using assms by (simp_all add: task_inv_def)

text \<open>The invariant only reads these parts of the state.\<close>

lemma task_inv_cong:
  assumes "task_inv k s" "heap_room {0} (48 * n) s'" "queues_ok (all_queues s') s'"
    and "length (threadsQue s') = length (threadsQue s)" "tasks s' = tasks s" "hdrs s' = hdrs s"
    and "\<And>a. tid (tcbs s' a) = tid (tcbs s a)" "userPD s' = userPD s"
  shows "task_inv n s'"
  using assms by (auto simp: task_inv_def userPD_slot_def)

lemma push_at:
  fixes s :: "'a tmgr_scheme"
  assumes "task_inv (Suc n) s" "k < MAX_CPU_COUNT + 2"
  obtains l m where "Queue_push d (all_queues s ! k) s = Some (l, s\<lparr>kmem := m, topChunk := topChunk s + 48\<rparr>)"
    "heap_room {0} (48 * n) (s\<lparr>kmem := m, topChunk := topChunk s + 48\<rparr>)"
    "queues_ok ((all_queues s)[k := l]) (s\<lparr>kmem := m, topChunk := topChunk s + 48\<rparr>)"
    "\<forall>j < MAX_CPU_COUNT + 2. Queue_data m ((all_queues s)[k := l] ! j) =
       (if j = k then Queue_data (kmem s) (all_queues s ! k) @ [d] else Queue_data (kmem s) (all_queues s ! j))"
proof -
  have i: "heap_room {0} (48 + 48 * n) s" using assms(1) by (simp add: task_inv_def)
  have k: "k < length (all_queues s)" using assms task_inv_queues(2) by metis
  show ?thesis
    using queues_push [OF i task_inv_queues(1) [OF assms(1)] k, of d] that
      task_inv_queues(2) [OF assms(1)] by metis
qed

lemma queues_ok_kmem:
  assumes "queues_ok qs h" "\<And>x. x < topChunk h \<Longrightarrow> m x = kmem h x"
  shows "queues_ok qs (h\<lparr>kmem := m\<rparr>)" "q \<in> set qs \<Longrightarrow> Queue_data m q = Queue_data (kmem h) q"
proof -
  have r: "read64 m a = read64 (kmem h) a" "m (a + 8) = kmem h (a + 8)"
    if "unat a + 16 \<le> unat (topChunk h)" for a
  proof -
    show "read64 m a = read64 (kmem h) a"
      by (rule read64_below [OF assms(2)]) (use that in auto)
    have "unat (a + 8) = unat a + 8" using that unat_u64_less [of "topChunk h"] by (simp add: unat_word_ariths)
    then show "m (a + 8) = kmem h (a + 8)" using assms(2) that by (simp add: word_less_nat_alt)
  qed
  have n: "queue_nodes l (h\<lparr>kmem := m\<rparr>) ns" if "queue_nodes l h ns" for l ns
    using queue_nodes_frame [OF that, of m "topChunk h"] r(1) that by (simp add: queue_nodes_def)
  then show "queues_ok qs (h\<lparr>kmem := m\<rparr>)" using assms(1) unfolding queues_ok_def by blast
  assume "q \<in> set qs"
  then obtain ns where ns: "queue_nodes q h ns"
    using assms(1) unfolding queues_ok_def by (metis in_set_conv_nth)
  show "Queue_data m q = Queue_data (kmem h) q"
    using Queue_data_nodes [OF ns] Queue_data_nodes [OF n [OF ns]] r(2) ns
    by (simp add: queue_nodes_def)
qed

lemma push_reap_ok:
  fixes s :: "'a tmgr_scheme"
  assumes "task_inv (Suc n) s"
  shows "\<exists>l m. push_reap d s = Some (s\<lparr>kmem := m, topChunk := topChunk s + 48, tasksToReap := l\<rparr>) \<and>
    task_inv n (s\<lparr>kmem := m, topChunk := topChunk s + 48, tasksToReap := l\<rparr>) \<and>
    Queue_data m l = reap_q s @ [d] \<and> Queue_data m (tasksToLoad s) = load_q s \<and>
    (\<forall>c < MAX_CPU_COUNT. Queue_data m (threadsQue s ! c) = run_q s c)"
proof -
  obtain l m where q: "Queue_push d (all_queues s ! 0) s = Some (l, s\<lparr>kmem := m, topChunk := topChunk s + 48\<rparr>)"
    "heap_room {0} (48 * n) (s\<lparr>kmem := m, topChunk := topChunk s + 48\<rparr>)"
    "queues_ok ((all_queues s)[0 := l]) (s\<lparr>kmem := m, topChunk := topChunk s + 48\<rparr>)"
    "\<forall>j < MAX_CPU_COUNT + 2. Queue_data m ((all_queues s)[0 := l] ! j) =
       (if j = 0 then Queue_data (kmem s) (all_queues s ! 0) @ [d] else Queue_data (kmem s) (all_queues s ! j))"
    using push_at [OF assms, of 0 d] by (metis add_2_eq_Suc' zero_less_Suc)
  let ?s = "s\<lparr>kmem := m, topChunk := topChunk s + 48, tasksToReap := l\<rparr>"
  have "Queue_data m l = reap_q s @ [d]" "Queue_data m (tasksToLoad s) = load_q s"
    using q(4) [rule_format, of 0] q(4) [rule_format, of 1] by simp_all
  moreover have "Queue_data m (threadsQue s ! c) = run_q s c" if "c < MAX_CPU_COUNT" for c
    using q(4) [rule_format, of "Suc (Suc c)"] that by simp
  moreover have "task_inv n ?s"
    by (rule task_inv_cong [OF assms]) (use q(2,3) in \<open>simp_all add: heap_room_def queues_ok_def queue_nodes_def\<close>)
  ultimately show ?thesis using q(1) by (auto simp: push_reap_def)
qed

lemma push_thread_ok:
  fixes s :: "'a tmgr_scheme"
  assumes "task_inv (Suc n) s" "unat cpu < MAX_CPU_COUNT"
  shows "\<exists>l m. push_thread cpu d s =
      Some (s\<lparr>kmem := m, topChunk := topChunk s + 48, threadsQue := (threadsQue s)[unat cpu := l]\<rparr>) \<and>
    task_inv n (s\<lparr>kmem := m, topChunk := topChunk s + 48, threadsQue := (threadsQue s)[unat cpu := l]\<rparr>) \<and>
    Queue_data m (tasksToReap s) = reap_q s \<and> Queue_data m (tasksToLoad s) = load_q s \<and>
    Queue_data m l = run_q s (unat cpu) @ [d] \<and>
    (\<forall>c < MAX_CPU_COUNT. c \<noteq> unat cpu \<longrightarrow> Queue_data m (threadsQue s ! c) = run_q s c)"
proof -
  let ?k = "Suc (Suc (unat cpu))"
  have k: "?k < MAX_CPU_COUNT + 2" using assms(2) by simp
  obtain l m where q: "Queue_push d (all_queues s ! ?k) s = Some (l, s\<lparr>kmem := m, topChunk := topChunk s + 48\<rparr>)"
    "heap_room {0} (48 * n) (s\<lparr>kmem := m, topChunk := topChunk s + 48\<rparr>)"
    "queues_ok ((all_queues s)[?k := l]) (s\<lparr>kmem := m, topChunk := topChunk s + 48\<rparr>)"
    "\<forall>j < MAX_CPU_COUNT + 2. Queue_data m ((all_queues s)[?k := l] ! j) =
       (if j = ?k then Queue_data (kmem s) (all_queues s ! ?k) @ [d] else Queue_data (kmem s) (all_queues s ! j))"
    using push_at [OF assms(1) k, of d] .
  let ?s = "s\<lparr>kmem := m, topChunk := topChunk s + 48, threadsQue := (threadsQue s)[unat cpu := l]\<rparr>"
  have "Queue_data m (tasksToReap s) = reap_q s" "Queue_data m (tasksToLoad s) = load_q s"
    using q(4) [rule_format, of 0] q(4) [rule_format, of 1] by simp_all
  moreover have "Queue_data m l = run_q s (unat cpu) @ [d]"
    using q(4) [rule_format, of ?k] assms(2) task_inv_queues(3) [OF assms(1)] by simp
  moreover have "Queue_data m (threadsQue s ! c) = run_q s c" if "c < MAX_CPU_COUNT" "c \<noteq> unat cpu" for c
    using q(4) [rule_format, of "Suc (Suc c)"] that by simp
  moreover have "task_inv n ?s"
    by (rule task_inv_cong [OF assms(1)]) (use q(2,3) in \<open>simp_all add: heap_room_def queues_ok_def queue_nodes_def\<close>)
  moreover have "push_thread cpu d s = Some ?s"
    using q(1) assms(2) task_inv_queues(3) [OF assms(1)] by (simp add: push_thread_def)
  ultimately show ?thesis by blast
qed

lemma pop_thread_ok:
  fixes s :: "'a tmgr_scheme"
  assumes inv: "task_inv n s" and cpu: "unat cpu < MAX_CPU_COUNT" and q: "run_q s (unat cpu) = d # ds"
  shows "\<not> isEmpty (threadsQue s ! unat cpu) \<and> (\<exists>p l. Queue_pop (threadsQue s ! unat cpu) s = (p, l, s) \<and> kmem s p = d \<and>
    task_inv n (s\<lparr>threadsQue := (threadsQue s)[unat cpu := l]\<rparr>) \<and> Queue_data (kmem s) l = ds)"
proof -
  let ?k = "Suc (Suc (unat cpu))"
  have k: "?k < length (all_queues s)" using cpu task_inv_queues(2) [OF inv] by simp
  note ok = task_inv_queues(1) [OF inv]
  obtain p l where r: "Queue_pop (threadsQue s ! unat cpu) s = (p, l, s)" "kmem s p = d"
      "queues_ok ((all_queues s)[?k := l]) s" "Queue_data (kmem s) l = ds"
    using queues_pop [OF ok k] q by auto
  have "task_inv n (s\<lparr>threadsQue := (threadsQue s)[unat cpu := l]\<rparr>)"
    by (rule task_inv_cong [OF inv])
      (use r(3) inv in \<open>simp_all add: task_inv_def heap_room_def queues_ok_def queue_nodes_def\<close>)
  then show ?thesis using r queues_ok_isEmpty [OF ok k] q by auto
qed


section \<open>The scheduler\<close>

lemma above_not_below:
  assumes "KPKHEAP_END \<le> a" "a \<le> - 8" "heap_room K n h" "x < topChunk h"
  shows "\<not> within a 8 x"
proof -
  have "unat a \<le> 2 ^ 64 - 8" using assms(2) by (simp add: word_le_nat_alt unat_uminus_u64 [of 8, simplified])
  then have "unat a + 8 \<le> 2 ^ 64" by simp
  moreover have "unat x < unat a"
    using assms(1,4) heap_room_top(2) [OF assms(3)] by (simp add: word_le_nat_alt word_less_nat_alt KPKHEAP_END_def)
  ultimately show ?thesis
    by (auto simp: within_def word_less_nat_alt unat_sub_if' split: if_splits)
qed

lemma set_userPD_ok:
  assumes "task_inv n s"
  shows "task_inv n (set_userPD p s)" "q \<in> set (all_queues s) \<Longrightarrow> Queue_data (kmem (set_userPD p s)) q = Queue_data (kmem s) q"
proof -
  have i: "KPKHEAP_END \<le> userPD_slot s" "userPD_slot s \<le> - 8" "heap_room {0} (48 * n) s"
    using assms by (simp_all add: task_inv_def)
  have m: "write64 (userPD_slot s) p (kmem s) x = kmem s x" if "x < topChunk s" for x
    by (rule write64_outside) (rule above_not_below [OF i that])
  note k = queues_ok_kmem [OF task_inv_queues(1) [OF assms] m]
  show "task_inv n (set_userPD p s)"
    by (rule task_inv_cong [OF assms]) (use k(1) i(3) in \<open>simp_all add: set_userPD_def\<close>)
  show "q \<in> set (all_queues s) \<Longrightarrow> Queue_data (kmem (set_userPD p s)) q = Queue_data (kmem s) q"
    using k(2) by (simp add: set_userPD_def)
qed

lemma heap_room_cong:
  assumes "topChunk h = topChunk h'" "kmem h = kmem h'" "bucket h = bucket h'"
  shows "heap_room K n h = heap_room K n h'"
  using assms by (simp add: heap_room_def)

lemma queues_ok_cong:
  assumes "topChunk h = topChunk h'" "kmem h = kmem h'"
  shows "queues_ok qs h = queues_ok qs h'"
  using assms by (simp add: queues_ok_def queue_nodes_def)

lemma task_inv_tcb:
  assumes "task_inv n s" "\<And>t. tid (f t) = tid t"
  shows "task_inv n (upd_tcb a f s)"
proof (rule task_inv_cong [OF assms(1)])
  have k: "topChunk (upd_tcb a f s) = topChunk s" "kmem (upd_tcb a f s) = kmem s" "bucket (upd_tcb a f s) = bucket s"
    by (simp_all add: upd_tcb_def)
  show "heap_room {0} (48 * n) (upd_tcb a f s)"
    using assms(1) k by (simp add: task_inv_def heap_room_cong [OF k])
  show "queues_ok (all_queues (upd_tcb a f s)) (upd_tcb a f s)"
    unfolding queues_ok_cong [OF k(1,2)] using task_inv_queues(1) [OF assms(1)] by (simp add: upd_tcb_def)
qed (use assms(2) in \<open>simp_all add: upd_tcb_def\<close>)

definition slice_tcb :: "'a tmgr_scheme \<Rightarrow> addr \<Rightarrow> addr \<Rightarrow> ThreadHdr" where
  "slice_tcb s t = (tcbs s)(TCB (hdrs s t) := (tcb_of s t)\<lparr>timeSlices := ucast (estimate (hdrs s t) * TIME_SLICE)\<rparr>)"

text \<open>The switch to a live task at the head of the queue.\<close>

lemma sched_next_switch:
  fixes s :: "'a tmgr_scheme"
  assumes inv: "task_inv n s" and cpu: "unat cpu < MAX_CPU_COUNT" and q: "run_q s (unat cpu) = d # ds"
    and live: "live_tid s d"
  shows "\<exists>s'. sched_next cpu s = Some (Switch (task_at s d), s') \<and> task_inv n s' \<and>
    run_q s' (unat cpu) = ds \<and> (\<forall>c < MAX_CPU_COUNT. c \<noteq> unat cpu \<longrightarrow> run_q s' c = run_q s c) \<and>
    reap_q s' = reap_q s \<and> load_q s' = load_q s \<and> tasks s' = tasks s \<and> hdrs s' = hdrs s \<and> pcbs s' = pcbs s \<and> userPD s' = userPD s \<and>
    tcbs s' = slice_tcb s (task_at s d) \<and>
    read64 (kmem s') (userPD_slot s') = pd (pcb_of s (task_at s d))"
proof -
  obtain p l where r: "\<not> isEmpty (threadsQue s ! unat cpu)" "Queue_pop (threadsQue s ! unat cpu) s = (p, l, s)"
      "kmem s p = d" "task_inv n (s\<lparr>threadsQue := (threadsQue s)[unat cpu := l]\<rparr>)" "Queue_data (kmem s) l = ds"
    using pop_thread_ok [OF inv cpu q] by blast
  let ?s2 = "s\<lparr>threadsQue := (threadsQue s)[unat cpu := l]\<rparr>" and ?t = "task_at s d"
  let ?s3 = "upd_tcb (TCB (hdrs s ?t)) (\<lambda>t. t\<lparr>timeSlices := ucast (estimate (hdrs s ?t) * TIME_SLICE)\<rparr>) ?s2"
  let ?s4 = "set_userPD (pd (pcb_of s ?t)) ?s3"
  have L: "length (threadsQue s) = MAX_CPU_COUNT" "length (tasks s) = MAX_TASKS_COUNT"
    using task_inv_queues [OF inv] by simp_all
  have ev: "sched_next cpu s = Some (Switch ?t, ?s4)"
    by (subst sched_next.simps)
      (use r L cpu live in \<open>auto simp: Let_def live_tid_def task_ended_def not_le\<close>)
  have i3: "task_inv n ?s3" by (rule task_inv_tcb [OF r(4)]) simp
  note u = set_userPD_ok [OF i3, where p = "pd (pcb_of s ?t)"]
  have k3: "kmem ?s3 = kmem s" by (simp add: upd_tcb_def)
  have Q: "Queue_data (kmem ?s4) x = Queue_data (kmem s) x" if "x \<in> set (all_queues ?s3)" for x
    using u(2) [OF that] k3 by simp
  have "run_q ?s4 (unat cpu) = ds"
    using Q [of l] r(5) cpu L(1) by (simp add: set_userPD_def upd_tcb_def set_update_memI)
  moreover have "run_q ?s4 c = run_q s c" if "c < MAX_CPU_COUNT" "c \<noteq> unat cpu" for c
  proof -
    have "threadsQue s ! c \<in> set ((threadsQue s)[unat cpu := l])"
      using that L(1) by (metis length_list_update nth_list_update_neq nth_mem)
    then show ?thesis using Q [of "threadsQue s ! c"] that by (simp add: set_userPD_def upd_tcb_def)
  qed
  moreover have "reap_q ?s4 = reap_q s" "load_q ?s4 = load_q s"
    using Q [of "tasksToReap s"] Q [of "tasksToLoad s"] by (simp_all add: set_userPD_def upd_tcb_def)
  moreover have "task_inv n ?s4" by (rule u(1))
  ultimately show ?thesis
    using ev by (simp add: set_userPD_def upd_tcb_def userPD_slot_def slice_tcb_def)
qed


text \<open>What the scheduler of one processor leaves alone.\<close>

definition same_tasks :: "nat \<Rightarrow> 'a tmgr_scheme \<Rightarrow> 'a tmgr_scheme \<Rightarrow> bool" where
  "same_tasks cpu s s' \<longleftrightarrow> tasks s' = tasks s \<and> hdrs s' = hdrs s \<and> pcbs s' = pcbs s \<and> userPD s' = userPD s \<and>
     load_q s' = load_q s \<and> (\<forall>c < MAX_CPU_COUNT. c \<noteq> cpu \<longrightarrow> run_q s' c = run_q s c)"

lemma task_inv_mono: "task_inv k s \<Longrightarrow> n \<le> k \<Longrightarrow> task_inv n s"
  by (auto simp: task_inv_def heap_room_def)

lemma same_tasks_trans: "same_tasks c s1 s2 \<Longrightarrow> same_tasks c s2 s3 \<Longrightarrow> same_tasks c s1 s3"
  by (simp add: same_tasks_def)

text \<open>The scheduler hands one dead task to the reaper and goes on.\<close>

lemma sched_next_dead:
  fixes s :: "'a tmgr_scheme"
  assumes inv: "task_inv (Suc n) s" and cpu: "unat cpu < MAX_CPU_COUNT" and q: "run_q s (unat cpu) = d # ds"
    and dead: "dead_tid s d"
  shows "\<exists>s'. sched_next cpu s = sched_next cpu s' \<and> task_inv n s' \<and> run_q s' (unat cpu) = ds \<and>
    reap_q s' = reap_q s @ [d] \<and> same_tasks (unat cpu) s s' \<and> tcbs s' = tcbs s"
proof -
  obtain p l where r: "\<not> isEmpty (threadsQue s ! unat cpu)" "Queue_pop (threadsQue s ! unat cpu) s = (p, l, s)"
      "kmem s p = d" "task_inv (Suc n) (s\<lparr>threadsQue := (threadsQue s)[unat cpu := l]\<rparr>)" "Queue_data (kmem s) l = ds"
    using pop_thread_ok [OF inv cpu q] by blast
  let ?s2 = "s\<lparr>threadsQue := (threadsQue s)[unat cpu := l]\<rparr>"
  obtain l' m where p: "push_reap d ?s2 = Some (?s2\<lparr>kmem := m, topChunk := topChunk ?s2 + 48, tasksToReap := l'\<rparr>)"
    "task_inv n (?s2\<lparr>kmem := m, topChunk := topChunk ?s2 + 48, tasksToReap := l'\<rparr>)"
    "Queue_data m l' = reap_q ?s2 @ [d]" "Queue_data m (tasksToLoad ?s2) = load_q ?s2"
    "\<forall>c < MAX_CPU_COUNT. Queue_data m (threadsQue ?s2 ! c) = run_q ?s2 c"
    using push_reap_ok [OF r(4), of d] by blast
  let ?s3 = "?s2\<lparr>kmem := m, topChunk := topChunk ?s2 + 48, tasksToReap := l'\<rparr>"
  have L: "length (threadsQue s) = MAX_CPU_COUNT" "length (tasks s) = MAX_TASKS_COUNT"
    using task_inv_queues [OF inv] by simp_all
  have "tid (tcb_of ?s2 (task_at s d)) = d"
    using task_inv_queues(5) [OF inv, of d] dead by (simp add: dead_tid_def)
  then have "sched_next cpu s = sched_next cpu ?s3"
    by (subst sched_next.simps)
      (use r L cpu dead p(1) in \<open>simp add: Let_def dead_tid_def task_ended_def not_le\<close>)
  moreover have "Queue_data m l = ds" using p(5) [rule_format, of "unat cpu"] r(5) L cpu by auto
  moreover have "Queue_data m (threadsQue s ! c) = run_q s c" if "c < MAX_CPU_COUNT" "c \<noteq> unat cpu" for c
    using p(5) [rule_format, OF that(1)] that(2) by simp
  ultimately show ?thesis
    using p L cpu by (intro exI [of _ ?s3]) (simp add: same_tasks_def)
qed

lemma dead_live_cong:
  assumes "tasks s' = tasks s" "hdrs s' = hdrs s" "pcbs s' = pcbs s" "\<And>a. tcb_statusEnd (tcbs s' a) = tcb_statusEnd (tcbs s a)"
  shows "dead_tid s' = dead_tid s" "live_tid s' = live_tid s"
  using assms by (auto simp: dead_tid_def live_tid_def task_ended_def)

lemma sched_next_reaps:
  fixes s :: "'a tmgr_scheme"
  assumes "task_inv (length ds + n) s" "unat cpu < MAX_CPU_COUNT" "run_q s (unat cpu) = ds @ rest"
    and "\<And>d. d \<in> set ds \<Longrightarrow> dead_tid s d"
  shows "\<exists>s'. sched_next cpu s = sched_next cpu s' \<and> task_inv n s' \<and> run_q s' (unat cpu) = rest \<and>
    reap_q s' = reap_q s @ ds \<and> same_tasks (unat cpu) s s' \<and> tcbs s' = tcbs s"
  using assms
proof (induction ds arbitrary: s)
  case Nil
  then show ?case by (intro exI [of _ s]) (simp add: same_tasks_def)
next
  case (Cons d ds)
  obtain s1 where s1: "sched_next cpu s = sched_next cpu s1" "task_inv (length ds + n) s1"
      "run_q s1 (unat cpu) = ds @ rest" "reap_q s1 = reap_q s @ [d]" "same_tasks (unat cpu) s s1" "tcbs s1 = tcbs s"
    using sched_next_dead [of "length ds + n" s cpu d "ds @ rest"] Cons.prems by auto
  have "dead_tid s1 x" if "x \<in> set ds" for x
    using dead_live_cong(1) [of s1 s] s1(5,6) Cons.prems(4) [of x] that by (simp add: same_tasks_def)
  from Cons.IH [OF s1(2) Cons.prems(2) s1(3) this] obtain s2 where
    "sched_next cpu s1 = sched_next cpu s2" "task_inv n s2" "run_q s2 (unat cpu) = rest"
    "reap_q s2 = reap_q s1 @ ds" "same_tasks (unat cpu) s1 s2" "tcbs s2 = tcbs s1"
    by blast
  then show ?case
    using s1 same_tasks_trans [OF s1(5)] by (intro exI [of _ s2]) simp
qed

text \<open>The scheduler's loop: dead tasks go to the reaper, the first live one is switched to.\<close>

lemma sched_next_live:
  fixes s :: "'a tmgr_scheme"
  assumes "task_inv (length ds + n) s" "unat cpu < MAX_CPU_COUNT" "run_q s (unat cpu) = ds @ t # rest"
    and "\<And>d. d \<in> set ds \<Longrightarrow> dead_tid s d" "live_tid s t"
  shows "\<exists>s'. sched_next cpu s = Some (Switch (task_at s t), s') \<and> task_inv n s' \<and> run_q s' (unat cpu) = rest \<and>
    reap_q s' = reap_q s @ ds \<and> same_tasks (unat cpu) s s' \<and>
    tcbs s' = slice_tcb s (task_at s t) \<and>
    read64 (kmem s') (userPD_slot s') = pd (pcb_of s (task_at s t))"
proof -
  obtain s1 where s1: "sched_next cpu s = sched_next cpu s1" "task_inv n s1"
      "run_q s1 (unat cpu) = t # rest" "reap_q s1 = reap_q s @ ds" "same_tasks (unat cpu) s s1" "tcbs s1 = tcbs s"
    using sched_next_reaps [OF assms(1-4)] by blast
  have "live_tid s1 t"
    using dead_live_cong(2) [of s1 s] s1(5,6) assms(5) by (simp add: same_tasks_def)
  from sched_next_switch [OF s1(2) assms(2) s1(3) this] obtain s2 where s2:
    "sched_next cpu s1 = Some (Switch (task_at s1 t), s2)" "task_inv n s2" "run_q s2 (unat cpu) = rest"
    "\<forall>c < MAX_CPU_COUNT. c \<noteq> unat cpu \<longrightarrow> run_q s2 c = run_q s1 c" "reap_q s2 = reap_q s1" "load_q s2 = load_q s1"
    "tasks s2 = tasks s1" "hdrs s2 = hdrs s1" "pcbs s2 = pcbs s1" "userPD s2 = userPD s1"
    "tcbs s2 = slice_tcb s1 (task_at s1 t)"
    "read64 (kmem s2) (userPD_slot s2) = pd (pcb_of s1 (task_at s1 t))"
    by blast
  then show ?thesis
    using s1 by (intro exI [of _ s2]) (simp add: same_tasks_def slice_tcb_def)
qed

lemma sched_next_waits:
  fixes s :: "'a tmgr_scheme"
  assumes "task_inv (length ds + n) s" "unat cpu < MAX_CPU_COUNT" "run_q s (unat cpu) = ds"
    and "\<And>d. d \<in> set ds \<Longrightarrow> dead_tid s d"
  shows "\<exists>s'. sched_next cpu s = Some (Waiting, s') \<and> task_inv n s' \<and> run_q s' (unat cpu) = [] \<and>
    reap_q s' = reap_q s @ ds \<and> same_tasks (unat cpu) s s' \<and> tcbs s' = tcbs s"
proof -
  obtain s1 where s1: "sched_next cpu s = sched_next cpu s1" "task_inv n s1"
      "run_q s1 (unat cpu) = []" "reap_q s1 = reap_q s @ ds" "same_tasks (unat cpu) s s1" "tcbs s1 = tcbs s"
    using sched_next_reaps [of ds n s cpu "[]"] assms by auto
  have k: "Suc (Suc (unat cpu)) < length (all_queues s1)"
    using assms(2) task_inv_queues(2) [OF s1(2)] by simp
  have "isEmpty (threadsQue s1 ! unat cpu)"
    using queues_ok_isEmpty [OF task_inv_queues(1) [OF s1(2)] k] s1(3) by simp
  then have "sched_next cpu s1 = Some (Waiting, s1)"
    using assms(2) task_inv_queues(3) [OF s1(2)] by (subst sched_next.simps) simp
  then show ?thesis using s1 by auto
qed


text \<open>The specification of one pass: skip the dead, take the first live one.\<close>

definition sched_pick :: "('d \<Rightarrow> bool) \<Rightarrow> 'd list \<Rightarrow> 'd option \<times> 'd list \<times> 'd list" where
  "sched_pick dead q =
     (case dropWhile dead q of [] \<Rightarrow> (None, [], q) | t # rest \<Rightarrow> (Some t, rest, takeWhile dead q))"

definition sched_pass :: "'a tmgr_scheme \<Rightarrow> nat \<Rightarrow> u8 list \<Rightarrow> u8 list \<Rightarrow> sched_result \<times> 'a tmgr_scheme \<Rightarrow> bool" where
  "sched_pass s cpu q reap res \<longleftrightarrow>
     (let (pick, rest, dead) = sched_pick (dead_tid s) q; (r, s') = res
      in r = (case pick of None \<Rightarrow> Waiting | Some t \<Rightarrow> Switch (task_at s t)) \<and>
         run_q s' cpu = rest \<and> reap_q s' = reap @ dead \<and> same_tasks cpu s s' \<and>
         (case pick of None \<Rightarrow> tcbs s' = tcbs s
          | Some t \<Rightarrow> tcbs s' = slice_tcb s (task_at s t) \<and>
                      read64 (kmem s') (userPD_slot s') = pd (pcb_of s (task_at s t))))"

lemma sched_pick_split:
  "sched_pick dead q = (None, [], q) \<and> (\<forall>d \<in> set q. dead d) \<or>
   (\<exists>ds t rest. q = ds @ t # rest \<and> (\<forall>d \<in> set ds. dead d) \<and> \<not> dead t \<and> sched_pick dead q = (Some t, rest, ds))"
proof (cases "dropWhile dead q")
  case Nil
  then have "\<forall>d \<in> set q. dead d" by (simp add: dropWhile_eq_Nil_conv)
  then show ?thesis unfolding sched_pick_def Nil by simp
next
  case (Cons t rest)
  then have "q = takeWhile dead q @ t # rest" "\<not> dead t"
    by (metis takeWhile_dropWhile_id, simp add: dropWhile_eq_Cons_conv)
  then show ?thesis using Cons set_takeWhileD [of _ dead q] by (auto simp: sched_pick_def)
qed

lemma sched_next_pass:
  fixes s :: "'a tmgr_scheme"
  assumes inv: "task_inv (length (run_q s (unat cpu)) + n) s" and cpu: "unat cpu < MAX_CPU_COUNT"
    and q: "\<And>d. d \<in> set (run_q s (unat cpu)) \<Longrightarrow> dead_tid s d \<or> live_tid s d"
  shows "\<exists>res. sched_next cpu s = Some res \<and> task_inv n (snd res) \<and>
    sched_pass s (unat cpu) (run_q s (unat cpu)) (reap_q s) res"
  using sched_pick_split [of "dead_tid s" "run_q s (unat cpu)"]
proof (elim disjE conjE exE)
  assume *: "sched_pick (dead_tid s) (run_q s (unat cpu)) = (None, [], run_q s (unat cpu))"
    "\<forall>d \<in> set (run_q s (unat cpu)). dead_tid s d"
  from sched_next_waits [OF inv cpu refl] *(2) show ?thesis
    by (auto simp: sched_pass_def *(1))
next
  fix ds t rest
  assume *: "run_q s (unat cpu) = ds @ t # rest" "\<forall>d \<in> set ds. dead_tid s d" "\<not> dead_tid s t"
    "sched_pick (dead_tid s) (run_q s (unat cpu)) = (Some t, rest, ds)"
  have "live_tid s t" using q [of t] * by auto
  moreover have "task_inv (length ds + (Suc (length rest) + n)) s" using inv *(1) by (simp add: ac_simps)
  ultimately obtain s' where s': "sched_next cpu s = Some (Switch (task_at s t), s')" "task_inv (Suc (length rest) + n) s'"
      "run_q s' (unat cpu) = rest" "reap_q s' = reap_q s @ ds" "same_tasks (unat cpu) s s'"
      "tcbs s' = slice_tcb s (task_at s t)" "read64 (kmem s') (userPD_slot s') = pd (pcb_of s (task_at s t))"
    using sched_next_live [OF _ cpu *(1)] *(2) by metis
  have "task_inv n s'" using s'(2) by (rule task_inv_mono) simp
  then show ?thesis using s' by (simp add: sched_pass_def *(4))
qed


definition save_ctx :: "addr \<Rightarrow> CtxRegisters \<Rightarrow> 'a tmgr_scheme \<Rightarrow> 'a tmgr_scheme" where
  "save_ctx task ctx s = upd_tcb (TCB (hdrs s task))
     (\<lambda>t. t\<lparr>ctxReg := ctx\<lparr>ctx_gs := ctx_gs (ctxReg t), ctx_fs := ctx_fs (ctxReg t)\<rparr>\<rparr>) s"

lemma sched_pass_cong:
  assumes "same_tasks cpu s s1" "tcbs s1 = tcbs s"
  shows "sched_pass s1 cpu q reap res = sched_pass s cpu q reap res"
proof -
  have e: "dead_tid s1 = dead_tid s" "slice_tcb s1 = slice_tcb s" "\<And>s'. same_tasks cpu s1 s' = same_tasks cpu s s'"
    "tasks s1 = tasks s" "pcbs s1 = pcbs s" "hdrs s1 = hdrs s"
    using assms by (auto simp: same_tasks_def dead_tid_def task_ended_def slice_tcb_def fun_eq_iff)
  show ?thesis by (simp add: sched_pass_def e assms(2) split: prod.split option.split)
qed

lemma save_ctx_ok:
  assumes "task_inv n s"
  shows "task_inv n (save_ctx t ctx s)" "dead_tid (save_ctx t ctx s) = dead_tid s" "live_tid (save_ctx t ctx s) = live_tid s"
proof -
  show "task_inv n (save_ctx t ctx s)" unfolding save_ctx_def by (rule task_inv_tcb [OF assms]) simp
  show "dead_tid (save_ctx t ctx s) = dead_tid s" "live_tid (save_ctx t ctx s) = live_tid s"
    by (rule dead_live_cong; simp add: save_ctx_def upd_tcb_def)+
qed

text \<open>
  C5. When the time slices of a live task are used up, the scheduler saves its context (keeping the
  stored bases \<open>gs\<close> and \<open>fs\<close>), puts its tid at the end of the processor's queue and makes
  one pass over that queue: dead tasks go to the reaper in order, the first live one gets
  its slices and address space and is returned. The pass ends, never waits, and leaves the
  queues of the other processors alone.
\<close>

theorem schedule_expired:
  fixes s :: "'a tmgr_scheme"
  assumes inv: "task_inv (length (run_q s (unat cpu)) + 2 + n) s" and cpu: "unat cpu < MAX_CPU_COUNT"
    and q: "\<forall>d \<in> set (run_q s (unat cpu)). dead_tid s d \<or> live_tid s d"
    and old: "live_tid s d" "TCB (hdrs s (task_at s d)) \<noteq> 0" "PCB (hdrs s (task_at s d)) \<noteq> 0"
      "timeSlices (tcb_of s (task_at s d)) = 0"
  shows "\<exists>r s'. schedule cpu (task_at s d) ctx s = Some (r, s') \<and> r \<noteq> Waiting \<and> task_inv n s' \<and>
    sched_pass (save_ctx (task_at s d) ctx s) (unat cpu) (run_q s (unat cpu) @ [d]) (reap_q s) (r, s')"
proof -
  let ?t = "task_at s d" and ?s1 = "save_ctx (task_at s d) ctx s" and ?c = "unat cpu"
  have o: "?t \<noteq> 0" "\<not> task_ended s ?t" "unat d < MAX_TASKS_COUNT" using old(1) by (simp_all add: live_tid_def)
  have td: "tid (tcb_of ?s1 ?t) = d"
    using task_inv_queues(5) [OF inv o(3) o(1)] by (simp add: save_ctx_def upd_tcb_def)
  have i1: "task_inv (Suc (Suc (length (run_q s ?c)) + n)) ?s1" using save_ctx_ok(1) [OF inv] by simp
  have same1: "tasks ?s1 = tasks s" "hdrs ?s1 = hdrs s" "pcbs ?s1 = pcbs s" "userPD ?s1 = userPD s" "kmem ?s1 = kmem s"
    "threadsQue ?s1 = threadsQue s" "tasksToReap ?s1 = tasksToReap s" "tasksToLoad ?s1 = tasksToLoad s"
    by (simp_all add: save_ctx_def upd_tcb_def)
  obtain l m where p:
      "push_thread cpu d ?s1 = Some (?s1\<lparr>kmem := m, topChunk := topChunk ?s1 + 48, threadsQue := (threadsQue ?s1)[?c := l]\<rparr>)"
      "task_inv (Suc (length (run_q s ?c)) + n) (?s1\<lparr>kmem := m, topChunk := topChunk ?s1 + 48, threadsQue := (threadsQue ?s1)[?c := l]\<rparr>)"
      "Queue_data m (tasksToReap ?s1) = reap_q ?s1" "Queue_data m (tasksToLoad ?s1) = load_q ?s1"
      "Queue_data m l = run_q ?s1 ?c @ [d]"
      "\<forall>c < MAX_CPU_COUNT. c \<noteq> ?c \<longrightarrow> Queue_data m (threadsQue ?s1 ! c) = run_q ?s1 c"
    using push_thread_ok [OF i1 cpu, of d] by blast
  let ?s2 = "?s1\<lparr>kmem := m, topChunk := topChunk ?s1 + 48, threadsQue := (threadsQue ?s1)[?c := l]\<rparr>"
  have q2: "run_q ?s2 ?c = run_q s ?c @ [d]" "reap_q ?s2 = reap_q s" using p(3,5) cpu same1 task_inv_queues(3) [OF inv] by simp_all
  have same: "same_tasks ?c ?s1 ?s2" "tcbs ?s2 = tcbs ?s1" using p(4,6) by (simp_all add: same_tasks_def)
  have dl: "dead_tid ?s2 = dead_tid s" "live_tid ?s2 = live_tid s"
    using dead_live_cong [of ?s2 ?s1] save_ctx_ok(2,3) [OF inv, of ?t ctx] by simp_all
  have "task_inv (length (run_q ?s2 ?c) + n) ?s2" using p(2) q2(1) by simp
  moreover have "dead_tid ?s2 x \<or> live_tid ?s2 x" if "x \<in> set (run_q ?s2 ?c)" for x
    using that q old(1) unfolding q2(1) dl by auto
  ultimately obtain res where res: "sched_next cpu ?s2 = Some res" "task_inv n (snd res)"
      "sched_pass ?s2 ?c (run_q s ?c @ [d]) (reap_q s) res"
    using sched_next_pass [OF _ cpu, of ?s2 n] unfolding q2 by blast
  have "schedule cpu ?t ctx s = Some res"
    using res(1) p(1) td o old(2-) by (simp add: schedule_def Let_def save_ctx_def [symmetric])
  moreover have "sched_pass ?s1 ?c (run_q s ?c @ [d]) (reap_q s) res"
    using res(3) sched_pass_cong [OF same] by simp
  moreover have "fst res \<noteq> Waiting"
  proof -
    have "\<not> dead_tid ?s1 d" using old(1) save_ctx_ok(2) [OF inv, of ?t ctx] by (simp add: dead_tid_def live_tid_def)
    then have "fst (sched_pick (dead_tid ?s1) (run_q s ?c @ [d])) \<noteq> None"
      using sched_pick_split [of "dead_tid ?s1" "run_q s ?c @ [d]"] by auto
    then show ?thesis using \<open>sched_pass ?s1 ?c _ _ res\<close> by (auto simp: sched_pass_def split: prod.splits)
  qed
  ultimately show ?thesis using res(2) by (cases res) auto
qed

text \<open>
  C28. A task told to end is not queued again: the scheduler hands its tid to the reaper and makes the
  same pass over the processor's queue, and waits if no live task is in it.
\<close>

theorem schedule_dead:
  fixes s :: "'a tmgr_scheme"
  assumes inv: "task_inv (Suc (length (run_q s (unat cpu)) + n)) s" and cpu: "unat cpu < MAX_CPU_COUNT"
    and q: "\<forall>d \<in> set (run_q s (unat cpu)). dead_tid s d \<or> live_tid s d"
    and old: "dead_tid s d" "TCB (hdrs s (task_at s d)) \<noteq> 0" "PCB (hdrs s (task_at s d)) \<noteq> 0"
  shows "\<exists>res. schedule cpu (task_at s d) ctx s = Some res \<and> task_inv n (snd res) \<and>
    sched_pass s (unat cpu) (run_q s (unat cpu)) (reap_q s @ [d]) res"
proof -
  let ?t = "task_at s d" and ?c = "unat cpu"
  have o: "?t \<noteq> 0" "task_ended s ?t" "unat d < MAX_TASKS_COUNT" using old(1) by (simp_all add: dead_tid_def)
  have td: "tid (tcb_of s ?t) = d" by (rule task_inv_queues(5) [OF inv o(3) o(1)])
  obtain l m where p:
      "push_reap d s = Some (s\<lparr>kmem := m, topChunk := topChunk s + 48, tasksToReap := l\<rparr>)"
      "task_inv (length (run_q s ?c) + n) (s\<lparr>kmem := m, topChunk := topChunk s + 48, tasksToReap := l\<rparr>)"
      "Queue_data m l = reap_q s @ [d]" "Queue_data m (tasksToLoad s) = load_q s"
      "\<forall>c < MAX_CPU_COUNT. Queue_data m (threadsQue s ! c) = run_q s c"
    using push_reap_ok [OF inv, of d] by blast
  let ?s2 = "s\<lparr>kmem := m, topChunk := topChunk s + 48, tasksToReap := l\<rparr>"
  have q2: "run_q ?s2 ?c = run_q s ?c" "reap_q ?s2 = reap_q s @ [d]" using p(3,5) cpu by simp_all
  have same: "same_tasks ?c s ?s2" "tcbs ?s2 = tcbs s" using p(4,5) by (simp_all add: same_tasks_def)
  have dl: "dead_tid ?s2 = dead_tid s" "live_tid ?s2 = live_tid s" using dead_live_cong [of ?s2 s] by simp_all
  have "task_inv (length (run_q ?s2 ?c) + n) ?s2" using p(2) q2(1) by simp
  then obtain res where res: "sched_next cpu ?s2 = Some res" "task_inv n (snd res)"
      "sched_pass ?s2 ?c (run_q s ?c) (reap_q s @ [d]) res"
    using sched_next_pass [OF _ cpu, of ?s2 n] q unfolding q2 dl by blast
  have "schedule cpu ?t ctx s = Some res"
    using res(1) p(1) td o old(2-) by (simp add: schedule_def)
  then show ?thesis using res(2,3) sched_pass_cong [OF same] by simp
qed


section \<open>What the memory operations leave alone\<close>

text \<open>The fields of the task manager are a function of the extension of the page state.\<close>

lemma tmgr_more:
  assumes "mmu.more s' = mmu.more s"
  shows "tasks s' = tasks s" "tasksCount s' = tasksCount s" "hdrs s' = hdrs s" "tcbs s' = tcbs s" "pcbs s' = pcbs s"
    "threadsQue s' = threadsQue s" "tasksToLoad s' = tasksToLoad s" "tasksToReap s' = tasksToReap s"
  using assms by (cases s; cases s'; simp)+

lemma mmu_heap_more: "heap.more s' = heap.more s \<Longrightarrow> mmu.more s' = mmu.more s"
  by (cases s; cases s') simp

lemma Queue_push_frame: "Queue_push d l s = Some (l', s') \<Longrightarrow> heap.more s' = heap.more s"
  by (auto simp: Queue_push_def Let_def dest!: kpkZalloc_frame split: bind_splits if_splits prod.splits)

lemma reqPg_frame: "mmu.more (snd (reqPg_loop lim s)) = mmu.more s"
  by (induction lim s rule: reqPg_loop.induct) (subst reqPg_loop.simps, simp add: Let_def allocPg_eq)

lemma mapPg_frame: "mmu.more (mapPg v p fl s) = mmu.more s"
proof -
  have "mmu.more (walkLevel ea fl s) = mmu.more s" for ea and s :: "'a mmu_scheme"
    using reqPg_frame [of _ s] by (simp add: walkLevel_def reqPg_def Let_def case_prod_beta)
  then show ?thesis by (simp add: mapPg_def Let_def)
qed

lemma freePg_frame: "mmu.more (PgMgr_freePg a s) = mmu.more s"
  by (simp add: PgMgr_freePg_def freePg_def Let_def case_prod_beta)


section \<open>Loader\<close>

lemma pop_load_ok:
  fixes s :: "'a tmgr_scheme"
  assumes inv: "task_inv n s" and q: "load_q s = d # ds"
  shows "\<not> isEmpty (tasksToLoad s) \<and> (\<exists>p l. Queue_pop (tasksToLoad s) s = (p, l, s) \<and> kmem s p = d \<and>
    task_inv n (s\<lparr>tasksToLoad := l\<rparr>) \<and> Queue_data (kmem s) l = ds)"
proof -
  note ok = task_inv_queues(1) [OF inv]
  have k: "1 < length (all_queues s)" by simp
  obtain p l where r: "Queue_pop (tasksToLoad s) s = (p, l, s)" "kmem s p = d"
      "queues_ok ((all_queues s)[1 := l]) s" "Queue_data (kmem s) l = ds"
    using queues_pop [OF ok k] q by auto
  let ?s = "s\<lparr>tasksToLoad := l\<rparr>"
  have "heap_room {0} (48 * n) ?s" using inv by (simp add: task_inv_def heap_room_cong [of ?s s])
  moreover have "queues_ok (all_queues ?s) ?s" using r(3) queues_ok_cong [of ?s s] by simp
  ultimately have "task_inv n ?s" by (rule task_inv_cong [OF inv]) simp_all
  then show ?thesis using r queues_ok_isEmpty [OF ok k] q by auto
qed

text \<open>
  C29. The loader takes the tasks to load in order: the kernel's own two threads go to the queue of
  processor 0, any other task to the end of the queue of processor \<open>ap\<close>, which then moves on
  and returns to 1 at the number of active processors. No other queue changes.
\<close>

theorem loader_dispatch:
  fixes s :: "'a tmgr_scheme"
  assumes inv: "task_inv (Suc n) s" and q: "load_q s = d # ds" and d: "unat d < MAX_TASKS_COUNT" "task_at s d \<noteq> 0"
    and ap: "unat ap < MAX_CPU_COUNT"
    and own: "own \<longleftrightarrow> ctx_rip (ctxReg (tcb_of s (task_at s d))) \<in> {loader, reaper}"
  shows "\<exists>s'. loader_round loader reaper (ap, s) =
      Some (if own then ap else if ap + 1 = kmem s' ACTIVE_CPUS then 1 else ap + 1, s') \<and> task_inv n s' \<and>
    load_q s' = ds \<and> reap_q s' = reap_q s \<and> tasks s' = tasks s \<and>
    (\<forall>c < MAX_CPU_COUNT. run_q s' c = (if c = (if own then 0 else unat ap) then run_q s c @ [d] else run_q s c))"
proof -
  let ?cpu = "if own then 0 else ap"
  obtain p l where r: "\<not> isEmpty (tasksToLoad s)" "Queue_pop (tasksToLoad s) s = (p, l, s)" "kmem s p = d"
      "task_inv (Suc n) (s\<lparr>tasksToLoad := l\<rparr>)" "Queue_data (kmem s) l = ds"
    using pop_load_ok [OF inv q] by blast
  let ?s2 = "s\<lparr>tasksToLoad := l\<rparr>"
  have cpu: "unat ?cpu < MAX_CPU_COUNT" using ap by (simp add: MAX_CPU_COUNT_def)
  obtain l' m where w:
      "push_thread ?cpu d ?s2 = Some (?s2\<lparr>kmem := m, topChunk := topChunk ?s2 + 48, threadsQue := (threadsQue ?s2)[unat ?cpu := l']\<rparr>)"
      "task_inv n (?s2\<lparr>kmem := m, topChunk := topChunk ?s2 + 48, threadsQue := (threadsQue ?s2)[unat ?cpu := l']\<rparr>)"
      "Queue_data m (tasksToReap ?s2) = reap_q ?s2" "Queue_data m (tasksToLoad ?s2) = load_q ?s2"
      "Queue_data m l' = run_q ?s2 (unat ?cpu) @ [d]"
      "\<forall>c < MAX_CPU_COUNT. c \<noteq> unat ?cpu \<longrightarrow> Queue_data m (threadsQue ?s2 ! c) = run_q ?s2 c"
    using push_thread_ok [OF r(4) cpu, of d] by blast
  let ?s3 = "?s2\<lparr>kmem := m, topChunk := topChunk ?s2 + 48, threadsQue := (threadsQue ?s2)[unat ?cpu := l']\<rparr>"
  have L: "length (threadsQue s) = MAX_CPU_COUNT" "length (tasks s) = MAX_TASKS_COUNT"
    using task_inv_queues [OF inv] by simp_all
  have "loader_round loader reaper (ap, s) = Some (if own then ap else if ap + 1 = kmem ?s3 ACTIVE_CPUS then 1 else ap + 1, ?s3)"
    using r w(1) d L(2) own by (cases own) (auto simp: loader_round_def Let_def)
  moreover have "\<forall>c < MAX_CPU_COUNT. run_q ?s3 c = (if c = unat ?cpu then run_q s c @ [d] else run_q s c)"
    using w(5,6) L(1) cpu by auto
  moreover have "unat ?cpu = (if own then 0 else unat ap)" by simp
  ultimately show ?thesis using w(2-4) r(5) by (intro exI [of _ ?s3]) simp
qed

section \<open>Time slices\<close>

text \<open>The timer ticks \<open>k\<close> times during one task.\<close>

primrec sched_ticks :: "u8 \<Rightarrow> addr \<Rightarrow> CtxRegisters \<Rightarrow> nat \<Rightarrow> 'a tmgr_scheme \<Rightarrow> 'a tmgr_scheme option" where
  "sched_ticks cpu t ctx 0 s = Some s"
| "sched_ticks cpu t ctx (Suc k) s =
     do { (r, s1) \<leftarrow> schedule cpu t ctx s; if r = Continue then sched_ticks cpu t ctx k s1 else None }"

text \<open>
  C30. A live task keeps the processor for as many ticks as it has time slices; each tick takes one
  and changes nothing else.
\<close>

theorem schedule_quantum:
  assumes "t \<noteq> 0" "TCB (hdrs s t) \<noteq> 0" "PCB (hdrs s t) \<noteq> 0" "\<not> task_ended s t" "k \<le> unat (timeSlices (tcb_of s t))"
  shows "sched_ticks cpu t ctx k s = Some (upd_tcb (TCB (hdrs s t)) (\<lambda>c. c\<lparr>timeSlices := timeSlices c - of_nat k\<rparr>) s)"
  using assms
proof (induction k arbitrary: s)
  case 0
  then show ?case by (simp add: upd_tcb_def)
next
  case (Suc k)
  let ?s = "upd_tcb (TCB (hdrs s t)) (\<lambda>c. c\<lparr>timeSlices := timeSlices c - 1\<rparr>) s"
  have pos: "timeSlices (tcb_of s t) > 0" using Suc.prems(5) by (simp add: word_less_nat_alt)
  then have ts: "unat (timeSlices (tcb_of ?s t)) = unat (timeSlices (tcb_of s t)) - 1"
    by (simp add: upd_tcb_def unat_minus_one)
  have "schedule cpu t ctx s = Some (Continue, ?s)" using Suc.prems pos by (simp add: schedule_def)
  moreover have "sched_ticks cpu t ctx k ?s = Some (upd_tcb (TCB (hdrs ?s t)) (\<lambda>c. c\<lparr>timeSlices := timeSlices c - of_nat k\<rparr>) ?s)"
    by (rule Suc.IH) (use Suc.prems ts in \<open>simp_all add: upd_tcb_def task_ended_def\<close>)
  ultimately show ?case by (simp add: upd_tcb_def diff_diff_eq)
qed

section \<open>Ending\<close>

text \<open>A task told to end: thread and process are marked and its time slices are gone.\<close>

definition mark_ended :: "addr \<Rightarrow> 'a tmgr_scheme \<Rightarrow> 'a tmgr_scheme" where
  "mark_ended t s = upd_tcb (TCB (hdrs s t)) (\<lambda>c. c\<lparr>tcb_statusEnd := True, timeSlices := 0\<rparr>)
     (upd_pcb (PCB (hdrs s t)) (\<lambda>q. q\<lparr>pcb_statusEnd := True\<rparr>) s)"

text \<open>The slots from \<open>i\<close> up to the number of tasks that hold another thread of the process \<open>p\<close> than its first.\<close>

definition threads_from :: "'a tmgr_scheme \<Rightarrow> u8 \<Rightarrow> nat \<Rightarrow> nat list" where
  "threads_from s p i = filter (\<lambda>j. tasks s ! j \<noteq> 0 \<and> pid (pcb_of s (tasks s ! j)) = p \<and> uint (tid (tcb_of s (tasks s ! j))) \<noteq> sint p)
     [i..<Suc (unat (tasksCount s))]"

lemma threads_from_Suc:
  "i \<le> unat (tasksCount s) \<Longrightarrow> threads_from s p i =
    (if tasks s ! i \<noteq> 0 \<and> pid (pcb_of s (tasks s ! i)) = p \<and> uint (tid (tcb_of s (tasks s ! i))) \<noteq> sint p
     then i # threads_from s p (Suc i) else threads_from s p (Suc i))"
  unfolding threads_from_def by (subst upt_conv_Cons) (simp_all del: upt_Suc)

lemma endTask_loop_first:
  assumes "unat (tasksCount s) < 255" "unat (tasksCount s) < length (tasks s)"
  shows "unat i \<le> Suc (unat (tasksCount s)) \<Longrightarrow> endTask_loop (tasksCount s) p i s =
    Some (case threads_from s p (unat i) of [] \<Rightarrow> (None, s) | j # _ \<Rightarrow> (Some (of_nat j), mark_ended (tasks s ! j) s))"
proof (induction "Suc (unat (tasksCount s)) - unat i" arbitrary: i)
  case 0
  then have "\<not> i \<le> tasksCount s" "threads_from s p (unat i) = []" by (simp_all add: threads_from_def word_le_nat_alt)
  then show ?case by (simp add: endTask_loop.simps)
next
  case (Suc n)
  then have i: "i \<le> tasksCount s" "unat i \<le> unat (tasksCount s)" by (simp_all add: word_le_nat_alt)
  have u: "unat (i + 1) = Suc (unat i)" using i(2) assms(1) by (simp add: unat_word_ariths)
  show ?case
    using Suc.hyps(1) [of "i + 1"] Suc.hyps(2) i u assms(2)
    by (subst endTask_loop.simps) (simp add: Let_def threads_from_Suc [OF i(2)] mark_ended_def)
qed



section \<open>A concrete state\<close>

text \<open>Task 1 lives, task 2 has been told to end, task 1 waits to be loaded.\<close>

definition demo_tcb :: "u8 \<Rightarrow> bool \<Rightarrow> ThreadHdr" where
  "demo_tcb t e = zero_TCB\<lparr>tid := t, tcb_statusEnd := e\<rparr>"

definition demo_tmgr :: tmgr where
  "demo_tmgr = \<lparr>kmem = (\<lambda>_. 0)(0x200008 := 1), kout = [], topChunk = 0x200030, bucket = replicate 21 LinkedList,
     freeMem = 0, usedMem = 0, memRegionCount = 0, PgsMap = \<lparr>bm_length = 0, bm_buffer = 0\<rparr>, bitmapIdx = 0, PML4 = 0x1000,
     userPD = 0x4000000,
     tasks = (replicate MAX_TASKS_COUNT 0)[1 := 0x5000, 2 := 0x6000], tasksCount = 3, kernelPHdr = 0,
     tasksToReap = LinkedList, tasksToLoad = \<lparr>ll_head = 0x200000, ll_last = 0x200000, ll_size = 1\<rparr>,
     threadsQue = replicate MAX_CPU_COUNT LinkedList,
     hdrs = (\<lambda>_. zero_Hdr)(0x5000 := \<lparr>TCB = 0x5100, PCB = 0x5200, estimate = 8\<rparr>,
                            0x6000 := \<lparr>TCB = 0x6100, PCB = 0x6200, estimate = 8\<rparr>),
     tcbs = (\<lambda>_. zero_TCB)(0x5100 := demo_tcb 1 False, 0x6100 := demo_tcb 2 True),
     pcbs = (\<lambda>_. zero_PCB)\<rparr>"

lemma demo_queues: "queues_ok (all_queues demo_tmgr) demo_tmgr"
proof -
  have e: "queue_nodes LinkedList demo_tmgr []" by (simp add: queue_nodes_def LinkedList_def)
  have o: "queue_nodes (tasksToLoad demo_tmgr) demo_tmgr [0x200000]"
  proof -
    have "read_le n (\<lambda>_. 0) a = 0" for n and a :: addr by (induction n arbitrary: a) simp_all
    moreover have "apart 0x200000 8 0x200008 1" by (simp add: apart_def word_le_nat_alt unat_uminus_u64 [of 8, simplified])
    ultimately have "read64 ((\<lambda>_. 0)(0x200008 := 1)) 0x200000 = 0"
      by (simp add: read64_upd_apart) (simp add: read64_def)
    then show ?thesis by (simp add: queue_nodes_def demo_tmgr_def node_next_def)
  qed
  have q: "all_queues demo_tmgr = LinkedList # tasksToLoad demo_tmgr # replicate MAX_CPU_COUNT LinkedList"
    by (simp add: demo_tmgr_def)
  let ?n = "[] # [0x200000 :: addr] # replicate MAX_CPU_COUNT []"
  have nth: "?n ! i = (if i = 1 then [0x200000] else [])" if "i < length (all_queues demo_tmgr)" for i
    using that unfolding q by (cases i; cases "i - 1") auto
  show ?thesis unfolding queues_ok_def
  proof (intro exI [of _ ?n] conjI allI impI)
    show "length ?n = length (all_queues demo_tmgr)" by (simp add: q)
    fix i assume i: "i < length (all_queues demo_tmgr)"
    then show "queue_nodes (all_queues demo_tmgr ! i) demo_tmgr (?n ! i)"
      using e o unfolding q by (auto simp: nth_Cons split: nat.split)
    fix j assume "j < length (all_queues demo_tmgr)" "i \<noteq> j"
    then show "\<forall>a \<in> set (?n ! i). \<forall>b \<in> set (?n ! j). apart a 16 b 16"
      using nth i by simp
  qed
qed

lemma demo_tid: "tasks demo_tmgr ! k \<noteq> 0 \<Longrightarrow> k < MAX_TASKS_COUNT \<Longrightarrow> k = 1 \<or> k = 2"
  by (cases "k = 1"; cases "k = 2") (simp_all add: demo_tmgr_def)

lemma demo_at [simp]: "task_at demo_tmgr 1 = 0x5000" "task_at demo_tmgr 2 = 0x6000"
  "tasks demo_tmgr ! Suc 0 = 0x5000" "tasks demo_tmgr ! 2 = 0x6000"
  "hdrs demo_tmgr 0x5000 = \<lparr>TCB = 0x5100, PCB = 0x5200, estimate = 8\<rparr>"
  "hdrs demo_tmgr 0x6000 = \<lparr>TCB = 0x6100, PCB = 0x6200, estimate = 8\<rparr>"
  "tcbs demo_tmgr 0x5100 = demo_tcb 1 False"
  by (simp_all add: demo_tmgr_def MAX_TASKS_COUNT_def)

lemma demo_inv: "task_inv 100 demo_tmgr"
proof -
  have "tid (tcb_of demo_tmgr (task_at demo_tmgr d)) = d" if "unat d < MAX_TASKS_COUNT" "task_at demo_tmgr d \<noteq> 0" for d
  proof -
    have "unat d = 1 \<or> unat d = 2" using demo_tid that by blast
    then have "d = 1 \<or> d = 2" by (simp add: word_unat_eq_iff)
    then show ?thesis by (auto simp: demo_tmgr_def demo_tcb_def MAX_TASKS_COUNT_def)
  qed
  moreover have "heap_room {0} (48 * 100) demo_tmgr"
    by (simp add: heap_room_def demo_tmgr_def KPKBUCKET_SIZE_def KPKHEAP_START_def KPKHEAP_END_def LinkedList_def)
  ultimately show ?thesis
    using demo_queues by (simp add: task_inv_def userPD_slot_def entry_addr_def PDidx_def USERSPACE_START_ADDR_def
        demo_tmgr_def KPKHEAP_END_def)
qed


lemma demo_live: "live_tid demo_tmgr 1" "dead_tid demo_tmgr 2" "run_q demo_tmgr 0 = []" "load_q demo_tmgr = [1]"
proof -
  show "live_tid demo_tmgr 1" "dead_tid demo_tmgr 2"
    by (simp_all add: live_tid_def dead_tid_def task_ended_def)
      (simp_all add: demo_tmgr_def demo_tcb_def zero_PCB_def MAX_TASKS_COUNT_def)
  show "run_q demo_tmgr 0 = []" "load_q demo_tmgr = [1]"
    by (simp_all add: demo_tmgr_def MAX_CPU_COUNT_def Queue_data_def LinkedList_def node_data_addr_def)
qed

theorem schedule_expired_witness:
  "\<exists>r s'. schedule 0 0x5000 zero_ctx demo_tmgr = Some (r, s') \<and> r \<noteq> Waiting \<and> task_inv 98 s' \<and>
    sched_pass (save_ctx 0x5000 zero_ctx demo_tmgr) 0 [1] (reap_q demo_tmgr) (r, s')"
  using schedule_expired [of demo_tmgr 0 98 1 zero_ctx] demo_inv demo_live
  by (simp add: MAX_CPU_COUNT_def demo_tcb_def zero_TCB_def)

theorem schedule_dead_witness:
  "\<exists>res. schedule 0 0x6000 zero_ctx demo_tmgr = Some res \<and> task_inv 99 (snd res) \<and>
    sched_pass demo_tmgr 0 [] (reap_q demo_tmgr @ [2]) res"
  using schedule_dead [of demo_tmgr 0 99 2 zero_ctx] demo_inv demo_live
  by (simp add: MAX_CPU_COUNT_def)

theorem loader_dispatch_witness:
  "\<exists>s'. loader_round 7 8 (3, demo_tmgr) = Some (if 3 + 1 = kmem s' ACTIVE_CPUS then 1 else 3 + 1, s') \<and> task_inv 99 s' \<and>
    load_q s' = [] \<and> reap_q s' = reap_q demo_tmgr \<and> tasks s' = tasks demo_tmgr \<and>
    (\<forall>c < MAX_CPU_COUNT. run_q s' c = (if c = 3 then run_q demo_tmgr c @ [1] else run_q demo_tmgr c))"
proof -
  have "ctx_rip (ctxReg (tcb_of demo_tmgr (task_at demo_tmgr 1))) = 0"
    by (simp add: demo_tcb_def zero_TCB_def zero_ctx_def)
  then show ?thesis
    using loader_dispatch [of 99 demo_tmgr 1 "[]" 3 False 7 8] demo_inv demo_live
    by (simp add: MAX_CPU_COUNT_def MAX_TASKS_COUNT_def split del: if_split)
qed


theorem schedule_quantum_witness:
  "sched_ticks 0 0x5000 zero_ctx 2 (upd_tcb 0x5100 (\<lambda>c. c\<lparr>timeSlices := 16\<rparr>) demo_tmgr) =
     Some (upd_tcb 0x5100 (\<lambda>c. c\<lparr>timeSlices := timeSlices c - of_nat 2\<rparr>)
       (upd_tcb 0x5100 (\<lambda>c. c\<lparr>timeSlices := 16\<rparr>) demo_tmgr))"
proof -
  let ?s = "upd_tcb 0x5100 (\<lambda>c. c\<lparr>timeSlices := 16\<rparr>) demo_tmgr"
  have h: "hdrs ?s 0x5000 = \<lparr>TCB = 0x5100, PCB = 0x5200, estimate = 8\<rparr>" "timeSlices (tcbs ?s 0x5100) = 16"
    "\<not> task_ended ?s 0x5000"
    by (simp_all add: task_ended_def upd_tcb_def demo_tmgr_def demo_tcb_def zero_TCB_def zero_PCB_def)
  show ?thesis using schedule_quantum [of "0x5000" ?s 2 0 zero_ctx] h by simp
qed

end
