(* ===== verification/Vga.thy ===== *)
theory Vga
  imports Kstring
begin

text \<open>
  The text mode driver, \<open>src/src/kernel/video/VGA/textMode.cpp\<close>. The cells are the 16-bit words at
  \<open>address\<close>, by their index in that array, which the source computes in \<open>int\<close> and does not
  check. The specification is a terminal of 25 rows of 80 cells.
\<close>

section \<open>State and operations\<close>

record TextMode =
  cells :: "int \<Rightarrow> u16"
  vga_line :: u8
  vga_column :: u8

definition VGA_WIDTH :: nat where "VGA_WIDTH = 80"
definition VGA_HEIGHT :: nat where "VGA_HEIGHT = 25"

definition put_cell :: "int \<Rightarrow> u16 \<Rightarrow> 'a TextMode_scheme \<Rightarrow> 'a TextMode_scheme" where
  "put_cell i w s = s\<lparr>cells := (cells s)(i := w)\<rparr>"

definition cell_idx :: "nat \<Rightarrow> nat \<Rightarrow> int" where
  "cell_idx l c = int (l * VGA_WIDTH + c)"

definition vga_clear :: "'a TextMode_scheme \<Rightarrow> 'a TextMode_scheme" where
  "vga_clear s = fold (\<lambda>l. fold (\<lambda>c. put_cell (cell_idx l c) 0x0032) [0..<VGA_WIDTH]) [0..<VGA_HEIGHT] s"

text \<open>The constructor, with the bytes it sends to ports to turn the cursor off.\<close>

definition TextMode_init :: "(int \<Rightarrow> u16) \<Rightarrow> TextMode \<times> (u16 \<times> u8) list" where
  "TextMode_init m =
     (vga_clear \<lparr>cells = m, vga_line = 0, vga_column = 0\<rparr>, [(0x3D4, 0x0A), (0x3D5, 0x20)])"

text \<open>The scrolling at the head of \<open>putChar\<close>: lines 37 to 49.\<close>

definition scroll_row :: "nat \<Rightarrow> 'a TextMode_scheme \<Rightarrow> 'a TextMode_scheme" where
  "scroll_row i s = fold (\<lambda>j t. put_cell (cell_idx i j) (cells t (cell_idx (i + 1) j)) t) [0..<VGA_WIDTH] s"

definition scroll :: "'a TextMode_scheme \<Rightarrow> 'a TextMode_scheme" where
  "scroll s =
     (let s1 = fold scroll_row [0..<VGA_HEIGHT - 1] s;
          s2 = fold (\<lambda>i. put_cell (cell_idx (VGA_HEIGHT - 1) i) 0) [0..<VGA_WIDTH] s1
      in s2\<lparr>vga_column := 0, vga_line := vga_line s2 - 1\<rparr>)"

text \<open>\<open>(color << 8) + character\<close>, where \<open>char\<close> is signed.\<close>

definition glyph :: "byte \<Rightarrow> u8 \<Rightarrow> u16" where
  "glyph character color = push_bit 8 (ucast color) + scast character"

definition putChar :: "byte \<Rightarrow> u8 \<Rightarrow> 'a TextMode_scheme \<Rightarrow> 'a TextMode_scheme" where
  "putChar character color s0 =
     (let s = (if unat (vga_line s0) = VGA_HEIGHT then scroll s0 else s0)
      in if character = 0x0a
         then (let s1 = fold (\<lambda>j. put_cell (cell_idx (unat (vga_line s)) j) 0x0032) [unat (vga_column s)..<VGA_WIDTH] s
               in s1\<lparr>vga_line := vga_line s1 + 1, vga_column := 0\<rparr>)
         else (let s1 = put_cell (cell_idx (unat (vga_line s)) (unat (vga_column s))) (glyph character color) s;
                   s2 = s1\<lparr>vga_column := vga_column s1 + 1\<rparr>
               in if unat (vga_column s2) \<ge> VGA_WIDTH
                  then s2\<lparr>vga_column := 0, vga_line := vga_line s2 + 1\<rparr> else s2))"

function putString_loop :: "mem \<Rightarrow> addr \<Rightarrow> u8 \<Rightarrow> u64 \<Rightarrow> u64 \<Rightarrow> 'a TextMode_scheme \<Rightarrow> u64 \<times> 'a TextMode_scheme" where
  "putString_loop m string color len l s =
     (if l < len then putString_loop m string color len (l + 1) (putChar (m (string + l)) color s) else (l, s))"
  by pat_completeness auto
termination
  by (relation "measure (\<lambda>(m, string, color, len, l, s). unat (len - l))") (auto simp: word_loop_measure)

declare putString_loop.simps [simp del]

definition putString_n :: "mem \<Rightarrow> addr \<Rightarrow> u8 \<Rightarrow> u64 \<Rightarrow> 'a TextMode_scheme \<Rightarrow> u64 \<times> 'a TextMode_scheme" where
  "putString_n m string color len s = putString_loop m string color len 0 s"

definition putString :: "mem \<Rightarrow> addr \<Rightarrow> u8 \<Rightarrow> 'a TextMode_scheme \<Rightarrow> (u64 \<times> 'a TextMode_scheme) option" where
  "putString m string color s =
     do { len \<leftarrow> strlen m string; Some (putString_loop m string color len 0 s) }"

definition getLine :: "'a TextMode_scheme \<Rightarrow> u8" where
  "getLine s = vga_line s"

definition getColumn :: "'a TextMode_scheme \<Rightarrow> u8" where
  "getColumn s = vga_column s"

definition setLine :: "u8 \<Rightarrow> 'a TextMode_scheme \<Rightarrow> u8 \<times> 'a TextMode_scheme" where
  "setLine l s = (let s1 = (if unat l \<le> VGA_HEIGHT then s\<lparr>vga_line := l\<rparr> else s) in (vga_line s1, s1))"

definition setColumn :: "u8 \<Rightarrow> 'a TextMode_scheme \<Rightarrow> u8 \<times> 'a TextMode_scheme" where
  "setColumn c s = (let s1 = (if unat c \<le> VGA_WIDTH then s\<lparr>vga_column := c\<rparr> else s) in (vga_column s1, s1))"

definition getCurrChar :: "'a TextMode_scheme \<Rightarrow> u16" where
  "getCurrChar s = cells s (cell_idx (unat (vga_line s)) (unat (vga_column s)) - 1)"

section \<open>Specification: a terminal\<close>

record terminal =
  t_rows :: "u16 list list"
  t_line :: nat
  t_col :: nat

definition term_scroll :: "terminal \<Rightarrow> terminal" where
  "term_scroll t = (if t_line t = VGA_HEIGHT
     then \<lparr>t_rows = tl (t_rows t) @ [replicate VGA_WIDTH 0], t_line = VGA_HEIGHT - 1, t_col = 0\<rparr> else t)"

definition term_put :: "byte \<Rightarrow> u8 \<Rightarrow> terminal \<Rightarrow> terminal" where
  "term_put ch color t0 =
     (let t = term_scroll t0; row = t_rows t ! t_line t
      in if ch = 0x0a
         then \<lparr>t_rows = (t_rows t)[t_line t := take (t_col t) row @ replicate (VGA_WIDTH - t_col t) 0x0032],
               t_line = Suc (t_line t), t_col = 0\<rparr>
         else let rows = (t_rows t)[t_line t := row[t_col t := glyph ch color]]
              in if Suc (t_col t) = VGA_WIDTH then \<lparr>t_rows = rows, t_line = Suc (t_line t), t_col = 0\<rparr>
                 else \<lparr>t_rows = rows, t_line = t_line t, t_col = Suc (t_col t)\<rparr>)"

definition row_of :: "(int \<Rightarrow> u16) \<Rightarrow> nat \<Rightarrow> u16 list" where
  "row_of m l = map (\<lambda>c. m (cell_idx l c)) [0..<VGA_WIDTH]"

definition rows_of :: "(int \<Rightarrow> u16) \<Rightarrow> u16 list list" where
  "rows_of m = map (row_of m) [0..<VGA_HEIGHT]"

definition screen :: "'a TextMode_scheme \<Rightarrow> terminal" where
  "screen s = \<lparr>t_rows = rows_of (cells s), t_line = unat (vga_line s), t_col = unat (vga_column s)\<rparr>"

definition vga_ok :: "'a TextMode_scheme \<Rightarrow> bool" where
  "vga_ok s \<longleftrightarrow> unat (vga_line s) \<le> VGA_HEIGHT \<and> unat (vga_column s) < VGA_WIDTH"

definition on_screen :: "int \<Rightarrow> bool" where
  "on_screen i \<longleftrightarrow> 0 \<le> i \<and> i < int (VGA_HEIGHT * VGA_WIDTH)"

section \<open>Loops over cells\<close>

lemma cell_idx_inject [simp]:
  "c < VGA_WIDTH \<Longrightarrow> c' < VGA_WIDTH \<Longrightarrow> cell_idx l c = cell_idx l' c' \<longleftrightarrow> l = l' \<and> c = c'"
proof
  assume c: "c < VGA_WIDTH" "c' < VGA_WIDTH" and e: "cell_idx l c = cell_idx l' c'"
  have "l * VGA_WIDTH + c = l' * VGA_WIDTH + c'" using e unfolding cell_idx_def by linarith
  then show "l = l' \<and> c = c'" using c by (metis div_mult_self3 div_less mod_mult_self3 mod_less add.right_neutral add_cancel_left_right not_less_zero)
qed simp

lemma on_screen_idx [simp]: "l < VGA_HEIGHT \<Longrightarrow> c < VGA_WIDTH \<Longrightarrow> on_screen (cell_idx l c)"
  by (simp add: on_screen_def cell_idx_def VGA_HEIGHT_def VGA_WIDTH_def)

lemma on_screen_row: "l < VGA_HEIGHT \<Longrightarrow> cell_idx l c \<le> i \<Longrightarrow> i < cell_idx l VGA_WIDTH \<Longrightarrow> on_screen i"
  by (simp add: on_screen_def cell_idx_def VGA_HEIGHT_def VGA_WIDTH_def)

lemma put_cell_fields [simp]:
  "vga_line (put_cell i w s) = vga_line s" "vga_column (put_cell i w s) = vga_column s"
  "cells (put_cell i w s) = (cells s)(i := w)"
  by (simp_all add: put_cell_def)

text \<open>A loop that fills columns \<open>[a..<b]\<close> of row \<open>l\<close>, with values that it does not change itself.\<close>

lemma cell_idx_Suc: "cell_idx l (Suc c) = cell_idx l c + 1" "cell_idx (Suc l) c = cell_idx l c + 80"
  "cell_idx l VGA_WIDTH = cell_idx (Suc l) 0"
  by (simp_all add: cell_idx_def VGA_WIDTH_def)

lemma cells_id: "(\<And>i. \<not> P i) \<Longrightarrow> s\<lparr>cells := \<lambda>i. if P i then g i else cells s i\<rparr> = s"
  by simp

lemma fill_cells:
  assumes "\<And>j t. j < b \<Longrightarrow> (\<And>i. i < cell_idx l a \<or> cell_idx l b \<le> i \<Longrightarrow> cells t i = cells s i) \<Longrightarrow>
      f j t = put_cell (cell_idx l j) (w (cell_idx l j)) t"
  shows "fold f [a..<b] s = s\<lparr>cells := \<lambda>i. if cell_idx l a \<le> i \<and> i < cell_idx l b then w i else cells s i\<rparr>"
  using assms
proof (induction b)
  case 0
  then show ?case by (subst cells_id) (auto simp: cell_idx_def)
next
  case (Suc b)
  show ?case
  proof (cases "a \<le> b")
    case True
    let ?s = "s\<lparr>cells := \<lambda>i. if cell_idx l a \<le> i \<and> i < cell_idx l b then w i else cells s i\<rparr>"
    have IH: "fold f [a..<b] s = ?s"
      by (rule Suc.IH, rule Suc.prems) (auto simp: cell_idx_Suc)
    have "f b ?s = put_cell (cell_idx l b) (w (cell_idx l b)) ?s"
      by (rule Suc.prems) (auto simp: cell_idx_Suc)
    moreover have "cell_idx l a \<le> cell_idx l b" using True by (simp add: cell_idx_def)
    ultimately show ?thesis
      using True IH by (auto simp: put_cell_def fun_eq_iff cell_idx_Suc)
  next
    case False
    then have "cell_idx l (Suc b) \<le> cell_idx l a" by (simp add: cell_idx_def)
    then show ?thesis using False by (subst cells_id) auto
  qed
qed

lemma scroll_row_cells:
  "scroll_row l s = s\<lparr>cells := \<lambda>i. if cell_idx l 0 \<le> i \<and> i < cell_idx (Suc l) 0 then cells s (i + 80) else cells s i\<rparr>"
  unfolding scroll_row_def cell_idx_Suc(3) [symmetric]
proof (rule fill_cells)
  fix j and t :: "'a TextMode_scheme"
  assume "\<And>i. i < cell_idx l 0 \<or> cell_idx l VGA_WIDTH \<le> i \<Longrightarrow> cells t i = cells s i"
  then have "cells t (cell_idx (l + 1) j) = cells s (cell_idx (l + 1) j)" by (simp add: cell_idx_def VGA_WIDTH_def)
  then show "put_cell (cell_idx l j) (cells t (cell_idx (l + 1) j)) t = put_cell (cell_idx l j) (cells s (cell_idx l j + 80)) t"
    by (simp add: cell_idx_Suc)
qed

lemma scroll_rows_cells:
  "fold scroll_row [0..<n] s = s\<lparr>cells := \<lambda>i. if 0 \<le> i \<and> i < cell_idx n 0 then cells s (i + 80) else cells s i\<rparr>"
proof (induction n)
  case (Suc n)
  have "0 \<le> cell_idx n 0" by (simp add: cell_idx_def)
  then show ?case using Suc by (auto simp: scroll_row_cells fun_eq_iff cell_idx_Suc)
next
  case 0
  then show ?case by (subst cells_id) (auto simp: cell_idx_def)
qed

lemma clear_cells:
  "fold (\<lambda>j. put_cell (cell_idx l j) v) [a..<b] s =
     s\<lparr>cells := \<lambda>i. if cell_idx l a \<le> i \<and> i < cell_idx l b then v else cells s i\<rparr>"
  by (rule fill_cells) simp

lemma scroll_cells:
  "cells (scroll s) = (\<lambda>i. if \<not> on_screen i then cells s i else if i < cell_idx 24 0 then cells s (i + 80) else 0)"
  "vga_line (scroll s) = vga_line s - 1" "vga_column (scroll s) = 0"
  by (simp_all add: scroll_def Let_def scroll_rows_cells clear_cells)
    (auto simp: fun_eq_iff VGA_HEIGHT_def VGA_WIDTH_def cell_idx_def on_screen_def)

section \<open>Refinement\<close>

lemma length_rows [simp]: "length (rows_of m) = VGA_HEIGHT" "length (row_of m l) = VGA_WIDTH"
  by (simp_all add: rows_of_def row_of_def)

lemma nth_rows [simp]: "l < VGA_HEIGHT \<Longrightarrow> rows_of m ! l = row_of m l" "c < VGA_WIDTH \<Longrightarrow> row_of m l ! c = m (cell_idx l c)"
  by (simp_all add: rows_of_def row_of_def)

lemma rows_eqI:
  assumes "length xs = VGA_HEIGHT"
    and "\<And>l. l < VGA_HEIGHT \<Longrightarrow> length (xs ! l) = VGA_WIDTH"
    and "\<And>l c. l < VGA_HEIGHT \<Longrightarrow> c < VGA_WIDTH \<Longrightarrow> xs ! l ! c = m (cell_idx l c)"
  shows "rows_of m = xs"
  by (intro nth_equalityI) (use assms in \<open>auto intro!: nth_equalityI\<close>)

lemma scroll_refines:
  assumes "unat (vga_line s) = VGA_HEIGHT"
  shows "screen (scroll s) = term_scroll (screen s)"
proof -
  have "rows_of (cells (scroll s)) = tl (rows_of (cells s)) @ [replicate VGA_WIDTH 0]"
  proof (rule rows_eqI)
    fix l c assume "l < VGA_HEIGHT" "c < VGA_WIDTH"
    then show "(tl (rows_of (cells s)) @ [replicate VGA_WIDTH 0]) ! l ! c = cells (scroll s) (cell_idx l c)"
      by (auto simp: nth_append nth_tl scroll_cells cell_idx_Suc VGA_HEIGHT_def)
        (auto simp: cell_idx_def VGA_WIDTH_def)
  qed (auto simp: nth_append nth_tl VGA_HEIGHT_def)
  moreover have "unat (vga_line s - 1) = 24"
    using assms by (subst unat_minus_one) (auto simp: VGA_HEIGHT_def)
  ultimately show ?thesis
    using assms by (simp add: screen_def term_scroll_def scroll_cells VGA_HEIGHT_def)
qed


lemma put_cell_rows:
  assumes "l < VGA_HEIGHT" "c < VGA_WIDTH"
  shows "rows_of (m(cell_idx l c := w)) = (rows_of m)[l := (row_of m l)[c := w]]"
  by (rule rows_eqI) (use assms in \<open>auto simp: nth_list_update\<close>)

lemma clear_rows:
  assumes "l < VGA_HEIGHT" "c < VGA_WIDTH"
  shows "rows_of (\<lambda>i. if cell_idx l c \<le> i \<and> i < cell_idx l VGA_WIDTH then w else m i) =
    (rows_of m)[l := take c (row_of m l) @ replicate (VGA_WIDTH - c) w]"
proof (rule rows_eqI)
  fix l' c' assume *: "l' < VGA_HEIGHT" "c' < VGA_WIDTH"
  have "cell_idx l c \<le> cell_idx l' c' \<and> cell_idx l' c' < cell_idx l VGA_WIDTH \<longleftrightarrow> l' = l \<and> c \<le> c'"
    using assms(2) *(2) by (cases l l' rule: linorder_cases) (auto simp: cell_idx_def VGA_WIDTH_def)
  then show "(rows_of m)[l := take c (row_of m l) @ replicate (VGA_WIDTH - c) w] ! l' ! c' =
      (if cell_idx l c \<le> cell_idx l' c' \<and> cell_idx l' c' < cell_idx l VGA_WIDTH then w else m (cell_idx l' c'))"
    using assms * by (auto simp: nth_list_update nth_append)
qed (use assms in \<open>auto simp: nth_list_update\<close>)

text \<open>One character.\<close>

lemma putChar_screen:
  assumes "vga_ok s"
  shows "screen (putChar ch color s) = term_put ch color (screen s) \<and> vga_ok (putChar ch color s) \<and>
    (\<forall>i. \<not> on_screen i \<longrightarrow> cells (putChar ch color s) i = cells s i)"
proof -
  define s1 where "s1 = (if unat (vga_line s) = VGA_HEIGHT then scroll s else s)"
  have s1: "screen s1 = term_scroll (screen s)" "unat (vga_line s1) < VGA_HEIGHT" "unat (vga_column s1) < VGA_WIDTH"
    "\<And>i. \<not> on_screen i \<Longrightarrow> cells s1 i = cells s i"
  proof -
    show e: "screen s1 = term_scroll (screen s)"
      using scroll_refines [of s] by (simp add: s1_def term_scroll_def screen_def)
    have "t_line (screen s1) < VGA_HEIGHT" "t_col (screen s1) < VGA_WIDTH"
      using assms unfolding e by (auto simp: term_scroll_def screen_def vga_ok_def VGA_HEIGHT_def VGA_WIDTH_def)
    then show "unat (vga_line s1) < VGA_HEIGHT" "unat (vga_column s1) < VGA_WIDTH" by (simp_all add: screen_def)
    show "cells s1 i = cells s i" if "\<not> on_screen i" for i using that by (simp add: s1_def scroll_cells)
  qed
  let ?l = "unat (vga_line s1)" and ?c = "unat (vga_column s1)"
  have up: "unat (vga_line s1 + 1) = Suc ?l" "unat (vga_column s1 + 1) = Suc ?c"
    using s1(2,3) by (simp_all add: unat_word_ariths VGA_HEIGHT_def VGA_WIDTH_def)
  have off: "\<not> on_screen i \<Longrightarrow> \<not> (cell_idx ?l ?c \<le> i \<and> i < cell_idx ?l VGA_WIDTH)" for i
    using on_screen_row [OF s1(2)] by blast
  show ?thesis
  proof (cases "ch = 0x0a")
    case True
    have p: "putChar ch color s = s1\<lparr>cells := \<lambda>i. if cell_idx ?l ?c \<le> i \<and> i < cell_idx ?l VGA_WIDTH then 0x0032 else cells s1 i,
        vga_line := vga_line s1 + 1, vga_column := 0\<rparr>"
      by (simp add: putChar_def True s1_def [symmetric] clear_cells)
    have "screen (putChar ch color s) = term_put ch color (screen s)"
      unfolding p term_put_def s1(1) [symmetric] Let_def
      by (simp add: True screen_def clear_rows [OF s1(2,3)] up s1(2))
    moreover have "vga_ok (putChar ch color s)" using s1(2) by (simp add: p vga_ok_def up VGA_WIDTH_def)
    ultimately show ?thesis using off s1(4) by (auto simp: p)
  next
    case False
    let ?m = "(cells s1)(cell_idx ?l ?c := glyph ch color)"
    have p: "putChar ch color s = (if Suc ?c = VGA_WIDTH then s1\<lparr>cells := ?m, vga_column := 0, vga_line := vga_line s1 + 1\<rparr>
        else s1\<lparr>cells := ?m, vga_column := vga_column s1 + 1\<rparr>)"
      using s1(3) by (simp add: putChar_def False s1_def [symmetric] put_cell_def Let_def up)
    have "screen (putChar ch color s) = term_put ch color (screen s)"
      unfolding p term_put_def s1(1) [symmetric] Let_def
      by (simp add: False screen_def put_cell_rows [OF s1(2,3)] up s1(2))
    moreover have "vga_ok (putChar ch color s)"
      using s1(2,3) by (simp add: p vga_ok_def up VGA_WIDTH_def)
    moreover have "\<not> on_screen i \<Longrightarrow> i \<noteq> cell_idx ?l ?c" for i using on_screen_idx [OF s1(2,3)] by auto
    ultimately show ?thesis using s1(4) by (auto simp: p)
  qed
qed


definition demo_screen :: TextMode where
  "demo_screen = \<lparr>cells = \<lambda>_. 0, vga_line = 24, vga_column = 79\<rparr>"

lemma putString_loop_fold:
  assumes "n < 2 ^ 64" "l \<le> n"
  shows "putString_loop m a color (of_nat n) (of_nat l) s =
    (of_nat n, fold (\<lambda>c. putChar c color) (map (\<lambda>i. m (a + of_nat i)) [l..<n]) s)"
  using assms(2)
proof (induction "n - l" arbitrary: l s)
  case 0
  then show ?case by (simp add: putString_loop.simps)
next
  case (Suc k)
  then have "l < n" by simp
  then have "(of_nat l :: u64) < of_nat n"
    using assms(1) by (simp add: word_less_nat_alt unsigned_of_nat take_bit_nat_eq_self)
  moreover have "(1 :: u64) + of_nat l = of_nat (Suc l)" by simp
  moreover have "[l..<n] = l # [Suc l..<n]" using \<open>l < n\<close> by (simp add: upt_conv_Cons)
  ultimately show ?case
    using Suc.hyps(1) [of "Suc l" "putChar (m (a + of_nat l)) color s"] Suc.hyps(2) Suc.prems \<open>l < n\<close>
    by (subst putString_loop.simps) (simp add: add.commute)
qed

lemma cstr_map_nth: "cstr m a xs \<Longrightarrow> map (\<lambda>i. m (a + of_nat i)) [0..<length xs] = xs"
  by (intro nth_equalityI) (auto simp: cstr_nth nth_append)

lemma fold_putChar_screen:
  assumes "vga_ok s"
  shows "screen (fold (\<lambda>c. putChar c color) xs s) = fold (\<lambda>c. term_put c color) xs (screen s) \<and>
    vga_ok (fold (\<lambda>c. putChar c color) xs s) \<and>
    (\<forall>i. \<not> on_screen i \<longrightarrow> cells (fold (\<lambda>c. putChar c color) xs s) i = cells s i)"
  using assms
proof (induction xs arbitrary: s)
  case (Cons x xs)
  then show ?case using putChar_screen [OF Cons.prems, of x color] by simp
qed simp

section \<open>Properties\<close>

text \<open>
  C8. \<open>putChar\<close> implements a terminal, for any sequence of characters: it scrolls when the last row
  is full, breaks the line on a newline and at column 80, and otherwise writes one cell; it
  keeps the cursor in range and touches no memory outside the 25 rows.
\<close>

theorem putChar_refines:
  assumes "vga_ok s"
  shows "screen (fold (\<lambda>c. putChar c color) xs s) = fold (\<lambda>c. term_put c color) xs (screen s) \<and>
    vga_ok (fold (\<lambda>c. putChar c color) xs s) \<and>
    (\<forall>i. \<not> on_screen i \<longrightarrow> cells (fold (\<lambda>c. putChar c color) xs s) i = cells s i)"
  by (rule fold_putChar_screen [OF assms])

theorem putChar_refines_witness:
  "screen (fold (\<lambda>c. putChar c 15) [0x41, 0x42] demo_screen) = fold (\<lambda>c. term_put c 15) [0x41, 0x42] (screen demo_screen) \<and>
   vga_ok (fold (\<lambda>c. putChar c 15) [0x41, 0x42] demo_screen) \<and>
   cells (fold (\<lambda>c. putChar c 15) [0x41, 0x42] demo_screen) 2000 = cells demo_screen 2000"
proof -
  have ok: "vga_ok demo_screen" by (simp add: demo_screen_def vga_ok_def VGA_HEIGHT_def VGA_WIDTH_def)
  have off: "\<not> on_screen 2000" by (simp add: on_screen_def VGA_HEIGHT_def VGA_WIDTH_def)
  show ?thesis using putChar_refines [OF ok, of 15 "[0x41, 0x42]"] off by blast
qed

text \<open>
  \<open>putString\<close> prints exactly the characters of a NUL-terminated string, in order, and returns
  their number.
\<close>

lemma putString_refines:
  assumes "vga_ok s" "cstr m a xs" "length xs < 2 ^ 64"
  shows "\<exists>s'. putString m a color s = Some (of_nat (length xs), s') \<and>
    screen s' = fold (\<lambda>c. term_put c color) xs (screen s) \<and> vga_ok s'"
  using putString_loop_fold [of "length xs" 0 m a color s] assms fold_putChar_screen [OF assms(1)]
  by (simp add: putString_def strlen_cstr cstr_map_nth)

text \<open>
  \<open>setColumn\<close> accepts column 80, one past the last: on the last line the next character is
  written past the end of the screen.
\<close>

lemma setColumn_overrun:
  assumes "vga_line s = 24" "ch \<noteq> 0x0a"
  shows "cells (putChar ch color (snd (setColumn 80 s))) 2000 = glyph ch color \<and> \<not> on_screen 2000"
  using assms by (simp add: putChar_def setColumn_def on_screen_def put_cell_def cell_idx_def VGA_HEIGHT_def VGA_WIDTH_def)

end
