(* ===== verification/Kstdio.thy ===== *)
theory Kstdio
  imports Vga "HOL-Library.Signed_Division"
begin

text \<open>
  Number formatting and formatted output: \<open>reverse\<close> and \<open>itoa\<close> of \<open>libk/kstdlib.cpp\<close>, and
  \<open>printHex\<close>, \<open>kprintf\<close> and \<open>kperror\<close> of \<open>libk/kstdio.cpp\<close>. C's \<open>int\<close> is an integer in range,
  with \<open>/\<close> and \<open>%\<close> as \<open>sdiv\<close> and \<open>smod\<close>, and wrap-around written out. The static buffer of
  \<open>itoa\<close> is in memory, at the address \<open>str\<close>.
\<close>

section \<open>Operations\<close>

definition wrap32 :: "int \<Rightarrow> int" where "wrap32 = signed_take_bit 31"
definition wrap64 :: "int \<Rightarrow> int" where "wrap64 = signed_take_bit 63"

definition at_idx :: "addr \<Rightarrow> int \<Rightarrow> addr" where "at_idx str i = str + of_int i"

function reverse_loop :: "addr \<Rightarrow> int \<Rightarrow> int \<Rightarrow> mem \<Rightarrow> mem" where
  "reverse_loop str i len m =
     (if i < len
      then (let m1 = m(at_idx str i := m (at_idx str i) XOR m (at_idx str len));
                m2 = m1(at_idx str len := m1 (at_idx str len) XOR m1 (at_idx str i));
                m3 = m2(at_idx str i := m2 (at_idx str i) XOR m2 (at_idx str len))
            in reverse_loop str (i + 1) (len - 1) m3)
      else m)"
  by pat_completeness auto
termination
  by (relation "measure (\<lambda>(str, i, len, m). nat (len - i))") auto

declare reverse_loop.simps [simp del]

definition reverse_str :: "addr \<Rightarrow> int \<Rightarrow> mem \<Rightarrow> mem" where
  "reverse_str str len m = reverse_loop str 0 (len - 1) m"

text \<open>\<open>None\<close> is a division by zero, or a loop that does not end (base 1).\<close>

partial_function (option) itoa_loop :: "addr \<Rightarrow> int \<Rightarrow> int \<Rightarrow> int \<Rightarrow> mem \<Rightarrow> (int \<times> mem) option" where
  "itoa_loop str base num i m =
     (if num = 0 then Some (i, m)
      else if base = 0 then None
      else let rem = num smod base;
               c = (if rem > 9 then (rem - 10) + 97 else rem + 48)
           in itoa_loop str base (num sdiv base) (i + 1) (m(at_idx str i := of_int c)))"

declare itoa_loop.simps [code]

definition itoa :: "addr \<Rightarrow> int \<Rightarrow> int \<Rightarrow> mem \<Rightarrow> mem option" where
  "itoa str num base m =
     (if num = 0 then Some (m(at_idx str 0 := 48, at_idx str 1 := 0))
      else let isNegative = (num < 0 \<and> base = 10);
               num1 = (if isNegative then wrap32 (- num) else num)
           in do { (i, m1) \<leftarrow> itoa_loop str base num1 0 m;
                   let (j, m2) = (if isNegative then (i + 1, m1(at_idx str i := 45)) else (i, m1));
                   Some (reverse_str str j (m2(at_idx str j := 0))) })"

text \<open>\<open>printHex\<close>: the two loops on signed 64-bit integers.\<close>

function hex_acc :: "int \<Rightarrow> int \<Rightarrow> int" where
  "hex_acc hexByte hex =
     (if hexByte > 0
      then (let r = hexByte smod 0x10; r1 = (if r < 10 then r + 0x30 else r + 0x37)
            in hex_acc (hexByte sdiv 0x10) (wrap64 (hex * 100 + r1)))
      else hex)"
  by pat_completeness auto
termination
  by (relation "measure (\<lambda>(b, h). nat b)") (auto simp: signed_divide_int_def)

declare hex_acc.simps [simp del]

function hex_out :: "int \<Rightarrow> byte list" where
  "hex_out hexByte = (if hexByte > 0 then of_int (hexByte smod 100) # hex_out (hexByte sdiv 100) else [])"
  by pat_completeness auto
termination
  by (relation "measure nat") (auto simp: signed_divide_int_def)

declare hex_out.simps [simp del]

definition printHex_chars :: "int \<Rightarrow> byte list" where
  "printHex_chars num = [0x30, 0x78, 0x30] @ hex_out (hex_acc num 0)"

definition printHex :: "int \<Rightarrow> 'a TextMode_scheme \<Rightarrow> 'a TextMode_scheme" where
  "printHex num s = fold (\<lambda>c. putChar c 15) (printHex_chars num) s"

definition kputc :: "byte \<Rightarrow> 'a TextMode_scheme \<Rightarrow> 'a TextMode_scheme" where
  "kputc c s = putChar c 15 s"

text \<open>
  \<open>kprintf\<close> and \<open>kperror\<close> differ in the colour. The variable arguments are the list of the words
  passed; taking one that is not there is \<open>None\<close>.
\<close>

definition kconv :: "addr \<Rightarrow> u8 \<Rightarrow> byte \<Rightarrow> u64 list \<Rightarrow> mem \<Rightarrow> 'a TextMode_scheme \<Rightarrow> (u64 list \<times> mem \<times> 'a TextMode_scheme) option" where
  "kconv str color c ap m s =
     (if c = 0x73
      then (case ap of [] \<Rightarrow> None
            | a # ap' \<Rightarrow> do { (n, s1) \<leftarrow> putString m a color s; Some (ap', m, s1) })
      else if c = 0x64
      then (case ap of [] \<Rightarrow> None
            | a # ap' \<Rightarrow> do { m1 \<leftarrow> itoa str (sint (ucast a :: u32)) 10 m;
                              (n, s1) \<leftarrow> putString m1 str color s; Some (ap', m1, s1) })
      else if c = 0x78 \<or> c = 0x58
      then (case ap of [] \<Rightarrow> None | a # ap' \<Rightarrow> Some (ap', m, printHex (sint a) s))
      else if c = 0x25 then Some (ap, m, putChar 0x25 color s)
      else Some (ap, m, s))"

partial_function (option) kformat_loop ::
    "addr \<Rightarrow> u8 \<Rightarrow> addr \<Rightarrow> u32 \<Rightarrow> u64 list \<Rightarrow> mem \<Rightarrow> 'a TextMode_scheme \<Rightarrow> (mem \<times> 'a TextMode_scheme) option" where
  "kformat_loop str color format i ap m s =
     (if m (format + scast i) = 0 then Some (m, s)
      else if m (format + scast i) = 0x25
      then do { (ap1, m1, s1) \<leftarrow> kconv str color (m (format + scast (i + 1))) ap m s;
                kformat_loop str color format (i + 2) ap1 m1 s1 }
      else kformat_loop str color format (i + 1) ap m (putChar (m (format + scast i)) color s))"

declare kformat_loop.simps [code]

definition kprintf :: "addr \<Rightarrow> addr \<Rightarrow> u64 list \<Rightarrow> mem \<Rightarrow> 'a TextMode_scheme \<Rightarrow> (mem \<times> 'a TextMode_scheme) option" where
  "kprintf str format ap m s = kformat_loop str 15 format 0 ap m s"

definition kperror :: "addr \<Rightarrow> addr \<Rightarrow> u64 list \<Rightarrow> mem \<Rightarrow> 'a TextMode_scheme \<Rightarrow> (mem \<times> 'a TextMode_scheme) option" where
  "kperror str format ap m s = kformat_loop str 12 format 0 ap m s"

section \<open>Specification: digits\<close>

fun digits :: "nat \<Rightarrow> nat \<Rightarrow> nat list" where
  "digits b n = (if b < 2 \<or> n < b then [n] else digits b (n div b) @ [n mod b])"

declare digits.simps [simp del]

definition dec_char :: "nat \<Rightarrow> byte" where "dec_char d = of_nat (48 + d)"

definition decimal :: "int \<Rightarrow> byte list" where
  "decimal n = (if n < 0 then [45] else []) @ map dec_char (digits 10 (nat \<bar>n\<bar>))"

definition hex_char :: "nat \<Rightarrow> byte" where "hex_char d = (if d < 10 then of_nat (48 + d) else of_nat (55 + d))"


lemma digits_small: "n < b \<Longrightarrow> digits b n = [n]" "2 \<le> b \<Longrightarrow> b \<le> n \<Longrightarrow> digits b n = digits b (n div b) @ [n mod b]"
  by (simp_all add: digits.simps [of b n])

lemma digits_value: "2 \<le> b \<Longrightarrow> foldl (\<lambda>v d. v * b + d) 0 (digits b n) = n"
  by (induction b n rule: digits.induct) (subst digits.simps, simp)

lemma length_digits: "2 \<le> b \<Longrightarrow> n < b ^ Suc k \<Longrightarrow> length (digits b n) \<le> Suc k"
proof (induction k arbitrary: n)
  case (Suc k)
  have "n div b < b ^ Suc k" using Suc.prems by (simp add: less_mult_imp_div_less mult.commute)
  then show ?case using Suc.IH [of "n div b"] Suc.prems(1) by (subst digits.simps) simp
qed (simp add: digits_small)

section \<open>\<open>printHex\<close>\<close>

definition hexs :: "nat \<Rightarrow> byte list" where
  "hexs n = (if n = 0 then [] else map hex_char (digits 16 n))"

lemma hexs_step: "0 < n \<Longrightarrow> hexs n = hexs (n div 16) @ [hex_char (n mod 16)]"
  by (cases "n < 16") (auto simp: hexs_def digits_small)

definition hex_code :: "int \<Rightarrow> int" where
  "hex_code d = (if d < 10 then d + 0x30 else d + 0x37)"

lemma hex_code: "0 \<le> d \<Longrightarrow> d < 16 \<Longrightarrow> 0 < hex_code d \<and> hex_code d < 100 \<and> of_int (hex_code d) = hex_char (nat d)"
  by (auto simp: hex_code_def hex_char_def)

lemma pos_sdiv: "0 \<le> (a :: int) \<Longrightarrow> 0 < b \<Longrightarrow> a sdiv b = a div b" "0 \<le> a \<Longrightarrow> 0 < b \<Longrightarrow> a smod b = a mod b"
  by (cases "a = 0"; simp add: signed_divide_int_def signed_modulo_int_def)+

lemma hex_out_step: "0 \<le> h \<Longrightarrow> 0 < c \<Longrightarrow> c < 100 \<Longrightarrow> hex_out (h * 100 + c) = of_int c # hex_out h"
  by (subst hex_out.simps) (simp add: pos_sdiv)

lemma hex_acc_out:
  assumes "n < 16 ^ k" "0 \<le> h" "(h + 1) * 100 ^ k \<le> 10 ^ 18"
  shows "hex_out (hex_acc (int n) h) = hexs n @ hex_out h"
  using assms
proof (induction k arbitrary: n h)
  case 0
  then show ?case by (simp add: hex_acc.simps hexs_def)
next
  case (Suc k)
  show ?case
  proof (cases "n = 0")
    case True
    then show ?thesis by (simp add: hex_acc.simps hexs_def)
  next
    case False
    let ?c = "hex_code (int n mod 16)" and ?h = "h * 100 + hex_code (int n mod 16)"
    have c: "0 < ?c" "?c < 100" "of_int ?c = hex_char (n mod 16)"
      using hex_code [of "int n mod 16"] by (simp_all add: nat_mod_distrib del: of_int_numeral)
    have step: "(?h + 1) * 100 ^ k \<le> (h + 1) * 100 ^ Suc k"
      using c(2) by (simp add: mult_right_mono algebra_simps)
    then have b: "(?h + 1) * 100 ^ k \<le> 10 ^ 18" using Suc.prems(3) by linarith
    have "?h + 1 \<le> (?h + 1) * 100 ^ k" using c(1) Suc.prems(2) by (simp add: mult_le_cancel_left1)
    then have "?h < 10 ^ 18" using b by linarith
    then have "wrap64 ?h = ?h" using c(1) Suc.prems(2) by (simp add: wrap64_def signed_take_bit_int_eq_self)
    then have "hex_acc (int n) h = hex_acc (int (n div 16)) ?h"
      using False by (subst hex_acc.simps) (simp add: pos_sdiv hex_code_def Let_def zdiv_int)
    moreover have "hex_out (hex_acc (int (n div 16)) ?h) = hexs (n div 16) @ hex_out ?h"
      by (rule Suc.IH) (use Suc.prems b c(1) in \<open>simp_all add: less_mult_imp_div_less\<close>)
    ultimately show ?thesis
      using hex_out_step [OF Suc.prems(2) c(1,2)] c(3) hexs_step [of n] False by simp
  qed
qed


section \<open>\<open>itoa\<close>\<close>

lemma at_idx_eq:
  assumes "0 \<le> k" "k < 2 ^ 64"
  shows "x = at_idx str k \<longleftrightarrow> uint (x - str) = k"
proof -
  have "nat k < 2 ^ 64" using assms by (simp add: nat_less_iff)
  from off_eq [OF this, of x str] have "x = at_idx str k \<longleftrightarrow> unat (x - str) = nat k"
    using assms(1) by (simp add: at_idx_def)
  then show ?thesis using assms(1) by (metis nat_0_le of_nat_unat unat_eq_nat_uint)
qed

lemma xor_swap:
  assumes "a \<noteq> b"
  shows "(let m1 = m(a := m a XOR m b); m2 = m1(b := m1 b XOR m1 a) in m2(a := m2 a XOR m2 b)) =
    (m(a := m b, b := m a) :: 'x \<Rightarrow> 'w::len word)"
    (is "?l = ?r")
proof
  fix x
  have "u XOR v XOR (v XOR (u XOR v)) = v" "v XOR (u XOR v) = u" for u v :: "'w word"
    by (auto simp: bit_eq_iff bit_xor_iff)
  then show "?l x = ?r x" using assms by (auto simp: Let_def)
qed

lemma reverse_loop_spec:
  assumes "0 \<le> i" "len < 2 ^ 64"
  shows "reverse_loop str i len m x =
    (if i \<le> uint (x - str) \<and> uint (x - str) \<le> len then m (at_idx str (i + len - uint (x - str))) else m x)"
  using assms
proof (induction "nat (len - i)" arbitrary: i len m rule: less_induct)
  case 1: (less i len m)
  let ?k = "uint (x - str)"
  show ?case
  proof (cases "i < len")
    case True
    let ?a = "at_idx str i" and ?b = "at_idx str len" and ?y = "at_idx str (i + len - ?k)"
    have ix: "x = ?a \<longleftrightarrow> ?k = i" "x = ?b \<longleftrightarrow> ?k = len" using at_idx_eq 1(2,3) True by simp_all
    have ne: "?a \<noteq> ?b" using at_idx_eq [of i ?b str] at_idx_eq [of len ?b str] True 1(2,3) by auto
    have "?y = ?a \<longleftrightarrow> i + len - ?k = i" "?y = ?b \<longleftrightarrow> i + len - ?k = len" if "i \<le> ?k" "?k \<le> len"
      using at_idx_eq [of "i + len - ?k" ?y str] at_idx_eq [of i ?y str] at_idx_eq [of len ?y str] that 1(2,3) by auto
    then have iy: "i + 1 \<le> ?k \<Longrightarrow> ?k \<le> len - 1 \<Longrightarrow> ?y \<noteq> ?a \<and> ?y \<noteq> ?b" by auto
    have "reverse_loop str i len m x = reverse_loop str (i + 1) (len - 1) (m(?a := m ?b, ?b := m ?a)) x"
      using True xor_swap [OF ne, of m] by (subst reverse_loop.simps) (simp add: Let_def)
    also have "\<dots> = (if i + 1 \<le> ?k \<and> ?k \<le> len - 1 then (m(?a := m ?b, ?b := m ?a)) ?y else (m(?a := m ?b, ?b := m ?a)) x)"
      using 1(1) [of "len - 1" "i + 1" "m(?a := m ?b, ?b := m ?a)"] 1(2,3) True by (simp add: add.commute)
    finally show ?thesis using iy ix True ne by auto
  next
    case False
    have "x = at_idx str ?k" using at_idx_eq [of ?k x str] uint_bounded [of "x - str"] by simp
    moreover have "i \<le> ?k \<Longrightarrow> ?k \<le> len \<Longrightarrow> i + len - ?k = ?k" using False by linarith
    ultimately have "i \<le> ?k \<Longrightarrow> ?k \<le> len \<Longrightarrow> at_idx str (i + len - ?k) = x" by simp
    then show ?thesis using False by (simp add: reverse_loop.simps)
  qed
qed

lemma reverse_puts:
  assumes "length cs < 2 ^ 63"
  shows "reverse_str str (int (length cs)) (puts_at str (cs @ [z]) m) = puts_at str (rev cs @ [z]) m"
proof
  fix x
  let ?k = "uint (x - str)" and ?n = "int (length cs)"
  have u: "unat (x - str) = nat ?k" by simp
  have l: "length (cs @ [z]) < 2 ^ 64" "length (rev cs @ [z]) < 2 ^ 64" using assms by simp_all
  have "uint (at_idx str (?n - 1 - ?k) - str) = ?n - 1 - ?k" if "?k < ?n"
  proof -
    have "?n < 9223372036854775808" using assms by simp
    then have "?n - 1 - ?k < 18446744073709551616" using uint_ge_0 [of "x - str"] by linarith
    then show ?thesis using at_idx_eq [of "?n - 1 - ?k" "at_idx str (?n - 1 - ?k)" str] that by simp
  qed
  then have w: "unat (at_idx str (?n - 1 - ?k) - str) = nat (?n - 1 - ?k)" if "?k < ?n" using that by (simp add: unat_eq_nat_uint)
  have r: "reverse_str str ?n (puts_at str (cs @ [z]) m) x =
      (if ?k < ?n then puts_at str (cs @ [z]) m (at_idx str (?n - 1 - ?k)) else puts_at str (cs @ [z]) m x)"
    using reverse_loop_spec [of 0 "?n - 1" str "puts_at str (cs @ [z]) m" x] assms
    by (auto simp: reverse_str_def)
  show "reverse_str str ?n (puts_at str (cs @ [z]) m) x = puts_at str (rev cs @ [z]) m x"
  proof (cases "?k < ?n")
    case True
    then have "nat (?n - 1 - ?k) = length cs - Suc (unat (x - str))" "unat (x - str) < length cs"
      unfolding unat_eq_nat_uint using uint_ge_0 [of "x - str"] by arith+
    then show ?thesis
      unfolding r using True w [OF True] by (simp add: puts_at_nth [OF l(1)] puts_at_nth [OF l(2)] nth_append rev_nth) auto
  next
    case False
    then have "\<not> unat (x - str) < length cs" unfolding unat_eq_nat_uint by arith
    then show ?thesis
      unfolding r using False by (simp add: puts_at_nth [OF l(1)] puts_at_nth [OF l(2)] nth_append)
  qed
qed


text \<open>The digits of a positive number, the lowest first, as the loop writes them.\<close>

lemma itoa_loop_digits:
  assumes "0 < n"
  shows "itoa_loop str 10 (int n) i m =
    Some (i + int (length (digits 10 n)), puts_at (at_idx str i) (rev (map dec_char (digits 10 n))) m)"
  using assms
proof (induction n arbitrary: i m rule: less_induct)
  case (less n)
  have c: "of_int (int n mod 10 + 48) = dec_char (n mod 10)" 
  proof -
    have "int n mod 10 = int (n mod 10)" by (simp add: zmod_int)
    then show ?thesis unfolding dec_char_def by (simp only: of_int_add of_nat_add of_int_of_nat_eq) simp
  qed
  have a: "at_idx str (i + 1) = at_idx str i + 1" by (simp add: at_idx_def)
  have step: "itoa_loop str 10 (int n) i m =
      itoa_loop str 10 (int (n div 10)) (i + 1) (m(at_idx str i := dec_char (n mod 10)))"
    using less.prems c pos_mod_bound [of 10 "int n"]
    by (subst itoa_loop.simps) (simp add: pos_sdiv Let_def zdiv_int del: pos_mod_bound)
  show ?case
  proof (cases "n < 10")
    case True
    then have "itoa_loop str 10 (int (n div 10)) (i + 1) (m(at_idx str i := dec_char (n mod 10))) =
        Some (i + 1, m(at_idx str i := dec_char (n mod 10)))"
      by (subst itoa_loop.simps) simp
    then show ?thesis using True step by (simp add: digits_small fun_upd_def)
  next
    case False
    then show ?thesis
      using step less.IH [of "n div 10" "i + 1" "m(at_idx str i := dec_char (n mod 10))"]
      by (simp add: digits_small a fun_upd_def)
  qed
qed

section \<open>Properties\<close>

text \<open>
  C32. \<open>itoa(num, 10)\<close> returns, for every \<open>int\<close> but the smallest, and writes exactly the decimal
  representation of \<open>num\<close> with its NUL into the static buffer, at most 12 of its 20 bytes; no
  other memory changes.
\<close>

theorem itoa_decimal:
  assumes "- (2 ^ 31) < num" "num < 2 ^ 31"
  shows "itoa str num 10 m = Some (puts_at str (decimal num @ [0]) m) \<and> length (decimal num @ [0]) \<le> 12"
proof -
  let ?ds = "map dec_char (digits 10 (nat \<bar>num\<bar>))"
  have b: "nat \<bar>num\<bar> < 10 ^ Suc 9" using assms by (simp add: nat_less_iff)
  have l: "length (digits 10 (nat \<bar>num\<bar>)) \<le> 10" using length_digits [OF _ b] by simp
  have "itoa str num 10 m = Some (puts_at str (decimal num @ [0]) m)"
  proof (cases "num = 0")
    case True
    then show ?thesis by (simp add: itoa_def decimal_def digits_small dec_char_def at_idx_def)
  next
    case False
    let ?cs = "rev ?ds @ (if num < 0 then [45] else [])"
    have w: "num < 0 \<Longrightarrow> wrap32 (- num) = - num"
      using assms by (simp add: wrap32_def signed_take_bit_int_eq_self)
    have "itoa_loop str 10 \<bar>num\<bar> 0 m = Some (int (length ?ds), puts_at str (rev ?ds) m)"
      using itoa_loop_digits [of "nat \<bar>num\<bar>" str 0 m] False by (simp add: at_idx_def)
    then have "itoa str num 10 m = Some (reverse_str str (int (length ?cs)) (puts_at str (?cs @ [0]) m))"
      using False w by (auto simp: itoa_def Let_def puts_at_append at_idx_def ac_simps)
    also have "\<dots> = Some (puts_at str (rev ?cs @ [0]) m)"
      using l by (subst reverse_puts) auto
    finally show ?thesis by (auto simp: decimal_def)
  qed
  then show ?thesis using l by (auto simp: decimal_def)
qed

theorem itoa_decimal_witness:
  "itoa 16 (- 305) 10 (\<lambda>_. 0) = Some (puts_at 16 (decimal (- 305) @ [0]) (\<lambda>_. 0)) \<and> length (decimal (- 305) @ [0]) \<le> 12"
  by (rule itoa_decimal) simp_all

text \<open>
  C33. \<open>printHex\<close> prints \<open>0x0\<close> followed by the hexadecimal digits, for numbers of up to nine of
  them, the most its decimal accumulator holds; nothing follows for zero.
\<close>

theorem printHex_digits:
  assumes "n < 16 ^ 9"
  shows "printHex_chars (int n) = map of_char ''0x0'' @ hexs n"
  using hex_acc_out [of n 9 0] assms by (simp add: printHex_chars_def hex_out.simps [of 0])

theorem printHex_digits_witness: "printHex_chars (int 0x1BADB002) = map of_char ''0x0'' @ hexs 0x1BADB002"
  by (rule printHex_digits) simp

end
