(* ===== verification/Keyboard.thy ===== *)
theory Keyboard
  imports Kstdio
begin

text \<open>
  The PS/2 keyboard driver, \<open>src/src/kernel/drivers/KEYBOARD/keyboard.cpp\<close>: scan codes from the
  interrupt handler go as characters into a ring buffer and onto the screen, and
  \<open>readKeyboard\<close> takes a line out of it. \<open>None\<close> is an access outside \<open>buffer\<close> or \<open>keyboardCode\<close>.
\<close>

section \<open>State and operations\<close>

record keyboard = TextMode +
  kb_buffer :: "byte list"
  buffIdx :: u32
  readIdx :: u32
  capitalON :: bool
  lineON :: bool

definition KEYBOARD_BUFFER_MAX_SIZE :: nat where "KEYBOARD_BUFFER_MAX_SIZE = 0x100"

definition keyboardCode :: "u8 list" where
  "keyboardCode =
    [0x00, 0x1B, 0x31, 0x32, 0x33, 0x34, 0x35, 0x36, 0x37, 0x38, 0x39, 0x30, 0x2D, 0x3D,
     0x08, 0x09, 0x51, 0x57, 0x45, 0x52, 0x54, 0x59, 0x55, 0x49, 0x4F, 0x50, 0x5B, 0x5D,
     0x0d, 0x00, 0x41, 0x53, 0x44, 0x46, 0x47, 0x48, 0x4A, 0x4B, 0x4C, 0x3B, 0x27, 0x60,
     0x00, 0x5C, 0x5A, 0x58, 0x43, 0x56, 0x42, 0x4E, 0x4D, 0x2C, 0x2E, 0x2F, 0x00, 0x2A,
     0x00, 0x20, 0x00, 0x00, 0x00, 0x00, 0x00, 0x00, 0x00, 0x00, 0x00, 0x00,
     0x00, 0x37, 0x38, 0x39, 0x2D, 0x34, 0x35, 0x36, 0x2B, 0x31, 0x32, 0x33, 0x30, 0x2E]"

definition keyboardCodeSize :: u8 where
  "keyboardCodeSize = of_nat (length keyboardCode)"

definition PS2_PORT :: u16 where [simp]: "PS2_PORT = 0x64"
definition PS2_ENABLE_KEYBOARD :: u8 where [simp]: "PS2_ENABLE_KEYBOARD = 0xae"

definition initKeyboard :: "(u16 \<times> u8) list" where
  "initKeyboard = [(PS2_PORT, PS2_ENABLE_KEYBOARD)]"

definition putInBuffer :: "byte \<Rightarrow> 'a keyboard_scheme \<Rightarrow> 'a keyboard_scheme option" where
  "putInBuffer c s0 =
     (let s = (if unat (buffIdx s0) = KEYBOARD_BUFFER_MAX_SIZE then s0\<lparr>buffIdx := 0\<rparr> else s0)
      in if unat (buffIdx s) \<ge> length (kb_buffer s) then None
         else Some (s\<lparr>kb_buffer := (kb_buffer s)[unat (buffIdx s) := c], buffIdx := buffIdx s + 1\<rparr>))"

function readKeyboard_loop ::
    "addr \<Rightarrow> u64 \<Rightarrow> u64 \<Rightarrow> mem \<Rightarrow> 'a keyboard_scheme \<Rightarrow> (u64 \<times> mem \<times> 'a keyboard_scheme) option" where
  "readKeyboard_loop buf sz i m s0 =
     (if i < sz
      then (let s = (if unat (readIdx s0) = KEYBOARD_BUFFER_MAX_SIZE then s0\<lparr>readIdx := 0\<rparr> else s0)
            in if unat (readIdx s) \<ge> length (kb_buffer s) then None
               else if kb_buffer s ! unat (readIdx s) = 0x0a
               then Some (i + 1, m(buf + i := 0), s\<lparr>lineON := False, readIdx := readIdx s + 1\<rparr>)
               else readKeyboard_loop buf sz (i + 1) (m(buf + i := kb_buffer s ! unat (readIdx s)))
                      (s\<lparr>readIdx := readIdx s + 1\<rparr>))
      else Some (0, m, s0\<lparr>lineON := False\<rparr>))"
  by pat_completeness auto
termination
  by (relation "measure (\<lambda>(buf, sz, i, m, s). unat (sz - i))") (auto simp: word_loop_measure)

declare readKeyboard_loop.simps [simp del]

definition readKeyboard :: "addr \<Rightarrow> u64 \<Rightarrow> mem \<Rightarrow> 'a keyboard_scheme \<Rightarrow> (u64 \<times> mem \<times> 'a keyboard_scheme) option" where
  "readKeyboard buf sz m s =
     (if \<not> lineON s then Some (0, m, s)
      else readKeyboard_loop buf (if unat sz < KEYBOARD_BUFFER_MAX_SIZE then sz else of_nat KEYBOARD_BUFFER_MAX_SIZE) 0 m s)"

definition deleteChar :: "'a keyboard_scheme \<Rightarrow> 'a keyboard_scheme" where
  "deleteChar s =
     (if getCurrChar s \<noteq> 0xa3e
      then (let s1 = snd (setColumn (getColumn s - 1) s);
                s2 = putChar 0x32 0 s1;
                s3 = snd (setColumn (getColumn s2 - 1) s2)
            in s3\<lparr>buffIdx := buffIdx s3 - 1\<rparr>)
      else s)"

text \<open>The character of a scan code, lines 104 to 106.\<close>

definition key_char :: "bool \<Rightarrow> u8 \<Rightarrow> byte option" where
  "key_char capital scanCode =
     (if scanCode > keyboardCodeSize then Some 0
      else if unat scanCode \<ge> length keyboardCode then None
      else Some (if capital then keyboardCode ! unat scanCode else keyboardCode ! unat scanCode + 32))"

definition KEYBOARD_CAPSLOCK_PRESSED :: u8 where [simp]: "KEYBOARD_CAPSLOCK_PRESSED = 0x3a"
definition KEYBOARD_RSHIFT_RELEASED :: u8 where [simp]: "KEYBOARD_RSHIFT_RELEASED = 0xb6"
definition KEYBOARD_LSHIFT_RELEASED :: u8 where [simp]: "KEYBOARD_LSHIFT_RELEASED = 0xaa"
definition KEYBOARD_RSHIFT_PRESSED :: u8 where [simp]: "KEYBOARD_RSHIFT_PRESSED = 0x36"
definition KEYBOARD_LSHIFT_PRESSED :: u8 where [simp]: "KEYBOARD_LSHIFT_PRESSED = 0x2a"
definition KEYBOARD_ENTER_PRESSED :: u8 where "KEYBOARD_ENTER_PRESSED = 0x1c"
definition KEYBOARD_SPACE_PRESSED :: u8 where "KEYBOARD_SPACE_PRESSED = 0x39"
definition KEYBOARD_BACKSPACE_PRESSED :: u8 where "KEYBOARD_BACKSPACE_PRESSED = 0xe"

definition keyboardIRQ :: "u8 \<Rightarrow> 'a keyboard_scheme \<Rightarrow> 'a keyboard_scheme option" where
  "keyboardIRQ scanCode s =
     (if scanCode = KEYBOARD_SPACE_PRESSED
      then do { s1 \<leftarrow> putInBuffer 0x20 s; Some (kputc 0x20 s1) }
      else if scanCode = KEYBOARD_BACKSPACE_PRESSED then Some (deleteChar s)
      else if scanCode = KEYBOARD_ENTER_PRESSED
      then (if \<not> lineON s
            then do { s1 \<leftarrow> putInBuffer 0x0a s; Some (kputc 0x0a (s1\<lparr>lineON := True\<rparr>)) }
            else Some s)
      else if scanCode = KEYBOARD_CAPSLOCK_PRESSED \<or> scanCode = KEYBOARD_RSHIFT_PRESSED \<or> scanCode = KEYBOARD_RSHIFT_RELEASED \<or>
        scanCode = KEYBOARD_LSHIFT_PRESSED \<or> scanCode = KEYBOARD_LSHIFT_RELEASED
      then Some (s\<lparr>capitalON := \<not> capitalON s\<rparr>)
      else do { c \<leftarrow> key_char (capitalON s) scanCode;
                if c \<noteq> 0 then do { s1 \<leftarrow> putInBuffer c s; Some (kputc c s1) } else Some s })"

text \<open>\<open>fgets\<close> of \<open>kstdlib.cpp\<close> polls until a line is there: one poll.\<close>

definition fgets_poll :: "addr \<Rightarrow> u64 \<Rightarrow> mem \<Rightarrow> 'a keyboard_scheme \<Rightarrow> (u64 \<times> mem \<times> 'a keyboard_scheme) option" where
  "fgets_poll buffer maxSize m s = readKeyboard buffer maxSize m s"

primrec press_all :: "u8 list \<Rightarrow> 'a keyboard_scheme \<Rightarrow> 'a keyboard_scheme option" where
  "press_all [] s = Some s"
| "press_all (k # ks) s = do { s1 \<leftarrow> keyboardIRQ k s; press_all ks s1 }"

lemma press_all_append: "press_all (ks @ ls) s = Option.bind (press_all ks s) (press_all ls)"
  by (induction ks arbitrary: s) (simp_all add: Option.bind_assoc)

section \<open>The ring\<close>

text \<open>The next write and the next read position, and the invariant.\<close>

definition wpos :: "'a keyboard_scheme \<Rightarrow> nat" where "wpos s = unat (buffIdx s) mod 256"
definition rpos :: "'a keyboard_scheme \<Rightarrow> nat" where "rpos s = unat (readIdx s) mod 256"

definition kb_ok :: "'a keyboard_scheme \<Rightarrow> bool" where
  "kb_ok s \<longleftrightarrow> length (kb_buffer s) = 256 \<and> unat (buffIdx s) \<le> 256 \<and> unat (readIdx s) \<le> 256"

text \<open>The bytes written from a position on.\<close>

definition ring_has :: "byte list \<Rightarrow> nat \<Rightarrow> byte list \<Rightarrow> bool" where
  "ring_has buf p xs \<longleftrightarrow> (\<forall>i < length xs. buf ! ((p + i) mod 256) = xs ! i)"

lemma putInBuffer_ok:
  assumes "kb_ok s"
  shows "\<exists>s'. putInBuffer c s = Some s' \<and> kb_ok s' \<and> kb_buffer s' = (kb_buffer s)[wpos s := c] \<and>
    wpos s' = (wpos s + 1) mod 256 \<and> readIdx s' = readIdx s \<and> lineON s' = lineON s \<and> capitalON s' = capitalON s"
proof -
  let ?s = "if unat (buffIdx s) = KEYBOARD_BUFFER_MAX_SIZE then s\<lparr>buffIdx := 0\<rparr> else s"
  have w: "unat (buffIdx ?s) = wpos s" "wpos s < 256"
    using assms by (auto simp: wpos_def kb_ok_def KEYBOARD_BUFFER_MAX_SIZE_def)
  have "unat (buffIdx ?s + 1) = wpos s + 1" using w by (simp add: unat_word_ariths)
  then show ?thesis
    using assms w unfolding putInBuffer_def Let_def
    by (auto simp: kb_ok_def wpos_def [of "_\<lparr>buffIdx := _\<rparr>"])
qed

lemma put_cell_kb: "TextMode.more (put_cell i w s) = TextMode.more s"
  by (simp add: put_cell_def)

lemma putChar_more: "TextMode.more (putChar c color s) = TextMode.more s"
  by (simp add: putChar_def scroll_def scroll_rows_cells clear_cells Let_def put_cell_kb)

lemma setColumn_more: "TextMode.more (snd (setColumn c s)) = TextMode.more s"
  by (simp add: setColumn_def)

lemma keyboard_more:
  assumes "TextMode.more s' = TextMode.more s"
  shows "kb_buffer s' = kb_buffer s" "buffIdx s' = buffIdx s" "readIdx s' = readIdx s" "lineON s' = lineON s" "capitalON s' = capitalON s"
  using assms by (cases s; cases s'; simp)+

lemmas screen_frames [simp] = keyboard_more [OF setColumn_more] keyboard_more [OF putChar_more]
lemmas kputc_fields [simp] = keyboard_more [OF putChar_more [of c 15 s, folded kputc_def]] for c s

lemma mod_add_Suc: "Suc (a mod 256 + b) mod 256 = Suc (a + b) mod (256 :: nat)"
  by (metis mod_Suc_eq mod_add_left_eq)

lemma ring_has_snoc:
  assumes "ring_has buf p xs" "length buf = 256" "length xs < 256"
  shows "ring_has (buf[(p + length xs) mod 256 := x]) p (xs @ [x])"
proof -
  have "(p + length xs) mod 256 \<noteq> (p + i) mod 256" if "i < length xs" for i
  proof
    assume "(p + length xs) mod 256 = (p + i) mod 256"
    then have "length xs mod 256 = i mod 256" by (simp add: mod_add_left_eq nat_mod_eq_iff)
    then show False using that assms(3) by simp
  qed
  then show ?thesis using assms by (auto simp: ring_has_def nth_append less_Suc_eq)
qed

lemma ring_has_butlast: "ring_has buf p xs \<Longrightarrow> ring_has buf p (butlast xs)"
  by (simp add: ring_has_def nth_butlast)

section \<open>Specification: a line being typed\<close>

text \<open>
  A line editor: the state is whether capitals are on and what has been typed. Space and the character keys append, Backspace
  takes the last character away, caps lock and both shift keys switch the capitals, when pressed and when released, and every code
  behind the table, as those of released keys, does nothing. Without capitals every code of the table is 32 more, also that of
  digits, punctuation and keys without a character. Three cases are
  undefined: Enter, Backspace on an empty line, and the one code that lies directly behind the table.
\<close>

definition key_step :: "u8 \<Rightarrow> bool \<times> byte list \<Rightarrow> (bool \<times> byte list) option" where
  "key_step k st = (case st of (cap, line) \<Rightarrow>
     if k = 0x39 then Some (cap, line @ [0x20])
     else if k = 0x0e then (if line = [] then None else Some (cap, butlast line))
     else if k = 0x1c then None
     else if k \<in> {0x3a, 0x2a, 0xaa, 0x36, 0xb6} then Some (\<not> cap, line)
     else if unat k = length keyboardCode then None
     else if unat k > length keyboardCode then Some (cap, line)
     else let c = keyboardCode ! unat k + (if cap then 0 else 32) in Some (cap, if c = 0 then line else line @ [c]))"

primrec type_keys :: "u8 list \<Rightarrow> bool \<times> byte list \<Rightarrow> (bool \<times> byte list) option" where
  "type_keys [] st = Some st"
| "type_keys (k # ks) st = do { st1 \<leftarrow> key_step k st; type_keys ks st1 }"

text \<open>The letter keys type the letters: upper case with capitals, lower case without.\<close>

lemma letter_keys:
  "key_step 0x1e (True, xs) = Some (True, xs @ [0x41])" "key_step 0x1e (False, xs) = Some (False, xs @ [0x61])"
  "key_step 0x2c (True, xs) = Some (True, xs @ [0x5a])" "key_step 0x2c (False, xs) = Some (False, xs @ [0x7a])"
  by (simp_all add: key_step_def keyboardCode_def)

lemma keyboardCode_no_newline: "\<forall>c \<in> set keyboardCode. c \<noteq> 0x0a \<and> c + 32 \<noteq> 0x0a"
  by (simp add: keyboardCode_def)

lemma keyboardCode_char:
  assumes "unat k < length keyboardCode"
  shows "keyboardCode ! unat k + (if cap then 0 else 32) \<noteq> 0x0a"
    "key_char cap k = Some (keyboardCode ! unat k + (if cap then 0 else 32))"
proof -
  have "keyboardCode ! unat k \<in> set keyboardCode" using assms by simp
  then show "keyboardCode ! unat k + (if cap then 0 else 32) \<noteq> 0x0a" using keyboardCode_no_newline by auto
  have "\<not> keyboardCodeSize < k" using assms by (simp add: keyboardCodeSize_def keyboardCode_def word_less_nat_alt)
  then show "key_char cap k = Some (keyboardCode ! unat k + (if cap then 0 else 32))" using assms by (simp add: key_char_def)
qed

lemma key_step_no_newline:
  "key_step k (cap, line) = Some (cap', line') \<Longrightarrow> 0x0a \<notin> set line \<Longrightarrow> 0x0a \<notin> set line'"
  using keyboardCode_char(1) [of k cap] by (auto simp: key_step_def Let_def split: if_splits dest: in_set_butlastD)

lemma key_step_length: "key_step k (cap, line) = Some (cap', line') \<Longrightarrow> length line' \<le> Suc (length line)"
  by (auto simp: key_step_def Let_def split: if_splits)

lemma type_keys_line:
  "type_keys ks (cap, line) = Some (cap', line') \<Longrightarrow> length line' \<le> length line + length ks \<and> (0x0a \<notin> set line \<longrightarrow> 0x0a \<notin> set line')"
proof (induction ks arbitrary: cap line)
  case (Cons k ks)
  obtain cap1 line1 where k: "key_step k (cap, line) = Some (cap1, line1)" "type_keys ks (cap1, line1) = Some (cap', line')"
    using Cons.prems by (auto simp: bind_eq_Some_conv)
  show ?case using Cons.IH [OF k(2)] key_step_length [OF k(1)] key_step_no_newline [OF k(1)] by auto
qed simp

section \<open>The driver types the line\<close>

lemma glyph_not_prompt: "glyph c 15 \<noteq> 0xa3e"
proof
  assume "glyph c 15 = 0xa3e"
  moreover have "push_bit 8 (ucast (15 :: u8)) = (0xf00 :: u16)" by (simp add: push_bit_eq_mult)
  ultimately have "0xf00 + (scast c :: u16) = 0xa3e" by (simp add: glyph_def)
  then have "(scast c :: u16) = 0xa3e - 0xf00" by (metis add_diff_cancel_left')
  then have "(scast c :: u16) = 0xfb3e" by simp
  then have "sint (scast c :: u16) = sint (0xfb3e :: u16)" by simp
  moreover have r: "- 128 \<le> sint c" "sint c < 128" using sint_greater_eq [of c] sint_less [of c] by simp_all
  moreover have "sint (scast c :: u16) = sint c" using r by (simp add: signed_scast_eq signed_take_bit_int_eq_self)
  ultimately show False by simp
qed

text \<open>
  Where the cursor and the write index are after the characters of a line have been typed on one row of the screen and without
  a wrap of the ring; the cell before the cursor is then not the prompt, which Backspace respects.
\<close>

definition on_row :: "'a keyboard_scheme \<Rightarrow> byte list \<Rightarrow> 'a keyboard_scheme \<Rightarrow> bool" where
  "on_row s0 line t \<longleftrightarrow> vga_line t = vga_line s0 \<and> unat (vga_column t) = unat (vga_column s0) + length line \<and>
     (line \<noteq> [] \<longrightarrow> unat (buffIdx t) = wpos s0 + length line) \<and>
     (\<forall>i < length line. cells t (cell_idx (unat (vga_line s0)) (unat (vga_column s0) + i)) \<noteq> 0xa3e)"

definition typing :: "bool \<Rightarrow> nat \<Rightarrow> 'a keyboard_scheme \<Rightarrow> bool \<times> byte list \<Rightarrow> 'a keyboard_scheme \<Rightarrow> bool" where
  "typing bs n s0 st t \<longleftrightarrow> kb_ok t \<and> \<not> lineON t \<and> readIdx t = readIdx s0 \<and> capitalON t = fst st \<and>
     wpos t = (wpos s0 + length (snd st)) mod 256 \<and> ring_has (kb_buffer t) (wpos s0) (snd st) \<and> length (snd st) + n < 256 \<and>
     (bs \<longrightarrow> unat (vga_line s0) < 25 \<and> unat (vga_column s0) + length (snd st) + n < 80 \<and>
        wpos s0 + length (snd st) + n \<le> 256 \<and> on_row s0 (snd st) t)"

lemma putInBuffer_idx:
  assumes "putInBuffer c s = Some s'" "kb_ok s"
  shows "unat (buffIdx s') = wpos s + 1" "TextMode.cells s' = cells s" "vga_line s' = vga_line s" "vga_column s' = vga_column s"
proof -
  have "unat (if unat (buffIdx s) = 256 then 0 else buffIdx s) = wpos s" "wpos s < 256"
    using assms(2) by (auto simp: kb_ok_def wpos_def)
  then have "unat ((if unat (buffIdx s) = 256 then 0 else buffIdx s) + 1) = wpos s + 1" by (simp add: unat_word_ariths)
  then show "unat (buffIdx s') = wpos s + 1" "TextMode.cells s' = cells s" "vga_line s' = vga_line s" "vga_column s' = vga_column s"
    using assms(1) by (auto simp: putInBuffer_def Let_def KEYBOARD_BUFFER_MAX_SIZE_def split: if_splits)
qed

lemma putChar_row:
  assumes "unat (vga_line s) < 25" "unat (vga_column s) < 79" "c \<noteq> 0x0a"
  shows "vga_line (putChar c k s) = vga_line s" "unat (vga_column (putChar c k s)) = unat (vga_column s) + 1"
    "cells (putChar c k s) = (cells s)(cell_idx (unat (vga_line s)) (unat (vga_column s)) := glyph c k)"
proof -
  have "unat (vga_column s + 1) = unat (vga_column s) + 1" using assms(2) by (simp add: unat_word_ariths)
  then show "vga_line (putChar c k s) = vga_line s" "unat (vga_column (putChar c k s)) = unat (vga_column s) + 1"
    "cells (putChar c k s) = (cells s)(cell_idx (unat (vga_line s)) (unat (vga_column s)) := glyph c k)"
    using assms by (simp_all add: putChar_def Let_def put_cell_def VGA_HEIGHT_def VGA_WIDTH_def)
qed

lemma type_char:
  assumes t: "typing bs (Suc n) s0 (cap, line) t" and c: "c \<noteq> 0x0a"
  shows "\<exists>t'. do { s1 \<leftarrow> putInBuffer c t; Some (kputc c s1) } = Some t' \<and> typing bs n s0 (cap, line @ [c]) t'"
proof -
  note T = t [unfolded typing_def, simplified]
  obtain s1 where p: "putInBuffer c t = Some s1" "kb_ok s1" "kb_buffer s1 = (kb_buffer t)[wpos t := c]"
      "wpos s1 = (wpos t + 1) mod 256" "readIdx s1 = readIdx t" "lineON s1 = lineON t" "capitalON s1 = capitalON t"
    using putInBuffer_ok [of t c] T by blast
  have pt: "kb_ok t" using T by blast
  note q = putInBuffer_idx [OF p(1) pt]
  have r: "ring_has (kb_buffer s1) (wpos s0) (line @ [c])"
    using ring_has_snoc [of "kb_buffer t" "wpos s0" line c] T p(3) by (simp add: kb_ok_def)
  have "on_row s0 (line @ [c]) (kputc c s1)" if bs
  proof -
    have R: "unat (vga_line s0) < 25" "unat (vga_column s0) + length line + Suc n < 80" "wpos s0 + length line + Suc n \<le> 256"
        "vga_line t = vga_line s0" "unat (vga_column t) = unat (vga_column s0) + length line"
        "\<forall>i < length line. cells t (cell_idx (unat (vga_line s0)) (unat (vga_column s0) + i)) \<noteq> 0xa3e"
      using T that by (simp_all add: on_row_def)
    have w: "wpos t = wpos s0 + length line" using T R(3) by simp
    have row: "unat (vga_line s1) < 25" "unat (vga_column s1) < 79" using R q by simp_all
    note pc = putChar_row [OF row c, of 15, folded kputc_def]
    have "buffIdx (kputc c s1) = buffIdx s1" by simp
    moreover have "cells (kputc c s1) (cell_idx (unat (vga_line s0)) (unat (vga_column s0) + i)) \<noteq> 0xa3e" if "i < Suc (length line)" for i
      using that R q pc(3) glyph_not_prompt [of c] by (auto simp: cell_idx_def less_Suc_eq)
    ultimately show ?thesis using R q pc w by (simp add: on_row_def)
  qed
  moreover have "kb_ok (kputc c s1)" "wpos (kputc c s1) = wpos s1" using p(2) by (simp_all add: kb_ok_def wpos_def)
  ultimately have "typing bs n s0 (cap, line @ [c]) (kputc c s1)"
    using T p r by (simp add: typing_def mod_Suc_eq)
  then show ?thesis using p(1) by auto
qed

lemma type_backspace:
  assumes t: "typing True (Suc n) s0 (cap, line) t" and l: "line \<noteq> []"
  shows "typing True n s0 (cap, butlast line) (deleteChar t)"
proof -
  note T = t [unfolded typing_def on_row_def, simplified]
  obtain k where k: "length line = Suc k" using l by (cases line) auto
  let ?l = "unat (vga_line s0)" and ?c = "unat (vga_column s0) + k"
  have R: "?l < 25" "vga_line t = vga_line s0" "unat (vga_column t) = Suc ?c" "?c < 78" "unat (buffIdx t) = Suc (wpos s0 + k)"
      "\<And>i. i < Suc k \<Longrightarrow> cells t (cell_idx ?l (unat (vga_column s0) + i)) \<noteq> 0xa3e"
    using T k l by simp_all
  have g: "getCurrChar t \<noteq> 0xa3e" using R(6) [of k] R(2,3) by (simp add: getCurrChar_def cell_idx_def)
  define s1 where "s1 = snd (setColumn (getColumn t - 1) t)"
  define s2 where "s2 = putChar 0x32 0 s1"
  define s3 where "s3 = snd (setColumn (getColumn s2 - 1) s2)"
  have dec: "unat (x - 1) = y" if "unat x = Suc y" for x :: "'b::len word" and y
    using that by (metis diff_Suc_1 unat_minus_one unat_0 Zero_not_Suc)
  have c1: "unat (getColumn t - 1) = ?c" using dec [of "vga_column t"] R(3) by (simp add: getColumn_def)
  then have s1: "s1 = t\<lparr>vga_column := getColumn t - 1\<rparr>" using R(4) by (simp add: s1_def setColumn_def VGA_WIDTH_def)
  have row: "unat (vga_line s1) < 25" "unat (vga_column s1) < 79" using R c1 by (simp_all add: s1)
  note pc = putChar_row [OF row, of "0x32" 0, folded s2_def, simplified]
  have c3: "unat (getColumn s2 - 1) = ?c" using dec [of "vga_column s2"] pc(2) c1 by (simp add: getColumn_def s1)
  then have s3: "s3 = s2\<lparr>vga_column := getColumn s2 - 1\<rparr>" using R(4) by (simp add: s3_def setColumn_def VGA_WIDTH_def)
  have d: "deleteChar t = s3\<lparr>buffIdx := buffIdx s3 - 1\<rparr>"
    using g unfolding deleteChar_def Let_def s1_def s2_def s3_def by simp
  have f: "kb_buffer s3 = kb_buffer t" "buffIdx s3 = buffIdx t" "readIdx s3 = readIdx t" "lineON s3 = lineON t" "capitalON s3 = capitalON t"
    by (simp_all add: s3_def s2_def s1_def)
  have b: "unat (buffIdx t - 1) = wpos s0 + k" using dec [OF R(5)] by simp
  have "kb_ok (deleteChar t)" using T k b by (auto simp: kb_ok_def d f)
  moreover have "wpos (deleteChar t) = (wpos s0 + k) mod 256" using b by (simp add: wpos_def d f)
  moreover have "on_row s0 (butlast line) (deleteChar t)"
  proof -
    have "cells s3 (cell_idx ?l (unat (vga_column s0) + i)) \<noteq> 0xa3e" if "i < k" for i
    proof -
      have "cells s3 = (cells t)(cell_idx ?l ?c := glyph 0x32 0)" using pc(3) R(2) c1 by (simp add: s3 s1)
      moreover have "cell_idx ?l (unat (vga_column s0) + i) \<noteq> cell_idx ?l ?c" using that by (simp add: cell_idx_def)
      ultimately show ?thesis using R(6) [of i] that by simp
    qed
    moreover have "vga_line s3 = vga_line s0" "unat (vga_column s3) = ?c" using pc(1) R(2) c3 by (simp_all add: s3 s1)
    ultimately show ?thesis using b k by (simp add: on_row_def d f)
  qed
  ultimately show ?thesis using T k ring_has_butlast by (simp add: typing_def d f)
qed

lemma typing_less: "typing bs (Suc n) s0 st t \<Longrightarrow> typing bs n s0 st t"
  by (auto simp: typing_def)

lemma type_key:
  assumes t: "typing bs (Suc n) s0 (cap, line) t" and k: "key_step k (cap, line) = Some st" and bs: "k = 0x0e \<longrightarrow> bs"
  shows "\<exists>t'. keyboardIRQ k t = Some t' \<and> typing bs n s0 st t'"
proof -
  note codes = KEYBOARD_SPACE_PRESSED_def KEYBOARD_BACKSPACE_PRESSED_def KEYBOARD_ENTER_PRESSED_def
  have cap: "capitalON t = cap" using t by (simp add: typing_def)
  have enter: "k \<noteq> 0x1c" using k by (intro notI) (simp add: key_step_def)
  consider "k = 0x39" | "k = 0x0e" | "k \<in> {0x3a, 0x2a, 0xaa, 0x36, 0xb6}"
    | "k \<notin> {0x39, 0x0e, 0x1c, 0x3a, 0x2a, 0xaa, 0x36, 0xb6}" using enter by blast
  then show ?thesis
  proof cases
    case 1
    then show ?thesis using type_char [OF t, of "0x20"] k by (simp add: keyboardIRQ_def codes key_step_def)
  next
    case 2
    then have "line \<noteq> []" "st = (cap, butlast line)" "bs = True" using k bs by (auto simp: key_step_def split: if_splits)
    then show ?thesis using type_backspace [of n s0 cap line t] t 2 by (simp add: keyboardIRQ_def codes)
  next
    case 3
    have "typing bs n s0 (\<not> cap, line) (t\<lparr>capitalON := \<not> capitalON t\<rparr>)"
      using typing_less [OF t] by (auto simp: typing_def kb_ok_def wpos_def on_row_def)
    then show ?thesis using 3 k by (auto simp: keyboardIRQ_def codes key_step_def)
  next
    case 4
    note I = keyboardIRQ_def [of k t, unfolded codes cap, simplified]
    have l: "length keyboardCode = 82" by (simp add: keyboardCode_def)
    show ?thesis
    proof (cases "unat k < length keyboardCode")
      case True
      let ?c = "keyboardCode ! unat k + (if cap then 0 else 32)"
      have st: "st = (cap, if ?c = 0 then line else line @ [?c])" using 4 k True by (auto simp: key_step_def Let_def split: if_splits)
      have e: "keyboardIRQ k t = (if ?c \<noteq> 0 then do { s1 \<leftarrow> putInBuffer ?c t; Some (kputc ?c s1) } else Some t)"
        using 4 keyboardCode_char(2) [OF True, of cap] by (simp add: I)
      show ?thesis
        using type_char [OF t keyboardCode_char(1) [OF True, of cap]] typing_less [OF t] unfolding e st by (cases "?c = 0") auto
    next
      case False
      then have gt: "unat k > length keyboardCode" "st = (cap, line)" using 4 k by (auto simp: key_step_def split: if_splits)
      then have "key_char cap k = Some 0" by (simp add: key_char_def keyboardCodeSize_def l word_less_nat_alt)
      then show ?thesis using 4 gt typing_less [OF t] by (simp add: I)
    qed
  qed
qed

lemma type_all:
  assumes "type_keys ks (cap, line) = Some st" "typing bs (length ks) s0 (cap, line) t" "0x0e \<in> set ks \<longrightarrow> bs"
  shows "\<exists>t'. press_all ks t = Some t' \<and> typing bs 0 s0 st t'"
  using assms
proof (induction ks arbitrary: cap line t)
  case (Cons k ks)
  obtain cap1 line1 where k: "key_step k (cap, line) = Some (cap1, line1)" "type_keys ks (cap1, line1) = Some st"
    using Cons.prems(1) by (auto simp: bind_eq_Some_conv)
  have t: "typing bs (Suc (length ks)) s0 (cap, line) t" using Cons.prems(2) by simp
  obtain t1 where t1: "keyboardIRQ k t = Some t1" "typing bs (length ks) s0 (cap1, line1) t1"
    using type_key [OF t k(1)] Cons.prems(3) by auto
  show ?case using Cons.IH [OF k(2) t1(2)] t1(1) Cons.prems(3) by auto
qed simp

lemma press_enter:
  assumes "kb_ok s" "\<not> lineON s"
  shows "\<exists>s'. keyboardIRQ KEYBOARD_ENTER_PRESSED s = Some s' \<and> kb_ok s' \<and> kb_buffer s' = (kb_buffer s)[wpos s := 0x0a] \<and>
    wpos s' = (wpos s + 1) mod 256 \<and> readIdx s' = readIdx s \<and> lineON s'"
proof -
  obtain s1 where "putInBuffer 0x0a s = Some s1" "kb_ok s1" "kb_buffer s1 = (kb_buffer s)[wpos s := 0x0a]"
      "wpos s1 = (wpos s + 1) mod 256" "readIdx s1 = readIdx s"
    using putInBuffer_ok [OF assms(1), of "0x0a"] by blast
  then show ?thesis using assms(2)
    by (simp add: keyboardIRQ_def KEYBOARD_ENTER_PRESSED_def KEYBOARD_SPACE_PRESSED_def KEYBOARD_BACKSPACE_PRESSED_def kb_ok_def wpos_def)
qed

section \<open>Reading\<close>

lemma read_step:
  assumes "kb_ok s" "i < sz"
  shows "readKeyboard_loop buf sz i m s =
    (if kb_buffer s ! rpos s = 0x0a
     then Some (i + 1, m(buf + i := 0), s\<lparr>lineON := False, readIdx := of_nat (Suc (rpos s))\<rparr>)
     else readKeyboard_loop buf sz (i + 1) (m(buf + i := kb_buffer s ! rpos s)) (s\<lparr>readIdx := of_nat (Suc (rpos s))\<rparr>))"
proof -
  have r: "rpos s = (if unat (readIdx s) = 256 then 0 else unat (readIdx s))" "rpos s < 256"
    using assms(1) by (auto simp: rpos_def kb_ok_def)
  have "(of_nat (Suc (rpos s)) :: u32) = (if unat (readIdx s) = 256 then 1 else readIdx s + 1)"
    by (simp add: r(1) add.commute)
  then show ?thesis
    using assms r by (subst readKeyboard_loop.simps) (simp add: Let_def KEYBOARD_BUFFER_MAX_SIZE_def kb_ok_def)
qed

lemma rpos_Suc: "rpos (s\<lparr>readIdx := of_nat (Suc (rpos s))\<rparr>) = Suc (rpos s) mod 256"
  by (simp add: rpos_def unsigned_of_nat take_bit_nat_eq_self del: of_nat_Suc)

lemma kb_ok_read: "kb_ok s \<Longrightarrow> kb_ok (s\<lparr>readIdx := of_nat (Suc (rpos s))\<rparr>)"
  by (simp add: kb_ok_def rpos_def unsigned_of_nat take_bit_nat_eq_self Suc_leI del: of_nat_Suc)

lemma ring_has_Cons:
  assumes "ring_has buf p (x # xs)" "p < 256"
  shows "buf ! p = x" "ring_has buf (Suc p mod 256) xs"
proof -
  show "buf ! p = x" using assms by (force simp: ring_has_def)
  show "ring_has buf (Suc p mod 256) xs"
    using assms(1) unfolding ring_has_def by (auto simp: mod_simps)
qed

lemma read_line:
  assumes "kb_ok s" "ring_has (kb_buffer s) (rpos s) (xs @ [0x0a])" "0x0a \<notin> set xs"
    and "unat i + length xs < unat sz"
  shows "\<exists>s'. readKeyboard_loop buf sz i m s = Some (i + of_nat (Suc (length xs)), puts_at (buf + i) (xs @ [0]) m, s') \<and>
    kb_ok s' \<and> kb_buffer s' = kb_buffer s \<and> rpos s' = (rpos s + Suc (length xs)) mod 256 \<and> \<not> lineON s' \<and> buffIdx s' = buffIdx s"
  using assms
proof (induction xs arbitrary: i m s)
  case Nil
  have "i < sz" "rpos s < 256" using Nil(4) by (simp_all add: word_less_nat_alt rpos_def)
  moreover have "kb_buffer s ! rpos s = 0x0a" using ring_has_Cons(1) [of _ _ "0x0a" "[]"] Nil(2) \<open>rpos s < 256\<close> by simp
  ultimately show ?case
    using read_step [OF Nil(1)] rpos_Suc [of s] kb_ok_read [OF Nil(1)]
    by (auto simp: kb_ok_def rpos_def)
next
  case (Cons x xs)
  let ?s = "s\<lparr>readIdx := of_nat (Suc (rpos s))\<rparr>"
  have i: "i < sz" "rpos s < 256" using Cons.prems(4) by (simp_all add: word_less_nat_alt rpos_def)
  have u: "unat (i + 1) = unat i + 1"
    using Cons.prems(4) unat_u64_less [of sz] by (simp add: unat_word_ariths)
  have x: "kb_buffer s ! rpos s = x" "ring_has (kb_buffer ?s) (rpos ?s) (xs @ [0x0a])"
    using ring_has_Cons [of "kb_buffer s" "rpos s" x "xs @ [0x0a]"] Cons.prems(2) i(2) by (simp_all add: rpos_Suc del: of_nat_Suc)
  have p: "0x0a \<notin> set xs" "unat (i + 1) + length xs < unat sz" using Cons.prems(3,4) u by simp_all
  obtain s' where s': "readKeyboard_loop buf sz (i + 1) (m(buf + i := x)) ?s =
      Some (i + 1 + of_nat (Suc (length xs)), puts_at (buf + (i + 1)) (xs @ [0]) (m(buf + i := x)), s')"
    "kb_ok s'" "kb_buffer s' = kb_buffer ?s" "rpos s' = (rpos ?s + Suc (length xs)) mod 256" "\<not> lineON s'" "buffIdx s' = buffIdx ?s"
    using Cons.IH [OF kb_ok_read [OF Cons.prems(1)] x(2) p] by blast
  have "readKeyboard_loop buf sz i m s = readKeyboard_loop buf sz (i + 1) (m(buf + i := x)) ?s"
    using read_step [OF Cons.prems(1) i(1), of buf m] x(1) Cons.prems(3) by simp
  moreover have "i + 1 + of_nat (Suc (length xs)) = i + of_nat (Suc (length (x # xs)))" by simp
  moreover have "puts_at (buf + (i + 1)) (xs @ [0]) (m(buf + i := x)) = puts_at (buf + i) ((x # xs) @ [0]) m"
    by (simp add: add.assoc)
  moreover have "rpos s' = (rpos s + Suc (length (x # xs))) mod 256"
    using s'(4) by (simp add: rpos_Suc mod_add_Suc del: of_nat_Suc)
  ultimately show ?case using s'(1-3,5,6) by (intro exI [of _ s']) simp
qed


section \<open>Properties\<close>


definition demo_keyboard :: keyboard where
  "demo_keyboard = \<lparr>cells = \<lambda>_. 0, vga_line = 3, vga_column = 5, kb_buffer = replicate 256 0, buffIdx = 255, readIdx = 255,
     capitalON = True, lineON = False\<rparr>"


text \<open>
  Backspace on an empty ring moves the write index below zero, to the largest \<open>uint32_t\<close>, and the
  next character would be written there, outside the buffer.
\<close>

lemma backspace_underflow:
  assumes "kb_ok s" "buffIdx s = 0" "getCurrChar s \<noteq> 0xa3e"
  shows "\<exists>s'. keyboardIRQ KEYBOARD_BACKSPACE_PRESSED s = Some s' \<and> buffIdx s' = - 1 \<and>
    keyboardIRQ KEYBOARD_SPACE_PRESSED s' = None"
proof -
  let ?s = "deleteChar s"
  have "kb_buffer ?s = kb_buffer s" "buffIdx ?s = - 1"
    using assms(2,3) by (simp_all add: deleteChar_def Let_def)
  moreover have "unat (- 1 :: u32) = 4294967295" by (simp add: unsigned_minus_1_eq_mask mask_eq_exp_minus_1)
  ultimately have "putInBuffer 0x20 ?s = None"
    using assms(1) by (simp add: putInBuffer_def KEYBOARD_BUFFER_MAX_SIZE_def kb_ok_def)
  then show ?thesis
    using \<open>buffIdx ?s = - 1\<close>
    by (simp add: keyboardIRQ_def KEYBOARD_SPACE_PRESSED_def KEYBOARD_BACKSPACE_PRESSED_def)
qed

lemma backspace_underflow_witness:
  "\<exists>s'. keyboardIRQ KEYBOARD_BACKSPACE_PRESSED (demo_keyboard\<lparr>buffIdx := 0\<rparr>) = Some s' \<and> buffIdx s' = - 1 \<and>
    keyboardIRQ KEYBOARD_SPACE_PRESSED s' = None"
  by (rule backspace_underflow) (simp_all add: demo_keyboard_def kb_ok_def getCurrChar_def)

end
