(* ===== verification/Ports.thy ===== *)
theory Ports
  imports Prelude
begin

text \<open>
  Port input and output, \<open>namespace PMIO\<close> of \<open>src/src/kernel/includes/io.hpp\<close>. The devices behind the
  ports are not part of the program: their state is a type parameter and the six instructions
  are, like the accesses to memory-mapped registers (\<open>namespace MMIO\<close>), a parameter of every driver
  model, so that a driver is a function of the devices it is run with. What a driver relies on is
  stated where it is used.
\<close>

record 'd ports =
  pInByte :: "u16 \<Rightarrow> 'd \<Rightarrow> u8 \<times> 'd"
  pInWord :: "u16 \<Rightarrow> 'd \<Rightarrow> u16 \<times> 'd"
  pInDWord :: "u16 \<Rightarrow> 'd \<Rightarrow> u32 \<times> 'd"
  pOutByte :: "u16 \<Rightarrow> u8 \<Rightarrow> 'd \<Rightarrow> 'd"
  pOutWord :: "u16 \<Rightarrow> u16 \<Rightarrow> 'd \<Rightarrow> 'd"
  pOutDWord :: "u16 \<Rightarrow> u32 \<Rightarrow> 'd \<Rightarrow> 'd"

text \<open>Memory-mapped registers, \<open>namespace MMIO\<close>: the accesses of the width the drivers use.\<close>

record 'd mmio =
  mInDWord :: "addr \<Rightarrow> 'd \<Rightarrow> u32 \<times> 'd"
  mOutDWord :: "addr \<Rightarrow> u32 \<Rightarrow> 'd \<Rightarrow> 'd"

text \<open>A sequence of byte outputs.\<close>

primrec outs :: "'d ports \<Rightarrow> (u16 \<times> u8) list \<Rightarrow> 'd \<Rightarrow> 'd" where
  "outs P [] d = d"
| "outs P (x # xs) d = outs P xs (pOutByte P (fst x) (snd x) d)"

lemma outs_append [simp]: "outs P (xs @ ys) d = outs P ys (outs P xs d)"
  by (induction xs arbitrary: d) simp_all

text \<open>Ports that only record what is written to them.\<close>

definition log_ports :: "(u16 \<times> u8) list ports" where
  "log_ports = \<lparr>pInByte = \<lambda>p d. (0, d), pInWord = \<lambda>p d. (0, d), pInDWord = \<lambda>p d. (0, d),
     pOutByte = \<lambda>p v d. d @ [(p, v)], pOutWord = \<lambda>p v d. d, pOutDWord = \<lambda>p v d. d\<rparr>"

lemma outs_log: "outs log_ports xs d = d @ xs"
  by (induction xs arbitrary: d) (simp_all add: log_ports_def)

end
