(* ===== verification/Ata.thy ===== *)
theory Ata
  imports Ports Kpkheap
begin

text \<open>
  The disk driver, \<open>src/src/kernel/drivers/ATA/ata.cpp\<close>: sectors are read by programmed input and
  copied from a buffer on the kernel heap. The drive is a parameter; the locale \<open>ata_drive\<close> states
  the documented answer of a drive to the command READ SECTORS.
\<close>

section \<open>Operations\<close>

definition SECTOR_SIZE :: u64 where "SECTOR_SIZE = 512"
definition ATA_DATA_REG :: u16 where "ATA_DATA_REG = 0x1f0"
definition ATA_SECTOR_COUNT_REG :: u16 where "ATA_SECTOR_COUNT_REG = 0x1f2"
definition ATA_SECTOR_NUMBER_REG :: u16 where "ATA_SECTOR_NUMBER_REG = 0x1f3"
definition ATA_CYLINDER_LOW_REG :: u16 where "ATA_CYLINDER_LOW_REG = 0x1f4"
definition ATA_CYLINDER_HIGH_REG :: u16 where "ATA_CYLINDER_HIGH_REG = 0x1f5"
definition ATA_DRIVE_REG :: u16 where "ATA_DRIVE_REG = 0x1f6"
definition ATA_STATUS_REG :: u16 where "ATA_STATUS_REG = 0x1f7"
definition ATA_COMMAND_REG :: u16 where "ATA_COMMAND_REG = 0x1f7"

text \<open>The registers set by \<open>readLBA\<close>; every value is cut to a byte.\<close>

definition read_command :: "u64 \<Rightarrow> u64 \<Rightarrow> (u16 \<times> u8) list" where
  "read_command lba lbaNo =
     [(ATA_DRIVE_REG, ucast (drop_bit 24 lba OR 0xe0)),
      (ATA_SECTOR_COUNT_REG, ucast lbaNo),
      (ATA_SECTOR_NUMBER_REG, ucast (lba AND 0xff)),
      (ATA_CYLINDER_LOW_REG, ucast (drop_bit 8 lba)),
      (ATA_CYLINDER_HIGH_REG, ucast (drop_bit 16 lba)),
      (ATA_COMMAND_REG, 0x20)]"

text \<open>The wait for the drive: \<open>None\<close> if it never gets ready.\<close>

partial_function (option) wait_ready :: "'d ports \<Rightarrow> 'd \<Rightarrow> 'd option" where
  "wait_ready P d =
     (let (b, d1) = pInByte P ATA_STATUS_REG d
      in if b AND 0x08 \<noteq> 0 then Some d1 else wait_ready P d1)"

declare wait_ready.simps [code]

primrec read_words :: "'d ports \<Rightarrow> addr \<Rightarrow> nat \<Rightarrow> 'd \<Rightarrow> mem \<Rightarrow> 'd \<times> mem" where
  "read_words P a 0 d m = (d, m)"
| "read_words P a (Suc n) d m =
     (let (w, d1) = pInWord P ATA_DATA_REG d in read_words P (a + 2) n d1 (write16 a w m))"

primrec read_sectors :: "'d ports \<Rightarrow> addr \<Rightarrow> nat \<Rightarrow> 'd \<Rightarrow> mem \<Rightarrow> ('d \<times> mem) option" where
  "read_sectors P a 0 d m = Some (d, m)"
| "read_sectors P a (Suc n) d m =
     do { d1 \<leftarrow> wait_ready P d; let (d2, m2) = read_words P a 256 d1 m; read_sectors P (a + 512) n d2 m2 }"

definition readLBA :: "'d ports \<Rightarrow> u64 \<Rightarrow> u64 \<Rightarrow> addr \<Rightarrow> 'd \<Rightarrow> mem \<Rightarrow> ('d \<times> mem) option" where
  "readLBA P lba lbaNo buffer d m = read_sectors P buffer (unat lbaNo) (outs P (read_command lba lbaNo) d) m"

text \<open>
  \<open>readDisk\<close> on the heap and the device. The failed check of \<open>CATCH_FIRE\<close> stops the machine and is
  \<open>None\<close> here.
\<close>

record 'd disk_state = heap +
  dev :: 'd

definition readDisk :: "'d ports \<Rightarrow> u64 \<Rightarrow> u64 \<Rightarrow> addr \<Rightarrow> ('d, 'z) disk_state_scheme \<Rightarrow> ('d, 'z) disk_state_scheme option" where
  "readDisk P nail sz buffer s =
     do { let lba = nail div SECTOR_SIZE;
          let lbaNo = sz div SECTOR_SIZE + 1;
          (buffer2, s1) \<leftarrow> kpkZalloc (lbaNo * SECTOR_SIZE) s;
          if buffer2 = 0 then None
          else do { (d, m) \<leftarrow> readLBA P lba lbaNo buffer2 (dev s1) (kmem s1);
                    let lbaOffset = (ucast (nail mod SECTOR_SIZE) :: u16);
                    let m1 = snd (memcpy buffer (buffer2 + ucast lbaOffset) sz m);
                    kpkFree buffer2 (s1\<lparr>kmem := m1, dev := d\<rparr>) } }"

section \<open>The drive\<close>

text \<open>The bytes of a word in memory.\<close>

definition word_bytes :: "u16 \<Rightarrow> byte list" where
  "word_bytes w = [ucast w, ucast (drop_bit 8 w)]"

lemma write16_puts: "write16 a w m = puts_at a (word_bytes w) m"
proof -
  have "(of_nat (unat w div 256) :: byte) = ucast (drop_bit 8 w)"
    by (simp add: word_unat_eq_iff drop_bit_eq_div unat_div_distrib unsigned_ucast_eq unsigned_of_nat)
  moreover have "(of_nat (unat w) :: byte) = ucast w"
    by (simp add: word_unat_eq_iff unsigned_ucast_eq unsigned_of_nat)
  ultimately show ?thesis by (simp add: write16_def word_bytes_def numeral_2_eq_2)
qed

lemma length_word_bytes [simp]: "length (concat (map word_bytes ws)) = 2 * length ws"
  by (induction ws) (simp_all add: word_bytes_def)

lemma drq_bit: "(b :: u8) AND 0x08 \<noteq> 0 \<longleftrightarrow> bit b 3"
  by (simp add: and_exp_eq_0_iff_not_bit [of b 3, simplified])

text \<open>
  A drive with the sectors \<open>img\<close>. \<open>xfer ws d\<close>: the drive is transferring and \<open>ws\<close> are the words still
  to come. A drive is given a 28-bit address and a count between 1 and 255, reports ready after
  finitely many polls and then hands out the words in order.
\<close>

locale ata_drive =
  fixes P :: "'d ports"
    and img :: "nat \<Rightarrow> u16 list"
    and xfer :: "u16 list \<Rightarrow> 'd \<Rightarrow> bool"
    and delay :: "'d \<Rightarrow> nat"
  assumes sector: "length (img l) = 256"
    and command: "l < 2 ^ 28 \<Longrightarrow> 0 < n \<Longrightarrow> n < 256 \<Longrightarrow>
      xfer (concat (map img [l..<l + n]))
        (outs P [(0x1f6, of_nat (l div 2 ^ 24) OR 0xe0), (0x1f2, of_nat n), (0x1f3, of_nat l),
                 (0x1f4, of_nat (l div 2 ^ 8)), (0x1f5, of_nat (l div 2 ^ 16)), (0x1f7, 0x20)] d)"
    and status: "xfer ws d \<Longrightarrow> ws \<noteq> [] \<Longrightarrow> pInByte P 0x1f7 d = (b, d') \<Longrightarrow>
      xfer ws d' \<and> (bit b 3 \<or> delay d' < delay d)"
    and data: "xfer (w # ws) d \<Longrightarrow> \<exists>d'. pInWord P 0x1f0 d = (w, d') \<and> xfer ws d'"
begin

lemma wait_ends: "xfer ws d \<Longrightarrow> ws \<noteq> [] \<Longrightarrow> \<exists>d'. wait_ready P d = Some d' \<and> xfer ws d'"
proof (induction "delay d" arbitrary: d rule: less_induct)
  case less
  obtain b d1 where p: "pInByte P 0x1f7 d = (b, d1)" by fastforce
  have s: "xfer ws d1" "bit b 3 \<or> delay d1 < delay d" using status [OF less.prems p] by auto
  show ?case
    using less.hyps [of d1] s p drq_bit [of b] less.prems(2)
    by (subst wait_ready.simps) (auto simp: ATA_STATUS_REG_def)
qed

lemma words_read:
  "xfer (ws @ rest) d \<Longrightarrow> \<exists>d'. read_words P a (length ws) d m = (d', puts_at a (concat (map word_bytes ws)) m) \<and> xfer rest d'"
proof (induction ws arbitrary: a d m)
  case (Cons w ws)
  obtain d1 where d1: "pInWord P 0x1f0 d = (w, d1)" "xfer (ws @ rest) d1" using data Cons.prems by fastforce
  obtain d' where "read_words P (a + 2) (length ws) d1 (write16 a w m) =
      (d', puts_at (a + 2) (concat (map word_bytes ws)) (write16 a w m))" "xfer rest d'"
    using Cons.IH [OF d1(2), of "a + 2" "write16 a w m"] by blast
  moreover have "puts_at (a + 2) (concat (map word_bytes ws)) (write16 a w m) = puts_at a (concat (map word_bytes (w # ws))) m"
    by (simp add: puts_at_append write16_puts) (simp add: word_bytes_def)
  ultimately show ?case using d1(1) by (simp add: ATA_DATA_REG_def)
qed simp

lemma sectors_read:
  "xfer (concat (map img [l..<l + n]) @ rest) d \<Longrightarrow>
   \<exists>d'. read_sectors P a n d m = Some (d', puts_at a (concat (map word_bytes (concat (map img [l..<l + n])))) m) \<and> xfer rest d'"
proof (induction n arbitrary: l a d m)
  case (Suc n)
  let ?ws = "concat (map img [Suc l..<Suc l + n])"
  have u: "concat (map img [l..<l + Suc n]) = img l @ ?ws" by (simp add: upt_conv_Cons del: upt_Suc)
  have "img l \<noteq> []" using sector [of l] by auto
  then have "\<exists>d'. wait_ready P d = Some d' \<and> xfer ((img l @ ?ws) @ rest) d'"
    by (intro wait_ends) (use Suc.prems in \<open>simp_all only: u append_is_Nil_conv simp_thms\<close>)
  then obtain d1 where d1: "wait_ready P d = Some d1" "xfer (img l @ ?ws @ rest) d1" by auto
  obtain d2 where d2: "read_words P a 256 d1 m = (d2, puts_at a (concat (map word_bytes (img l))) m)" "xfer (?ws @ rest) d2"
    using words_read [OF d1(2), of a m] sector [of l] by auto
  obtain d3 where "read_sectors P (a + 512) n d2 (puts_at a (concat (map word_bytes (img l))) m) =
      Some (d3, puts_at (a + 512) (concat (map word_bytes ?ws)) (puts_at a (concat (map word_bytes (img l))) m))" "xfer rest d3"
    using Suc.IH [OF d2(2)] by blast
  moreover have "puts_at a (concat (map word_bytes (concat (map img [l..<l + Suc n])))) m =
      puts_at (a + 512) (concat (map word_bytes ?ws)) (puts_at a (concat (map word_bytes (img l))) m)"
    unfolding u using sector [of l] by (simp add: puts_at_append)
  ultimately show ?case using d1(1) d2(1) by simp
qed simp

end

section \<open>Property\<close>

lemma ucast_of_nat_u64: "n < 2 ^ 64 \<Longrightarrow> (ucast (of_nat n :: u64) :: 'a::len word) = of_nat n"
  by (simp add: unsigned_of_nat take_bit_nat_eq_self)

lemma read_command_bytes:
  assumes "l < 2 ^ 28"
  shows "read_command (of_nat l) (of_nat n) =
    [(0x1f6, of_nat (l div 2 ^ 24) OR 0xe0), (0x1f2, ucast (of_nat n :: u64)), (0x1f3, of_nat l),
     (0x1f4, of_nat (l div 2 ^ 8)), (0x1f5, of_nat (l div 2 ^ 16)), (0x1f7, 0x20)]"
proof -
  have u: "take_bit 64 l = l" using assms by (simp add: take_bit_nat_eq_self)
  have d: "(ucast (drop_bit 8 (of_nat l :: u64)) :: u8) = of_nat (l div 2 ^ 8)"
    "(ucast (drop_bit 16 (of_nat l :: u64)) :: u8) = of_nat (l div 2 ^ 16)"
    "(ucast (drop_bit 24 (of_nat l :: u64)) :: u8) = of_nat (l div 2 ^ 24)"
    by (simp_all add: drop_bit_eq_div word_unat_eq_iff unsigned_ucast_eq unsigned_of_nat unat_div_distrib u)
  have "(ucast ((of_nat l :: u64) AND 0xff) :: u8) = of_nat l"
  proof -
    have "(ucast ((of_nat l :: u64) AND mask 8) :: u8) = ucast (of_nat l :: u64)"
      by (rule bit_word_eqI) (simp add: bit_simps)
    then show ?thesis using assms by (simp add: mask_eq_exp_minus_1 ucast_of_nat_u64)
  qed
  moreover have "(ucast (drop_bit 24 (of_nat l :: u64) OR 0xe0) :: u8) = of_nat (l div 2 ^ 24) OR 0xe0"
    using d(3) by (simp only: unsigned_or_eq) simp
  ultimately show ?thesis
    by (simp add: read_command_def d ATA_DRIVE_REG_def ATA_SECTOR_COUNT_REG_def ATA_SECTOR_NUMBER_REG_def
        ATA_CYLINDER_LOW_REG_def ATA_CYLINDER_HIGH_REG_def ATA_COMMAND_REG_def)
qed

text \<open>
  On a drive that answers READ SECTORS as documented, \<open>readLBA\<close> ends and stores the requested
  sectors, byte for byte, in the buffer and nowhere else, for addresses of 28 bits and 1 to 255
  sectors; both loops end, the wait for the drive included.
\<close>

lemma readLBA_reads:
  assumes "ata_drive P img xfer delay" "l < 2 ^ 28" "0 < n" "n < 256"
  shows "\<exists>d'. readLBA P (of_nat l) (of_nat n) buffer d m =
    Some (d', puts_at buffer (concat (map word_bytes (concat (map img [l..<l + n])))) m)"
proof -
  have "(ucast (of_nat n :: u64) :: u8) = of_nat n" using assms(4) by (simp add: ucast_of_nat_u64)
  then have "xfer (concat (map img [l..<l + n]) @ []) (outs P (read_command (of_nat l) (of_nat n)) d)"
    using ata_drive.command [OF assms] by (simp add: read_command_bytes [OF assms(2)])
  moreover have "unat (of_nat n :: u64) = n" using assms(4) by (simp add: unsigned_of_nat take_bit_nat_eq_self)
  ultimately show ?thesis
    using ata_drive.sectors_read [OF assms(1), of l n "[]"] unfolding readLBA_def by fastforce
qed


section \<open>A drive\<close>

text \<open>
  A drive that keeps its registers, is ready at every second poll and stops answering when the
  words of the command are gone.
\<close>

record sim_drive =
  sim_regs :: "u16 \<Rightarrow> u8"
  sim_left :: "u16 list"
  sim_busy :: bool

definition sim_lba :: "(u16 \<Rightarrow> u8) \<Rightarrow> nat" where
  "sim_lba r = unat (r 0x1f3) + 2 ^ 8 * unat (r 0x1f4) + 2 ^ 16 * unat (r 0x1f5) + 2 ^ 24 * unat (r 0x1f6 AND 0xf)"

definition sim_out :: "(nat \<Rightarrow> u16 list) \<Rightarrow> u16 \<Rightarrow> u8 \<Rightarrow> sim_drive \<Rightarrow> sim_drive" where
  "sim_out img p v d =
     (if p = 0x1f7 \<and> v = 0x20
      then d\<lparr>sim_left := concat (map img [sim_lba (sim_regs d)..<sim_lba (sim_regs d) + unat (sim_regs d 0x1f2)]), sim_busy := True\<rparr>
      else d\<lparr>sim_regs := (sim_regs d)(p := v)\<rparr>)"

definition sim_ports :: "(nat \<Rightarrow> u16 list) \<Rightarrow> sim_drive ports" where
  "sim_ports img = \<lparr>pInByte = \<lambda>p d. (if sim_busy d then 0 else 8, d\<lparr>sim_busy := False\<rparr>),
     pInWord = \<lambda>p d. (case sim_left d of [] \<Rightarrow> (0, d) | w # ws \<Rightarrow> (w, d\<lparr>sim_left := ws\<rparr>)),
     pInDWord = \<lambda>p d. (0, d), pOutByte = sim_out img, pOutWord = \<lambda>p v d. d, pOutDWord = \<lambda>p v d. d\<rparr>"

lemma lba_bytes:
  assumes "l < 2 ^ 28"
  shows "unat (of_nat l :: u8) + 2 ^ 8 * unat (of_nat (l div 2 ^ 8) :: u8) + 2 ^ 16 * unat (of_nat (l div 2 ^ 16) :: u8) +
    2 ^ 24 * unat ((of_nat (l div 2 ^ 24) OR 0xe0 :: u8) AND 0xf) = l"
proof -
  have h: "l div 2 ^ 24 < 16" using assms by (simp add: less_mult_imp_div_less)
  have "((of_nat (l div 2 ^ 24) OR 0xe0 :: u8) AND 0xf) = of_nat (l div 2 ^ 24)"
  proof -
    have "(of_nat (l div 2 ^ 24) :: u8) AND 0xf = take_bit 4 (of_nat (l div 2 ^ 24))"
      by (simp add: take_bit_eq_mask mask_eq_exp_minus_1)
    also have "\<dots> = of_nat (l div 2 ^ 24)" using h by (simp add: word_unat_eq_iff unsigned_take_bit_eq unsigned_of_nat take_bit_nat_eq_self)
    finally show ?thesis by (simp add: bit.conj_disj_distrib2)
  qed
  moreover have s: "l mod 256 + 256 * (l div 256) = l" "l div 256 mod 256 + 256 * (l div 65536) = l div 256"
    "l div 65536 mod 256 + 256 * (l div 16777216) = l div 65536"
    using mod_mult_div_eq [of "l div 256" 256] mod_mult_div_eq [of "l div 65536" 256]
    by (simp_all flip: div_mult2_eq)
  moreover have "l div 16777216 mod 256 = l div 16777216" using h by simp
  moreover have "l mod 256 + 256 * (l div 256 mod 256) + 65536 * (l div 65536 mod 256) + 16777216 * (l div 16777216) = l"
    using s by linarith
  ultimately show ?thesis
    by (simp add: unsigned_of_nat take_bit_eq_mod)
qed

lemma sim_ata_drive:
  assumes "\<And>l. length (img l) = 256"
  shows "ata_drive (sim_ports img) img (\<lambda>ws d. sim_left d = ws) (\<lambda>d. if sim_busy d then 1 else 0)"
proof
  fix l n :: nat and d :: sim_drive assume "l < 2 ^ 28" "0 < n" "n < 256"
  then show "sim_left (outs (sim_ports img) [(0x1f6, of_nat (l div 2 ^ 24) OR 0xe0), (0x1f2, of_nat n), (0x1f3, of_nat l),
      (0x1f4, of_nat (l div 2 ^ 8)), (0x1f5, of_nat (l div 2 ^ 16)), (0x1f7, 0x20)] d) = concat (map img [l..<l + n])"
    using lba_bytes [of l]
    by (simp add: sim_ports_def sim_out_def sim_lba_def unsigned_of_nat [of n] take_bit_nat_eq_self)
qed (use assms in \<open>auto simp: sim_ports_def split: if_splits\<close>)

text \<open>Sectors that hold their number and the numbers behind it.\<close>

definition sim_image :: "nat \<Rightarrow> u16 list" where
  "sim_image l = map (\<lambda>i. of_nat (l + i)) [0..<256]"

interpretation sim: ata_drive "sim_ports sim_image" sim_image "\<lambda>ws d. sim_left d = ws" "\<lambda>d. if sim_busy d then 1 else 0"
  by (rule sim_ata_drive) (simp add: sim_image_def)

end
