(* ===== verification/Filesystem.thy ===== *)
theory Filesystem
  imports Ata Kstring
begin

text \<open>
  The file system: path parsing (\<open>src/src/kernel/filesystem/pathParser.cpp\<close>), the FAT16 driver
  (\<open>FAT16/fat16.cpp\<close>) and the virtual file system on top of it (\<open>VFS/vfs.cpp\<close>), on the disk
  driver of \<open>Ata\<close>. Structures that are read from disk are decoded from byte memory, at their
  packed offsets; descriptors and file information are objects in a store of their type. String
  literals, local variables and static buffers that the code passes by address are
  parameters. \<open>None\<close> is a null dereference, an access outside an array, a stop by
  \<open>CATCH_FIRE\<close> or a loop without end.
\<close>

section \<open>On-disk structures\<close>

record Header =
  bytesPerSector :: u16
  sectorsPerCluster :: u8
  reservedSectorsCount :: u16
  tableCount :: u8
  rootEntryCount :: u16
  totalSectors16 :: u16
  mediaType :: u8
  tableSize :: u16
  sectorsPerTrack :: u16
  headSideCount :: u16
  hiddenSectorsCount :: u32
  totalSectors32 :: u32
  BIOSDriveNum :: u8
  bootSignature :: u8
  volumeID :: u32
  volumeLabel :: "byte list"
  fatTypeLabel :: "byte list"

definition sizeof_Header :: u64 where "sizeof_Header = 62"

definition bytes_at :: "mem \<Rightarrow> addr \<Rightarrow> nat \<Rightarrow> byte list" where
  "bytes_at m a n = map (\<lambda>i. m (a + of_nat i)) [0..<n]"

definition get_Header :: "mem \<Rightarrow> addr \<Rightarrow> Header" where
  "get_Header m a = \<lparr>bytesPerSector = read16 m (a + 11), sectorsPerCluster = m (a + 13), reservedSectorsCount = read16 m (a + 14),
     tableCount = m (a + 16), rootEntryCount = read16 m (a + 17), totalSectors16 = read16 m (a + 19), mediaType = m (a + 21),
     tableSize = read16 m (a + 22), sectorsPerTrack = read16 m (a + 24), headSideCount = read16 m (a + 26),
     hiddenSectorsCount = read32 m (a + 28), totalSectors32 = read32 m (a + 32), BIOSDriveNum = m (a + 36),
     bootSignature = m (a + 38), volumeID = read32 m (a + 39), volumeLabel = bytes_at m (a + 43) 11, fatTypeLabel = bytes_at m (a + 54) 8\<rparr>"

record ItemHeader16 =
  item_name :: "byte list"
  item_extension :: "byte list"
  attribute :: u8
  creation10s :: u8
  creationTime :: u16
  creationDate :: u16
  lastAccess :: u16
  clusterHigh :: u16
  lastAccessTime :: u16
  lastAccessDate :: u16
  clusterLow :: u16
  item_size :: u32

definition sizeof_Item :: u64 where "sizeof_Item = 32"

definition get_Item :: "mem \<Rightarrow> addr \<Rightarrow> ItemHeader16" where
  "get_Item m a = \<lparr>item_name = bytes_at m a 8, item_extension = bytes_at m (a + 8) 3, attribute = m (a + 11),
     creation10s = m (a + 13), creationTime = read16 m (a + 14), creationDate = read16 m (a + 16), lastAccess = read16 m (a + 18),
     clusterHigh = read16 m (a + 20), lastAccessTime = read16 m (a + 22), lastAccessDate = read16 m (a + 24),
     clusterLow = read16 m (a + 26), item_size = read32 m (a + 28)\<rparr>"

record FileStat =
  st_name :: "byte list"
  st_extension :: "byte list"
  st_type :: u8
  st_creation10s :: u8
  st_creationTime :: u16
  st_creationDate :: u16
  st_lastAccess :: u16
  st_size :: u32

record FileDescriptor =
  fd_idx :: u16
  fd_nail :: u64
  fd_nailStart :: u64
  fd_fs :: addr
  fd_hdr16 :: addr
  fd_eof :: bool

definition zero_fd :: FileDescriptor where
  "zero_fd = \<lparr>fd_idx = 0, fd_nail = 0, fd_nailStart = 0, fd_fs = 0, fd_hdr16 = 0, fd_eof = False\<rparr>"

definition MAX_FILE_DESCRIPTORS_NUMBER :: nat where "MAX_FILE_DESCRIPTORS_NUMBER = 0x100"
definition FILESYSTEM_DIR_MAX_SIZE :: u64 where "FILESYSTEM_DIR_MAX_SIZE = 8"
definition FILESYSTEM_PATH_MAX_SIZE :: u64 where "FILESYSTEM_PATH_MAX_SIZE = 100"
definition FAT16_FILE_SUBDIRECTORY :: u8 where "FAT16_FILE_SUBDIRECTORY = 0x10"
definition FAT16_BAD :: u16 where [simp]: "FAT16_BAD = 0xff7"
definition FAT16_ITEM_DIRECTORY :: u8 where [simp]: "FAT16_ITEM_DIRECTORY = 0"
definition FAT16_ITEM_FILE :: u8 where [simp]: "FAT16_ITEM_FILE = 1"
definition SEEK_SET :: int where "SEEK_SET = 0"
definition SEEK_CUR :: int where "SEEK_CUR = 1"
definition SEEK_END :: int where "SEEK_END = 2"

text \<open>
  The state: the descriptor table, the FAT16 object and the static pointer of \<open>strtok\<close>. The
  addresses of buffers are the record \<open>fs_addrs\<close>.
\<close>

record 'd fs_state = "'d disk_state" +
  fileDescriptors :: "addr list"
  fds :: "addr \<Rightarrow> FileDescriptor"
  stats :: "addr \<Rightarrow> FileStat"
  fat_hdr :: Header
  root_start :: u64
  root_end :: u64
  root_items :: u64
  root_name :: "byte list"
  strtok_end :: addr

record fs_addrs =
  at_slash :: addr
  at_hdr :: addr
  at_local :: addr
  at_name :: addr
  at_fat16 :: addr

section \<open>Paths\<close>

text \<open>\<open>parsedPath\<close>: 8 bytes \<open>currDir\<close>, then the two links.\<close>

definition sizeof_parsedPath :: u64 where "sizeof_parsedPath = 24"
definition nextDir :: "mem \<Rightarrow> addr \<Rightarrow> addr" where "nextDir m p = read64 m (p + 8)"

definition strtok_st :: "addr \<Rightarrow> addr \<Rightarrow> ('d, 'z) fs_state_scheme \<Rightarrow> (addr \<times> ('d, 'z) fs_state_scheme) option" where
  "strtok_st str delim s =
     do { (r, e, m) \<leftarrow> strtok str delim (strtok_end s, kmem s); Some (r, s\<lparr>strtok_end := e, kmem := m\<rparr>) }"

partial_function (option) parsePath_loop ::
    "fs_addrs \<Rightarrow> addr \<Rightarrow> addr \<Rightarrow> ('d, 'z) fs_state_scheme \<Rightarrow> ('d, 'z) fs_state_scheme option" where
  "parsePath_loop A pathScout ptr s =
     do { let s1 = s\<lparr>kmem := snd (strncpy pathScout ptr FILESYSTEM_DIR_MAX_SIZE (kmem s))\<rparr>;
          (ptr1, s2) \<leftarrow> strtok_st 0 (at_slash A) s1;
          if ptr1 \<noteq> 0
          then do { (n, s3) \<leftarrow> kpkZalloc sizeof_parsedPath s2;
                    let s4 = s3\<lparr>kmem := write64 (n + 16) pathScout (write64 (pathScout + 8) n (kmem s3))\<rparr>;
                    parsePath_loop A n ptr1 s4 }
          else Some s2 }"

definition parsePath :: "fs_addrs \<Rightarrow> addr \<Rightarrow> ('d, 'z) fs_state_scheme \<Rightarrow> (addr \<times> ('d, 'z) fs_state_scheme) option" where
  "parsePath A path s =
     do { (newPath, s1) \<leftarrow> kpkZalloc sizeof_parsedPath s;
          (ptr, s2) \<leftarrow> strtok_st path (at_slash A) s1;
          s3 \<leftarrow> parsePath_loop A newPath ptr s2;
          Some (newPath, s3) }"

text \<open>The current and the previous directory, 100 bytes each, at the addresses given.\<close>

definition Path_init :: "addr \<Rightarrow> addr \<Rightarrow> mem \<Rightarrow> mem" where
  "Path_init cwd oldcwd m = m(oldcwd := 0x2f, cwd := 0x2f)"

definition getCwd :: "addr \<Rightarrow> addr \<Rightarrow> mem \<Rightarrow> u64 \<times> mem" where
  "getCwd cwd buffer m = strncpy buffer cwd FILESYSTEM_PATH_MAX_SIZE m"

definition getOldcwd :: "addr \<Rightarrow> addr \<Rightarrow> mem \<Rightarrow> u64 \<times> mem" where
  "getOldcwd oldcwd buffer m = strncpy buffer oldcwd FILESYSTEM_PATH_MAX_SIZE m"

definition setCwd :: "addr \<Rightarrow> addr \<Rightarrow> addr \<Rightarrow> mem \<Rightarrow> u64 \<times> mem" where
  "setCwd cwd oldcwd new_cwd m =
     (let m1 = snd (strncpy oldcwd cwd FILESYSTEM_PATH_MAX_SIZE m) in strncpy cwd new_cwd FILESYSTEM_PATH_MAX_SIZE m1)"

section \<open>FAT16\<close>

text \<open>\<open>makeName\<close> builds the name of an item in a static buffer of 15 bytes.\<close>

function name_loop :: "addr \<Rightarrow> addr \<Rightarrow> nat \<Rightarrow> nat \<Rightarrow> nat \<Rightarrow> mem \<Rightarrow> nat \<times> mem" where
  "name_loop src dst lim i j m =
     (let c = m (src + of_nat j)
      in if c \<noteq> 0 \<and> c \<noteq> 0x20 \<and> j < lim then name_loop src dst lim (Suc i) (Suc j) (m(dst + of_nat i := c)) else (i, m))"
  by pat_completeness auto
termination
  by (relation "measure (\<lambda>(src, dst, lim, i, j, m). lim - j)") auto

declare name_loop.simps [simp del]

definition makeName :: "addr \<Rightarrow> addr \<Rightarrow> mem \<Rightarrow> mem" where
  "makeName name item m0 =
     (let m = snd (memset name 0 15 m0);
          (i, m1) = name_loop item name 8 0 0 m;
          e = m1 (item + 8)
      in if e \<noteq> 0 \<and> e \<noteq> 0x20
         then snd (name_loop (item + 8) name 3 (Suc i) 0 (m1(name + of_nat i := 0x2e)))
         else m1)"

definition findFATOffset :: "('d, 'z) fs_state_scheme \<Rightarrow> u64 \<Rightarrow> u64" where
  "findFATOffset s cluster =
     root_end s + (cluster - 2) * ucast (sectorsPerCluster (fat_hdr s)) * ucast (bytesPerSector (fat_hdr s))"

definition getFATEntry :: "'d ports \<Rightarrow> fs_addrs \<Rightarrow> u64 \<Rightarrow> ('d, 'z) fs_state_scheme \<Rightarrow> (u16 \<times> ('d, 'z) fs_state_scheme) option" where
  "getFATEntry P A cluster s =
     do { let FATEntries = ucast (reservedSectorsCount (fat_hdr s)) * SECTOR_SIZE;
          s1 \<leftarrow> readDisk P (FATEntries + cluster * 2) 2 (at_local A) s;
          Some (read16 (kmem s1) (at_local A), s1) }"

partial_function (option) findItem_loop ::
    "'d ports \<Rightarrow> fs_addrs \<Rightarrow> u64 \<Rightarrow> u16 \<Rightarrow> ('d, 'z) fs_state_scheme \<Rightarrow> (u64 \<times> ('d, 'z) fs_state_scheme) option" where
  "findItem_loop P A cluster entry s =
     (if entry \<noteq> 0xffff
      then if entry = 0xff8 \<or> entry = 0xfff then Some (0, kpwarn ''Last FIle Entry reached!'' s)
           else if entry = FAT16_BAD then Some (0, kpwarn ''Corrupted File found!'' s)
           else if entry = 0xff0 \<or> entry = 0xff6 then Some (0, kpwarn ''Cannot read Reserved Sector!'' s)
           else if entry = 0 then Some (0, kpwarn ''File unallocated!'' s)
           else do { (e, s1) \<leftarrow> getFATEntry P A (ucast entry) s; findItem_loop P A (ucast entry) e s1 }
      else Some (findFATOffset s cluster, s))"

definition findItem :: "'d ports \<Rightarrow> fs_addrs \<Rightarrow> u64 \<Rightarrow> ('d, 'z) fs_state_scheme \<Rightarrow> (u64 \<times> ('d, 'z) fs_state_scheme) option" where
  "findItem P A cluster s = do { (e, s1) \<leftarrow> getFATEntry P A cluster s; findItem_loop P A cluster e s1 }"

text \<open>The count of root items, lines 109 to 122: deleted items are skipped.\<close>

partial_function (option) root_loop ::
    "'d ports \<Rightarrow> fs_addrs \<Rightarrow> u64 \<Rightarrow> ('d, 'z) fs_state_scheme \<Rightarrow> ('d, 'z) fs_state_scheme option" where
  "root_loop P A nail s =
     do { s1 \<leftarrow> readDisk P nail sizeof_Item (at_local A) s;
          let c = kmem s1 (at_local A);
          let s2 = (if c \<noteq> 0xe5 \<and> c \<noteq> 0 then s1\<lparr>root_items := root_items s1 + 1\<rparr> else s1);
          if c \<noteq> 0 then root_loop P A (nail + sizeof_Item) s2 else Some s2 }"

text \<open>The constructor. The position of the root directory is computed in \<open>int\<close>, and extended to \<open>size_t\<close> with its sign.\<close>

definition FAT16 :: "'d ports \<Rightarrow> fs_addrs \<Rightarrow> ('d, 'z) fs_state_scheme \<Rightarrow> ('d, 'z) fs_state_scheme option" where
  "FAT16 P A s =
     do { s1 \<leftarrow> readDisk P 0 sizeof_Header (at_hdr A) s;
          let h = get_Header (kmem s1) (at_hdr A);
          let s2 = s1\<lparr>fat_hdr := h\<rparr>;
          if take 5 (fatTypeLabel h) \<noteq> map of_char ''FAT16'' then None
          else if bootSignature h \<noteq> 0x29 then None
          else do { let nail = scast ((ucast (tableCount h) * ucast (tableSize h) + ucast (reservedSectorsCount h)) * 512 :: u32);
                    s3 \<leftarrow> root_loop P A nail (s2\<lparr>root_start := nail, root_items := 0\<rparr>);
                    Some (s3\<lparr>root_end := root_start s3 + ucast (rootEntryCount h) * 32,
                             root_name := (root_name s3)[0 := 0x2f]\<rparr>) } }"

partial_function (option) findInDir ::
    "'d ports \<Rightarrow> fs_addrs \<Rightarrow> u64 \<Rightarrow> addr \<Rightarrow> addr \<Rightarrow> ('d, 'z) fs_state_scheme \<Rightarrow> ('d, 'z) fs_state_scheme option" where
  "findInDir P A nail name item s =
     do { s1 \<leftarrow> readDisk P nail sizeof_Item item s;
          let s2 = s1\<lparr>kmem := makeName (at_name A) item (kmem s1)\<rparr>;
          let c = kmem s2 item;
          if c = 0xe5 \<or> kmem s2 (item + 11) = 15 \<or> c = 0
          then (if c \<noteq> 0 then findInDir P A (nail + sizeof_Item) name item s2 else Some s2)
          else do { r \<leftarrow> istrcmp (kmem s2) name (at_name A);
                    if r = 0 then Some s2 else findInDir P A (nail + sizeof_Item) name item s2 } }"

text \<open>\<open>(clusterHigh << 16) + clusterLow\<close> is an \<open>int\<close>, extended to \<open>size_t\<close> with its sign.\<close>

definition item_cluster :: "mem \<Rightarrow> addr \<Rightarrow> u64" where
  "item_cluster m item = scast (push_bit 16 (ucast (clusterHigh (get_Item m item))) + ucast (clusterLow (get_Item m item)) :: u32)"

text \<open>The loop of \<open>fopenCallback\<close>: the result is the position of the file, or nothing for the value -1.\<close>

partial_function (option) fopen_loop ::
    "'d ports \<Rightarrow> fs_addrs \<Rightarrow> addr \<Rightarrow> addr \<Rightarrow> u64 \<Rightarrow> ('d, 'z) fs_state_scheme \<Rightarrow> (u64 option \<times> ('d, 'z) fs_state_scheme) option" where
  "fopen_loop P A item path nail s =
     (if path \<noteq> 0
      then do { s1 \<leftarrow> findInDir P A nail path item s;
                if kmem s1 item = 0 then Some (None, kpwarn ''File or Directory not found!'' s1)
                else do { let path1 = nextDir (kmem s1) path;
                          if path1 = 0 then Some (Some (findFATOffset s1 (item_cluster (kmem s1) item)), s1)
                          else do { (nail1, s2) \<leftarrow> findItem P A (item_cluster (kmem s1) item) s1;
                                    if nail1 = 0 then do { s3 \<leftarrow> kpkFree item s2; Some (None, s3) }
                                    else fopen_loop P A item path1 nail1 s2 } } }
      else Some (Some nail, s))"

definition fopenCallback ::
    "'d ports \<Rightarrow> fs_addrs \<Rightarrow> addr \<Rightarrow> addr \<Rightarrow> ('d, 'z) fs_state_scheme \<Rightarrow> (int \<times> ('d, 'z) fs_state_scheme) option" where
  "fopenCallback P A fd filename s =
     do { (p, s1) \<leftarrow> parsePath A filename s;
          (item, s2) \<leftarrow> kpkZalloc sizeof_Item s1;
          if item = 0 then None
          else do { (r, s3) \<leftarrow> fopen_loop P A item (nextDir (kmem s1) p) (root_start s2) s2;
                    case r of None \<Rightarrow> Some (- 1, s3)
                    | Some nail \<Rightarrow> Some (0, s3\<lparr>fds := (fds s3)(fd := (fds s3 fd)\<lparr>fd_nail := nail, fd_nailStart := nail,
                        fd_fs := at_fat16 A, fd_hdr16 := item\<rparr>)\<rparr>) } }"

partial_function (option) fread_loop ::
    "'d ports \<Rightarrow> fs_addrs \<Rightarrow> addr \<Rightarrow> u64 \<Rightarrow> u64 \<Rightarrow> u64 \<Rightarrow> ('d, 'z) fs_state_scheme \<Rightarrow> ('d, 'z) fs_state_scheme option" where
  "fread_loop P A buffer entry nail i s =
     (if entry \<noteq> 0xffff
      then do { s1 \<leftarrow> readDisk P nail (0x80 * 512) (buffer + i) s;
                (e, s2) \<leftarrow> getFATEntry P A entry s1;
                fread_loop P A buffer (ucast e) (findFATOffset s2 (ucast e)) (i + 0x80 * 512) s2 }
      else Some s)"

definition freadCallback ::
    "'d ports \<Rightarrow> fs_addrs \<Rightarrow> addr \<Rightarrow> addr \<Rightarrow> u64 \<Rightarrow> ('d, 'z) fs_state_scheme \<Rightarrow> (int \<times> ('d, 'z) fs_state_scheme) option" where
  "freadCallback P A fd buffer bytesCount s =
     do { s1 \<leftarrow> fread_loop P A buffer (item_cluster (kmem s) (fd_hdr16 (fds s fd))) (fd_nailStart (fds s fd)) 0 s;
          Some (sint (ucast bytesCount :: u32), s1) }"

definition fseekCallback :: "addr \<Rightarrow> int \<Rightarrow> int \<Rightarrow> ('d, 'z) fs_state_scheme \<Rightarrow> int \<times> ('d, 'z) fs_state_scheme" where
  "fseekCallback fd offset whence s =
     (let f = fds s fd;
          nailEnd = fd_nailStart f + ucast (item_size (get_Item (kmem s) (fd_hdr16 f)));
          f1 = (if whence = SEEK_SET then f\<lparr>fd_nail := fd_nailStart f\<rparr>
                else if whence = SEEK_CUR then f
                else if whence = SEEK_END then f\<lparr>fd_nail := nailEnd\<rparr> else f);
          s1 = s\<lparr>fds := (fds s)(fd := f1)\<rparr>
      in if fd_nail f1 + of_int offset > nailEnd \<or> fd_nail f1 + of_int offset < fd_nailStart f1 then (- 1, s1)
         else let f2 = f1\<lparr>fd_nail := fd_nail f1 + of_int offset\<rparr>;
                  f3 = (if fd_nail f2 = nailEnd then f2\<lparr>fd_eof := True\<rparr> else f2)
              in (0, s\<lparr>fds := (fds s)(fd := f3)\<rparr>))"

definition fcloseCallback :: "addr \<Rightarrow> ('d, 'z) fs_state_scheme \<Rightarrow> (int \<times> ('d, 'z) fs_state_scheme) option" where
  "fcloseCallback fd s = do { s1 \<leftarrow> kpkFree (fd_hdr16 (fds s fd)) s; Some (0, s1) }"

definition fstatCallback :: "addr \<Rightarrow> ('d, 'z) fs_state_scheme \<Rightarrow> (addr \<times> ('d, 'z) fs_state_scheme) option" where
  "fstatCallback fd s =
     do { (fst_p, s1) \<leftarrow> kpkZalloc 25 s;
          let it = get_Item (kmem s1) (fd_hdr16 (fds s1 fd));
          Some (fst_p, s1\<lparr>stats := (stats s1)(fst_p := \<lparr>st_name = item_name it @ [0], st_extension = item_extension it @ [0],
            st_type = (if attribute it AND FAT16_FILE_SUBDIRECTORY \<noteq> 0 then FAT16_ITEM_DIRECTORY else FAT16_ITEM_FILE), st_creation10s = creation10s it,
            st_creationTime = creationTime it, st_creationDate = creationDate it, st_lastAccess = lastAccess it,
            st_size = item_size it\<rparr>)\<rparr>) }"

section \<open>Virtual file system\<close>

text \<open>The search for a free slot, lines 47 to 56.\<close>

function free_slot :: "addr list \<Rightarrow> nat \<Rightarrow> nat option" where
  "free_slot fs i = (if i < MAX_FILE_DESCRIPTORS_NUMBER
     then (if fs ! i = 0 then Some i else free_slot fs (Suc i)) else None)"
  by pat_completeness auto
termination
  by (relation "measure (\<lambda>(fs, i). MAX_FILE_DESCRIPTORS_NUMBER - i)") auto

declare free_slot.simps [simp del]

definition take_slot :: "addr \<Rightarrow> ('d, 'z) fs_state_scheme \<Rightarrow> ('d, 'z) fs_state_scheme" where
  "take_slot fd s =
     (case free_slot (fileDescriptors s) 0 of
        None \<Rightarrow> s\<lparr>fds := (fds s)(fd := zero_fd\<lparr>fd_idx := - 1\<rparr>)\<rparr>
      | Some i \<Rightarrow> s\<lparr>fileDescriptors := (fileDescriptors s)[i := fd], fds := (fds s)(fd := zero_fd\<lparr>fd_idx := of_nat i\<rparr>)\<rparr>)"

definition fopen :: "'d ports \<Rightarrow> fs_addrs \<Rightarrow> addr \<Rightarrow> ('d, 'z) fs_state_scheme \<Rightarrow> (int \<times> ('d, 'z) fs_state_scheme) option" where
  "fopen P A filename s =
     do { (fd, s1) \<leftarrow> kpkZalloc 35 s;
          if fd = 0 then None
          else do {
            len \<leftarrow> strlen (kmem s1) filename;
            (fname, s2) \<leftarrow> kpkZalloc (len + 1) s1;
            let s3 = take_slot fd (s2\<lparr>kmem := snd (memcpy fname filename (len + 1) (kmem s2))\<rparr>);
            if fd_idx (fds s3 fd) = - 1 then do { s4 \<leftarrow> kpkFree fd s3; Some (- 1, s4) }
            else do {
              let s4 = s3\<lparr>fds := (fds s3)(fd := (fds s3 fd)\<lparr>fd_fs := at_fat16 A\<rparr>)\<rparr>;
              (r, s5) \<leftarrow> fopenCallback P A fd fname s4;
              if r \<noteq> 0 then do { s6 \<leftarrow> kpkFree fd s5; s7 \<leftarrow> kpkFree fname s6; Some (- 1, s7) }
              else do { s6 \<leftarrow> kpkFree fname s5; Some (sint (fd_idx (fds s6 fd)), s6) } } } }"

text \<open>
  The check of the descriptor that the other calls share. It joins the two conditions with
  \<open>&&\<close>, so a descriptor past the table is looked up in it, and a free slot is used.
\<close>

definition vfs_check :: "int \<Rightarrow> ('d, 'z) fs_state_scheme \<Rightarrow> addr option" where
  "vfs_check fd s =
     (if fd \<ge> int MAX_FILE_DESCRIPTORS_NUMBER \<or> fd < 0 \<or> nat fd \<ge> length (fileDescriptors s) then None
      else Some (fileDescriptors s ! nat fd))"

definition fread :: "'d ports \<Rightarrow> fs_addrs \<Rightarrow> int \<Rightarrow> addr \<Rightarrow> u64 \<Rightarrow> ('d, 'z) fs_state_scheme \<Rightarrow> (int \<times> ('d, 'z) fs_state_scheme) option" where
  "fread P A fd buffer bytesCount s =
     do { p \<leftarrow> vfs_check fd s;
          if buffer = 0 then Some (- 1, s)
          else if p = 0 then None else freadCallback P A p buffer bytesCount s }"

definition fseek :: "int \<Rightarrow> int \<Rightarrow> int \<Rightarrow> ('d, 'z) fs_state_scheme \<Rightarrow> (int \<times> ('d, 'z) fs_state_scheme) option" where
  "fseek fd offset whence s =
     do { p \<leftarrow> vfs_check fd s; if p = 0 then None else Some (fseekCallback p offset whence s) }"

definition fclose :: "int \<Rightarrow> ('d, 'z) fs_state_scheme \<Rightarrow> (int \<times> ('d, 'z) fs_state_scheme) option" where
  "fclose fd s =
     do { p \<leftarrow> vfs_check fd s;
          if p = 0 then None
          else do { (ret, s1) \<leftarrow> fcloseCallback p s; s2 \<leftarrow> kpkFree p s1; Some (ret, s2) } }"

definition fstat :: "int \<Rightarrow> ('d, 'z) fs_state_scheme \<Rightarrow> (addr \<times> ('d, 'z) fs_state_scheme) option" where
  "fstat fd s = do { p \<leftarrow> vfs_check fd s; if p = 0 then None else fstatCallback p s }"

text \<open>The C interface of \<open>kstdlib.cpp\<close>.\<close>

definition kfopen :: "'d ports \<Rightarrow> fs_addrs \<Rightarrow> addr \<Rightarrow> ('d, 'z) fs_state_scheme \<Rightarrow> (int \<times> ('d, 'z) fs_state_scheme) option" where
  [simp]: "kfopen P A filename = fopen P A filename"

definition kfread :: "'d ports \<Rightarrow> fs_addrs \<Rightarrow> int \<Rightarrow> addr \<Rightarrow> u64 \<Rightarrow> ('d, 'z) fs_state_scheme \<Rightarrow> (int \<times> ('d, 'z) fs_state_scheme) option" where
  [simp]: "kfread P A fd buffer bytesCount = fread P A fd buffer bytesCount"

definition kfseek :: "int \<Rightarrow> int \<Rightarrow> int \<Rightarrow> ('d, 'z) fs_state_scheme \<Rightarrow> (int \<times> ('d, 'z) fs_state_scheme) option" where
  [simp]: "kfseek fd offset whence = fseek fd offset whence"

definition kfclose :: "int \<Rightarrow> ('d, 'z) fs_state_scheme \<Rightarrow> (int \<times> ('d, 'z) fs_state_scheme) option" where
  [simp]: "kfclose fd = fclose fd"

definition kfstat :: "int \<Rightarrow> ('d, 'z) fs_state_scheme \<Rightarrow> (addr \<times> ('d, 'z) fs_state_scheme) option" where
  [simp]: "kfstat fd = fstat fd"

text \<open>The callbacks of the base class \<open>FS_TEMPLATE\<close>, which the FAT16 driver overrides: a message and 0.\<close>

definition STUB :: "'a kernel_mem_scheme \<Rightarrow> int \<times> 'a kernel_mem_scheme" where
  "STUB s = (0, kpwarn ''This is stubbed, use the non-virtual instead'' s)"

definition FS_TEMPLATE_fopenCallback :: "addr \<Rightarrow> addr \<Rightarrow> 'a kernel_mem_scheme \<Rightarrow> int \<times> 'a kernel_mem_scheme" where
  "FS_TEMPLATE_fopenCallback fd filename s = STUB s"

definition FS_TEMPLATE_freadCallback :: "addr \<Rightarrow> addr \<Rightarrow> u64 \<Rightarrow> 'a kernel_mem_scheme \<Rightarrow> int \<times> 'a kernel_mem_scheme" where
  "FS_TEMPLATE_freadCallback fd buffer bytesCount s = STUB s"

definition FS_TEMPLATE_fseekCallback :: "addr \<Rightarrow> int \<Rightarrow> int \<Rightarrow> 'a kernel_mem_scheme \<Rightarrow> int \<times> 'a kernel_mem_scheme" where
  "FS_TEMPLATE_fseekCallback fd offset whence s = STUB s"

definition FS_TEMPLATE_fcloseCallback :: "addr \<Rightarrow> 'a kernel_mem_scheme \<Rightarrow> int \<times> 'a kernel_mem_scheme" where
  "FS_TEMPLATE_fcloseCallback fd s = STUB s"

definition FS_TEMPLATE_fstatCallback :: "addr \<Rightarrow> 'a kernel_mem_scheme \<Rightarrow> addr \<times> 'a kernel_mem_scheme" where
  "FS_TEMPLATE_fstatCallback fd s = apfst of_int (STUB s)"

section \<open>Seeking\<close>

text \<open>The position a seek is relative to, and the specification of a seek on numbers.\<close>

definition seek_base :: "int \<Rightarrow> nat \<Rightarrow> nat \<Rightarrow> nat \<Rightarrow> nat" where
  "seek_base whence start pos stop = (if whence = SEEK_SET then start else if whence = SEEK_END then stop else pos)"

lemma word_add_int:
  assumes "b < 2 ^ 63" "- (2 ^ 31) \<le> off" "off < 2 ^ 31"
  shows "uint (of_nat b + of_int off :: u64) = (if int b + off < 0 then int b + off + 2 ^ 64 else int b + off)"
proof -
  have b: "0 \<le> int b" "int b < 9223372036854775808" using assms(1) by simp_all
  have o: "- 2147483648 \<le> off" "off < 2147483648" using assms(2,3) by simp_all
  have "(of_nat b + of_int off :: u64) = of_int (int b + off)" by simp
  then have "uint (of_nat b + of_int off :: u64) = (int b + off) mod 2 ^ 64" by (simp only: uint_word_of_int) simp
  moreover have "(int b + off) mod 18446744073709551616 = int b + off + 18446744073709551616" if "int b + off < 0"
  proof -
    have "(int b + off + 18446744073709551616) mod 18446744073709551616 = int b + off + 18446744073709551616"
      using that b o by (intro mod_pos_pos_trivial) auto
    then show ?thesis by simp
  qed
  moreover have "(int b + off) mod 18446744073709551616 = int b + off" if "\<not> int b + off < 0"
    using that b o by (intro mod_pos_pos_trivial) auto
  ultimately show ?thesis by simp
qed

text \<open>
  C34. A seek goes to the start, the current position or the end of the file plus the offset. It
  succeeds exactly if the target lies within the file, sets the end-of-file mark at the end, and
  then keeps the position between start and end; otherwise it returns -1 and the position is the
  one it was relative to. Unsigned wrap-around of negative targets is covered.
\<close>

theorem fseek_positions:
  assumes "f = fds s fd" "start = unat (fd_nailStart f)" "pos = unat (fd_nail f)"
    and "stop = start + unat (item_size (get_Item (kmem s) (fd_hdr16 f)))" "stop < 2 ^ 63" "start \<le> pos" "pos \<le> stop"
    and "- (2 ^ 31) \<le> offset" "offset < 2 ^ 31"
    and "base = seek_base whence start pos stop"
  shows "fseekCallback fd offset whence s =
    (if int start \<le> int base + offset \<and> int base + offset \<le> int stop
     then (0, s\<lparr>fds := (fds s)(fd := f\<lparr>fd_nail := of_int (int base + offset), fd_eof := fd_eof f \<or> int base + offset = int stop\<rparr>)\<rparr>)
     else (- 1, s\<lparr>fds := (fds s)(fd := f\<lparr>fd_nail := of_nat base\<rparr>)\<rparr>))"
proof -
  let ?sz = "item_size (get_Item (kmem s) (fd_hdr16 f))"
  have s63: "start < 9223372036854775808" "pos < 9223372036854775808" "stop < 9223372036854775808" "base < 9223372036854775808"
    using assms(4-7,10) by (auto simp: seek_base_def)
  have u: "fd_nailStart f = of_nat start" "fd_nail f = of_nat pos" using assms(2,3) by simp_all
  have e: "fd_nailStart f + ucast ?sz = of_nat stop"
    unfolding u assms(4) by (simp add: word_unat_eq_iff unsigned_of_nat unsigned_ucast_eq)
  define f1 where "f1 = f\<lparr>fd_nail := of_nat base\<rparr>"
  have f1: "(if whence = SEEK_SET then f\<lparr>fd_nail := fd_nailStart f\<rparr> else if whence = SEEK_CUR then f
      else if whence = SEEK_END then f\<lparr>fd_nail := of_nat stop\<rparr> else f) = f1"
    using assms(10) u by (auto simp: f1_def seek_base_def SEEK_SET_def SEEK_CUR_def SEEK_END_def)
  let ?t = "int base + offset"
  have w: "uint (of_nat base + of_int offset :: u64) = (if ?t < 0 then ?t + 2 ^ 64 else ?t)"
    by (rule word_add_int) (use s63(4) assms(8,9) in simp_all)
  have us: "uint (of_nat stop :: u64) = int stop" "uint (of_nat start :: u64) = int start"
    using s63(1,3) by (simp_all add: unsigned_of_nat take_bit_nat_eq_self)
  have cmp: "of_nat base + of_int offset > (of_nat stop :: u64) \<or> of_nat base + of_int offset < (of_nat start :: u64) \<longleftrightarrow>
      \<not> (int start \<le> ?t \<and> ?t \<le> int stop)"
    using s63 assms(8,9) unfolding word_less_def w us by auto
  have eq: "of_nat base + of_int offset = (of_nat stop :: u64) \<longleftrightarrow> ?t = int stop" if "int start \<le> ?t" "?t \<le> int stop"
    using that unfolding word_uint_eq_iff w us by auto
  show ?thesis
    unfolding fseekCallback_def Let_def assms(1) [symmetric] e f1
    using cmp eq u(1) by (auto simp: f1_def)
qed


section \<open>Names\<close>

definition name_char :: "byte \<Rightarrow> bool" where "name_char c \<longleftrightarrow> c \<noteq> 0 \<and> c \<noteq> 0x20"

text \<open>The name of an item: base and extension without padding, a dot between them.\<close>

definition fat_name :: "byte list \<Rightarrow> byte list \<Rightarrow> byte list" where
  "fat_name nm ext = takeWhile name_char nm @ (let e = takeWhile name_char ext in if e = [] then [] else 0x2e # e)"

lemma name_loop_puts:
  assumes "\<And>k q. j \<le> k \<Longrightarrow> k < lim \<Longrightarrow> q < lim - j \<Longrightarrow> dst + of_nat (i + q) \<noteq> src + of_nat k"
    and "w = takeWhile name_char (map (\<lambda>k. m (src + of_nat k)) [j..<lim])"
  shows "name_loop src dst lim i j m = (i + length w, puts_at (dst + of_nat i) w m)"
  using assms
proof (induction "lim - j" arbitrary: i j m w)
  case 0
  then show ?case by (subst name_loop.simps) simp
next
  case (Suc n)
  let ?c = "m (src + of_nat j)"
  have u: "[j..<lim] = j # [Suc j..<lim]" using Suc.hyps(2) by (simp add: upt_conv_Cons)
  show ?case
  proof (cases "name_char ?c")
    case False
    then have "w = []" using Suc.prems(2) u by simp
    then show ?thesis using False by (subst name_loop.simps) (auto simp: name_char_def Let_def)
  next
    case True
    let ?m = "m(dst + of_nat i := ?c)" and ?w = "takeWhile name_char (map (\<lambda>k. m (src + of_nat k)) [Suc j..<lim])"
    have ne: "src + of_nat k \<noteq> dst + of_nat i" if "j \<le> k" "k < lim" for k
      using Suc.prems(1) [of k 0] that Suc.hyps(2) by auto
    have "map (\<lambda>k. ?m (src + of_nat k)) [Suc j..<lim] = map (\<lambda>k. m (src + of_nat k)) [Suc j..<lim]"
      using ne by simp
    then have w: "?w = takeWhile name_char (map (\<lambda>k. ?m (src + of_nat k)) [Suc j..<lim])" by (simp only:)
    have "name_loop src dst lim (Suc i) (Suc j) ?m = (Suc i + length ?w, puts_at (dst + of_nat (Suc i)) ?w ?m)"
    proof (rule Suc.hyps(1) [OF _ _ w])
      show "n = lim - Suc j" using Suc.hyps(2) by simp
      show "dst + of_nat (Suc i + q) \<noteq> src + of_nat k" if "Suc j \<le> k" "k < lim" "q < lim - Suc j" for k q
        using Suc.prems(1) [of k "Suc q"] that by simp
    qed
    moreover have "w = ?c # ?w" using Suc.prems(2) u True by simp
    moreover have "j < lim" using Suc.hyps(2) by simp
    ultimately show ?thesis
      using True by (subst name_loop.simps) (simp add: name_char_def Let_def add.assoc add.commute [of 1])
  qed
qed


lemma name_loop_bytes:
  assumes "\<And>k q. k < lim \<Longrightarrow> q < lim \<Longrightarrow> dst + of_nat (i + q) \<noteq> src + of_nat k"
    and "bytes_at m src lim = xs"
  shows "name_loop src dst lim i 0 m = (i + length (takeWhile name_char xs), puts_at (dst + of_nat i) (takeWhile name_char xs) m)"
  by (rule name_loop_puts) (use assms in \<open>simp_all add: bytes_at_def\<close>)

lemma bytes_at_cong: "(\<And>i. i < n \<Longrightarrow> m (a + of_nat i) = m' (a + of_nat i)) \<Longrightarrow> bytes_at m a n = bytes_at m' a n"
  by (simp add: bytes_at_def)

lemma length_fat_name: "length nm = 8 \<Longrightarrow> length ext = 3 \<Longrightarrow> length (fat_name nm ext) \<le> 12"
  using length_takeWhile_le [of name_char nm] length_takeWhile_le [of name_char ext]
  by (simp add: fat_name_def Let_def)

text \<open>The static buffer after \<open>memset\<close>: what is written from its start is followed by NULs, and memory apart from it is as before.\<close>

lemma puts_at_cleared:
  assumes "length ws \<le> 15"
  shows "puts_at name ws (snd (memset name 0 15 m)) = puts_at name (ws @ replicate (15 - length ws) 0) m"
proof
  fix x
  have "snd (memset name 0 15 m) x = (if within name 15 x then 0 else m x)"
    by (auto simp: memset_def memset_loop_spec within_def)
  moreover have "within name 15 x \<longleftrightarrow> unat (x - name) < 15" by (simp add: within_def word_less_nat_alt)
  ultimately show "puts_at name ws (snd (memset name 0 15 m)) x = puts_at name (ws @ replicate (15 - length ws) 0) m x"
    using assms by (auto simp: puts_at_nth nth_append)
qed

lemma puts_at_cleared_apart:
  assumes "\<not> within name 15 x" "length ws \<le> 15"
  shows "puts_at name ws (snd (memset name 0 15 m)) x = m x"
  using assms puts_at_cleared [OF assms(2), of name m] by (simp add: puts_at_nth within_def word_less_nat_alt)

text \<open>
  \<open>makeName\<close> leaves in the static buffer the name of the directory entry, base and extension
  without their padding and a dot only before an extension, filled up with NULs to the 15 bytes
  of the buffer, and changes no other memory.
\<close>

lemma makeName_name:
  assumes "apart item 11 name 15" and "n = fat_name (bytes_at m item 8) (bytes_at m (item + 8) 3)"
  shows "makeName name item m = puts_at name (n @ replicate (15 - length n) 0) m"
proof -
  define z where "z = snd (memset name 0 15 m)"
  have w15: "within name 15 (name + of_nat q)" if "q < 15" for q
    using that by (simp add: within_def word_less_nat_alt unsigned_of_nat take_bit_nat_eq_self)
  have out: "\<not> within name 15 (item + of_nat k)" if "k < 11" for k
    by (rule apart_not_within [OF assms(1)]) (use that in \<open>simp add: word_less_nat_alt unsigned_of_nat take_bit_nat_eq_self\<close>)
  then have ne: "name + of_nat q \<noteq> item + of_nat k" if "q < 15" "k < 11" for q k using w15 that by metis
  let ?w = "takeWhile name_char (bytes_at m item 8)" and ?e = "takeWhile name_char (bytes_at m (item + 8) 3)"
  have lw: "length ?w \<le> 8" "length ?e \<le> 3"
    using length_takeWhile_le [of name_char "bytes_at m item 8"] length_takeWhile_le [of name_char "bytes_at m (item + 8) 3"]
    by (simp_all add: bytes_at_def)
  note pad = puts_at_cleared [of _ name m, folded z_def]
  have keep: "puts_at name ws z (item + of_nat k) = m (item + of_nat k)" if "k < 11" "length ws \<le> 15" for ws k
    unfolding z_def by (rule puts_at_cleared_apart [OF out [OF that(1)] that(2)])
  have b1: "bytes_at z item 8 = bytes_at m item 8" by (rule bytes_at_cong) (use keep [of _ "[]"] in simp)
  have l1: "name_loop item name 8 0 0 z = (length ?w, puts_at name ?w z)"
    using name_loop_bytes [OF _ b1, of name 0] ne by simp
  have e: "puts_at name ?w z (item + 8) = m (item + 8)" using keep [of 8 ?w] lw by simp
  have mk: "makeName name item m = (if name_char (m (item + 8))
      then snd (name_loop (item + 8) name 3 (Suc (length ?w)) 0 ((puts_at name ?w z)(name + of_nat (length ?w) := 0x2e)))
      else puts_at name ?w z)"
    by (simp add: makeName_def z_def [symmetric] l1 e name_char_def Let_def)
  show ?thesis
  proof (cases "name_char (m (item + 8))")
    case False
    then have "?e = []" by (simp add: bytes_at_def upt_conv_Cons)
    then have "n = ?w" using assms(2) by (simp add: fat_name_def)
    then show ?thesis using pad [of n] lw False mk by simp
  next
    case True
    let ?m = "puts_at name (?w @ [0x2e]) z"
    have dot: "(puts_at name ?w z)(name + of_nat (length ?w) := 0x2e) = ?m" by (simp add: puts_at_snoc)
    have "?m (item + 8 + of_nat k) = m (item + 8 + of_nat k)" if "k < 3" for k
      using keep [of "8 + k" "?w @ [0x2e]"] lw that by (simp add: add.assoc)
    then have b2: "bytes_at ?m (item + 8) 3 = bytes_at m (item + 8) 3" by (rule bytes_at_cong)
    have "name + of_nat (Suc (length ?w) + q) \<noteq> item + 8 + of_nat k" if "k < 3" "q < 3" for k q
      using ne [of "Suc (length ?w) + q" "8 + k"] lw that by (simp add: add.assoc)
    then have l2: "name_loop (item + 8) name 3 (Suc (length ?w)) 0 ?m =
        (Suc (length ?w) + length ?e, puts_at (name + of_nat (Suc (length ?w))) ?e ?m)"
      by (rule name_loop_bytes [OF _ b2])
    have "?e \<noteq> []" using True by (simp add: bytes_at_def upt_conv_Cons)
    then have "n = (?w @ [0x2e]) @ ?e" using assms(2) by (simp add: fat_name_def Let_def)
    moreover have "puts_at (name + of_nat (Suc (length ?w))) ?e ?m = puts_at name ((?w @ [0x2e]) @ ?e) z"
      by (subst puts_at_append) simp
    ultimately show ?thesis
      using pad [of n] lw True by (simp add: mk dot l2)
  qed
qed


section \<open>Descriptors\<close>

lemma free_slot_spec:
  "free_slot fs i = (if \<exists>j \<ge> i. j < MAX_FILE_DESCRIPTORS_NUMBER \<and> fs ! j = 0
     then Some (LEAST j. i \<le> j \<and> j < MAX_FILE_DESCRIPTORS_NUMBER \<and> fs ! j = 0) else None)"
proof (induction "MAX_FILE_DESCRIPTORS_NUMBER - i" arbitrary: i)
  case 0
  then show ?case by (subst free_slot.simps) auto
next
  case (Suc n)
  have i: "i < MAX_FILE_DESCRIPTORS_NUMBER" using Suc.hyps(2) by simp
  show ?case
  proof (cases "fs ! i = 0")
    case True
    then have "(LEAST j. i \<le> j \<and> j < MAX_FILE_DESCRIPTORS_NUMBER \<and> fs ! j = 0) = i"
      using i by (intro Least_equality) auto
    then show ?thesis using True i by (subst free_slot.simps) auto
  next
    case False
    have "i \<le> j \<and> fs ! j = 0 \<longleftrightarrow> Suc i \<le> j \<and> fs ! j = 0" for j
      using False by (metis Suc_leD Suc_leI le_neq_implies_less)
    then have e: "(\<lambda>j. i \<le> j \<and> j < MAX_FILE_DESCRIPTORS_NUMBER \<and> fs ! j = 0) =
        (\<lambda>j. Suc i \<le> j \<and> j < MAX_FILE_DESCRIPTORS_NUMBER \<and> fs ! j = 0)" by auto
    have "free_slot fs i = free_slot fs (Suc i)" using False i by (subst free_slot.simps) simp
    also have "\<dots> = (if Ex (\<lambda>j. Suc i \<le> j \<and> j < MAX_FILE_DESCRIPTORS_NUMBER \<and> fs ! j = 0)
        then Some (LEAST j. Suc i \<le> j \<and> j < MAX_FILE_DESCRIPTORS_NUMBER \<and> fs ! j = 0) else None)"
      using Suc.hyps by simp
    finally show ?thesis unfolding e [symmetric] .
  qed
qed

lemma fs_more: "heap.more s' = heap.more s \<Longrightarrow> fileDescriptors s' = fileDescriptors s \<and> fds s' = fds s"
  by (cases s; cases s') simp


text \<open>
  Opening takes the lowest free slot of the descriptor table and fails only when none is free,
  but closing does not give a slot back: after a successful \<open>fclose\<close> the table is as before, with
  the closed descriptor still in it, so that no later \<open>fopen\<close> gets that slot and the 257th
  call fails whatever was closed.
\<close>

lemma fclose_keeps_slot:
  assumes "fclose fd s = Some (r, s')"
  shows "r = 0 \<and> fileDescriptors s' = fileDescriptors s \<and> fileDescriptors s' ! nat fd \<noteq> 0 \<and>
    free_slot (fileDescriptors s') 0 =
      (if \<exists>j < MAX_FILE_DESCRIPTORS_NUMBER. fileDescriptors s ! j = 0
       then Some (LEAST j. j < MAX_FILE_DESCRIPTORS_NUMBER \<and> fileDescriptors s ! j = 0) else None)"
proof -
  obtain p s1 where p: "vfs_check fd s = Some p" "p \<noteq> 0" "kpkFree (fd_hdr16 (fds s p)) s = Some s1" "r = 0" "kpkFree p s1 = Some s'"
    using assms by (auto simp: fclose_def fcloseCallback_def split: bind_splits if_splits)
  have "heap.more s' = heap.more s" using kpkFree_frame [OF p(3)] kpkFree_frame [OF p(5)] by simp
  then have "fileDescriptors s' = fileDescriptors s" using fs_more by blast
  moreover have "fileDescriptors s ! nat fd = p" using p(1) by (simp add: vfs_check_def split: if_splits)
  ultimately show ?thesis using p(2,4) free_slot_spec [of "fileDescriptors s" 0] by simp
qed


section \<open>A concrete state\<close>

text \<open>A disk without devices, memory filled with ones, and one open file of 0x01010101 bytes in slot 3.\<close>

definition demo_fs :: "unit fs_state" where
  "demo_fs = \<lparr>kmem = \<lambda>_. 1, kout = [], topChunk = 0x200000, bucket = replicate 21 LinkedList, dev = (),
     fileDescriptors = (replicate 256 0x7000)[3 := 0x5000], fds = (\<lambda>_. zero_fd)(0x5000 :=
       \<lparr>fd_idx = 3, fd_nail = 1100, fd_nailStart = 1000, fd_fs = 0x4000, fd_hdr16 = 0x6000, fd_eof = False\<rparr>),
     stats = \<lambda>_. \<lparr>st_name = [], st_extension = [], st_type = 0, st_creation10s = 0, st_creationTime = 0, st_creationDate = 0,
       st_lastAccess = 0, st_size = 0\<rparr>,
     fat_hdr = get_Header (\<lambda>_. 0) 0, root_start = 0, root_end = 0, root_items = 0, root_name = replicate 8 0, strtok_end = 0\<rparr>"

lemma read_ones: "read32 (\<lambda>_. 1) a = 0x01010101"
proof -
  have four: "(4 :: nat) = Suc (Suc (Suc (Suc 0)))" by simp
  show ?thesis unfolding read32_def four by simp
qed

theorem fseek_positions_witness:
  "fseekCallback 0x5000 (- 200) SEEK_END demo_fs =
    (if int 1000 \<le> int 16844009 + - 200 \<and> int 16844009 + - 200 \<le> int 16844009
     then (0, demo_fs\<lparr>fds := (fds demo_fs)(0x5000 := (fds demo_fs 0x5000)\<lparr>fd_nail := of_int (int 16844009 + - 200),
       fd_eof := fd_eof (fds demo_fs 0x5000) \<or> int 16844009 + - 200 = int 16844009\<rparr>)\<rparr>)
     else (- 1, demo_fs\<lparr>fds := (fds demo_fs)(0x5000 := (fds demo_fs 0x5000)\<lparr>fd_nail := of_nat 16844009\<rparr>)\<rparr>))"
  by (rule fseek_positions [where pos = 1100])
    (simp_all add: demo_fs_def get_Item_def read_ones seek_base_def SEEK_SET_def SEEK_END_def)

lemma fclose_keeps_slot_witness:
  "fclose 3 demo_fs = Some (0, demo_fs) \<and> fileDescriptors demo_fs ! 3 \<noteq> 0"
proof -
  have c: "fclose 3 demo_fs = Some (0, demo_fs)"
    by (simp add: fclose_def fcloseCallback_def vfs_check_def MAX_FILE_DESCRIPTORS_NUMBER_def demo_fs_def kpkFree_def)
  show ?thesis using fclose_keeps_slot [OF c] c by simp
qed

end
