(* ===== verification/Disk.thy ===== *)
theory Disk
  imports Ata
begin

text \<open>
  Reading the disk through the kernel heap: what \<open>readDisk\<close> of
  \<open>src/src/kernel/drivers/ATA/ata.cpp\<close> does for its clients. Every call cuts a buffer of whole
  sectors from the heap, fills it, copies the bytes asked for and frees it, and the freed buffer
  serves the next call of its size class. A client sees the bytes of the disk in its own buffer and
  nothing else of its memory changed. The parked buffer and its list node are a footprint; the
  footprints of two size classes live side by side, which is what the file system needs.
\<close>

section \<open>Recycled buffers\<close>

text \<open>The addresses of a block.\<close>

definition bytes_of :: "addr \<Rightarrow> u64 \<Rightarrow> addr set" where "bytes_of a n = {x. within a n x}"

text \<open>
  The one chunk of class \<open>k\<close>, at \<open>c\<close>, with room for \<open>z\<close> bytes, that waits in its bucket behind the node \<open>nd\<close>.
\<close>

definition parked :: "u64 \<Rightarrow> nat \<Rightarrow> addr \<Rightarrow> addr \<Rightarrow> 'a heap_scheme \<Rightarrow> bool" where
  "parked z k nd c s \<longleftrightarrow> bucket s ! k = \<lparr>ll_head = nd, ll_last = nd, ll_size = 1\<rparr> \<and>
     read64 (kmem s) nd = 0 \<and> read64 (kmem s) (nd + 8) = c \<and> bucket_index (read64 (kmem s) (c + 8)) = Some k \<and>
     0x200000 \<le> unat c \<and> unat c + 32 + unat z \<le> unat (topChunk s) \<and> nd \<noteq> 0 \<and> unat nd + 16 \<le> unat (topChunk s)"

text \<open>
  The class of \<open>z\<close> is empty or holds one chunk; \<open>F\<close> is its footprint. The buffer costs fresh heap only
  as long as the class is empty.
\<close>

definition recycled :: "u64 \<Rightarrow> nat \<Rightarrow> addr set \<Rightarrow> 'a heap_scheme \<Rightarrow> bool" where
  "recycled z k F s \<longleftrightarrow> size_class z = Some k \<and> 0 < k \<and> k < 21 \<and>
     (ll_head (bucket s ! k) = 0 \<and> ll_size (bucket s ! k) = 0 \<and> F = {} \<or>
      (\<exists>nd c. parked z k nd c s \<and> F = bytes_of c (32 + z) \<union> bytes_of nd 16))"

definition cost :: "u64 \<Rightarrow> addr set \<Rightarrow> nat" where
  "cost z F = (if F = {} then unat z + 32 else 0)"

text \<open>A chunk that is handed out, and what a step of the heap leaves alone.\<close>

definition lent :: "u64 \<Rightarrow> nat \<Rightarrow> addr \<Rightarrow> 'a heap_scheme \<Rightarrow> bool" where
  "lent z k c s \<longleftrightarrow> size_class z = Some k \<and> k < 21 \<and> ll_head (bucket s ! k) = 0 \<and> ll_size (bucket s ! k) = 0 \<and>
     kmem s c = 0 \<and> bucket_index (read64 (kmem s) (c + 8)) = Some k \<and>
     0x200000 \<le> unat c \<and> unat c + 32 + unat z \<le> unat (topChunk s)"

definition heap_step :: "nat \<Rightarrow> addr set \<Rightarrow> 'a heap_scheme \<Rightarrow> 'a heap_scheme \<Rightarrow> bool" where
  "heap_step k W s s' \<longleftrightarrow> topChunk s \<le> topChunk s' \<and> heap.more s' = heap.more s \<and> kout s' = kout s \<and>
     (\<forall>j. j \<noteq> k \<longrightarrow> bucket s' ! j = bucket s ! j) \<and>
     (\<forall>x. x \<notin> W \<and> \<not> (topChunk s \<le> x \<and> x < topChunk s') \<longrightarrow> kmem s' x = kmem s x)"

lemma heap_step_trans:
  "heap_step k W s s1 \<Longrightarrow> heap_step k W s1 s2 \<Longrightarrow> heap_step k W s s2"
  unfolding heap_step_def by (auto simp: not_le not_less) 

lemma bytes_of_range:
  fixes a n :: u64
  assumes "unat a + unat n < 2 ^ 64"
  shows "x \<in> bytes_of a n \<longleftrightarrow> unat a \<le> unat x \<and> unat x < unat a + unat n"
  using within_range [OF assms] by (simp add: bytes_of_def)

lemma unat_add32: "z < 2 ^ 24 \<Longrightarrow> unat (32 + z :: u64) = 32 + unat z"
  by (simp add: unat_word_ariths word_less_nat_alt)

lemma zalloc_fresh:
  fixes s :: "'a heap_scheme"
  assumes room: "heap_room K (unat z + 32 + n) s" and z: "z \<noteq> 0" "z < 2 ^ 24"
    and k: "size_class z = Some k" "k < 21" and e: "ll_head (bucket s ! k) = 0" "ll_size (bucket s ! k) = 0"
  defines "c \<equiv> topChunk s"
  shows "\<exists>s1. kpkZalloc z s = Some (c + 32, s1) \<and> lent z k c s1 \<and> heap_step k (bytes_of c (32 + z)) s s1 \<and> heap_room K n s1"
proof -
  obtain asz where asz: "alignSize z = Some asz" "bucket_index asz = Some k" using size_class_align [OF k(1)] .
  note top = heap_room_top [OF room, folded c_def] and uz = unat_add32 [OF z(2)]
  have room': "heap_room {k} (unat z + 32 + n) s" using room e by (simp add: heap_room_def)
  note a = kpkZalloc_room [OF room' asz _ k(2), folded c_def]
  define m where "m = zeroed (c + 32) z (chunk_header c asz (kmem s))"
  let ?s1 = "s\<lparr>kmem := m, topChunk := c + (z + 32)\<rparr>"
  have uz': "unat (z + 32) = unat z + 32" using uz by (simp add: add.commute)
  have ut: "unat (c + (z + 32)) = unat c + (unat z + 32)" "unat (c + 32) = unat c + 32"
    using heap_room_add [OF room', of "z + 32"] heap_room_add [OF room', of 32] uz' by (simp_all add: c_def)
  have w: "within c 32 x \<longleftrightarrow> unat c \<le> unat x \<and> unat x < unat c + 32"
      "within (c + 32) z x \<longleftrightarrow> unat c + 32 \<le> unat x \<and> unat x < unat c + 32 + unat z"
      "x \<in> bytes_of c (32 + z) \<longleftrightarrow> unat c \<le> unat x \<and> unat x < unat c + (32 + unat z)" for x
    using within_range [of c 32 x] within_range [of "c + 32" z x] bytes_of_range [of c "32 + z" x] uz top ut by simp_all
  have "m x = kmem s x" if "x \<notin> bytes_of c (32 + z)" for x
    using that w [of x] by (auto simp: m_def zeroed_def chunk_header_outside)
  then have st: "heap_step k (bytes_of c (32 + z)) s ?s1"
    using ut by (simp add: heap_step_def word_le_nat_alt c_def [symmetric])
  have "m x = chunk_header c asz (kmem s) x" if "within c 32 x" for x
    using that w [of x] by (simp add: m_def zeroed_def)
  then have "m c = 0" "read64 m (c + 8) = asz"
    using read64_cong [of "c + 8" m "chunk_header c asz (kmem s)"] within_shift [of 8 8 32 c] by (auto simp: within_def)
  then have "lent z k c ?s1" using k e asz(2) top ut by (simp add: lent_def)
  moreover have "heap_room K n ?s1"
    using room ut top by (simp add: heap_room_def KPKHEAP_START_def KPKHEAP_END_def word_le_nat_alt)
  ultimately show ?thesis using a st by (auto simp: m_def)
qed

lemma zalloc_parked:
  fixes s :: "'a heap_scheme"
  assumes room: "heap_room K n s" and z: "z \<noteq> 0" "z < 2 ^ 24"
    and k: "size_class z = Some k" "k < 21" and p: "parked z k nd c s"
  shows "\<exists>s1. kpkZalloc z s = Some (c + 32, s1) \<and> lent z k c s1 \<and> heap_step k (bytes_of c (32 + z)) s s1 \<and> heap_room K n s1 \<and>
    topChunk s1 = topChunk s"
proof -
  obtain asz where asz: "alignSize z = Some asz" "bucket_index asz = Some k" using size_class_align [OF k(1)] .
  note top = heap_room_top [OF room] and uz = unat_add32 [OF z(2)] and P = p [unfolded parked_def]
  have len: "length (bucket s) = 21" using room by (simp add: heap_room_def KPKBUCKET_SIZE_def)
  have nz: "nd \<noteq> 0" "c \<noteq> 0" using P by auto
  let ?b = "(bucket s)[k := \<lparr>ll_head = 0, ll_last = nd, ll_size = 0\<rparr>]"
  define m where "m = zeroed (c + 32) z ((kmem s)(c := 0))"
  let ?s1 = "s\<lparr>kmem := m, bucket := ?b\<rparr>"
  have "checkBucket asz s = Some (c, s\<lparr>bucket := ?b\<rparr>)"
    using asz(2) len k P nz by (simp add: checkBucket_def isEmpty_def Stack_pop_def getSize_def ll_get_def
      deleteElem_idx_def node_next_def node_data_addr_def Let_def)
  then have ml: "kpkMalloc z s = Some (c + 32, s\<lparr>bucket := ?b, kmem := (kmem s)(c := 0)\<rparr>)"
    using asz(1) nz by (simp add: kpkMalloc_def sizeof_chunk_def chunk_free_addr_def Let_def)
  have uc: "unat (c + 32) = unat c + 32" "unat (c + 8) = unat c + 8" using P top by (simp_all add: unat_word_ariths)
  then have "c + 32 \<noteq> 0" by auto
  then have a: "kpkZalloc z s = Some (c + 32, ?s1)" using ml by (simp add: kpkZalloc_def memset_zeroed m_def)
  have w: "within (c + 8) 8 x \<longleftrightarrow> unat c + 8 \<le> unat x \<and> unat x < 16 + unat c"
      "within (c + 32) z x \<longleftrightarrow> unat c + 32 \<le> unat x \<and> unat x < unat c + 32 + unat z"
      "x \<in> bytes_of c (32 + z) \<longleftrightarrow> unat c \<le> unat x \<and> unat x < unat c + (32 + unat z)" for x
    using within_range [of "c + 8" 8 x] within_range [of "c + 32" z x] bytes_of_range [of c "32 + z" x] uz top uc P by simp_all
  have "heap_step k (bytes_of c (32 + z)) s ?s1"
    by (auto simp: heap_step_def m_def zeroed_def w)
  moreover have "read64 m (c + 8) = read64 (kmem s) (c + 8)"
    by (rule read64_cong) (auto simp: m_def zeroed_def w)
  moreover have "m c = 0" by (simp add: m_def zeroed_def)
  moreover have "heap_room K n ?s1" using room k(2) by (auto simp: heap_room_def nth_list_update KPKBUCKET_SIZE_def)
  ultimately show ?thesis using a k P len by (intro exI [of _ ?s1]) (simp add: lent_def)
qed

lemma zalloc_recycled:
  fixes s :: "'a heap_scheme"
  assumes r: "recycled z k F s" and room: "heap_room K (cost z F + n) s" and z: "z \<noteq> 0" "z < 2 ^ 24"
  shows "\<exists>c s1. kpkZalloc z s = Some (c + 32, s1) \<and> lent z k c s1 \<and> heap_step k (bytes_of c (32 + z)) s s1 \<and>
    heap_room K n s1 \<and> (\<forall>x \<in> bytes_of c (32 + z). x \<in> F \<or> topChunk s \<le> x \<and> x < KPKHEAP_END)"
proof -
  note uz = unat_add32 [OF z(2)]
  have k: "size_class z = Some k" "k < 21" using r by (simp_all add: recycled_def)
  from r consider "ll_head (bucket s ! k) = 0" "ll_size (bucket s ! k) = 0" "F = {}"
    | nd c where "parked z k nd c s" "F = bytes_of c (32 + z) \<union> bytes_of nd 16"
    unfolding recycled_def by blast
  then show ?thesis
  proof cases
    case 1
    have room': "heap_room K (unat z + 32 + n) s" using room 1(3) by (simp add: cost_def)
    note top = heap_room_top [OF room']
    have "x \<in> F \<or> topChunk s \<le> x \<and> x < KPKHEAP_END" if "x \<in> bytes_of (topChunk s) (32 + z)" for x
      using that bytes_of_range [of "topChunk s" "32 + z" x] uz top by (simp add: word_le_nat_alt word_less_nat_alt KPKHEAP_END_def)
    then show ?thesis using zalloc_fresh [OF room' z k 1(1,2)] by blast
  next
    case 2
    have room': "heap_room K n s" by (rule heap_room_mono [OF room]) simp_all
    show ?thesis using zalloc_parked [OF room' z k 2(1)] 2(2) by blast
  qed
qed

lemma Stack_push_outside:
  fixes h :: "'a heap_scheme"
  assumes room: "heap_room K (48 + n) h" "0 \<in> K" and p: "Stack_push k c h = Some h'" and out: "x \<notin> bytes_of (topChunk h) 48"
  shows "kmem h' x = kmem h x"
proof -
  have r: "heap_room K (unat (16 :: u64) + 32 + n) h" using room(1) by simp
  note z = kpkZalloc_room [OF r size_class_16 room(2)]
  let ?t = "topChunk h"
  have o: "\<not> within ?t 32 x" "\<not> within (?t + 32) 16 x" "\<not> within (?t + 32) 8 x" "\<not> within (?t + 40) 8 x"
    using out within_shift [of 0 32 48 ?t x] within_shift [of 32 16 48 ?t x] within_shift [of 32 8 48 ?t x] within_shift [of 40 8 48 ?t x]
    by (auto simp: bytes_of_def)
  then show ?thesis using p z
    by (auto simp: Stack_push_def sizeof_node_def node_data_addr_def Let_def write64_outside zeroed_def chunk_header_outside add.assoc
        split: if_splits)
qed

text \<open>A freed chunk goes to its bucket, behind a node cut from the top of the heap.\<close>

lemma free_pushes:
  fixes s :: "'a heap_scheme"
  assumes room: "heap_room {0} (48 + n) s" and c: "kmem s c = 0" "bucket_index (read64 (kmem s) (c + 8)) = Some k" "k < 21"
    and l: "unat c + 16 \<le> unat (topChunk s)"
  defines "nd \<equiv> topChunk s + 32" and "st \<equiv> bucket s ! k"
  shows "\<exists>s1. kpkFree (c + 32) s = Some s1 \<and> heap_step k {c} s s1 \<and> heap_room ({0} - {k}) n s1 \<and> unat (topChunk s1) = unat (topChunk s) + 48 \<and>
    bucket s1 ! k = (if ll_head st = 0 then \<lparr>ll_head = nd, ll_last = nd, ll_size = ll_size st + 1\<rparr> else st\<lparr>ll_head := nd, ll_size := ll_size st + 1\<rparr>) \<and>
    read64 (kmem s1) nd = (if ll_head st = 0 then 0 else ll_last st) \<and> read64 (kmem s1) (nd + 8) = c \<and>
    read64 (kmem s1) (c + 8) = read64 (kmem s) (c + 8)"
proof -
  note top = heap_room_top [OF room]
  define g where "g = s\<lparr>kmem := (kmem s)(c := 1)\<rparr>"
  have len: "length (bucket s) = 21" using room by (simp add: heap_room_def KPKBUCKET_SIZE_def)
  have rg: "heap_room {0} (48 + n) g" "topChunk g = topChunk s" "bucket g = bucket s" using room by (simp_all add: g_def)
  have cz: "read64 (kmem g) (c + 8) = read64 (kmem s) (c + 8)" by (simp add: g_def mem_frame apart_def)
  let ?b = "if ll_head st = 0 then \<lparr>ll_head = nd, ll_last = nd, ll_size = ll_size st + 1\<rparr> else st\<lparr>ll_head := nd, ll_size := ll_size st + 1\<rparr>"
  obtain m where m: "Stack_push k c g = Some (g\<lparr>kmem := m, topChunk := topChunk s + 48, bucket := (bucket s)[k := ?b]\<rparr>)"
      "\<And>x. x < topChunk s \<Longrightarrow> m x = kmem g x" "read64 m nd = (if ll_head st = 0 then 0 else ll_last st)" "read64 m (nd + 8) = c"
    using Stack_push_room [OF rg(1) _ c(3), of c, unfolded rg(2,3), folded nd_def st_def] by auto
  define h where "h = g\<lparr>kmem := m, topChunk := topChunk s + 48, bucket := (bucket s)[k := ?b]\<rparr>"
  have h: "Stack_push k c g = Some h" using m(1) by (simp add: h_def)
  have f: "kpkFree (c + 32) s = Some h"
    using h cz c len by (simp add: kpkFree_def pushChunk_def sizeof_chunk_def chunk_free_addr_def chunk_size_addr_def g_def)
  have un: "unat (topChunk s + 48) = unat (topChunk s) + 48" using heap_room_add [OF room, of 48] by simp
  have r: "heap_room ({0} - {k}) n h"
    using room un top by (auto simp: heap_room_def h_def g_def KPKHEAP_START_def KPKHEAP_END_def word_le_nat_alt)
  have "unat (c + 8) = unat c + 8" using l top by (simp add: unat_word_ariths)
  then have "read64 m (c + 8) = read64 (kmem g) (c + 8)"
    by (intro read64_below [where t = "topChunk s"]) (use m(2) l in simp_all)
  moreover have "kmem h x = kmem s x" if "x \<noteq> c" "\<not> (topChunk s \<le> x \<and> x < topChunk s + 48)" for x
  proof -
    have "x \<notin> bytes_of (topChunk g) 48"
      using that(2) bytes_of_range [of "topChunk s" 48 x] un top by (simp add: g_def word_le_nat_alt word_less_nat_alt)
    then show ?thesis using Stack_push_outside [OF rg(1) _ h, of x] that(1) by (simp add: g_def)
  qed
  then have "heap_step k {c} s h" using un by (simp add: heap_step_def h_def g_def word_le_nat_alt)
  ultimately show ?thesis using f r un m(3,4) c(3) len cz by (intro exI [of _ h]) (simp add: h_def)
qed

lemma free_parks:
  fixes s :: "'a heap_scheme"
  assumes l: "lent z k c s" and room: "heap_room {0} (48 + n) s"
  defines "nd \<equiv> topChunk s + 32"
  shows "\<exists>s1. kpkFree (c + 32) s = Some s1 \<and> parked z k nd c s1 \<and> heap_step k {c} s s1 \<and> heap_room ({0} - {k}) n s1 \<and>
    unat (topChunk s1) = unat (topChunk s) + 48"
proof -
  note L = l [unfolded lent_def]
  have un: "unat nd = unat (topChunk s) + 32" using heap_room_add [OF room, of 32] by (simp add: nd_def)
  then have "nd \<noteq> 0" by auto
  moreover obtain s1 where "kpkFree (c + 32) s = Some s1" "heap_step k {c} s s1" "heap_room ({0} - {k}) n s1"
      "unat (topChunk s1) = unat (topChunk s) + 48" "bucket s1 ! k = \<lparr>ll_head = nd, ll_last = nd, ll_size = 1\<rparr>"
      "read64 (kmem s1) nd = 0" "read64 (kmem s1) (nd + 8) = c" "read64 (kmem s1) (c + 8) = read64 (kmem s) (c + 8)"
    using free_pushes [OF room, of c k] L by (auto simp: nd_def)
  ultimately show ?thesis using L un by (auto simp: parked_def)
qed

lemma free_recycles:
  fixes s :: "'a heap_scheme"
  assumes l: "lent z k c s" "0 < k" and room: "heap_room {0} (48 + n) s" and z: "z < 2 ^ 24"
  shows "\<exists>s1 F1. kpkFree (c + 32) s = Some s1 \<and> recycled z k F1 s1 \<and> F1 \<noteq> {} \<and> heap_step k {c} s s1 \<and> heap_room {0} n s1 \<and>
    (\<forall>x \<in> F1. x \<in> bytes_of c (32 + z) \<or> topChunk s \<le> x \<and> x < KPKHEAP_END)"
proof -
  let ?nd = "topChunk s + 32"
  obtain s1 where s1: "kpkFree (c + 32) s = Some s1" "parked z k ?nd c s1" "heap_step k {c} s s1" "heap_room ({0} - {k}) n s1"
    using free_parks [OF l(1) room] by blast
  note top = heap_room_top [OF room]
  have un: "unat ?nd = unat (topChunk s) + 32" using heap_room_add [OF room, of 32] by simp
  have "recycled z k (bytes_of c (32 + z) \<union> bytes_of ?nd 16) s1" using l s1(2) by (auto simp: recycled_def lent_def)
  moreover have "topChunk s \<le> x \<and> x < KPKHEAP_END" if "x \<in> bytes_of ?nd 16" for x
    using that bytes_of_range [of ?nd 16 x] un top by (simp add: word_le_nat_alt word_less_nat_alt KPKHEAP_END_def)
  moreover have "?nd \<in> bytes_of ?nd 16" by (simp add: bytes_of_def within_def)
  ultimately show ?thesis using s1 l(2) by auto
qed

lemma parked_below:
  assumes "parked z k nd c s" "heap_room K n s" "z < 2 ^ 24" "x \<in> bytes_of c (32 + z) \<union> bytes_of nd 16"
  shows "x < topChunk s"
proof -
  note P = assms(1) [unfolded parked_def] and top = heap_room_top [OF assms(2)]
  show ?thesis
    using assms(4) P top bytes_of_range [of c "32 + z" x] bytes_of_range [of nd 16 x] unat_add32 [OF assms(3)]
    by (auto simp: word_less_nat_alt)
qed

lemma parked_cong:
  assumes "parked z k nd c s" "bucket s' ! k = bucket s ! k" "topChunk s \<le> topChunk s'" "z < 2 ^ 24"
    and "\<And>x. x \<in> bytes_of c (32 + z) \<union> bytes_of nd 16 \<Longrightarrow> kmem s' x = kmem s x"
  shows "parked z k nd c s'"
proof -
  have "read64 (kmem s') a = read64 (kmem s) a" if "\<And>x. within a 8 x \<Longrightarrow> x \<in> bytes_of c (32 + z) \<union> bytes_of nd 16" for a
    by (rule read64_cong) (use that assms(5) in blast)
  moreover have "x \<in> bytes_of c (32 + z) \<union> bytes_of nd 16" if "within nd 8 x \<or> within (nd + 8) 8 x \<or> within (c + 8) 8 x" for x
    using that within_shift [of 0 8 16 nd x] within_shift [of 8 8 16 nd x] within_shift [of 8 8 "32 + z" c x] unat_add32 [OF assms(4)]
    by (auto simp: bytes_of_def)
  ultimately show ?thesis using assms(1-3) by (simp add: parked_def word_le_nat_alt)
qed

lemma recycled_cong:
  assumes "recycled z k F s" "bucket s' ! k = bucket s ! k" "\<And>x. x \<in> F \<Longrightarrow> kmem s' x = kmem s x" "topChunk s \<le> topChunk s'" "z < 2 ^ 24"
  shows "recycled z k F s'"
proof (cases "ll_head (bucket s ! k) = 0 \<and> F = {}")
  case True
  then show ?thesis using assms(1,2) by (auto simp: recycled_def parked_def)
next
  case False
  then obtain nd c where p: "parked z k nd c s" "F = bytes_of c (32 + z) \<union> bytes_of nd 16"
    using assms(1) unfolding recycled_def by blast
  have "parked z k nd c s'" by (rule parked_cong [OF p(1) assms(2,4,5)]) (use assms(3) p(2) in simp)
  then show ?thesis using assms(1) p(2) by (auto simp: recycled_def)
qed

lemma recycled_below:
  assumes "recycled z k F s" "heap_room K n s" "z < 2 ^ 24" "x \<in> F"
  shows "x < topChunk s"
proof -
  obtain nd c where "parked z k nd c s" "F = bytes_of c (32 + z) \<union> bytes_of nd 16"
    using assms(1,4) unfolding recycled_def by blast
  then show ?thesis using parked_below [OF _ assms(2,3)] assms(4) by blast
qed

text \<open>If a chunk of the smallest class is parked, it becomes the node.\<close>

lemma free_reuses:
  fixes s :: "'a heap_scheme"
  assumes l: "lent z k c s" "0 < k" "z < 2 ^ 24" and p: "parked 16 0 nd0 c0 s" and room: "heap_room {} n s"
    and D: "bytes_of c (32 + z) \<inter> (bytes_of c0 48 \<union> bytes_of nd0 16) = {}"
  shows "\<exists>s1. kpkFree (c + 32) s = Some s1 \<and> recycled z k (bytes_of c (32 + z) \<union> bytes_of (c0 + 32) 16) s1 \<and> heap_room {0} n s1 \<and> ll_size (bucket s1 ! 0) = 0 \<and>
    topChunk s1 = topChunk s \<and> heap.more s1 = heap.more s \<and> kout s1 = kout s \<and> (\<forall>j. j \<noteq> k \<and> j \<noteq> 0 \<longrightarrow> bucket s1 ! j = bucket s ! j) \<and>
    (\<forall>x. x \<noteq> c \<and> x \<notin> bytes_of c0 48 \<longrightarrow> kmem s1 x = kmem s x)"
proof -
  note L = l(1) [unfolded lent_def] and P = p [unfolded parked_def] and top = heap_room_top [OF room]
  have len: "length (bucket s) = 21" using room by (simp add: heap_room_def KPKBUCKET_SIZE_def)
  define g where "g = s\<lparr>kmem := (kmem s)(c := 1)\<rparr>"
  have cin: "bytes_of c 32 \<subseteq> bytes_of c (32 + z)" "c \<in> bytes_of c 32"
    using within_shift [of 0 32 "32 + z" c] unat_add32 [OF l(3)] by (auto simp: bytes_of_def within_def)
  have pg: "parked 16 0 nd0 c0 g" by (rule parked_cong [OF p]) (use cin D in \<open>auto simp: g_def\<close>)
  have rg: "heap_room {} n g" using room by (simp add: g_def)
  have k16: "size_class 16 = Some 0" using size_class_16 by (simp add: size_class_def)
  obtain h1 where a: "kpkZalloc 16 g = Some (c0 + 32, h1)" "lent 16 0 c0 h1" "heap_step 0 (bytes_of c0 48) g h1" "heap_room {} n h1" "topChunk h1 = topChunk g"
    using zalloc_parked [OF rg _ _ k16 _ pg] by auto
  note S = a(3) [unfolded heap_step_def]
  have tc: "topChunk h1 = topChunk s" using a(5) by (simp add: g_def)
  define m where "m = write64 (c0 + 32) 0 (write64 (c0 + 40) c (kmem h1))"
  define h where "h = h1\<lparr>kmem := m, bucket := (bucket h1)[k := \<lparr>ll_head = c0 + 32, ll_last = c0 + 32, ll_size = 1\<rparr>]\<rparr>"
  have bk: "bucket h1 ! k = bucket s ! k" using S l(2) by (simp add: g_def)
  have len1: "length (bucket h1) = 21" using a(4) by (simp add: heap_room_def KPKBUCKET_SIZE_def)
  have h: "Stack_push k c g = Some h"
    using a(1) bk L by (simp add: Stack_push_def sizeof_node_def node_data_addr_def Let_def h_def m_def g_def add.assoc)
  have cz: "read64 (kmem g) (c + 8) = read64 (kmem s) (c + 8)" by (simp add: g_def mem_frame apart_def)
  have f: "kpkFree (c + 32) s = Some h"
    using h cz L len by (simp add: kpkFree_def pushChunk_def sizeof_chunk_def chunk_free_addr_def chunk_size_addr_def g_def)
  have o: "m x = kmem g x" if "x \<notin> bytes_of c0 48" for x
  proof -
    have "\<not> within (c0 + 32) 8 x" "\<not> within (c0 + 40) 8 x"
      using that within_shift [of 32 8 48 c0 x] within_shift [of 40 8 48 c0 x] by (auto simp: bytes_of_def)
    moreover have "kmem h1 x = kmem g x" using S that tc by (auto simp: g_def not_less)
    ultimately show ?thesis by (simp add: m_def write64_outside)
  qed
  have "read64 m (c + 8) = read64 (kmem g) (c + 8)"
  proof (rule read64_cong)
    fix x assume "within (c + 8) 8 x"
    then have "x \<in> bytes_of c 32" using within_shift [of 8 8 32 c x] by (simp add: bytes_of_def)
    then show "m x = kmem g x" using o cin(1) D by blast
  qed
  moreover have "unat (c0 + 32) = unat c0 + 32" using P top by (simp add: unat_word_ariths)
  moreover from this have "c0 + 32 \<noteq> 0" by auto
  ultimately have "parked z k (c0 + 32) c h"
    using L P len1 tc cz by (simp add: parked_def h_def m_def mem_frame apart_def add.assoc)
  then have "recycled z k (bytes_of c (32 + z) \<union> bytes_of (c0 + 32) 16) h" using L l(2) by (auto simp: recycled_def)
  moreover have "heap_room {0} n h" "ll_size (bucket h ! 0) = 0" using a(2,4) l(2) by (simp_all add: heap_room_def h_def lent_def)
  moreover have "kmem h x = kmem s x" if "x \<noteq> c" "x \<notin> bytes_of c0 48" for x using o [OF that(2)] that(1) by (simp add: h_def g_def)
  ultimately show ?thesis using f S tc l(2) by (intro exI [of _ h]) (simp add: h_def g_def)
qed

section \<open>Reading the disk\<close>

text \<open>The disk as a sequence of bytes.\<close>

definition disk_byte :: "(nat \<Rightarrow> u16 list) \<Rightarrow> nat \<Rightarrow> byte" where
  "disk_byte img i = concat (map word_bytes (img (i div 512))) ! (i mod 512)"

definition disk_bytes :: "(nat \<Rightarrow> u16 list) \<Rightarrow> nat \<Rightarrow> nat \<Rightarrow> byte list" where
  "disk_bytes img a n = map (disk_byte img) [a..<a + n]"

lemma length_disk_bytes [simp]: "length (disk_bytes img a n) = n"
  by (simp add: disk_bytes_def)

lemma disk_bytes_nth [simp]: "i < n \<Longrightarrow> disk_bytes img a n ! i = disk_byte img (a + i)"
  by (simp add: disk_bytes_def)

lemma disk_bytes_append: "disk_bytes img a (n + k) = disk_bytes img a n @ disk_bytes img (a + n) k"
  by (rule nth_equalityI) (auto simp: nth_append)

lemma sectors_disk_bytes:
  assumes "\<And>l. length (img l) = 256"
  shows "concat (map word_bytes (concat (map img [l..<l + n]))) = disk_bytes img (512 * l) (512 * n)"
proof (induction n)
  case (Suc n)
  have "concat (map word_bytes (img q)) = disk_bytes img (512 * q) 512" for q
    by (rule nth_equalityI) (simp_all add: assms disk_byte_def)
  from this [of "l + n"] have "concat (map word_bytes (img (l + n))) = disk_bytes img (512 * (l + n)) 512" .
  then show ?case using Suc disk_bytes_append [of img "512 * l" "512 * n" 512] by (simp add: algebra_simps)
qed (simp add: disk_bytes_def)

lemma memcpy_puts:
  fixes p off sz :: u64
  assumes "length bs = n" "unat p + n < 2 ^ 64" "unat off + unat sz \<le> n" "bytes_of buffer sz \<inter> bytes_of p (of_nat n) = {}"
  shows "snd (memcpy buffer (p + off) sz (puts_at p bs m)) =
    puts_at buffer (take (unat sz) (drop (unat off) bs)) (puts_at p bs m)"
proof (cases "sz = 0")
  case True
  then show ?thesis using memcpy_loop_spec [of buffer "p + off" 0 0] by (auto simp: memcpy_def)
next
  case False
  have n: "unat (of_nat n :: u64) = n" using assms(2) by (simp add: unsigned_of_nat take_bit_nat_eq_self)
  have "sz \<le> buffer - (p + off)"
  proof (rule ccontr)
    assume "\<not> ?thesis"
    then have "within (p + off) sz buffer" by (simp add: within_def)
    then have "within p (of_nat n) buffer" using within_shift [of off sz "of_nat n" p buffer] assms(3) n by simp
    moreover have "within buffer sz buffer" using False by (simp add: within_def word_neq_0_conv)
    ultimately show False using assms(4) by (auto simp: bytes_of_def)
  qed
  then have c: "snd (memcpy buffer (p + off) sz (puts_at p bs m)) x =
      (if x - buffer < sz then puts_at p bs m (p + off + (x - buffer)) else puts_at p bs m x)" for x
    using memcpy_loop_spec [of buffer "p + off" sz 0 "puts_at p bs m" x] by (simp add: memcpy_def)
  show ?thesis
  proof
    fix x
    define d where "d = take (unat sz) (drop (unat off) bs)"
    have l: "length d = unat sz" using assms(1,3) by (simp add: d_def)
    have "puts_at p bs m (p + off + (x - buffer)) = d ! unat (x - buffer)" if "unat (x - buffer) < unat sz"
    proof -
      have "unat (off + (x - buffer)) = unat off + unat (x - buffer)"
        using that assms(2,3) by (simp add: unat_word_ariths)
      moreover have "p + off + (x - buffer) - p = off + (x - buffer)" by simp
      ultimately show ?thesis using that assms(1-3) puts_at_nth [of bs p m "p + off + (x - buffer)"] by (simp add: d_def)
    qed
    then show "snd (memcpy buffer (p + off) sz (puts_at p bs m)) x = puts_at buffer (take (unat sz) (drop (unat off) bs)) (puts_at p bs m) x"
      unfolding d_def [symmetric] using c [of x] puts_at_nth [of d buffer "puts_at p bs m" x] l unat_u64_less [of sz]
      by (simp add: word_less_nat_alt)
  qed
qed

lemma lent_cong:
  assumes "lent z k c s" "bucket s' = bucket s" "topChunk s' = topChunk s" "\<And>x. within c 32 x \<Longrightarrow> kmem s' x = kmem s x"
  shows "lent z k c s'"
proof -
  have "read64 (kmem s') (c + 8) = read64 (kmem s) (c + 8)"
    by (rule read64_cong) (use assms(4) within_shift [of 8 8 32 c] in simp)
  moreover have "kmem s' c = kmem s c" using assms(4) [of c] by (simp add: within_def)
  ultimately show ?thesis using assms(1-3) by (simp add: lent_def)
qed

text \<open>The effect on the memory \<open>V\<close> of a client and on the rest of the state.\<close>

definition disk_step :: "addr set \<Rightarrow> nat \<Rightarrow> addr \<Rightarrow> byte list \<Rightarrow> ('d, 'z) disk_state_scheme \<Rightarrow> ('d, 'z) disk_state_scheme \<Rightarrow> bool" where
  "disk_step V k buffer bs s s' \<longleftrightarrow> topChunk s \<le> topChunk s' \<and> kout s' = kout s \<and> disk_state.more s' = disk_state.more s \<and>
     (\<forall>j. j \<noteq> k \<longrightarrow> bucket s' ! j = bucket s ! j) \<and> (\<forall>x \<in> V. kmem s' x = puts_at buffer bs (kmem s) x)"

lemma disk_state_more: "heap.more s' = heap.more s \<Longrightarrow> disk_state.more s' = disk_state.more s"
  by (cases s; cases s') simp

lemma disk_buffer_filled:
  fixes p nail sz :: u64
  assumes drive: "ata_drive P img xfer delay"
    and q: "q = unat sz div 512 + 1" "q < 256" "unat nail mod 512 + unat sz \<le> 512 * q" "unat nail div 512 < 2 ^ 28"
    and p: "unat p + 512 * q < 2 ^ 64" "bytes_of buffer sz \<inter> bytes_of p (of_nat (512 * q)) = {}"
  shows "\<exists>d' m'. readLBA P (nail div 512) (sz div 512 + 1) p d m = Some (d', m') \<and>
    snd (memcpy buffer (p + nail mod 512) sz m') = puts_at buffer (disk_bytes img (unat nail) (unat sz)) m' \<and>
    (\<forall>x. x \<notin> bytes_of p (of_nat (512 * q)) \<longrightarrow> m' x = m x)"
proof -
  let ?l = "unat nail div 512"
  let ?bs = "disk_bytes img (512 * ?l) (512 * q)"
  have w: "nail div 512 = of_nat ?l" "sz div 512 + 1 = of_nat q"
    using q(1,2,4) by (simp_all add: word_unat_eq_iff unat_div unat_word_ariths unsigned_of_nat take_bit_eq_mod)
  obtain d' where r: "readLBA P (nail div 512) (sz div 512 + 1) p d m = Some (d', puts_at p ?bs m)"
    unfolding w using readLBA_reads [OF drive q(4), of q p d m] q(1,2)
      sectors_disk_bytes [of img ?l q, OF ata_drive.sector [OF drive]] by auto
  have off: "unat (nail mod 512) = unat nail mod 512" by (simp add: unat_mod)
  have "take (unat sz) (drop (unat nail mod 512) ?bs) = disk_bytes img (unat nail) (unat sz)"
    using q(3) by (intro nth_equalityI) simp_all
  then have "snd (memcpy buffer (p + nail mod 512) sz (puts_at p ?bs m)) =
      puts_at buffer (disk_bytes img (unat nail) (unat sz)) (puts_at p ?bs m)"
    using memcpy_puts [of ?bs "512 * q" p "nail mod 512" sz buffer m] p q(3) off by simp
  moreover have "puts_at p ?bs m x = m x" if "x \<notin> bytes_of p (of_nat (512 * q))" for x
    by (rule puts_at_off) (use that q(2) in \<open>simp_all add: bytes_of_def\<close>)
  ultimately show ?thesis using r by blast
qed

lemma readDisk_parts:
  assumes "q = unat sz div 512 + 1" "q < 256" "z = of_nat (512 * q)" "kpkZalloc z s = Some (p, s1)" "p \<noteq> 0"
    and "readLBA P (nail div 512) (sz div 512 + 1) p (dev s1) (kmem s1) = Some (d, m)"
  shows "readDisk P nail sz buffer s = kpkFree p (s1\<lparr>kmem := snd (memcpy buffer (p + nail mod 512) sz m), dev := d\<rparr>)"
proof -
  have "unat z = 512 * q" unfolding assms(3) using assms(2) by (subst unsigned_of_nat) (simp add: take_bit_nat_eq_self)
  moreover have "unat ((sz div 512 + 1) * 512) = 512 * q" using assms(1,2) by (simp add: unat_word_ariths unat_div)
  ultimately have "(sz div 512 + 1) * 512 = z" by (simp only: word_unat_eq_iff)
  moreover have "ucast (ucast (nail mod 512) :: u16) = nail mod 512"
    by (simp add: word_unat_eq_iff unsigned_ucast_eq unat_mod take_bit_eq_mod)
  ultimately show ?thesis using assms(4-6) by (simp add: readDisk_def SECTOR_SIZE_def)
qed

text \<open>The bytes of the client lie outside the chunk, whose header is kept.\<close>

lemma lent_filled:
  fixes s :: "('d, 'z) disk_state_scheme"
  assumes l: "lent z k c s" "unat c + 32 + unat z < 2 ^ 64" and m: "\<forall>x. x \<notin> bytes_of (c + 32) z \<longrightarrow> m x = kmem s x"
    and b: "bytes_of buffer (of_nat (length bs)) \<inter> bytes_of c 32 = {}" "length bs < 2 ^ 64"
  shows "lent z k c (s\<lparr>kmem := puts_at buffer bs m, dev := d\<rparr>)"
proof (rule lent_cong [OF l(1)])
  fix x assume x: "within c 32 x"
  have uc: "unat (c + 32) = unat c + 32" using l(2) by (simp add: unat_word_ariths)
  have "x \<notin> bytes_of (c + 32) z" using x within_range [of c 32 x] bytes_of_range [of "c + 32" z x] uc l(2) by auto
  moreover have "\<not> within buffer (of_nat (length bs)) x" using x b(1) by (auto simp: bytes_of_def)
  ultimately show "kmem (s\<lparr>kmem := puts_at buffer bs m, dev := d\<rparr>) x = kmem s x" using m puts_at_off [OF b(2)] by simp
qed simp_all

text \<open>Up to the release of the buffer: the bytes are with the client.\<close>

lemma readDisk_fill:
  fixes s :: "('d, 'z) disk_state_scheme"
  assumes drive: "ata_drive P img xfer delay"
    and q: "q = unat sz div 512 + 1" "q < 256" "unat nail mod 512 + unat sz \<le> 512 * q" "unat nail div 512 < 2 ^ 28"
    and z: "z = of_nat (512 * q)" and rec: "recycled z k F s" and room: "heap_room K (cost z F + n) s"
    and V: "V \<inter> F = {}" "\<And>x. x \<in> V \<Longrightarrow> \<not> (topChunk s \<le> x \<and> x < KPKHEAP_END)" "bytes_of buffer sz \<subseteq> V"
  shows "\<exists>c s2. readDisk P nail sz buffer s = kpkFree (c + 32) s2 \<and> lent z k c s2 \<and> heap_room K n s2 \<and>
    disk_step V k buffer (disk_bytes img (unat nail) (unat sz)) s s2 \<and> V \<inter> bytes_of c (32 + z) = {} \<and>
    (\<forall>x \<in> bytes_of c (32 + z). x \<in> F \<or> topChunk s \<le> x \<and> x < KPKHEAP_END)"
proof -
  let ?bs = "disk_bytes img (unat nail) (unat sz)"
  have uz: "unat z = 512 * q" unfolding z using q(2) by (subst unsigned_of_nat) (simp add: take_bit_nat_eq_self)
  then have z': "z \<noteq> 0" "z < 2 ^ 24" using q(1,2) by (auto simp: word_less_nat_alt)
  obtain c s1 where a: "kpkZalloc z s = Some (c + 32, s1)" "lent z k c s1" "heap_step k (bytes_of c (32 + z)) s s1"
      "heap_room K n s1" "\<forall>x \<in> bytes_of c (32 + z). x \<in> F \<or> topChunk s \<le> x \<and> x < KPKHEAP_END"
    using zalloc_recycled [OF rec room z'] by blast
  note top = heap_room_top [OF a(4)]
  have cb: "0x200000 \<le> unat c" "unat c + 32 + 512 * q \<le> unat (topChunk s1)" using a(2) uz by (simp_all add: lent_def)
  then have uc: "unat (c + 32) = unat c + 32" "c + 32 \<noteq> 0" using top by (auto simp: unat_word_ariths word_unat_eq_iff)
  have Vout: "x \<notin> bytes_of c (32 + z)" if "x \<in> V" for x using a(5) V(1,2) that by blast
  have sub: "bytes_of (c + 32) z \<subseteq> bytes_of c (32 + z)" "bytes_of c 32 \<subseteq> bytes_of c (32 + z)"
    using within_shift [of 32 z "32 + z" c] within_shift [of 0 32 "32 + z" c] unat_add32 [OF z'(2)] by (auto simp: bytes_of_def)
  have disj: "bytes_of buffer sz \<inter> bytes_of (c + 32) (of_nat (512 * q)) = {}" "unat (c + 32) + 512 * q < 2 ^ 64"
    using Vout sub(1) V(3) z cb top uc by auto
  obtain d m where r: "readLBA P (nail div 512) (sz div 512 + 1) (c + 32) (dev s1) (kmem s1) = Some (d, m)"
      "snd (memcpy buffer (c + 32 + nail mod 512) sz m) = puts_at buffer ?bs m" "\<forall>x. x \<notin> bytes_of (c + 32) z \<longrightarrow> m x = kmem s1 x"
    using disk_buffer_filled [OF drive q disj(2,1), of "dev s1" "kmem s1"] z by auto
  let ?s2 = "s1\<lparr>kmem := puts_at buffer ?bs m, dev := d\<rparr>"
  have "bytes_of buffer (of_nat (length ?bs)) \<inter> bytes_of c 32 = {}" using Vout sub(2) V(3) by auto
  then have "lent z k c ?s2" by (intro lent_filled [OF a(2)]) (use r(3) cb top uz unat_u64_less [of sz] in auto)
  moreover have "heap_room K n ?s2" using a(4) by (simp add: heap_room_def)
  moreover have "disk_step V k buffer ?bs s ?s2"
    unfolding disk_step_def
  proof (intro conjI ballI)
    fix x assume x: "x \<in> V"
    have "m x = kmem s1 x" using r(3) Vout [OF x] sub(1) by blast
    moreover have "topChunk s1 \<le> KPKHEAP_END" using top by (simp add: KPKHEAP_END_def word_le_nat_alt)
    then have "kmem s1 x = kmem s x" using a(3) Vout [OF x] V(2) [OF x] by (auto simp: heap_step_def)
    ultimately show "kmem ?s2 x = puts_at buffer ?bs (kmem s) x"
      using puts_at_nth [of ?bs buffer m x] puts_at_nth [of ?bs buffer "kmem s" x] unat_u64_less [of sz] by simp
  qed (use a(3) disk_state_more [of s1 s] in \<open>auto simp: heap_step_def\<close>)
  moreover have "readDisk P nail sz buffer s = kpkFree (c + 32) ?s2"
    using readDisk_parts [OF q(1,2) z a(1) uc(2) r(1)] r(2) by simp
  ultimately show ?thesis using a(5) Vout by blast
qed

lemma readDisk_step:
  fixes s :: "('d, 'z) disk_state_scheme"
  assumes drive: "ata_drive P img xfer delay"
    and q: "q = unat sz div 512 + 1" "q < 256" "unat nail mod 512 + unat sz \<le> 512 * q" "unat nail div 512 < 2 ^ 28"
    and z: "z = of_nat (512 * q)" and rec: "recycled z k F s" and room: "heap_room {0} (cost z F + (48 + n)) s"
    and V: "V \<inter> F = {}" "\<And>x. x \<in> V \<Longrightarrow> \<not> (topChunk s \<le> x \<and> x < KPKHEAP_END)" "bytes_of buffer sz \<subseteq> V"
  shows "\<exists>s' F'. readDisk P nail sz buffer s = Some s' \<and> recycled z k F' s' \<and> F' \<noteq> {} \<and> heap_room {0} n s' \<and> V \<inter> F' = {} \<and>
    disk_step V k buffer (disk_bytes img (unat nail) (unat sz)) s s'"
proof -
  let ?bs = "disk_bytes img (unat nail) (unat sz)"
  obtain c s2 where a: "readDisk P nail sz buffer s = kpkFree (c + 32) s2" "lent z k c s2" "heap_room {0} (48 + n) s2"
      "disk_step V k buffer ?bs s s2" "V \<inter> bytes_of c (32 + z) = {}"
    using readDisk_fill [OF drive q z rec room V] by blast
  note A = a(4) [unfolded disk_step_def]
  have "unat z = 512 * q" unfolding z using q(2) by (subst unsigned_of_nat) (simp add: take_bit_nat_eq_self)
  then have z': "z < 2 ^ 24" using q(2) by (simp add: word_less_nat_alt)
  have "0 < k" using rec by (simp add: recycled_def)
  then obtain s3 F3 where f: "kpkFree (c + 32) s2 = Some s3" "recycled z k F3 s3" "heap_step k {c} s2 s3" "heap_room {0} n s3" "F3 \<noteq> {}"
      "\<forall>x \<in> F3. x \<in> bytes_of c (32 + z) \<or> topChunk s2 \<le> x \<and> x < KPKHEAP_END"
    using free_recycles [OF a(2) _ a(3) z'] by blast
  have t: "topChunk s \<le> topChunk s2" "topChunk s2 \<le> topChunk s3" "topChunk s3 \<le> KPKHEAP_END"
    using A f(3) heap_room_top [OF f(4)] by (simp_all add: heap_step_def KPKHEAP_END_def word_le_nat_alt)
  have "V \<inter> F3 = {}" using f(6) a(5) V(2) t(1) by fastforce
  moreover have "kmem s3 x = puts_at buffer ?bs (kmem s) x" if x: "x \<in> V" for x
  proof -
    have "c \<in> bytes_of c (32 + z)" using unat_add32 [OF z'] by (simp add: bytes_of_def within_def word_less_nat_alt)
    then have "x \<noteq> c" using a(5) x by blast
    moreover have "\<not> (topChunk s2 \<le> x \<and> x < topChunk s3)" using V(2) [OF x] t by auto
    ultimately show ?thesis using f(3) A x by (simp add: heap_step_def)
  qed
  then have "disk_step V k buffer ?bs s s3"
    using A f(3) t disk_state_more [of s3 s2] by (simp add: disk_step_def heap_step_def)
  ultimately show ?thesis using a(1) f(1,2,4,5) by auto
qed


section \<open>Two classes of buffers\<close>

text \<open>
  Two size classes of disk buffers side by side: their footprints, the memory \<open>U\<close> of the clients and the free part of the heap share
  no byte, and the heap has room for the buffers that are not cut yet and \<open>n\<close> bytes more.
\<close>

definition two_buffers :: "u64 \<Rightarrow> nat \<Rightarrow> u64 \<Rightarrow> nat \<Rightarrow> addr set \<Rightarrow> nat \<Rightarrow> 'a heap_scheme \<Rightarrow> bool" where
  "two_buffers z k z' k' U n s \<longleftrightarrow> (\<exists>F G. recycled z k F s \<and> recycled z' k' G s \<and> F \<inter> G = {} \<and> U \<inter> F = {} \<and> U \<inter> G = {} \<and>
     (\<forall>x \<in> U. \<not> (topChunk s \<le> x \<and> x < KPKHEAP_END)) \<and> heap_room {0} (cost z F + cost z' G + n) s \<and> ll_size (bucket s ! 0) = 0)"

lemma two_buffers_swapped: "two_buffers z k z' k' U n s \<Longrightarrow> two_buffers z' k' z k U n s"
  unfolding two_buffers_def by (elim exE conjE, rule_tac x = G in exI, rule_tac x = F in exI) (simp add: Int_commute add.commute)

lemma two_buffers_swap: "two_buffers z k z' k' U n s = two_buffers z' k' z k U n s"
  using two_buffers_swapped by blast

definition disk_read :: "addr set \<Rightarrow> addr \<Rightarrow> byte list \<Rightarrow> ('d, 'z) disk_state_scheme \<Rightarrow> ('d, 'z) disk_state_scheme \<Rightarrow> bool" where
  "disk_read U buffer bs s s' \<longleftrightarrow> kout s' = kout s \<and> disk_state.more s' = disk_state.more s \<and>
     (\<forall>x \<in> U. kmem s' x = puts_at buffer bs (kmem s) x)"

lemma readDisk_two_buffers:
  fixes s :: "('d, 'z) disk_state_scheme"
  assumes drive: "ata_drive P img xfer delay"
    and q: "q = unat sz div 512 + 1" "q < 256" "unat nail mod 512 + unat sz \<le> 512 * q" "unat nail div 512 < 2 ^ 28"
    and z: "z = of_nat (512 * q)" "z' < 2 ^ 24" "k' \<noteq> k" and h: "two_buffers z k z' k' U (48 + n) s" and b: "bytes_of buffer sz \<subseteq> U"
  shows "\<exists>s'. readDisk P nail sz buffer s = Some s' \<and> two_buffers z k z' k' U n s' \<and>
    disk_read U buffer (disk_bytes img (unat nail) (unat sz)) s s'"
proof -
  let ?bs = "disk_bytes img (unat nail) (unat sz)"
  obtain F G where H: "recycled z k F s" "recycled z' k' G s" "F \<inter> G = {}" "U \<inter> F = {}" "U \<inter> G = {}"
      "\<forall>x \<in> U. \<not> (topChunk s \<le> x \<and> x < KPKHEAP_END)" "heap_room {0} (cost z F + cost z' G + (48 + n)) s" "ll_size (bucket s ! 0) = 0"
    using h unfolding two_buffers_def by blast
  have room: "heap_room {0} (cost z F + (48 + (cost z' G + n))) s" using H(7) by (simp add: ac_simps)
  have V: "(U \<union> G) \<inter> F = {}" "bytes_of buffer sz \<subseteq> U \<union> G" using H(3,4) b by blast+
  have W: "\<not> (topChunk s \<le> x \<and> x < KPKHEAP_END)" if "x \<in> U \<union> G" for x
    using that H(6) recycled_below [OF H(2,7) z(2), of x] by fastforce
  obtain s' F' where S: "readDisk P nail sz buffer s = Some s'" "recycled z k F' s'" "F' \<noteq> {}" "heap_room {0} (cost z' G + n) s'"
      "(U \<union> G) \<inter> F' = {}" "disk_step (U \<union> G) k buffer ?bs s s'"
    using readDisk_step [OF drive q z(1) H(1) room V(1) W V(2)] by blast
  note D = S(6) [unfolded disk_step_def]
  have "kmem s' x = kmem s x" if "x \<in> G" for x
  proof -
    have "\<not> within buffer sz x" using that b H(5) by (auto simp: bytes_of_def)
    then show ?thesis using D that puts_at_off [of ?bs buffer x "kmem s"] unat_u64_less [of sz] by simp
  qed
  then have "recycled z' k' G s'" by (intro recycled_cong [OF H(2)]) (use D z in simp_all)
  moreover have "\<forall>x \<in> U. \<not> (topChunk s' \<le> x \<and> x < KPKHEAP_END)" using H(6) D by (meson order_trans)
  moreover have "F' \<inter> G = {}" "U \<inter> F' = {}" using S(5) by blast+
  ultimately have "two_buffers z k z' k' U n s'"
    unfolding two_buffers_def using S(2,3,4) H(5,8) D by (intro exI [of _ F'] exI [of _ G]) (auto simp: cost_def recycled_def)
  then show ?thesis using S(1) D by (auto simp: disk_read_def)
qed

text \<open>The buffers the file system uses: one sector, and 129 sectors for a cluster.\<close>

definition disk_heap :: "addr set \<Rightarrow> nat \<Rightarrow> 'a heap_scheme \<Rightarrow> bool" where
  "disk_heap U n s \<longleftrightarrow> two_buffers 512 5 66048 13 U n s"

lemma disk_heapI:
  assumes "recycled 512 5 F s" "recycled 66048 13 G s" "F \<inter> G = {}" "U \<inter> F = {}" "U \<inter> G = {}"
    and "\<And>x. x \<in> U \<Longrightarrow> \<not> (topChunk s \<le> x \<and> x < KPKHEAP_END)" "heap_room {0} (cost 512 F + cost 66048 G + n) s"
    and "ll_size (bucket s ! 0) = 0"
  shows "disk_heap U n s"
  using assms unfolding disk_heap_def two_buffers_def by blast

lemma disk_heapE:
  assumes "disk_heap U n s"
  obtains F G where "recycled 512 5 F s" "recycled 66048 13 G s" "F \<inter> G = {}" "U \<inter> F = {}" "U \<inter> G = {}"
    "\<forall>x \<in> U. \<not> (topChunk s \<le> x \<and> x < KPKHEAP_END)" "heap_room {0} (cost 512 F + cost 66048 G + n) s"
    "ll_size (bucket s ! 0) = 0"
  using assms unfolding disk_heap_def two_buffers_def by blast

lemma readDisk_small:
  fixes s :: "('d, 'z) disk_state_scheme"
  assumes drive: "ata_drive P img xfer delay" and h: "disk_heap U (48 + n) s" and b: "bytes_of buffer sz \<subseteq> U"
    and q: "unat sz < 512" "unat nail mod 512 + unat sz \<le> 512" "unat nail div 512 < 2 ^ 28"
  shows "\<exists>s'. readDisk P nail sz buffer s = Some s' \<and> disk_heap U n s' \<and> disk_read U buffer (disk_bytes img (unat nail) (unat sz)) s s'"
  using readDisk_two_buffers [OF drive, of 1 sz nail 512 66048 13 5 U n s buffer] h b q by (simp add: disk_heap_def)

lemma readDisk_large:
  fixes s :: "('d, 'z) disk_state_scheme"
  assumes drive: "ata_drive P img xfer delay" and h: "disk_heap U (48 + n) s" and b: "bytes_of buffer 65536 \<subseteq> U"
    and q: "unat nail mod 512 = 0" "unat nail div 512 < 2 ^ 28"
  shows "\<exists>s'. readDisk P nail 65536 buffer s = Some s' \<and> disk_heap U n s' \<and> disk_read U buffer (disk_bytes img (unat nail) 65536) s s'"
  using readDisk_two_buffers [OF drive, of 129 65536 nail 66048 512 5 13 U n s buffer] h b q
  unfolding disk_heap_def two_buffers_swap [of 512] by simp

lemma disk_heap_mono:
  assumes "disk_heap U n s" "V \<subseteq> U" "n' \<le> n"
  shows "disk_heap V n' s"
proof -
  obtain F G where H: "recycled 512 5 F s" "recycled 66048 13 G s" "F \<inter> G = {}" "U \<inter> F = {}" "U \<inter> G = {}"
      "\<forall>x \<in> U. \<not> (topChunk s \<le> x \<and> x < KPKHEAP_END)" "heap_room {0} (cost 512 F + cost 66048 G + n) s" "ll_size (bucket s ! 0) = 0"
    using disk_heapE [OF assms(1)] .
  have "heap_room {0} (cost 512 F + cost 66048 G + n') s" by (rule heap_room_mono [OF H(7)]) (use assms(3) in simp_all)
  moreover have "V \<inter> F = {}" "V \<inter> G = {}" using H(4,5) assms(2) by blast+
  ultimately show ?thesis using H assms(2) by (intro disk_heapI [of F _ G]) auto
qed

text \<open>
  The same state with a spare chunk: the smallest class is not empty but holds one chunk, which the next release takes for its
  node, 16 bytes of it whatever its size. It must not reach into anything in use.
\<close>

definition disk_heap_spare :: "addr set \<Rightarrow> nat \<Rightarrow> 'a heap_scheme \<Rightarrow> bool" where
  "disk_heap_spare U n s \<longleftrightarrow> (\<exists>F G c nd. recycled 512 5 F s \<and> recycled 66048 13 G s \<and> F \<inter> G = {} \<and> U \<inter> F = {} \<and> U \<inter> G = {} \<and>
     (\<forall>x \<in> U. \<not> (topChunk s \<le> x \<and> x < KPKHEAP_END)) \<and> heap_room {} (cost 512 F + cost 66048 G + n) s \<and>
     parked 16 0 nd c s \<and> (bytes_of c 48 \<union> bytes_of nd 16) \<inter> (U \<union> F \<union> G) = {})"

lemma readDisk_spare:
  fixes s :: "('d, 'z) disk_state_scheme"
  assumes drive: "ata_drive P img xfer delay" and h: "disk_heap_spare U n s" and b: "bytes_of buffer 65536 \<subseteq> U"
    and q: "unat nail mod 512 = 0" "unat nail div 512 < 2 ^ 28"
  shows "\<exists>s'. readDisk P nail 65536 buffer s = Some s' \<and> disk_heap U n s' \<and> disk_read U buffer (disk_bytes img (unat nail) 65536) s s'"
proof -
  let ?bs = "disk_bytes img (unat nail) (unat (65536 :: u64))"
  obtain F G c0 nd0 where H: "recycled 512 5 F s" "recycled 66048 13 G s" "F \<inter> G = {}" "U \<inter> F = {}" "U \<inter> G = {}"
      "\<forall>x \<in> U. \<not> (topChunk s \<le> x \<and> x < KPKHEAP_END)" "heap_room {} (cost 512 F + cost 66048 G + n) s"
      "parked 16 0 nd0 c0 s" "(bytes_of c0 48 \<union> bytes_of nd0 16) \<inter> (U \<union> F \<union> G) = {}"
    using h unfolding disk_heap_spare_def by blast
  let ?C = "bytes_of c0 48 \<union> bytes_of nd0 16"
  let ?V = "U \<union> F \<union> ?C"
  have room: "heap_room {} (cost 66048 G + (cost 512 F + n)) s" using H(7) by (simp add: ac_simps)
  have low: "\<not> (topChunk s \<le> x \<and> x < KPKHEAP_END)" if "x \<in> ?V" for x
    using that H(6) recycled_below [OF H(1,7), of x] parked_below [OF H(8,7), of x] by (auto simp: not_le)
  have Q: "(129 :: nat) = unat (65536 :: u64) div 512 + 1" "(129 :: nat) < 256" "unat nail mod 512 + unat (65536 :: u64) \<le> 512 * 129"
      "(66048 :: u64) = of_nat (512 * 129)" using q(1) by simp_all
  have V: "?V \<inter> G = {}" "bytes_of buffer 65536 \<subseteq> ?V" using H(3,5,9) b by blast+
  obtain c s2 where a: "readDisk P nail 65536 buffer s = kpkFree (c + 32) s2" "lent 66048 13 c s2" "heap_room {} (cost 512 F + n) s2"
      "disk_step ?V 13 buffer ?bs s s2" "?V \<inter> bytes_of c (32 + 66048) = {}"
      "\<forall>x \<in> bytes_of c (32 + 66048). x \<in> G \<or> topChunk s \<le> x \<and> x < KPKHEAP_END"
    using readDisk_fill [OF drive Q(1,2,3) q(2) Q(4) H(2) room V(1) low V(2)] by blast
  note A = a(4) [unfolded disk_step_def]
  have keep: "kmem s2 x = kmem s x" if "x \<in> F \<union> ?C" for x
  proof -
    have "\<not> within buffer 65536 x" using that b H(4,9) by (auto simp: bytes_of_def)
    then show ?thesis using A that puts_at_off [of ?bs buffer x "kmem s"] by simp
  qed
  have p2: "parked 16 0 nd0 c0 s2" by (rule parked_cong [OF H(8)]) (use A keep in auto)
  have D: "bytes_of c (32 + 66048) \<inter> ?C = {}" using a(5) by blast
  obtain s3 where f: "kpkFree (c + 32) s2 = Some s3" "recycled 66048 13 (bytes_of c (32 + 66048) \<union> bytes_of (c0 + 32) 16) s3"
      "heap_room {0} (cost 512 F + n) s3" "topChunk s3 = topChunk s2" "heap.more s3 = heap.more s2" "kout s3 = kout s2"
      "\<forall>j. j \<noteq> 13 \<and> j \<noteq> 0 \<longrightarrow> bucket s3 ! j = bucket s2 ! j" "\<forall>x. x \<noteq> c \<and> x \<notin> bytes_of c0 48 \<longrightarrow> kmem s3 x = kmem s2 x"
      "ll_size (bucket s3 ! 0) = 0"
    using free_reuses [OF a(2) _ _ p2 a(3) D] by auto
  let ?G = "bytes_of c (32 + 66048) \<union> bytes_of (c0 + 32) 16"
  have cc: "c \<in> bytes_of c (32 + 66048)" "bytes_of (c0 + 32) 16 \<subseteq> bytes_of c0 48"
    using within_shift [of 32 16 48 c0] by (auto simp: bytes_of_def within_def)
  have o3: "kmem s3 x = kmem s2 x" if "x \<in> U \<union> F" for x
  proof -
    have "x \<noteq> c" "x \<notin> bytes_of c0 48" using that a(5) cc(1) H(9) by blast+
    then show ?thesis using f(8) by blast
  qed
  have "recycled 512 5 F s3"
    by (rule recycled_cong [OF H(1)]) (use A f(4,7) o3 keep in auto)
  moreover have "F \<inter> ?G = {}" "U \<inter> F = {}" "U \<inter> ?G = {}" using a(5) H(4,9) cc(2) by blast+
  moreover have "\<not> (topChunk s3 \<le> x \<and> x < KPKHEAP_END)" if "x \<in> U" for x
  proof -
    have "topChunk s \<le> topChunk s3" using A f(4) by simp
    then show ?thesis using H(6) that by (meson order_trans)
  qed
  moreover have "heap_room {0} (cost 512 F + cost 66048 ?G + n) s3" using f(3) cc(1) by (auto simp: cost_def)
  ultimately have "disk_heap U n s3" using f(2,9) by (intro disk_heapI [of F _ ?G]) auto
  moreover have "disk_read U buffer (disk_bytes img (unat nail) 65536) s s3"
    using A f(6) disk_state_more [OF f(5)] o3 by (simp add: disk_read_def)
  ultimately show ?thesis using a(1) f(1) by auto
qed

section \<open>A concrete state\<close>

text \<open>An empty heap and the drive of the theory before.\<close>

definition disk_init :: "sim_drive disk_state" where
  "disk_init = heap.extend (heap_init (\<lambda>_. 0)) (disk_state.fields \<lparr>sim_regs = \<lambda>_. 0, sim_left = [], sim_busy = False\<rparr>)"

lemma disk_init_class:
  assumes "size_class z = Some k" "0 < k" "k < 21"
  shows "recycled z k {} disk_init"
  using assms by (simp add: recycled_def disk_init_def heap_init_def heap.extend_def disk_state.fields_def LinkedList_def KPKBUCKET_SIZE_def)

lemma size_class_512: "size_class 512 = Some 5" "size_class 66048 = Some 13" 
  by (simp_all add: size_class_def alignSize_def msb_def lsb_def bucket_index_def bsr_nat.simps bsf_nat.simps MIN_CHUNK_SIZE_def)


end
