(* ===== verification/Fat_Volume.thy ===== *)
theory Fat_Volume
  imports Disk Filesystem
begin

text \<open>
  Finding files on a FAT16 volume: what the loops of
  \<open>src/src/kernel/filesystem/FAT16/fat16.cpp\<close> compute, as a function of the bytes on the disk. The
  volume is an image behind a drive that answers as documented. The file allocation table is a
  function from clusters to clusters (\<open>fat_next\<close>), a file a list of clusters (\<open>fat_chain\<close>), a directory a
  sequence of entries of 32 bytes (\<open>dir_entry\<close>), names are compared up to the case of letters (\<open>lower\<close>), and a path
  leads from directory to directory (\<open>path_at\<close>). The clusters have the size the code assumes, 128 sectors of 512 bytes,
  cluster \<open>c\<close> starts where the format puts it (\<open>cluster_start\<close>), and the end of a chain is marked by 0xffff. What the
  code does differently from the format is excluded by conditions that say so: characters that its comparison takes for
  the same letter (\<open>dir_clear\<close>), directories of more than one cluster, and directories without an end mark.
\<close>


section \<open>The volume\<close>

text \<open>Entries of the file allocation table are at two bytes each behind the reserved sectors.\<close>

definition disk16 :: "(nat \<Rightarrow> u16 list) \<Rightarrow> nat \<Rightarrow> u16" where
  "disk16 img a = of_nat (unat (disk_byte img a) + 256 * unat (disk_byte img (a + 1)))"

definition fat_pos :: "('d, 'z) fs_state_scheme \<Rightarrow> u64 \<Rightarrow> nat" where
  "fat_pos s c = unat (reservedSectorsCount (fat_hdr s)) * 512 + 2 * unat c"

definition fat_next :: "(nat \<Rightarrow> u16 list) \<Rightarrow> ('d, 'z) fs_state_scheme \<Rightarrow> u64 \<Rightarrow> u16" where
  "fat_next img s c = disk16 img (fat_pos s c)"

text \<open>The geometry that \<open>freadCallback\<close> assumes.\<close>

definition fat_geometry :: "('d, 'z) fs_state_scheme \<Rightarrow> bool" where
  "fat_geometry s \<longleftrightarrow> sectorsPerCluster (fat_hdr s) = 0x80 \<and> bytesPerSector (fat_hdr s) = 512 \<and>
     unat (root_end s) mod 512 = 0 \<and> 0 < unat (root_end s) \<and> unat (root_end s) < 2 ^ 36"

text \<open>Clusters are numbered from 2 and follow the root directory, 65536 bytes each.\<close>

definition cluster_start :: "('d, 'z) fs_state_scheme \<Rightarrow> u64 \<Rightarrow> nat" where
  "cluster_start s c = unat (root_end s) + (unat c - 2) * 65536"

text \<open>The clusters of a file: from its first one along the table up to the mark 0xffff.\<close>

primrec fat_chain :: "(u64 \<Rightarrow> u16) \<Rightarrow> u64 \<Rightarrow> u64 list \<Rightarrow> bool" where
  "fat_chain nxt e [] \<longleftrightarrow> e = 0xffff"
| "fat_chain nxt e (c # cs) \<longleftrightarrow> e = c \<and> 2 \<le> c \<and> c < 0xffff \<and> fat_chain nxt (ucast (nxt c)) cs"

definition cluster_bytes :: "(nat \<Rightarrow> u16 list) \<Rightarrow> ('d, 'z) fs_state_scheme \<Rightarrow> u64 \<Rightarrow> byte list" where
  "cluster_bytes img s c = disk_bytes img (cluster_start s c) 65536"

lemma length_cluster_bytes [simp]: "length (cluster_bytes img s c) = 65536"
  by (simp add: cluster_bytes_def)

lemma length_concat_clusters: "length (concat (map (cluster_bytes img s) cs)) = 65536 * length cs"
  by (induction cs) simp_all

lemma fs_more_cong:
  assumes "disk_state.more s' = disk_state.more s"
  shows "fat_hdr s' = fat_hdr s" "root_end s' = root_end s" "fds s' = fds s" "fileDescriptors s' = fileDescriptors s" "root_start s' = root_start s"
  using assms by (cases s; cases s'; simp)+

lemma fat_cong:
  assumes "disk_state.more s' = disk_state.more s"
  shows "findFATOffset s' = findFATOffset s" "fat_next img s' = fat_next img s" "cluster_bytes img s' = cluster_bytes img s"
    "fat_geometry s' = fat_geometry s"
  by (rule ext | simp add: findFATOffset_def fat_next_def fat_pos_def cluster_bytes_def cluster_start_def fat_geometry_def fs_more_cong [OF assms])+

lemma findFATOffset_pos:
  assumes g: "fat_geometry s" and c: "2 \<le> c" "c < 0xffff"
  shows "unat (findFATOffset s c) = cluster_start s c"
    "unat (findFATOffset s c) mod 512 = 0" "unat (findFATOffset s c) div 512 < 2 ^ 28"
proof -
  define d where "d = c - 2"
  have u: "unat d = unat c - 2" "unat d < 65535" using c by (simp_all add: d_def unat_sub word_less_nat_alt)
  have e: "unat (root_end s) < 68719476736" "unat (root_end s) mod 512 = 0" using g by (simp_all add: fat_geometry_def)
  have "findFATOffset s c = root_end s + d * 65536"
    using g by (simp add: findFATOffset_def fat_geometry_def d_def [symmetric])
  then have f: "unat (findFATOffset s c) = unat (root_end s) + unat d * 65536"
    using u(2) e by (simp add: unat_word_ariths)
  then show "unat (findFATOffset s c) = cluster_start s c" by (simp add: u(1) cluster_start_def)
  obtain r where "unat (root_end s) = 512 * r" using e(2) by auto
  then have "unat (findFATOffset s c) = 512 * (r + unat d * 128)" using f by simp
  then show "unat (findFATOffset s c) mod 512 = 0" by simp
  show "unat (findFATOffset s c) div 512 < 2 ^ 28" unfolding f using e(1) u(2) by (simp add: less_mult_imp_div_less)
qed

lemma disk_read_at:
  assumes "disk_read U buffer bs s s'" "bytes_of buffer (of_nat (length bs)) \<subseteq> U" "i < length bs" "length bs < 2 ^ 64"
  shows "kmem s' (buffer + of_nat i) = bs ! i"
proof -
  have "buffer + of_nat i \<in> U"
    using assms(2-4) by (auto simp: bytes_of_def within_def word_less_nat_alt unsigned_of_nat take_bit_nat_eq_self)
  then show ?thesis using assms by (simp add: disk_read_def puts_at_nth unsigned_of_nat take_bit_nat_eq_self)
qed

lemma getFATEntry_reads:
  fixes s :: "('d, 'z) fs_state_scheme"
  assumes drive: "ata_drive P img xfer delay" and h: "disk_heap U (48 + n) s" and b: "bytes_of (at_local A) 2 \<subseteq> U" and c: "c < 0x10000"
  shows "\<exists>s'. getFATEntry P A c s = Some (fat_next img s c, s') \<and> disk_heap U n s' \<and>
    disk_read U (at_local A) (disk_bytes img (fat_pos s c) 2) s s'"
proof -
  let ?nail = "ucast (reservedSectorsCount (fat_hdr s)) * SECTOR_SIZE + c * 2"
  have r: "unat (reservedSectorsCount (fat_hdr s)) < 65536" using unsigned_less [of "reservedSectorsCount (fat_hdr s)", where 'a = nat] by simp
  have c': "unat c < 65536" using c by (simp add: word_less_nat_alt)
  have n: "unat ?nail = fat_pos s c"
    using r c' by (simp add: fat_pos_def SECTOR_SIZE_def unat_word_ariths unat_ucast_up)
  have "fat_pos s c mod 512 + 2 \<le> 512" unfolding fat_pos_def by (simp add: mod_mult_mult1 [of 2 "unat c" 256, simplified])
  moreover have "fat_pos s c div 512 < 2 ^ 28" using r c' unfolding fat_pos_def by (simp add: less_mult_imp_div_less)
  ultimately obtain s' where s': "readDisk P ?nail 2 (at_local A) s = Some s'" "disk_heap U n s'"
      "disk_read U (at_local A) (disk_bytes img (fat_pos s c) 2) s s'"
    using readDisk_small [OF drive h b, of ?nail] n by auto
  have "kmem s' (at_local A + of_nat 0) = disk_byte img (fat_pos s c)" "kmem s' (at_local A + of_nat 1) = disk_byte img (fat_pos s c + 1)"
    using disk_read_at [OF s'(3), of 0] disk_read_at [OF s'(3), of 1] b by simp_all
  then have "read16 (kmem s') (at_local A) = fat_next img s c"
    by (simp add: read16_def numeral_2_eq_2 fat_next_def disk16_def)
  then show ?thesis using s' by (auto simp: getFATEntry_def)
qed

text \<open>The loop of \<open>freadCallback\<close> follows the chain of clusters.\<close>

lemma disk_read_outside:
  assumes "disk_read U buffer bs s s'" "x \<in> U" "x \<notin> bytes_of buffer (of_nat (length bs))" "length bs < 2 ^ 64"
  shows "kmem s' x = kmem s x"
  using assms by (simp add: disk_read_def puts_at_off bytes_of_def)

lemma bytes_of_sub: "unat d + unat n \<le> unat k \<Longrightarrow> bytes_of (a + d) n \<subseteq> bytes_of a k"
  using within_shift by (auto simp: bytes_of_def)

lemma cluster_space:
  assumes "65536 * length (c # cs) < 2 ^ 64" "bytes_of (buffer + i) (of_nat (65536 * length (c # cs))) \<subseteq> V"
  shows "bytes_of (buffer + i) 65536 \<subseteq> V" "bytes_of (buffer + (i + 65536)) (of_nat (65536 * length cs)) \<subseteq> V"
proof -
  let ?k = "of_nat (65536 * length cs) :: u64"
  have uk: "unat ?k = 65536 * length cs" "unat (of_nat (65536 * length (c # cs)) :: u64) = 65536 + 65536 * length cs"
    using assms(1) by (subst unsigned_of_nat, simp add: take_bit_nat_eq_self)+
  show "bytes_of (buffer + i) 65536 \<subseteq> V" "bytes_of (buffer + (i + 65536)) ?k \<subseteq> V"
    using bytes_of_sub [of 0 65536 "of_nat (65536 * length (c # cs))" "buffer + i"]
      bytes_of_sub [of 65536 ?k "of_nat (65536 * length (c # cs))" "buffer + i"] uk assms(2) by (auto simp: add.assoc)
qed

text \<open>What the loop does with the clusters \<open>cs\<close> from position \<open>i\<close> of the buffer on.\<close>

definition clusters_read :: "fs_addrs \<Rightarrow> (nat \<Rightarrow> u16 list) \<Rightarrow> addr set \<Rightarrow> nat \<Rightarrow> addr \<Rightarrow> u64 list \<Rightarrow>
    ('d, 'z) fs_state_scheme \<Rightarrow> ('d, 'z) fs_state_scheme \<Rightarrow> bool" where
  "clusters_read A img U n a cs s s' \<longleftrightarrow> disk_heap U n s' \<and> kout s' = kout s \<and> disk_state.more s' = disk_state.more s \<and>
     (\<forall>x \<in> U - bytes_of (at_local A) 2. kmem s' x = puts_at a (concat (map (cluster_bytes img s) cs)) (kmem s) x)"

text \<open>One round, given the cluster that it reads.\<close>

lemma fread_loop_step:
  fixes s :: "('d, 'z) fs_state_scheme"
  assumes drive: "ata_drive P img xfer delay" and b: "bytes_of (at_local A) 2 \<subseteq> U" and c: "2 \<le> c" "c < 0xffff"
    and rd: "readDisk P (findFATOffset s c) 65536 (buffer + i) s = Some s1" "disk_heap U (48 + n) s1"
      "disk_read U (buffer + i) (cluster_bytes img s c) s s1" and l: "65536 * length (c # cs) < 2 ^ 64"
  shows "\<exists>s2. disk_heap U n s2 \<and> disk_state.more s2 = disk_state.more s \<and>
    fread_loop P A buffer c (findFATOffset s c) i s =
      fread_loop P A buffer (ucast (fat_next img s c)) (findFATOffset s (ucast (fat_next img s c))) (i + 65536) s2 \<and>
    (\<forall>s'. clusters_read A img U k (buffer + (i + 65536)) cs s2 s' \<longrightarrow> clusters_read A img U k (buffer + i) (c # cs) s s')"
proof -
  let ?L = "bytes_of (at_local A) 2"
  have m1: "disk_state.more s1 = disk_state.more s" using rd(3) by (simp add: disk_read_def)
  have c16: "c < 0x10000" using c(2) by (simp add: word_less_nat_alt)
  obtain s2 where s2: "getFATEntry P A c s1 = Some (fat_next img s c, s2)" "disk_heap U n s2"
      "disk_read U (at_local A) (disk_bytes img (fat_pos s1 c) 2) s1 s2"
    using getFATEntry_reads [OF drive rd(2) b c16] fat_cong(2) [OF m1] by auto
  have m2: "disk_state.more s2 = disk_state.more s" using s2(3) m1 by (simp add: disk_read_def)
  note fc = fat_cong [OF m2]
  have k2: "kmem s2 x = puts_at (buffer + i) (cluster_bytes img s c) (kmem s) x" if "x \<in> U - ?L" for x
    using that disk_read_outside [OF s2(3), of x] rd(3) by (simp add: disk_read_def)
  have "puts_at (buffer + (i + 65536)) (concat (map (cluster_bytes img s) cs)) (kmem s2) x =
      puts_at (buffer + i) (concat (map (cluster_bytes img s) (c # cs))) (kmem s) x" if "x \<in> U - ?L" for x
    using that l k2 [OF that] unfolding list.map concat.simps puts_at_append
    by (simp add: puts_at_nth length_concat_clusters add.assoc)
  then have "clusters_read A img U k (buffer + (i + 65536)) cs s2 s' \<longrightarrow> clusters_read A img U k (buffer + i) (c # cs) s s'" for s'
    using m2 fc(3) s2(3) rd(3) by (auto simp: clusters_read_def disk_read_def)
  moreover have "fread_loop P A buffer c (findFATOffset s c) i s =
      fread_loop P A buffer (ucast (fat_next img s c)) (findFATOffset s (ucast (fat_next img s c))) (i + 65536) s2"
    using rd(1) s2(1) c fc(1) by (subst fread_loop.simps) auto
  ultimately show ?thesis using s2(2) m2 by blast
qed

lemma fread_loop_reads:
  fixes s :: "('d, 'z) fs_state_scheme"
  assumes drive: "ata_drive P img xfer delay" and b: "bytes_of (at_local A) 2 \<subseteq> U"
  shows "fat_geometry s \<Longrightarrow> disk_heap U (96 * length cs + n) s \<Longrightarrow> fat_chain (fat_next img s) e cs \<Longrightarrow> nail = findFATOffset s e \<Longrightarrow>
    65536 * length cs < 2 ^ 64 \<Longrightarrow> bytes_of (buffer + i) (of_nat (65536 * length cs)) \<subseteq> U - bytes_of (at_local A) 2 \<Longrightarrow>
    \<exists>s'. fread_loop P A buffer e nail i s = Some s' \<and> clusters_read A img U n (buffer + i) cs s s'"
proof (induction cs arbitrary: s e nail i)
  case Nil
  then show ?case by (subst fread_loop.simps) (simp add: clusters_read_def)
next
  case (Cons c cs)
  have c: "e = c" "2 \<le> c" "c < 0xffff" "fat_chain (fat_next img s) (ucast (fat_next img s c)) cs" using Cons.prems(3) by simp_all
  note pos = findFATOffset_pos [OF Cons.prems(1) c(2,3)] and sub = cluster_space [OF Cons.prems(5,6)]
  have h1: "disk_heap U (48 + (48 + (96 * length cs + n))) s" using Cons.prems(2) by (simp add: add.assoc)
  obtain s1 where s1: "readDisk P (findFATOffset s c) 65536 (buffer + i) s = Some s1" "disk_heap U (48 + (96 * length cs + n)) s1"
      "disk_read U (buffer + i) (cluster_bytes img s c) s s1"
    using readDisk_large [OF drive h1, of "buffer + i" "findFATOffset s c"] sub(1) pos by (auto simp: cluster_bytes_def)
  obtain s2 where s2: "disk_heap U (96 * length cs + n) s2" "disk_state.more s2 = disk_state.more s"
      "fread_loop P A buffer c (findFATOffset s c) i s =
        fread_loop P A buffer (ucast (fat_next img s c)) (findFATOffset s (ucast (fat_next img s c))) (i + 65536) s2"
      "\<forall>s'. clusters_read A img U n (buffer + (i + 65536)) cs s2 s' \<longrightarrow> clusters_read A img U n (buffer + i) (c # cs) s s'"
    using fread_loop_step [OF drive b c(2,3) s1 Cons.prems(5), of n] by blast
  note fc = fat_cong [OF s2(2)]
  obtain s' where "fread_loop P A buffer (ucast (fat_next img s c)) (findFATOffset s (ucast (fat_next img s c))) (i + 65536) s2 = Some s'"
      "clusters_read A img U n (buffer + (i + 65536)) cs s2 s'"
    using Cons.IH [of s2 "ucast (fat_next img s c)" _ "i + 65536"] Cons.prems(1,5) c(4) sub(2) s2(1) unfolding fc by auto
  then show ?case using s2(3,4) c(1) Cons.prems(4) by auto
qed

section \<open>Directories\<close>

definition dir_entry :: "(nat \<Rightarrow> u16 list) \<Rightarrow> nat \<Rightarrow> nat \<Rightarrow> byte list" where
  "dir_entry img nail i = disk_bytes img (nail + 32 * i) 32"

definition entry_name :: "byte list \<Rightarrow> byte list" where
  "entry_name e = fat_name (take 8 e) (take 3 (drop 8 e))"

text \<open>The letters A to Z in lower case, and every other character as it is.\<close>

definition lower :: "byte \<Rightarrow> byte" where
  "lower c = (if 0x41 \<le> c \<and> c \<le> 0x5a then c + 0x20 else c)"

text \<open>An entry in use, not a part of a long name, and one whose name is the one looked for up to the case of letters.\<close>

definition entry_used :: "byte list \<Rightarrow> bool" where
  "entry_used e \<longleftrightarrow> e ! 0 \<noteq> 0 \<and> e ! 0 \<noteq> 0xe5 \<and> e ! 11 \<noteq> 15"

definition entry_hit :: "byte list \<Rightarrow> byte list \<Rightarrow> bool" where
  "entry_hit nm e \<longleftrightarrow> entry_used e \<and> map lower nm = map lower (entry_name e)"

text \<open>
  \<open>istrcmp\<close> takes every two characters for equal that are 32 apart, such as the digit 1 and the letter Q. Two
  characters clash if they are 32 apart without being one letter in both cases; a directory is clear for a name up to
  the entry \<open>k\<close> if no character of the name clashes with the one at the same position of an entry in use.
\<close>

definition clash :: "byte \<Rightarrow> byte \<Rightarrow> bool" where
  "clash c1 c2 \<longleftrightarrow> (sint c1 + 32 = sint c2 \<or> sint c2 + 32 = sint c1) \<and> lower c1 \<noteq> lower c2"

definition dir_clear :: "(nat \<Rightarrow> u16 list) \<Rightarrow> nat \<Rightarrow> byte list \<Rightarrow> nat \<Rightarrow> bool" where
  "dir_clear img nail nm k \<longleftrightarrow> (\<forall>i \<le> k. let e = dir_entry img nail i in entry_used e \<longrightarrow> (\<forall>(c1, c2) \<in> set (zip nm (entry_name e)). \<not> clash c1 c2))"

lemma lower_ieq: "lower c1 = lower c2 \<Longrightarrow> ieq c1 c2"
proof -
  have up: "sint (c + 32) = sint c + 32" if "0x41 \<le> c" "c \<le> 0x5a" for c :: byte
  proof -
    have u: "65 \<le> uint c" "uint c \<le> 90" using that by (simp_all add: word_le_def)
    then have "uint (c + 32) = uint c + 32" by (simp add: uint_word_ariths)
    then show ?thesis using u by (simp add: sint_uint signed_take_bit_int_eq_self)
  qed
  assume "lower c1 = lower c2"
  then have "c1 = c2 \<or> 0x41 \<le> c1 \<and> c1 \<le> 0x5a \<and> c2 = c1 + 32 \<or> 0x41 \<le> c2 \<and> c2 \<le> 0x5a \<and> c1 = c2 + 32"
    unfolding lower_def by (simp only: add_right_cancel split: if_splits) blast+
  then show ?thesis unfolding ieq_def using up by (elim disjE conjE) simp_all
qed

lemma ieq_lower:
  assumes "\<not> clash c1 c2"
  shows "ieq c1 c2 \<longleftrightarrow> lower c1 = lower c2"
  using assms lower_ieq [of c1 c2] by (auto simp: ieq_def clash_def)

lemma list_ieq_lower:
  assumes "\<forall>(c1, c2) \<in> set (zip nm xs). \<not> clash c1 c2"
  shows "list_all2 ieq nm xs \<longleftrightarrow> map lower nm = map lower xs"
proof -
  have "list_all2 ieq nm xs \<longleftrightarrow> list_all2 (\<lambda>c1 c2. lower c1 = lower c2) nm xs"
    unfolding list_all2_iff using assms ieq_lower by fastforce
  then show ?thesis by (simp add: list_all2_map1 list_all2_map2 flip: list.rel_eq)
qed

lemma apart_of_disjoint:
  assumes "bytes_of a n \<inter> bytes_of b k = {}" "n \<noteq> 0" "k \<noteq> 0"
  shows "apart a n b k"
proof (rule ccontr)
  assume "\<not> apart a n b k"
  then have "b - a < n \<or> a - b < k" by (auto simp: apart_def not_le)
  then have "b \<in> bytes_of a n \<or> a \<in> bytes_of b k" by (simp add: bytes_of_def within_def)
  moreover have "a \<in> bytes_of a n" "b \<in> bytes_of b k" using assms(2,3) by (simp_all add: bytes_of_def within_def word_neq_0_conv)
  ultimately show False using assms(1) by blast
qed

lemma disk_heap_kmem:
  assumes "disk_heap U n s" "\<And>x. x \<notin> U \<Longrightarrow> m x = kmem s x"
  shows "disk_heap U n (s\<lparr>kmem := m\<rparr>)"
proof -
  obtain F G where H: "recycled 512 5 F s" "recycled 66048 13 G s" "F \<inter> G = {}" "U \<inter> F = {}" "U \<inter> G = {}"
      "\<forall>x \<in> U. \<not> (topChunk s \<le> x \<and> x < KPKHEAP_END)" "heap_room {0} (cost 512 F + cost 66048 G + n) s"
      "ll_size (bucket s ! 0) = 0"
    using disk_heapE [OF assms(1)] .
  have "recycled 512 5 F (s\<lparr>kmem := m\<rparr>)" "recycled 66048 13 G (s\<lparr>kmem := m\<rparr>)"
    using H(4,5) assms(2) by (intro recycled_cong [OF H(1)] recycled_cong [OF H(2)]; auto)+
  from disk_heapI [OF this H(3-5)] show ?thesis using H(6,7,8) by simp
qed

lemma bytes_at_puts:
  assumes "length bs < 2 ^ 64" "k + n \<le> length bs"
  shows "bytes_at (puts_at a bs m) (a + of_nat k) n = take n (drop k bs)"
proof (rule nth_equalityI)
  fix i assume "i < length (bytes_at (puts_at a bs m) (a + of_nat k) n)"
  then have i: "i < n" by (simp add: bytes_at_def)
  have "unat (of_nat (k + i) :: u64) = k + i"
    using i assms by (simp add: unsigned_of_nat take_bit_nat_eq_self del: of_nat_add)
  then show "bytes_at (puts_at a bs m) (a + of_nat k) n ! i = take n (drop k bs) ! i"
    using i assms by (simp add: bytes_at_def puts_at_nth add.assoc)
qed (use assms in \<open>simp add: bytes_at_def\<close>)

lemma fat_name_nonzero: "0 \<notin> set (fat_name nm ext)"
  by (auto simp: fat_name_def Let_def name_char_def dest: set_takeWhileD)

lemma cstr_padded:
  assumes "0 \<notin> set w" "length w < k" "k < 2 ^ 64"
  shows "cstr (puts_at a (w @ replicate (k - length w) 0) m) a w"
  using assms by (auto simp: cstr_iff puts_at_nth nth_append unsigned_of_nat take_bit_nat_eq_self)

text \<open>The memory of a search: the entry read, the static name, the name looked for, and the local variable.\<close>

definition search_memory :: "fs_addrs \<Rightarrow> addr set \<Rightarrow> addr \<Rightarrow> addr \<Rightarrow> byte list \<Rightarrow> bool" where
  "search_memory A U item name nm \<longleftrightarrow> bytes_of item 32 \<subseteq> U \<and> bytes_of (at_name A) 15 \<subseteq> U \<and> length nm < 2 ^ 32 \<and>
     bytes_of name (of_nat (length nm + 1)) \<subseteq> U - bytes_of (at_name A) 15 - bytes_of item 32 \<and>
     bytes_of item 32 \<inter> bytes_of (at_name A) 15 = {}"

text \<open>One entry is read and its name is compared.\<close>

lemma entry_compared:
  assumes M: "search_memory A U item name nm" and nm: "cstr (kmem s) name nm" and len: "length e = 32"
    and rd: "\<And>x. x \<in> U \<Longrightarrow> m x = puts_at item e (kmem s) x"
  defines "m' \<equiv> makeName (at_name A) item m"
  shows "m' item = e ! 0" "m' (item + 11) = e ! 11" "x \<in> U - bytes_of (at_name A) 15 \<Longrightarrow> m' x = puts_at item e (kmem s) x"
    "x \<notin> U \<Longrightarrow> m' x = m x" "cstr m' name nm" "\<exists>r. istrcmp m' name (at_name A) = Some r \<and> (r = 0 \<longleftrightarrow> list_all2 ieq nm (entry_name e))"
proof -
  note M' = M [unfolded search_memory_def]
  have inU: "item + of_nat i \<in> U" if "i < 32" for i
    using that M' by (auto simp: bytes_of_def within_def word_less_nat_alt unsigned_of_nat take_bit_nat_eq_self)
  have "bytes_at m (item + of_nat k) n = bytes_at (puts_at item e (kmem s)) (item + of_nat k) n" if "k + n \<le> 32" for k n
    by (rule bytes_at_cong) (use rd inU that in \<open>simp add: add.assoc flip: of_nat_add\<close>)
  from this [of 0 8] this [of 8 3] have "fat_name (bytes_at m item 8) (bytes_at m (item + 8) 3) = entry_name e"
    using bytes_at_puts [of e 0 8 item "kmem s"] bytes_at_puts [of e 8 3 item "kmem s"] len by (simp add: entry_name_def)
  moreover have "bytes_of item 11 \<subseteq> bytes_of item 32" by (auto simp: bytes_of_def within_def word_less_nat_alt)
  then have "apart item 11 (at_name A) 15" using M' by (intro apart_of_disjoint) auto
  ultimately have m': "m' = puts_at (at_name A) (entry_name e @ replicate (15 - length (entry_name e)) 0) m"
    unfolding m'_def using makeName_name [of item "at_name A"] by simp
  have le: "length (entry_name e) \<le> 12" unfolding entry_name_def by (rule length_fat_name) (use len in simp_all)
  have out: "m' x = m x" if "x \<notin> bytes_of (at_name A) 15" for x
    unfolding m' by (rule puts_at_off) (use that le in \<open>simp_all add: bytes_of_def\<close>)
  show o: "m' x = puts_at item e (kmem s) x" if "x \<in> U - bytes_of (at_name A) 15" for x using that out rd by simp
  show "x \<notin> U \<Longrightarrow> m' x = m x" using out M' by blast
  have it: "m' (item + of_nat i) = e ! i" if "i < 32" for i
  proof -
    have "item + of_nat i \<in> bytes_of item 32" using that by (simp add: bytes_of_def within_def word_less_nat_alt unsigned_of_nat take_bit_nat_eq_self)
    then have "m' (item + of_nat i) = puts_at item e (kmem s) (item + of_nat i)" using o M' by blast
    then show ?thesis using that len by (simp add: puts_at_nth unsigned_of_nat take_bit_nat_eq_self)
  qed
  show "m' item = e ! 0" "m' (item + 11) = e ! 11" using it [of 0] it [of 11] by simp_all
  have "cstr m' name nm = cstr (kmem s) name nm"
  proof (rule cstr_cong)
    fix i assume "i \<le> length nm"
    then have "name + of_nat i \<in> bytes_of name (of_nat (length nm + 1))"
      using M' by (simp add: bytes_of_def within_def word_less_nat_alt unsigned_of_nat take_bit_nat_eq_self del: of_nat_add of_nat_Suc)
    then have "name + of_nat i \<in> U - bytes_of (at_name A) 15" "name + of_nat i \<notin> bytes_of item 32" using M' by blast+
    then show "m' (name + of_nat i) = kmem s (name + of_nat i)"
      using o puts_at_off [of e item "name + of_nat i"] len by (simp add: bytes_of_def)
  qed
  then show c: "cstr m' name nm" using nm by simp
  have "cstr m' (at_name A) (entry_name e)"
    unfolding m' by (rule cstr_padded) (use le fat_name_nonzero in \<open>auto simp: entry_name_def\<close>)
  then show "\<exists>r. istrcmp m' name (at_name A) = Some r \<and> (r = 0 \<longleftrightarrow> list_all2 ieq nm (entry_name e))"
    using strcmp_istrcmp_zero [OF c] M' by blast
qed

text \<open>The entry at which a search stops: the first that has the name, or the end of the directory.\<close>

definition dir_stop :: "(nat \<Rightarrow> u16 list) \<Rightarrow> nat \<Rightarrow> byte list \<Rightarrow> nat \<Rightarrow> bool" where
  "dir_stop img nail nm k \<longleftrightarrow> (let e = dir_entry img nail k in e ! 0 = 0 \<or> entry_hit nm e) \<and>
     (\<forall>i < k. let e = dir_entry img nail i in e ! 0 \<noteq> 0 \<and> \<not> entry_hit nm e)"

lemma dir_stop_Suc:
  assumes "dir_stop img nail nm (Suc k)"
  shows "dir_stop img (nail + 32) nm k" "dir_entry img nail 0 ! 0 \<noteq> 0" "\<not> entry_hit nm (dir_entry img nail 0)"
proof -
  have e: "dir_entry img (nail + 32) i = dir_entry img nail (Suc i)" for i by (simp add: dir_entry_def add.assoc)
  show "dir_stop img (nail + 32) nm k" using assms unfolding dir_stop_def e by auto
  show "dir_entry img nail 0 ! 0 \<noteq> 0" "\<not> entry_hit nm (dir_entry img nail 0)" using assms by (auto simp: dir_stop_def Let_def)
qed

lemma dir_clear_Suc:
  assumes "dir_clear img nail nm (Suc k)"
  shows "dir_clear img (nail + 32) nm k" "dir_clear img nail nm 0"
proof -
  have e: "dir_entry img (nail + 32) i = dir_entry img nail (Suc i)" for i by (simp add: dir_entry_def add.assoc)
  show "dir_clear img (nail + 32) nm k" "dir_clear img nail nm 0" using assms unfolding dir_clear_def e by (blast intro: Suc_leI le_imp_less_Suc)+
qed

text \<open>After a search the entry is in the buffer, and only it and the static name have changed.\<close>

definition found :: "fs_addrs \<Rightarrow> addr set \<Rightarrow> addr \<Rightarrow> byte list \<Rightarrow> ('d, 'z) fs_state_scheme \<Rightarrow> ('d, 'z) fs_state_scheme \<Rightarrow> bool" where
  "found A U item e s s' \<longleftrightarrow> kout s' = kout s \<and> disk_state.more s' = disk_state.more s \<and>
     (\<forall>x \<in> U - bytes_of (at_name A) 15. kmem s' x = puts_at item e (kmem s) x)"

lemma mod_512_entry: "a mod 32 = 0 \<Longrightarrow> a mod 512 + 32 \<le> (512 :: nat)"
proof -
  assume "a mod 32 = 0"
  then obtain r where "a = 32 * r" by auto
  then have "a mod 512 = 32 * (r mod 16)" using mod_mult_mult1 [of 32 r 16] by simp
  then show ?thesis using mod_less_divisor [of 16 r] by simp
qed

lemma findInDir_step:
  fixes s :: "('d, 'z) fs_state_scheme"
  assumes drive: "ata_drive P img xfer delay" and M: "search_memory A U item name nm" and h: "disk_heap U (48 + n) s"
    and nm: "cstr (kmem s) name nm" and na: "unat nail mod 32 = 0" "unat nail + 32 \<le> 2 ^ 37"
    and cl: "dir_clear img (unat nail) nm 0"
  defines "e \<equiv> dir_entry img (unat nail) 0"
  shows "\<exists>s2. disk_heap U n s2 \<and> found A U item e s s2 \<and> cstr (kmem s2) name nm \<and> findInDir P A nail name item s =
    (if e ! 0 = 0 \<or> entry_hit nm e then Some s2 else findInDir P A (nail + 32) name item s2)"
proof -
  have b: "bytes_of item 32 \<subseteq> U" using M by (simp add: search_memory_def)
  have "unat nail < 268435456 * 512" using na(2) by simp
  then have q: "unat (32 :: u64) < 512" "unat nail div 512 < 2 ^ 28" by (simp_all add: less_mult_imp_div_less)
  have q': "unat nail mod 512 + unat (32 :: u64) \<le> 512" using mod_512_entry [OF na(1)] by simp
  obtain s1 where s1: "readDisk P nail 32 item s = Some s1" "disk_heap U n s1" "disk_read U item e s s1"
    using readDisk_small [OF drive h b q(1) q' q(2)] by (auto simp: e_def dir_entry_def)
  have len: "length e = 32" by (simp add: e_def dir_entry_def)
  have rd: "kmem s1 x = puts_at item e (kmem s) x" if "x \<in> U" for x using s1(3) that by (simp add: disk_read_def)
  let ?s2 = "s1\<lparr>kmem := makeName (at_name A) item (kmem s1)\<rparr>"
  note C = entry_compared [OF M nm len rd, simplified]
  obtain r where r: "istrcmp (kmem ?s2) name (at_name A) = Some r" "r = 0 \<longleftrightarrow> list_all2 ieq nm (entry_name e)" using C(6) by auto
  have r0: "r = 0 \<longleftrightarrow> map lower nm = map lower (entry_name e)" if "entry_used e"
    unfolding r(2) by (rule list_ieq_lower) (use cl that in \<open>simp add: dir_clear_def e_def\<close>)
  have "disk_heap U n ?s2" by (rule disk_heap_kmem [OF s1(2)]) (rule C(4))
  moreover have "found A U item e s ?s2" using s1(3) C(3) by (simp add: found_def disk_read_def)
  moreover have "findInDir P A nail name item s =
      (if e ! 0 = 0 \<or> entry_hit nm e then Some ?s2 else findInDir P A (nail + 32) name item ?s2)"
    using s1(1) C(1,2) r(1) r0 by (subst findInDir.simps) (auto simp: sizeof_Item_def entry_hit_def entry_used_def Let_def)
  ultimately show ?thesis using C(5) by (intro exI [of _ ?s2]) simp
qed

lemma findInDir_loop:
  fixes s :: "('d, 'z) fs_state_scheme"
  assumes drive: "ata_drive P img xfer delay" and M: "search_memory A U item name nm"
  shows "disk_heap U (48 * Suc k + n) s \<Longrightarrow> cstr (kmem s) name nm \<Longrightarrow> unat nail mod 32 = 0 \<Longrightarrow> unat nail + 32 * k + 32 \<le> 2 ^ 37 \<Longrightarrow>
    dir_stop img (unat nail) nm k \<Longrightarrow> dir_clear img (unat nail) nm k \<Longrightarrow>
    \<exists>s'. findInDir P A nail name item s = Some s' \<and> disk_heap U n s' \<and> found A U item (dir_entry img (unat nail) k) s s'"
proof (induction k arbitrary: s nail)
  case 0
  then show ?case using findInDir_step [OF drive M, of n s nail] by (auto simp: dir_stop_def Let_def)
next
  case (Suc k)
  have h: "disk_heap U (48 + (48 * Suc k + n)) s" using Suc.prems(1) by (simp add: add.assoc)
  note d = dir_stop_Suc [OF Suc.prems(5)] and cl = dir_clear_Suc [OF Suc.prems(6)]
  have na: "unat nail + 32 \<le> 2 ^ 37" "unat (nail + 32) = unat nail + 32" using Suc.prems(4) by (simp_all add: unat_word_ariths)
  obtain s2 where s2: "disk_heap U (48 * Suc k + n) s2" "found A U item (dir_entry img (unat nail) 0) s s2" "cstr (kmem s2) name nm"
      "findInDir P A nail name item s = findInDir P A (nail + 32) name item s2"
    using findInDir_step [OF drive M h Suc.prems(2,3) na(1) cl(2)] d(2,3) by auto
  obtain s' where s': "findInDir P A (nail + 32) name item s2 = Some s'" "disk_heap U n s'"
      "found A U item (dir_entry img (unat (nail + 32)) k) s2 s'"
    using Suc.IH [OF s2(1,3), of "nail + 32"] Suc.prems(3,4) d(1) cl(1) na(2) by auto
  have "dir_entry img (unat (nail + 32)) k = dir_entry img (unat nail) (Suc k)" unfolding na(2) by (simp add: dir_entry_def add.assoc)
  then have "found A U item (dir_entry img (unat nail) (Suc k)) s s'"
    using s2(2) s'(3) by (auto simp: found_def puts_at_nth dir_entry_def)
  then show ?case using s2(4) s' by auto
qed

text \<open>A directory is where 28-bit sector numbers reach and its entries do not cross sectors.\<close>

definition dir_place :: "nat \<Rightarrow> nat \<Rightarrow> bool" where
  "dir_place nail k \<longleftrightarrow> nail mod 32 = 0 \<and> nail + 32 * k + 32 \<le> 2 ^ 37"


section \<open>Paths on the volume\<close>

text \<open>The memory that a search leaves alone.\<close>

definition quiet :: "fs_addrs \<Rightarrow> addr set \<Rightarrow> addr \<Rightarrow> addr set" where
  "quiet A U item = U - bytes_of (at_name A) 15 - bytes_of item 32 - bytes_of (at_local A) 2"

text \<open>\<open>findItem\<close> on a directory of one cluster.\<close>

lemma findItem_reads:
  fixes s :: "('d, 'z) fs_state_scheme"
  assumes drive: "ata_drive P img xfer delay" and b: "bytes_of (at_local A) 2 \<subseteq> U"
    and c: "c < 0xffff" "fat_next img s c = 0xffff" and h: "disk_heap U (48 + n) s"
  shows "\<exists>s'. findItem P A c s = Some (findFATOffset s c, s') \<and> disk_heap U n s' \<and> kout s' = kout s \<and>
      disk_state.more s' = disk_state.more s \<and> (\<forall>x \<in> U - bytes_of (at_local A) 2. kmem s' x = kmem s x)"
proof -
  have c16: "c < 0x10000" using c(1) by (simp add: word_less_nat_alt)
  obtain s1 where s1: "getFATEntry P A c s = Some (0xffff, s1)" "disk_heap U n s1"
      "disk_read U (at_local A) (disk_bytes img (fat_pos s c) 2) s s1"
    using getFATEntry_reads [OF drive h b c16] c(2) by auto
  have m1: "disk_state.more s1 = disk_state.more s" using s1(3) by (simp add: disk_read_def)
  have "kmem s1 x = kmem s x" if "x \<in> U - bytes_of (at_local A) 2" for x
    using disk_read_outside [OF s1(3), of x] that by simp
  moreover have "findItem P A c s = Some (findFATOffset s c, s1)"
    using s1(1) fat_cong(1) [OF m1] by (simp add: findItem_def findItem_loop.simps)
  ultimately show ?thesis using s1 m1 by (auto simp: disk_read_def)
qed

text \<open>The first cluster of an entry, as \<open>item_cluster\<close> computes it in memory.\<close>

definition le16 :: "byte list \<Rightarrow> u16" where
  "le16 bs = of_nat (unat (bs ! 0) + 256 * unat (bs ! 1))"

definition entry_cluster :: "byte list \<Rightarrow> u64" where
  "entry_cluster e = scast (push_bit 16 (ucast (le16 (drop 20 e))) + ucast (le16 (drop 26 e)) :: u32)"

text \<open>
  \<open>path_at img s nail lim names r n\<close>: in the directory of \<open>lim\<close> bytes at position \<open>nail\<close> of the disk, the names lead to the
  entry \<open>r\<close>, or to nothing, and the search costs \<open>n\<close> bytes of heap, 48 for every disk access. The entry of the name or the
  end mark lies within the directory, and the directory is clear for the name. A step goes into a directory (the bit 0x10 of its
  attribute is set) of one cluster.
\<close>

definition dir_search :: "(nat \<Rightarrow> u16 list) \<Rightarrow> nat \<Rightarrow> nat \<Rightarrow> byte list \<Rightarrow> nat \<Rightarrow> bool" where
  "dir_search img nail lim nm k \<longleftrightarrow> dir_stop img nail nm k \<and> dir_clear img nail nm k \<and> dir_place nail k \<and> 32 * Suc k \<le> lim"

inductive path_at :: "(nat \<Rightarrow> u16 list) \<Rightarrow> ('d, 'z) fs_state_scheme \<Rightarrow> nat \<Rightarrow> nat \<Rightarrow> byte list list \<Rightarrow> byte list option \<Rightarrow> nat \<Rightarrow> bool"
  for img s where
  path_missing: "dir_search img nail lim nm k \<Longrightarrow> \<not> entry_hit nm (dir_entry img nail k) \<Longrightarrow>
    path_at img s nail lim (nm # names) None (48 * Suc k)"
| path_last: "dir_search img nail lim nm k \<Longrightarrow> entry_hit nm (dir_entry img nail k) \<Longrightarrow>
    path_at img s nail lim [nm] (Some (dir_entry img nail k)) (48 * Suc k)"
| path_step: "dir_search img nail lim nm k \<Longrightarrow> entry_hit nm (dir_entry img nail k) \<Longrightarrow> bit (dir_entry img nail k ! 11) 4 \<Longrightarrow>
    c = entry_cluster (dir_entry img nail k) \<Longrightarrow> 2 \<le> c \<Longrightarrow> c < 0xffff \<Longrightarrow> fat_next img s c = 0xffff \<Longrightarrow> names \<noteq> [] \<Longrightarrow>
    path_at img s (cluster_start s c) 65536 names r n \<Longrightarrow> path_at img s nail lim (nm # names) r (48 * Suc k + 48 + n)"

text \<open>The names lead from the root directory, which ends where the clusters begin.\<close>

definition root_path :: "(nat \<Rightarrow> u16 list) \<Rightarrow> ('d, 'z) fs_state_scheme \<Rightarrow> byte list list \<Rightarrow> byte list option \<Rightarrow> nat \<Rightarrow> bool" where
  "root_path img s names r n \<longleftrightarrow> path_at img s (unat (root_start s)) (unat (root_end s) - unat (root_start s)) names r n"

text \<open>A parsed path: linked nodes with a name and a link each, inside the memory \<open>W\<close>.\<close>

primrec path_list :: "addr set \<Rightarrow> mem \<Rightarrow> addr \<Rightarrow> byte list list \<Rightarrow> bool" where
  "path_list W m p [] \<longleftrightarrow> p = 0"
| "path_list W m p (nm # names) \<longleftrightarrow> p \<noteq> 0 \<and> cstr m p nm \<and> length nm < 2 ^ 32 \<and> bytes_of p (of_nat (length nm + 1)) \<subseteq> W \<and>
     bytes_of (p + 8) 8 \<subseteq> W \<and> path_list W m (nextDir m p) names"

lemma path_list_cong:
  assumes "\<And>x. x \<in> W \<Longrightarrow> m' x = m x"
  shows "path_list W m p names \<Longrightarrow> path_list W m' p names"
proof (induction names arbitrary: p)
  case (Cons nm names)
  have "cstr m' p nm = cstr m p nm"
  proof (rule cstr_cong)
    fix i assume "i \<le> length nm"
    then have "p + of_nat i \<in> bytes_of p (of_nat (length nm + 1))"
      using Cons.prems by (simp add: bytes_of_def within_def word_less_nat_alt unsigned_of_nat take_bit_nat_eq_self del: of_nat_add of_nat_Suc)
    then show "m' (p + of_nat i) = m (p + of_nat i)" using Cons.prems assms by auto
  qed
  moreover have "nextDir m' p = nextDir m p"
    unfolding nextDir_def by (rule read64_cong) (use Cons.prems assms in \<open>auto simp: bytes_of_def\<close>)
  ultimately show ?case using Cons by simp
qed simp

lemma entry_cluster_read:
  assumes "\<And>i. i < 32 \<Longrightarrow> m (item + of_nat i) = e ! i" "length e = 32"
  shows "item_cluster m item = entry_cluster e"
proof -
  have "m (item + 20) = e ! 20" "m (item + 21) = e ! 21" "m (item + 26) = e ! 26" "m (item + 27) = e ! 27"
    using assms(1) [of 20] assms(1) [of 21] assms(1) [of 26] assms(1) [of 27] by simp_all
  then have "read16 m (item + 20) = le16 (drop 20 e)" "read16 m (item + 26) = le16 (drop 26 e)"
    using assms(2) by (simp_all add: read16_def numeral_2_eq_2 le16_def add.assoc)
  then show ?thesis by (simp add: item_cluster_def entry_cluster_def get_Item_def)
qed

text \<open>The memory of an open, and an entry in memory.\<close>

definition open_memory :: "fs_addrs \<Rightarrow> addr set \<Rightarrow> addr \<Rightarrow> bool" where
  "open_memory A U item \<longleftrightarrow> bytes_of item 32 \<subseteq> U \<and> bytes_of (at_name A) 15 \<subseteq> U \<and> bytes_of (at_local A) 2 \<subseteq> U \<and>
     bytes_of item 32 \<inter> bytes_of (at_name A) 15 = {}"

definition holds_entry :: "addr \<Rightarrow> byte list \<Rightarrow> mem \<Rightarrow> bool" where
  "holds_entry item e m \<longleftrightarrow> (\<forall>i < 32. m (item + of_nat i) = e ! i)"

lemma disk_heap_kout [simp]: "disk_heap U n (s\<lparr>kout := ws\<rparr>) = disk_heap U n s"
  by (simp add: disk_heap_def two_buffers_def recycled_def parked_def heap_room_def)

text \<open>One name of the path, and then the whole path.\<close>

lemma component_searched:
  fixes s :: "('d, 'z) fs_state_scheme"
  assumes drive: "ata_drive P img xfer delay" and M: "open_memory A U item" and d: "dir_search img (unat nail) lim nm k"
    and p: "path_list (quiet A U item) (kmem s) p (nm # names)" and h: "disk_heap U (48 * Suc k + n) s"
  shows "\<exists>s1. findInDir P A nail p item s = Some s1 \<and> disk_heap U n s1 \<and> disk_state.more s1 = disk_state.more s \<and>
    (\<forall>x \<in> quiet A U item. kmem s1 x = kmem s x) \<and> holds_entry item (dir_entry img (unat nail) k) (kmem s1)"
proof -
  let ?e = "dir_entry img (unat nail) k"
  have sm: "search_memory A U item p nm" using M p by (auto simp: open_memory_def search_memory_def quiet_def)
  obtain s1 where s1: "findInDir P A nail p item s = Some s1" "disk_heap U n s1" "found A U item ?e s s1"
    using findInDir_loop [OF drive sm h, of nail] d p by (auto simp: dir_place_def dir_search_def)
  have len: "length ?e = 32" by (simp add: dir_entry_def)
  have "kmem s1 x = kmem s x" if "x \<in> quiet A U item" for x
    using that s1(3) len puts_at_off [of ?e item x "kmem s"] by (simp add: found_def quiet_def bytes_of_def)
  moreover have "holds_entry item ?e (kmem s1)"
    unfolding holds_entry_def
  proof (intro allI impI)
    fix i :: nat assume i: "i < 32"
    then have "item + of_nat i \<in> bytes_of item 32" by (simp add: bytes_of_def within_def word_less_nat_alt unsigned_of_nat take_bit_nat_eq_self)
    then have "kmem s1 (item + of_nat i) = puts_at item ?e (kmem s) (item + of_nat i)"
      using M s1(3) unfolding found_def open_memory_def by blast
    then show "kmem s1 (item + of_nat i) = ?e ! i" using i len by (simp add: puts_at_nth unsigned_of_nat take_bit_nat_eq_self)
  qed
  ultimately show ?thesis using s1 by (auto simp: found_def)
qed

lemma fopen_loop_component:
  fixes s :: "('d, 'z) fs_state_scheme"
  assumes drive: "ata_drive P img xfer delay" and M: "open_memory A U item" and d: "dir_search img (unat nail) lim nm k"
    and p: "path_list (quiet A U item) (kmem s) p (nm # names)" and h: "disk_heap U (48 * Suc k + n) s"
  defines "e \<equiv> dir_entry img (unat nail) k"
  shows "\<exists>s1 p1. disk_heap U n s1 \<and> disk_state.more s1 = disk_state.more s \<and> (\<forall>x \<in> quiet A U item. kmem s1 x = kmem s x) \<and>
    holds_entry item e (kmem s1) \<and> path_list (quiet A U item) (kmem s1) p1 names \<and>
    fopen_loop P A item p nail s =
     (if \<not> entry_hit nm e then Some (None, kpwarn ''File or Directory not found!'' s1)
      else if names = [] then Some (Some (findFATOffset s (entry_cluster e)), s1)
      else do { (nail1, s2) \<leftarrow> findItem P A (entry_cluster e) s1;
                if nail1 = 0 then do { s3 \<leftarrow> kpkFree item s2; Some (None, s3) } else fopen_loop P A item p1 nail1 s2 })"
proof -
  obtain s1 where s1: "findInDir P A nail p item s = Some s1" "disk_heap U n s1" "disk_state.more s1 = disk_state.more s"
      "\<forall>x \<in> quiet A U item. kmem s1 x = kmem s x" "holds_entry item e (kmem s1)"
    using component_searched [OF drive M d p h] unfolding e_def by blast
  have it: "kmem s1 item = e ! 0" using s1(5) by (auto simp: holds_entry_def dest: spec [of _ 0])
  have z: "e ! 0 = 0 \<longleftrightarrow> \<not> entry_hit nm e" using d by (auto simp: dir_search_def dir_stop_def Let_def e_def entry_hit_def entry_used_def)
  have pl: "path_list (quiet A U item) (kmem s1) p (nm # names)" by (rule path_list_cong [OF _ p]) (use s1(4) in simp)
  have cl: "item_cluster (kmem s1) item = entry_cluster e"
    by (rule entry_cluster_read) (use s1(5) in \<open>simp_all add: holds_entry_def e_def dir_entry_def\<close>)
  have nx: "nextDir (kmem s1) p = 0 \<longleftrightarrow> names = []" using pl by (cases names) auto
  show ?thesis
    by (rule exI [of _ s1], rule exI [of _ "nextDir (kmem s1) p"], subst fopen_loop.simps)
      (use s1 it z pl cl nx p fat_cong(1) [OF s1(3)] in \<open>simp add: Let_def\<close>)
qed

lemma fopen_loop_resolves:
  fixes s t :: "('d, 'z) fs_state_scheme"
  assumes drive: "ata_drive P img xfer delay" and M: "open_memory A U item" and g: "fat_geometry s"
  shows "path_at img s pos lim names r n \<Longrightarrow> pos = unat nail \<Longrightarrow> path_list (quiet A U item) (kmem t) p names \<Longrightarrow>
    disk_heap U (n + n0) t \<Longrightarrow> disk_state.more t = disk_state.more s \<Longrightarrow>
    \<exists>s'. fopen_loop P A item p nail t = Some (map_option (\<lambda>e. findFATOffset s (entry_cluster e)) r, s') \<and> disk_heap U n0 s' \<and>
      disk_state.more s' = disk_state.more s \<and> (\<forall>x \<in> quiet A U item. kmem s' x = kmem t x) \<and>
      (\<forall>e. r = Some e \<longrightarrow> holds_entry item e (kmem s'))"
proof (induction arbitrary: p t nail rule: path_at.induct)
  case (path_missing pos lim nm k names)
  note h = path_missing(1,2) [unfolded path_missing(3)]
  show ?case using fopen_loop_component [OF drive M h(1) path_missing(4,5)] h(2) path_missing(6) by (auto simp: kpwarn_def)
next
  case (path_last pos lim nm k)
  note h = path_last(1,2) [unfolded path_last(3)]
  show ?case using fopen_loop_component [OF drive M h(1) path_last(4,5)] h(2) path_last(3,6) fat_cong(1) [OF path_last(6)] by auto
next
  case (path_step pos lim nm k c names r n)
  let ?e = "dir_entry img (unat nail) k"
  note hy = path_step.hyps [unfolded path_step.prems(1)] and pr = path_step.prems(2-4)
  have h: "disk_heap U (48 * Suc k + (48 + (n + n0))) t" using pr(2) by (simp add: add.assoc)
  obtain s1 p1 where s1: "disk_heap U (48 + (n + n0)) s1" "disk_state.more s1 = disk_state.more s"
      "\<forall>x \<in> quiet A U item. kmem s1 x = kmem t x" "path_list (quiet A U item) (kmem s1) p1 names"
      "fopen_loop P A item p nail t = do { (nail1, s2) \<leftarrow> findItem P A c s1;
                if nail1 = 0 then do { s3 \<leftarrow> kpkFree item s2; Some (None, s3) } else fopen_loop P A item p1 nail1 s2 }"
    using fopen_loop_component [OF drive M hy(1) pr(1) h] hy(2,4,8) pr(3) by auto
  have b: "bytes_of (at_local A) 2 \<subseteq> U" using M by (simp add: open_memory_def)
  have nx: "fat_next img s1 c = 0xffff" using hy(7) fat_cong(2) [OF s1(2)] by simp
  obtain s2 where s2: "findItem P A c s1 = Some (findFATOffset s c, s2)" "disk_heap U (n + n0) s2"
      "disk_state.more s2 = disk_state.more s" "\<forall>x \<in> U - bytes_of (at_local A) 2. kmem s2 x = kmem s1 x"
    using findItem_reads [OF drive b hy(6) nx s1(1)] fat_cong(1) [OF s1(2)] s1(2) by auto
  have q: "kmem s2 x = kmem s1 x" if "x \<in> quiet A U item" for x using that s2(4) by (auto simp: quiet_def)
  have pos: "cluster_start s c = unat (findFATOffset s c)" using findFATOffset_pos(1) [OF g hy(5,6)] by simp
  then have nz: "findFATOffset s c \<noteq> 0" using g by (auto simp: cluster_start_def fat_geometry_def)
  have "path_list (quiet A U item) (kmem s2) p1 names" by (rule path_list_cong [OF q s1(4)])
  from path_step.IH [OF pos this s2(2,3)] show ?case using s1(3,5) s2(1) q nz by auto
qed

section \<open>A volume\<close>

lemma concat_words_nth: "k < 2 * length ws \<Longrightarrow> concat (map word_bytes ws) ! k = word_bytes (ws ! (k div 2)) ! (k mod 2)"
proof (induction ws arbitrary: k)
  case (Cons w ws)
  show ?case
  proof (cases "k < 2")
    case True
    then show ?thesis by (auto simp: less_2_cases_iff word_bytes_def)
  next
    case False
    then obtain j where j: "k = j + 2" using le_Suc_ex [of 2 k] by (auto simp: add.commute)
    have "concat (map word_bytes (w # ws)) ! k = concat (map word_bytes ws) ! j" by (simp add: word_bytes_def j)
    then show ?thesis using Cons.IH [of j] Cons.prems j by simp
  qed
qed simp

lemma disk_byte_word:
  assumes "\<And>l. length (img l) = 256"
  shows "disk_byte img i = word_bytes (img (i div 512) ! (i mod 512 div 2)) ! (i mod 2)"
proof -
  have "i mod 512 mod 2 = i mod 2" by (simp add: mod_mod_cancel)
  then show ?thesis using concat_words_nth [of "i mod 512" "img (i div 512)"] assms by (simp add: disk_byte_def)
qed

text \<open>The table in sector 1, the root directory in sector 2, with a deleted entry and the directory B, and this directory in
  sector 3, with the file A of two clusters.\<close>

definition vol_words :: "nat \<Rightarrow> u16 list" where
  "vol_words l =
     (if l = 1 then [0xfff8, 0xffff, 0xffff, 4, 0xffff]
      else if l = 2 then
        [0x20e5, 0x2020, 0x2020, 0x2020, 0x2020, 0x2020, 0, 0, 0, 0, 0, 0, 0, 7, 0, 0,
         0x2042, 0x2020, 0x2020, 0x2020, 0x2020, 0x1020, 0, 0, 0, 0, 0, 0, 0, 2, 0, 0, 0]
      else if l = 3 then
        [0x2041, 0x2020, 0x2020, 0x2020, 0x2020, 0x2020, 0, 0, 0, 0, 0, 0, 0, 3, 0x01d0, 1, 0]
      else [])"

definition vol_image :: "nat \<Rightarrow> u16 list" where
  "vol_image l = vol_words l @ replicate (256 - length (vol_words l)) (of_nat l)"

lemma vol_image_length [simp]: "length (vol_image l) = 256"
  by (simp add: vol_image_def vol_words_def)

lemmas vol_byte = disk_byte_word [of vol_image, OF vol_image_length]

lemma vol_entries:
  "dir_entry vol_image 1024 0 = [0xe5, 0x20, 0x20, 0x20, 0x20, 0x20, 0x20, 0x20, 0x20, 0x20, 0x20, 0x20,
     0, 0, 0, 0, 0, 0, 0, 0, 0, 0, 0, 0, 0, 0, 7, 0, 0, 0, 0, 0]"
  "dir_entry vol_image 1024 (Suc 0) = [0x42, 0x20, 0x20, 0x20, 0x20, 0x20, 0x20, 0x20, 0x20, 0x20, 0x20, 0x10,
     0, 0, 0, 0, 0, 0, 0, 0, 0, 0, 0, 0, 0, 0, 2, 0, 0, 0, 0, 0]"
  "dir_entry vol_image 1536 0 = [0x41, 0x20, 0x20, 0x20, 0x20, 0x20, 0x20, 0x20, 0x20, 0x20, 0x20, 0x20,
     0, 0, 0, 0, 0, 0, 0, 0, 0, 0, 0, 0, 0, 0, 3, 0, 0xd0, 1, 1, 0]"
  "dir_entry vol_image 1536 (Suc 0) ! 0 = 0"
  by (simp_all add: dir_entry_def disk_bytes_def vol_byte vol_image_def vol_words_def word_bytes_def drop_bit_eq_div)


text \<open>The state after the volume is mounted: an empty heap, the path and the name that are looked up in memory, and the geometry.\<close>

definition vol_addrs :: fs_addrs where
  "vol_addrs = \<lparr>at_slash = 0x1000, at_hdr = 0x1100, at_local = 0x1200, at_name = 0x1300, at_fat16 = 0x1400\<rparr>"

definition vol_memory :: mem where
  "vol_memory = puts_at 0x1000 [0x2f, 0] (puts_at 0x2000 [0x2f, 0x62, 0x2f, 0x61, 0] (puts_at 0x2100 [0x62, 0]
     (puts_at 0x2200 [0x2f, 0x62, 0x2f, 0x63, 0] (\<lambda>_. 0))))"

definition vol_header :: Header where
  "vol_header = (get_Header (\<lambda>_. 0) 0)\<lparr>bytesPerSector := 512, sectorsPerCluster := 0x80, reservedSectorsCount := 1, tableCount := 1,
     rootEntryCount := 16, tableSize := 1, bootSignature := 0x29\<rparr>"

definition vol_state :: "sim_drive fs_state" where
  "vol_state = \<lparr>kmem = vol_memory, kout = [], topChunk = KPKHEAP_START, bucket = replicate KPKBUCKET_SIZE LinkedList,
     dev = \<lparr>sim_regs = \<lambda>_. 0, sim_left = [], sim_busy = False\<rparr>, fileDescriptors = (replicate 256 0)[3 := 0x5000], fds = \<lambda>_. zero_fd,
     stats = \<lambda>_. \<lparr>st_name = [], st_extension = [], st_type = 0, st_creation10s = 0, st_creationTime = 0, st_creationDate = 0,
       st_lastAccess = 0, st_size = 0\<rparr>,
     fat_hdr = vol_header, root_start = 1024, root_end = 1536, root_items = 1, root_name = replicate 8 0, strtok_end = 0\<rparr>"

definition vol_user :: "addr set" where
  "vol_user = {x. \<not> (KPKHEAP_START \<le> x \<and> x < KPKHEAP_END)}"

lemmas vol_drive = sim_ata_drive [of vol_image, OF vol_image_length]

lemma vol_heap:
  assumes "n \<le> 0x100000"
  shows "disk_heap vol_user n vol_state"
proof (rule disk_heapI [of "{}" _ "{}"])
  show "recycled 512 5 {} vol_state" "recycled 66048 13 {} vol_state"
    by (simp_all add: recycled_def size_class_512 vol_state_def LinkedList_def KPKBUCKET_SIZE_def)
  show "heap_room {0} (cost 512 {} + cost 66048 {} + n) vol_state"
    using assms by (simp add: heap_room_def vol_state_def LinkedList_def cost_def KPKHEAP_START_def KPKHEAP_END_def KPKBUCKET_SIZE_def)
qed (simp_all add: vol_user_def vol_state_def LinkedList_def KPKBUCKET_SIZE_def)

lemma vol_block:
  assumes "unat a + unat n < 2 ^ 64" "unat a + unat n \<le> 0x200000 \<or> 0x3000000 \<le> unat a"
  shows "bytes_of a n \<subseteq> vol_user"
  using assms bytes_of_range [OF assms(1)] by (auto simp: vol_user_def KPKHEAP_START_def KPKHEAP_END_def word_le_nat_alt word_less_nat_alt)

lemma blocks_apart:
  assumes "unat a + unat n < 2 ^ 64" "unat b + unat k < 2 ^ 64" "unat a + unat n \<le> unat b \<or> unat b + unat k \<le> unat a"
  shows "bytes_of a n \<inter> bytes_of b k = {}"
  using assms(3) bytes_of_range [OF assms(1)] bytes_of_range [OF assms(2)] by fastforce

lemma vol_strings:
  "cstr vol_memory 0x1000 [0x2f]" "cstr vol_memory 0x2000 [0x2f, 0x62, 0x2f, 0x61]" "cstr vol_memory 0x2100 [0x62]"
  "cstr vol_memory 0x2200 [0x2f, 0x62, 0x2f, 0x63]"
  by (simp_all add: vol_memory_def)

lemma vol_search: "search_memory vol_addrs vol_user 0x3000 0x2100 [0x62]"
proof -
  have "bytes_of 0x3000 32 \<subseteq> vol_user" "bytes_of 0x1300 15 \<subseteq> vol_user" "bytes_of 0x2100 2 \<subseteq> vol_user" by (rule vol_block; simp)+
  moreover have "bytes_of 0x2100 2 \<inter> bytes_of 0x1300 15 = {}" "bytes_of 0x2100 2 \<inter> bytes_of 0x3000 32 = {}"
      "bytes_of 0x3000 32 \<inter> bytes_of 0x1300 15 = {}" by (rule blocks_apart; simp)+
  ultimately show ?thesis by (auto simp: search_memory_def vol_addrs_def)
qed

lemma vol_names:
  "entry_name (dir_entry vol_image 1024 (Suc 0)) = [0x42]" "entry_name (dir_entry vol_image 1536 0) = [0x41]"
  by (simp_all add: vol_entries entry_name_def fat_name_def name_char_def)

lemma vol_hits: "entry_hit [0x62] (dir_entry vol_image 1024 (Suc 0))" "entry_hit [0x61] (dir_entry vol_image 1536 0)"
    "\<not> entry_hit [0x62] (dir_entry vol_image 1024 0)" "\<not> entry_hit [0x63] (dir_entry vol_image 1536 0)"
  unfolding entry_hit_def entry_used_def vol_names by (simp_all add: vol_entries lower_def)

lemma vol_stops: "dir_stop vol_image 1024 [0x62] (Suc 0)" "dir_stop vol_image 1536 [0x61] 0"
    "dir_stop vol_image 1536 [0x63] (Suc 0)"
  using vol_hits by (simp_all add: dir_stop_def vol_entries(1,3,4))

lemma vol_clear: "dir_clear vol_image 1024 [0x62] (Suc 0)" "dir_clear vol_image 1536 [0x61] 0" "dir_clear vol_image 1536 [0x63] (Suc 0)"
proof -
  have "\<not> entry_used (dir_entry vol_image 1024 0)" "\<not> entry_used (dir_entry vol_image 1536 (Suc 0))"
    by (simp_all add: entry_used_def vol_entries)
  then show "dir_clear vol_image 1024 [0x62] (Suc 0)" "dir_clear vol_image 1536 [0x61] 0" "dir_clear vol_image 1536 [0x63] (Suc 0)"
    using vol_names by (simp_all add: dir_clear_def Let_def le_Suc_eq all_conj_distrib clash_def lower_def)
qed


end
