(* ===== verification/Fat_Open.thy ===== *)
theory Fat_Open
  imports Fat_Volume
begin

text \<open>
  Opening a file by its path: \<open>parsePath\<close> of \<open>src/src/kernel/filesystem/pathParser.cpp\<close> and
  \<open>fopenCallback\<close> of \<open>FAT16/fat16.cpp\<close> together. The path is cut at its slashes (\<open>splits\<close>) into a linked
  list of nodes from the heap, and the list is followed through the directories of the volume. The
  names have at most seven characters, which is what a node has room for.
\<close>


section \<open>Blocks from the heap\<close>

text \<open>A block cut from the top of the heap belongs to the client, and so does its header.\<close>

lemma disk_heap_zalloc_header:
  fixes s :: "('d, 'z) disk_state_scheme"
  assumes h: "disk_heap U (unat z + 32 + n) s" and z: "z \<noteq> 0" "z < 2 ^ 24"
    and k: "size_class z = Some k" "ll_head (bucket s ! k) = 0"
  defines "c \<equiv> topChunk s"
  shows "\<exists>s'. kpkZalloc z s = Some (c + 32, s') \<and> disk_heap (U \<union> bytes_of c (32 + z)) n s' \<and> U \<inter> bytes_of c (32 + z) = {} \<and>
    0x200000 \<le> unat c \<and> unat (topChunk s') = unat c + 32 + unat z \<and> unat (topChunk s') \<le> 0x3000000 \<and> bucket s' = bucket s \<and>
    heap.more s' = heap.more s \<and> kmem s' c = 0 \<and> bucket_index (read64 (kmem s') (c + 8)) = Some k \<and>
    (\<forall>x \<in> U. kmem s' x = kmem s x) \<and> (\<forall>x \<in> bytes_of (c + 32) z. kmem s' x = 0)"
proof -
  obtain F G where H: "recycled 512 5 F s" "recycled 66048 13 G s" "F \<inter> G = {}" "U \<inter> F = {}" "U \<inter> G = {}"
      "\<forall>x \<in> U. \<not> (c \<le> x \<and> x < KPKHEAP_END)" "heap_room {0} (cost 512 F + cost 66048 G + (unat z + 32 + n)) s"
      "ll_size (bucket s ! 0) = 0"
    using disk_heapE [OF h, folded c_def] .
  let ?r = "cost 512 F + cost 66048 G + n"
  have k21: "k < 21" using size_class_bound [OF z] k(1) by auto
  have room: "heap_room {0, k} (unat z + 32 + ?r) s" using H(7) k(2) by (simp add: heap_room_def ac_simps)
  obtain asz where asz: "alignSize z = Some asz" "bucket_index asz = Some k" using size_class_align [OF k(1)] .
  note a = kpkZalloc_room [OF room asz _ k21, folded c_def] and m = kpkMalloc_room [OF room asz _ k21, folded c_def]
    and top = heap_room_top [OF room, folded c_def] and uz = unat_add32 [OF z(2)]
  define s' where "s' = s\<lparr>kmem := zeroed (c + 32) z (chunk_header c asz (kmem s)), topChunk := c + (z + 32)\<rparr>"
  have uz': "unat (z + 32) = unat z + 32" using m(2) by simp
  have up: "unat (c + 32) = unat c + 32" "unat (c + (z + 32)) = unat c + 32 + unat z"
    using heap_room_add [OF room, of 32] heap_room_add [OF room, of "z + 32"] uz' by (simp_all add: c_def)
  have w: "x \<in> bytes_of c (32 + z) \<longleftrightarrow> unat c \<le> unat x \<and> unat x < unat c + 32 + unat z"
      "within (c + 32) z x \<longleftrightarrow> unat c + 32 \<le> unat x \<and> unat x < unat c + 32 + unat z"
      "within c 32 x \<longleftrightarrow> unat c \<le> unat x \<and> unat x < unat c + 32" for x
    using bytes_of_range [of c "32 + z" x] within_range [of "c + 32" z x] within_range [of c 32 x] up top uz by (simp_all add: add.assoc)
  have out: "kmem s' x = kmem s x" if "x \<notin> bytes_of c (32 + z)" for x
    using that w [of x] by (auto simp: s'_def zeroed_def chunk_header_outside)
  have blk: "c \<le> x \<and> x < KPKHEAP_END" if "x \<in> bytes_of c (32 + z)" for x
    using that w [of x] top by (simp add: word_le_nat_alt word_less_nat_alt KPKHEAP_END_def)
  have below: "x < c" if "x \<in> F \<union> G" for x using that recycled_below [OF H(1,7)] recycled_below [OF H(2,7)] by (auto simp: c_def)
  have tt: "topChunk s \<le> topChunk s'" using up by (simp add: s'_def word_le_nat_alt c_def [symmetric])
  have fk: "kmem s' x = kmem s x" if "x \<in> F \<union> G" for x using out [of x] blk [of x] below [OF that] by (meson leD)
  have r: "recycled 512 5 F s'" by (rule recycled_cong [OF H(1) _ _ tt]) (use fk in \<open>simp_all add: s'_def\<close>)
  have r': "recycled 66048 13 G s'" by (rule recycled_cong [OF H(2) _ _ tt]) (use fk in \<open>simp_all add: s'_def\<close>)
  have "heap_room {0, k} ?r s'" unfolding s'_def by (rule m(3)) simp
  then have rm: "heap_room {0} ?r s'" by (rule heap_room_mono) simp_all
  have d: "U \<inter> bytes_of c (32 + z) = {}" using H(6) blk by blast
  have "bytes_of c (32 + z) \<inter> (F \<union> G) = {}" using below blk by (fastforce simp: not_le)
  then have ub: "(U \<union> bytes_of c (32 + z)) \<inter> F = {}" "(U \<union> bytes_of c (32 + z)) \<inter> G = {}" using H(4,5) by blast+
  have "\<not> (topChunk s' \<le> x \<and> x < KPKHEAP_END)" if "x \<in> U \<union> bytes_of c (32 + z)" for x
    using that H(6) tt w(1) [of x] up by (auto simp: s'_def word_le_nat_alt c_def [symmetric])
  from disk_heapI [OF r r' H(3) ub this rm] H(8) have dh: "disk_heap (U \<union> bytes_of c (32 + z)) n s'" by (simp add: s'_def)
  have "kmem s' x = chunk_header c asz (kmem s) x" if "within c 32 x" for x using that w [of x] by (simp add: s'_def zeroed_def)
  then have hd: "kmem s' c = 0" "read64 (kmem s') (c + 8) = asz"
    using read64_cong [of "c + 8" "kmem s'" "chunk_header c asz (kmem s)"] within_shift [of 8 8 32 c] by (auto simp: within_def)
  have "kmem s' x = kmem s x" if "x \<in> U" for x using out [of x] d that by blast
  moreover have "kmem s' x = 0" if "x \<in> bytes_of (c + 32) z" for x using that by (simp add: s'_def zeroed_def bytes_of_def)
  moreover have "kpkZalloc z s = Some (c + 32, s')" using a by (simp add: s'_def)
  moreover have "unat (topChunk s') = unat c + 32 + unat z" "bucket s' = bucket s" "heap.more s' = heap.more s" using up by (simp_all add: s'_def)
  ultimately show ?thesis using top dh d hd asz(2) by (intro exI [of _ s']) simp
qed

lemma disk_heap_zalloc:
  fixes s :: "('d, 'z) disk_state_scheme"
  assumes h: "disk_heap U (unat z + 32 + n) s" and z: "z \<noteq> 0" "z < 2 ^ 24"
    and k: "size_class z = Some k" "ll_head (bucket s ! k) = 0"
  shows "\<exists>p s'. kpkZalloc z s = Some (p, s') \<and> p \<noteq> 0 \<and> disk_heap (U \<union> bytes_of p z) n s' \<and> U \<inter> bytes_of p z = {} \<and> unat p + unat z < 2 ^ 64 \<and>
    bucket s' = bucket s \<and> heap.more s' = heap.more s \<and> (\<forall>x \<in> U. kmem s' x = kmem s x) \<and> (\<forall>x \<in> bytes_of p z. kmem s' x = 0)"
proof -
  let ?c = "topChunk s"
  obtain s' where s': "kpkZalloc z s = Some (?c + 32, s')" "disk_heap (U \<union> bytes_of ?c (32 + z)) n s'" "U \<inter> bytes_of ?c (32 + z) = {}"
      "unat (topChunk s') = unat ?c + 32 + unat z" "unat (topChunk s') \<le> 0x3000000" "bucket s' = bucket s"
      "heap.more s' = heap.more s" "\<forall>x \<in> U. kmem s' x = kmem s x" "\<forall>x \<in> bytes_of (?c + 32) z. kmem s' x = 0"
    using disk_heap_zalloc_header [OF h z k] by blast
  have u: "unat (?c + 32) = unat ?c + 32" using s'(4,5) by (simp add: unat_word_ariths)
  then have nz: "?c + 32 \<noteq> 0" by auto
  have sub: "bytes_of (?c + 32) z \<subseteq> bytes_of ?c (32 + z)" using bytes_of_sub [of 32 z "32 + z" ?c] unat_add32 [OF z(2)] by simp
  have "disk_heap (U \<union> bytes_of (?c + 32) z) n s'" by (rule disk_heap_mono [OF s'(2)]) (use sub in auto)
  moreover have "U \<inter> bytes_of (?c + 32) z = {}" using s'(3) sub by blast
  ultimately show ?thesis using s' u nz by (intro exI [of _ "?c + 32"] exI [of _ s']) simp
qed

section \<open>Parsing a path\<close>

text \<open>The pieces between slashes.\<close>

lemma dropWhile_Cons_less: "dropWhile Q xs = y # ys \<Longrightarrow> length ys < length xs"
  using length_dropWhile_le [of Q xs] by simp

function splits :: "byte list \<Rightarrow> byte list list" where
  "splits xs = takeWhile (\<lambda>c. c \<noteq> 0x2f) xs # (case dropWhile (\<lambda>c. c \<noteq> 0x2f) xs of [] \<Rightarrow> [] | y # ys \<Rightarrow> splits ys)"
  by pat_completeness auto
termination
  by (relation "measure length") (auto intro: dropWhile_Cons_less)

declare splits.simps [simp del]

text \<open>A string in the memory \<open>S\<close>, and what \<open>strtok\<close> has still to deliver: the names behind its static pointer.\<close>

definition inside :: "addr set \<Rightarrow> addr \<Rightarrow> byte list \<Rightarrow> bool" where
  "inside S a xs \<longleftrightarrow> a \<noteq> 0 \<and> unat a + length xs < 2 ^ 64 \<and> bytes_of a (of_nat (length xs + 1)) \<subseteq> S"

definition tok_rest :: "addr set \<Rightarrow> mem \<Rightarrow> addr \<Rightarrow> byte list list \<Rightarrow> bool" where
  "tok_rest S m e names \<longleftrightarrow> (if names = [] then e = 0
     else e \<noteq> 0 \<and> (\<exists>xs. cstr m (e + 1) xs \<and> splits xs = names \<and> inside S (e + 1) xs))"

lemma inside_length: "inside S a xs \<Longrightarrow> length xs + 1 < 18446744073709551616"
  using unat_gt_0 [of a] by (auto simp: inside_def)

lemma inside_byte:
  assumes "inside S a xs" "i \<le> length xs"
  shows "a + of_nat i \<in> S"
proof -
  have "within a (of_nat (length xs + 1)) (a + of_nat i)"
    using inside_length [OF assms(1)] assms(2)
    by (simp add: within_def word_less_nat_alt unsigned_of_nat take_bit_nat_eq_self del: of_nat_add of_nat_Suc)
  then show ?thesis using assms(1) by (auto simp: inside_def bytes_of_def)
qed

lemma inside_drop:
  assumes "inside S a xs" "k < length xs"
  shows "inside S (a + of_nat k + 1) (drop (Suc k) xs)" "a + of_nat k \<noteq> 0"
proof -
  have l: "unat a + length xs < 18446744073709551616" using assms(1) by (simp add: inside_def)
  have u: "unat (of_nat (Suc k) :: u64) = Suc k" "unat (of_nat (length xs - k) :: u64) = length xs - k"
      "unat (of_nat (length xs + 1) :: u64) = length xs + 1"
    using inside_length [OF assms(1)] assms(2) by (subst unsigned_of_nat, simp add: take_bit_nat_eq_self)+
  have e: "a + of_nat k + 1 = a + of_nat (Suc k)" by simp
  have ua: "unat (a + of_nat (Suc k)) = unat a + Suc k" "unat (a + of_nat k) = unat a + k"
    using l assms(2) u(1) by (simp_all add: unat_word_ariths unsigned_of_nat take_bit_nat_eq_self)
  have "length (drop (Suc k) xs) + 1 = length xs - k" using assms(2) by simp
  then have "bytes_of (a + of_nat (Suc k)) (of_nat (length (drop (Suc k) xs) + 1)) \<subseteq> bytes_of a (of_nat (length xs + 1))"
    using bytes_of_sub [of "of_nat (Suc k)" "of_nat (length xs - k)" "of_nat (length xs + 1)" a] u assms(2) by simp
  then show "inside S (a + of_nat k + 1) (drop (Suc k) xs)"
    unfolding e inside_def using assms ua(1) by (auto simp: inside_def)
  have "0 < unat a" using assms(1) by (simp add: inside_def unat_gt_0)
  then show "a + of_nat k \<noteq> 0" using ua(2) by auto
qed

lemma takeWhile_split:
  assumes "w = takeWhile (\<lambda>c. c \<noteq> 0x2f) xs" "w \<noteq> xs"
  shows "length w < length xs" "splits xs = w # splits (drop (Suc (length w)) xs)"
proof -
  show l: "length w < length xs"
    using assms by (metis length_takeWhile_le nat_less_le takeWhile_eq_take take_all_iff order_refl)
  have "dropWhile (\<lambda>c. c \<noteq> 0x2f) xs = drop (length w) xs" using assms(1) by (metis dropWhile_eq_drop)
  then have "dropWhile (\<lambda>c. c \<noteq> 0x2f) xs = xs ! length w # drop (Suc (length w)) xs" using l by (simp add: Cons_nth_drop_Suc)
  then show "splits xs = w # splits (drop (Suc (length w)) xs)" using assms(1) by (subst splits.simps) simp
qed

text \<open>One call of \<open>strtok\<close> that finds a further piece.\<close>

lemma strtok_piece:
  assumes d: "cstr m slash [0x2f]" and x: "cstr m a xs" "inside S a xs" "splits xs = w # names"
    and str: "str \<noteq> 0 \<longrightarrow> a = str \<and> xs \<noteq> []" "str = 0 \<longrightarrow> end_p \<noteq> 0 \<and> a = end_p + 1"
  shows "\<exists>e m'. strtok str slash (end_p, m) = Some (a, e, m') \<and> cstr m' a w \<and> inside S a w \<and> tok_rest S m' e names \<and> (\<forall>y. y \<notin> S \<longrightarrow> m' y = m y)"
proof -
  define v where "v = takeWhile (\<lambda>c. c \<noteq> 0x2f) xs"
  have w: "w = v" using x(3) by (subst (asm) splits.simps) (simp add: v_def)
  have v': "v = takeWhile (\<lambda>c. c \<notin> set [0x2f]) xs" by (simp add: v_def)
  have l: "length xs < 2 ^ 64" using x(2) by (simp add: inside_def)
  note s = strtok_cases [OF d x(1) str v'] and sp = takeWhile_split [OF v_def]
  show ?thesis
  proof (cases "v = xs")
    case True
    then have "splits xs = [v]" by (subst splits.simps) (metis v_def dropWhile_eq_Nil_conv list.simps(4) takeWhile_eq_all_conv)
    then show ?thesis using s True x w by (auto simp: tok_rest_def)
  next
    case False
    let ?h = "a + of_nat (length v)" and ?r = "drop (Suc (length v)) xs"
    note r = strtok_rest [OF x(1) l v' False] and i = inside_drop [OF x(2) sp(1) [OF False]]
    have "?h \<in> S" by (rule inside_byte [OF x(2)]) (use sp(1) [OF False] in simp)
    moreover have "names = splits ?r" using sp(2) [OF False] x(3) by simp
    moreover have "splits ?r \<noteq> []" by (subst splits.simps) simp
    moreover have "inside S a v"
    proof -
      have "(of_nat (length v + 1) :: u64) \<le> of_nat (length xs + 1)"
        using sp(1) [OF False] inside_length [OF x(2)] by (simp add: word_le_nat_alt unsigned_of_nat take_bit_nat_eq_self del: of_nat_add of_nat_Suc)
      then have "bytes_of a (of_nat (length v + 1)) \<subseteq> bytes_of a (of_nat (length xs + 1))" by (auto simp: bytes_of_def within_def)
      then show ?thesis using x(2) sp(1) [OF False] by (auto simp: inside_def)
    qed
    ultimately show ?thesis using s False r i w by (auto simp: tok_rest_def)
  qed
qed

lemma strncpy_puts:
  assumes c: "cstr m src w" and l: "length w \<le> unat n" "length w < 2 ^ 63" and d: "dst \<notin> bytes_of src (of_nat (length w + 1))"
  shows "snd (strncpy dst src n m) = puts_at dst w m"
proof -
  have u: "unat (of_nat (length w) :: u64) = length w" "unat (of_nat (length w + 1) :: u64) = length w + 1"
    using l(2) by (subst unsigned_of_nat, simp add: take_bit_nat_eq_self)+
  have g: "of_nat (length w) < dst - src"
    using d u unfolding bytes_of_def within_def mem_Collect_eq not_less word_le_nat_alt word_less_nat_alt by linarith
  have "strncpy dst src n m = (of_nat (length w), memcpy_loop dst src (of_nat (length w)) 0 m)"
    using strncpy_loop_memcpy [of m src 0 w dst n] c g l by (simp add: strncpy_def)
  moreover have "memcpy_loop dst src (of_nat (length w)) 0 m x = puts_at dst w m x" for x
  proof -
    have "m (src + (x - dst)) = w ! unat (x - dst)" if "unat (x - dst) < length w"
      using cstr_nth [OF c, of "unat (x - dst)"] that by (simp add: nth_append)
    then show ?thesis
      using memcpy_loop_spec [OF disjI2 [OF less_imp_le [OF g]], of 0 m x] l(2) puts_at_nth [of w dst m x] u(1) by (simp add: word_less_nat_alt)
  qed
  ultimately show ?thesis by auto
qed

text \<open>The parts of the state that no parsing and no search changes.\<close>

definition same_volume :: "('d, 'z) fs_state_scheme \<Rightarrow> ('d, 'z) fs_state_scheme \<Rightarrow> bool" where
  "same_volume s s' \<longleftrightarrow> fat_hdr s' = fat_hdr s \<and> root_start s' = root_start s \<and> root_end s' = root_end s \<and> fds s' = fds s \<and>
     fileDescriptors s' = fileDescriptors s"

lemma same_volume_heap: "heap.more s' = heap.more s \<Longrightarrow> same_volume s s' \<and> strtok_end s' = strtok_end s"
  by (cases s; cases s') (simp add: same_volume_def)

lemma size_class_24: "size_class 24 = Some 1" "size_class 32 = Some 1"
  by (simp_all add: size_class_def alignSize_def msb_def lsb_def bucket_index_def bsr_nat.simps bsf_nat.simps MIN_CHUNK_SIZE_def)

text \<open>The bytes a node still has to get: its name and the link to the next.\<close>

definition fresh_node :: "addr \<Rightarrow> mem \<Rightarrow> bool" where
  "fresh_node p m \<longleftrightarrow> p \<noteq> 0 \<and> unat p + 24 < 2 ^ 64 \<and> (\<forall>x \<in> bytes_of p 16. m x = 0)"

lemma node_filled:
  assumes p: "fresh_node p m" and w: "length w \<le> 7" "0 \<notin> set w"
  defines "m' \<equiv> puts_at p w m"
  shows "cstr m' p w" "nextDir m' p = 0" "cstr (write64 (p + 8) q m') p w" "nextDir (write64 (p + 8) q m') p = q"
proof -
  have r: "x \<in> bytes_of p 16 \<longleftrightarrow> unat p \<le> unat x \<and> unat x < unat p + 16" for x
    using bytes_of_range [of p 16 x] p by (simp add: fresh_node_def)
  have z: "m (p + of_nat i) = 0" if "i < 16" for i
  proof -
    have "p + of_nat i \<in> bytes_of p 16" using that by (simp add: bytes_of_def within_def word_less_nat_alt unsigned_of_nat take_bit_nat_eq_self)
    then show ?thesis using p by (simp add: fresh_node_def)
  qed
  have i: "m' (p + of_nat i) = (w @ replicate 16 0) ! i" if "i < 16" for i
    using that z [OF that] w(1) by (simp add: m'_def puts_at_nth nth_append unsigned_of_nat take_bit_nat_eq_self)
  show c: "cstr m' p w" using i w by (simp add: cstr_iff nth_append)
  have "read_le 8 m' (p + 8) = read_le 8 (\<lambda>_. 0) (p + 8)"
  proof (rule read_le_cong)
    fix k :: nat assume "k < 8"
    then show "m' (p + 8 + of_nat k) = 0" using i [of "8 + k"] w(1) by (simp add: add.assoc nth_append)
  qed
  moreover have "read_le k (\<lambda>_. 0) a = 0" for k a by (induction k arbitrary: a) simp_all
  ultimately show "nextDir m' p = 0" by (simp add: nextDir_def read64_def)
  show "nextDir (write64 (p + 8) q m') p = q" by (simp add: nextDir_def)
  have "cstr (write64 (p + 8) q m') p w = cstr m' p w"
  proof (rule cstr_cong)
    fix k assume "k \<le> length w"
    then have "\<not> within (p + 8) 8 (p + of_nat k)"
      using w(1) by (simp add: within_def not_less word_le_nat_alt unat_sub_if' unsigned_of_nat take_bit_nat_eq_self)
    then show "write64 (p + 8) q m' (p + of_nat k) = m' (p + of_nat k)" by (rule write64_outside)
  qed
  then show "cstr (write64 (p + 8) q m') p w" using c by simp
qed

lemma strtok_st_next:
  fixes s :: "('d, 'z) fs_state_scheme"
  assumes "cstr (kmem s) (at_slash A) [0x2f]" "tok_rest S (kmem s) (strtok_end s) (w # names)"
  shows "\<exists>p e m. strtok_st 0 (at_slash A) s = Some (p, s\<lparr>strtok_end := e, kmem := m\<rparr>) \<and> cstr m p w \<and> inside S p w \<and>
    tok_rest S m e names \<and> (\<forall>y. y \<notin> S \<longrightarrow> m y = kmem s y)"
proof -
  obtain xs where xs: "strtok_end s \<noteq> 0" "cstr (kmem s) (strtok_end s + 1) xs" "splits xs = w # names" "inside S (strtok_end s + 1) xs"
    using assms(2) by (auto simp: tok_rest_def)
  then obtain e m where "strtok 0 (at_slash A) (strtok_end s, kmem s) = Some (strtok_end s + 1, e, m)" "cstr m (strtok_end s + 1) w"
      "inside S (strtok_end s + 1) w" "tok_rest S m e names" "\<forall>y. y \<notin> S \<longrightarrow> m y = kmem s y"
    using strtok_piece [OF assms(1) xs(2,4,3), of 0 "strtok_end s"] by auto
  then show ?thesis by (intro exI [of _ "strtok_end s + 1"] exI [of _ e] exI [of _ m]) (simp add: strtok_st_def)
qed

lemma cstr_inside_cong: "inside S a xs \<Longrightarrow> (\<And>x. x \<in> S \<Longrightarrow> m' x = m x) \<Longrightarrow> cstr m' a xs = cstr m a xs"
  by (rule cstr_cong) (simp add: inside_byte)

lemma tok_rest_cong: "tok_rest S m e names \<Longrightarrow> (\<And>x. x \<in> S \<Longrightarrow> m' x = m x) \<Longrightarrow> tok_rest S m' e names"
  using cstr_inside_cong [of S _ _ m' m] by (auto simp: tok_rest_def split: if_splits)

lemma slash_cong:
  assumes "bytes_of a 2 \<subseteq> V" "\<And>x. x \<in> V \<Longrightarrow> m' x = m x" "cstr m a [c]"
  shows "cstr m' a [c]"
proof -
  have "a \<in> V" "a + 1 \<in> V" using assms(1) by (auto simp: bytes_of_def within_def)
  then show ?thesis using assms(2,3) by simp
qed

lemma disk_heap_fds [simp]: "disk_heap U n (s\<lparr>fds := f\<rparr>) = disk_heap U n s"
  by (simp add: disk_heap_def two_buffers_def recycled_def parked_def heap_room_def)

lemma disk_heap_strtok [simp]: "disk_heap U n (s\<lparr>strtok_end := e\<rparr>) = disk_heap U n s"
  by (simp add: disk_heap_def two_buffers_def recycled_def parked_def heap_room_def)

lemma node_bytes: "length w \<le> 7 \<Longrightarrow> bytes_of p (of_nat (length w + 1)) \<subseteq> bytes_of p 16" "bytes_of (p + 8) 8 \<subseteq> bytes_of p 16"
    "bytes_of p 16 \<subseteq> bytes_of p 24" "bytes_of (p + 16) 8 \<subseteq> bytes_of p 24"
  using bytes_of_sub [of 0 "of_nat (length w + 1)" 16 p] bytes_of_sub [of 8 8 16 p] bytes_of_sub [of 0 16 24 p] bytes_of_sub [of 16 8 24 p]
  by (simp_all add: unsigned_of_nat take_bit_nat_eq_self del: of_nat_add of_nat_Suc)

lemma path_list_node:
  assumes "fresh_node p m0" "length w \<le> 7" "bytes_of p 24 \<subseteq> W" "cstr m p w" "path_list W m (nextDir m p) names"
  shows "path_list W m p (w # names)"
  using assms node_bytes(1) [of w p] node_bytes(2,3) [of p] by (auto simp: fresh_node_def)

lemma node_cong:
  assumes "\<And>x. x \<in> bytes_of p 24 \<Longrightarrow> m' x = m x" "length w \<le> 7"
  shows "cstr m' p w = cstr m p w" "nextDir m' p = nextDir m p"
proof -
  show "cstr m' p w = cstr m p w"
    by (rule cstr_cong, rule assms(1)) (use assms(2) in \<open>simp add: bytes_of_def within_def word_less_nat_alt unsigned_of_nat take_bit_nat_eq_self\<close>)
  show "nextDir m' p = nextDir m p"
    unfolding nextDir_def by (rule read64_cong, rule assms(1)) (use node_bytes(2,3) [of p] in \<open>auto simp: bytes_of_def\<close>)
qed

lemma puts_node_outside: "length w \<le> 7 \<Longrightarrow> x \<notin> bytes_of p 24 \<Longrightarrow> puts_at p w m x = m x"
  by (rule puts_at_off) (auto simp: bytes_of_def within_def word_less_nat_alt unsigned_of_nat take_bit_nat_eq_self)

text \<open>A fresh node is linked behind another.\<close>

lemma node_linked:
  assumes "bytes_of node 24 \<subseteq> U" "U \<inter> bytes_of q 24 = {}" "q \<noteq> 0" "unat q + 24 < 2 ^ 64" "\<forall>x \<in> bytes_of q 24. m x = 0"
  defines "m' \<equiv> write64 (q + 16) node (write64 (node + 8) q m)"
  shows "fresh_node q m'" "x \<notin> bytes_of q 24 \<Longrightarrow> x \<notin> bytes_of node 24 \<Longrightarrow> m' x = m x"
    "x \<in> bytes_of node 24 \<Longrightarrow> m' x = write64 (node + 8) q m x"
proof -
  have Q: "bytes_of (q + 16) 8 \<subseteq> bytes_of q 24" "bytes_of (node + 8) 8 \<subseteq> bytes_of node 24" using node_bytes(2,3,4) by blast+
  have o: "m' x = write64 (node + 8) q m x" if "x \<notin> bytes_of q 24" for x
    using that Q(1) unfolding m'_def by (intro write64_outside) (auto simp: bytes_of_def)
  show "x \<notin> bytes_of q 24 \<Longrightarrow> x \<notin> bytes_of node 24 \<Longrightarrow> m' x = m x"
    using o [of x] Q(2) write64_outside [of "node + 8" x] by (auto simp: bytes_of_def)
  show "x \<in> bytes_of node 24 \<Longrightarrow> m' x = write64 (node + 8) q m x" using o [of x] assms(1,2) by blast
  have "m' x = 0" if "x \<in> bytes_of q 16" for x
  proof -
    have x: "x \<in> bytes_of q 24" "\<not> within (q + 16) 8 x"
      using that assms(4) bytes_of_range [of q 16 x] bytes_of_range [of q 24 x] within_range [of "q + 16" 8 x] by (auto simp: unat_word_ariths)
    then have "x \<notin> bytes_of (node + 8) 8" using assms(1,2) Q(2) by blast
    then show ?thesis using x assms(5) by (simp add: m'_def bytes_of_def write64_outside)
  qed
  then show "fresh_node q m'" using assms(3,4) by (simp add: fresh_node_def)
qed

text \<open>One round of the loop: the piece goes into its node, the next piece gets a fresh one, linked behind it.\<close>

lemma parsePath_step:
  fixes s :: "('d, 'z) fs_state_scheme"
  assumes A: "bytes_of (at_slash A) 2 \<subseteq> U0 - S" "S \<subseteq> U0" and h: "disk_heap U (56 + n) s" "ll_head (bucket s ! 1) = 0"
    and U: "U0 \<subseteq> U" "bytes_of node 24 \<subseteq> U - U0" and nd: "fresh_node node (kmem s)" and sl: "cstr (kmem s) (at_slash A) [0x2f]"
    and w: "cstr (kmem s) ptr w" "inside S ptr w" "length w \<le> 7" and tk: "tok_rest S (kmem s) (strtok_end s) (v # names)"
  shows "\<exists>q p s4. parsePath_loop A node ptr s = parsePath_loop A q p s4 \<and> disk_heap (U \<union> bytes_of q 24) n s4 \<and> bucket s4 = bucket s \<and>
    U \<inter> bytes_of q 24 = {} \<and> fresh_node q (kmem s4) \<and> cstr (kmem s4) (at_slash A) [0x2f] \<and> cstr (kmem s4) p v \<and> inside S p v \<and>
    tok_rest S (kmem s4) (strtok_end s4) names \<and> same_volume s s4 \<and> cstr (kmem s4) node w \<and> nextDir (kmem s4) node = q \<and>
    (\<forall>x \<in> U - S - bytes_of node 24. kmem s4 x = kmem s x)"
proof -
  have w0: "0 \<notin> set w" by (rule cstr_nonzero [OF w(1)])
  let ?N = "bytes_of node 24"
  have NS: "?N \<inter> S = {}" "?N \<subseteq> U" "?N \<inter> U0 = {}" "node \<in> ?N" using U(2) A(2) by (auto simp: bytes_of_def within_def)
  define m1 where "m1 = puts_at node w (kmem s)"
  have o1: "m1 x = kmem s x" if "x \<notin> ?N" for x using puts_node_outside [OF w(3) that] by (simp add: m1_def)
  have cp: "snd (strncpy node ptr 8 (kmem s)) = m1"
    unfolding m1_def using w(2,3) NS by (intro strncpy_puts [OF w(1)]) (auto simp: inside_def)
  let ?s1 = "s\<lparr>kmem := m1\<rparr>"
  have k1: "cstr (kmem ?s1) (at_slash A) [0x2f]" "tok_rest S (kmem ?s1) (strtok_end ?s1) (v # names)"
    using slash_cong [OF A(1) _ sl, of m1] tok_rest_cong [OF tk, of m1] o1 NS by auto
  obtain p e m2 where st: "strtok_st 0 (at_slash A) ?s1 = Some (p, ?s1\<lparr>strtok_end := e, kmem := m2\<rparr>)" "cstr m2 p v" "inside S p v"
      "tok_rest S m2 e names" "\<forall>y. y \<notin> S \<longrightarrow> m2 y = m1 y"
    using strtok_st_next [OF k1] by auto
  let ?s2 = "s\<lparr>strtok_end := e, kmem := m2\<rparr>"
  have o2: "m2 x = kmem s x" if "x \<notin> ?N" "x \<notin> S" for x using that o1 st(5) by simp
  have "m2 x = kmem s x" if "x \<notin> U" for x using that o2 NS(2) U(1) A(2) by blast
  then have h2: "disk_heap U (unat (24 :: u64) + 32 + n) ?s2"
    using disk_heap_kmem [of U "56 + n" "s\<lparr>strtok_end := e\<rparr>" m2] h(1) by simp
  obtain q s3 where al: "kpkZalloc 24 ?s2 = Some (q, s3)" "q \<noteq> 0" "disk_heap (U \<union> bytes_of q 24) n s3"
      "U \<inter> bytes_of q 24 = {}" "unat q + 24 < 2 ^ 64" "bucket s3 = bucket s" "heap.more s3 = heap.more ?s2"
      "\<forall>x \<in> U. kmem s3 x = m2 x" "\<forall>x \<in> bytes_of q 24. kmem s3 x = 0"
    using disk_heap_zalloc [OF h2 _ _ size_class_24(1)] h(2) by auto
  define m4 where "m4 = write64 (q + 16) node (write64 (node + 8) q (kmem s3))"
  let ?s4 = "s3\<lparr>kmem := m4\<rparr>"
  note L = node_linked [OF NS(2) al(4,2,5,9), folded m4_def]
  have o5: "m4 x = m2 x" if "x \<in> U" "x \<notin> ?N" for x using that L(2) [of x] al(4,8) by auto
  have eq: "m4 x = write64 (node + 8) q m1 x" if "x \<in> ?N" for x
  proof -
    have "x \<notin> S" "x \<in> U" using that NS by blast+
    then show ?thesis using L(3) [OF that] al(8) st(5) by (simp add: write64_def write_le_apply)
  qed
  note nf = node_filled(3,4) [OF nd w(3) w0, of q, folded m1_def] and nc = node_cong [OF eq w(3)]
  have k4: "cstr m4 node w" "nextDir m4 node = q" using nf nc by simp_all
  have "disk_heap (U \<union> bytes_of q 24) n ?s4"
    by (rule disk_heap_kmem [OF al(3)]) (use L(2) NS(2) in blast)
  moreover note L(1)
  moreover have "cstr m4 (at_slash A) [0x2f]" "cstr m4 p v" "tok_rest S m4 e names"
  proof -
    have "m4 x = kmem s x" if "x \<in> U0 - S" for x using that o5 [of x] o2 [of x] U(1) NS(3) by auto
    from slash_cong [OF A(1) this sl] show "cstr m4 (at_slash A) [0x2f]" .
    have "m4 x = m2 x" if "x \<in> S" for x using that o5 [of x] U(1) A(2) NS(1) by auto
    then show "cstr m4 p v" "tok_rest S m4 e names"
      using cstr_inside_cong [OF st(3), of m4 m2] st(2) tok_rest_cong [OF st(4), of m4] by simp_all
  qed
  moreover have "same_volume s ?s4" "strtok_end ?s4 = e" using same_volume_heap [OF al(7)] by (simp_all add: same_volume_def)
  moreover have "parsePath_loop A node ptr s = parsePath_loop A q p ?s4"
    using cp st(1,3) al(1) by (subst parsePath_loop.simps) (simp add: FILESYSTEM_DIR_MAX_SIZE_def sizeof_parsedPath_def inside_def m4_def)
  ultimately show ?thesis using al(4,6) st(3) k4 o5 o2
    by (intro exI [of _ q] exI [of _ p] exI [of _ ?s4]) simp
qed

lemma parsePath_loop_builds:
  fixes s :: "('d, 'z) fs_state_scheme"
  assumes A: "bytes_of (at_slash A) 2 \<subseteq> U0 - S" "S \<subseteq> U0"
  shows "disk_heap U (56 * length names + n) s \<Longrightarrow> ll_head (bucket s ! 1) = 0 \<Longrightarrow> U0 \<subseteq> U \<Longrightarrow> bytes_of node 24 \<subseteq> U - U0 \<Longrightarrow>
    fresh_node node (kmem s) \<Longrightarrow> cstr (kmem s) (at_slash A) [0x2f] \<Longrightarrow> cstr (kmem s) ptr w \<Longrightarrow> inside S ptr w \<Longrightarrow>
    tok_rest S (kmem s) (strtok_end s) names \<Longrightarrow> \<forall>v \<in> set (w # names). length v \<le> 7 \<Longrightarrow>
    \<exists>s' U'. parsePath_loop A node ptr s = Some s' \<and> U \<subseteq> U' \<and> disk_heap U' n s' \<and> path_list (U' - U0) (kmem s') node (w # names) \<and>
      same_volume s s' \<and> ll_head (bucket s' ! 1) = 0 \<and> (\<forall>x \<in> U - S - bytes_of node 24. kmem s' x = kmem s x)"
proof (induction names arbitrary: U s node ptr w)
  case Nil
  note N = Nil.prems
  let ?m = "puts_at node w (kmem s)"
  have w: "length w \<le> 7" "0 \<notin> set w" using N(10) cstr_nonzero [OF N(7)] by simp_all
  have "node \<in> bytes_of node 24" by (simp add: bytes_of_def within_def)
  then have "node \<notin> S" using N(4) A(2) by blast
  then have "snd (strncpy node ptr 8 (kmem s)) = ?m"
    using N(8) w by (intro strncpy_puts [OF N(7)]) (auto simp: inside_def)
  then have "parsePath_loop A node ptr s = Some (s\<lparr>kmem := ?m\<rparr>)"
    using N(9) by (subst parsePath_loop.simps) (simp add: FILESYSTEM_DIR_MAX_SIZE_def strtok_st_def strtok_def tok_rest_def)
  moreover have "disk_heap U n (s\<lparr>kmem := ?m\<rparr>)"
    by (rule disk_heap_kmem) (use N(1,4) puts_node_outside [OF w(1)] in auto)
  moreover have "path_list (U - U0) ?m node [w]"
    using N(4) node_filled(1,2) [OF N(5) w] by (intro path_list_node [OF N(5) w(1)]) simp_all
  ultimately show ?case using N(2) puts_node_outside [OF w(1)]
    by (intro exI [of _ "s\<lparr>kmem := ?m\<rparr>"] exI [of _ U]) (simp add: same_volume_def)
next
  case (Cons v names)
  note N = Cons.prems
  have h: "disk_heap U (56 + (56 * length names + n)) s" using N(1) by (simp add: add.assoc)
  have w: "length w \<le> 7" using N(10) by simp
  obtain q p s4 where S: "parsePath_loop A node ptr s = parsePath_loop A q p s4" "disk_heap (U \<union> bytes_of q 24) (56 * length names + n) s4"
      "bucket s4 = bucket s" "U \<inter> bytes_of q 24 = {}" "fresh_node q (kmem s4)" "cstr (kmem s4) (at_slash A) [0x2f]" "cstr (kmem s4) p v"
      "inside S p v" "tok_rest S (kmem s4) (strtok_end s4) names" "same_volume s s4" "cstr (kmem s4) node w" "nextDir (kmem s4) node = q"
      "\<forall>x \<in> U - S - bytes_of node 24. kmem s4 x = kmem s x"
    using parsePath_step [OF A h N(2-8) w N(9)] by blast
  let ?U = "U \<union> bytes_of q 24"
  have u: "U0 \<subseteq> ?U" "bytes_of q 24 \<subseteq> ?U - U0" using N(3) S(4) by blast+
  obtain s' U' where I: "parsePath_loop A q p s4 = Some s'" "?U \<subseteq> U'" "disk_heap U' n s'" "path_list (U' - U0) (kmem s') q (v # names)"
      "same_volume s4 s'" "ll_head (bucket s' ! 1) = 0" "\<forall>x \<in> ?U - S - bytes_of q 24. kmem s' x = kmem s4 x"
    using Cons.IH [OF S(2) _ u S(5-9)] N(2,10) S(3) by auto
  have nk: "kmem s' x = kmem s4 x" if "x \<in> bytes_of node 24" for x using that I(7) N(4) A(2) S(4) by blast
  have "cstr (kmem s') node w" "nextDir (kmem s') node = q" using node_cong [OF nk w] S(11,12) by simp_all
  then have "path_list (U' - U0) (kmem s') node (w # v # names)"
    using I(2,4) N(4) by (intro path_list_node [OF N(5) w]) auto
  moreover have "kmem s' x = kmem s x" if "x \<in> U - S - bytes_of node 24" for x
  proof -
    have "x \<in> ?U - S - bytes_of q 24" using that S(4) by blast
    then show ?thesis using that I(7) S(13) by simp
  qed
  moreover have "same_volume s s'" using S(10) I(5) by (simp add: same_volume_def)
  ultimately show ?case using S(1) I(1,2,3,6) by (intro exI [of _ s'] exI [of _ U']) auto
qed

lemma parsePath_builds:
  fixes s :: "('d, 'z) fs_state_scheme"
  assumes A: "bytes_of (at_slash A) 2 \<subseteq> U - S" "S \<subseteq> U" and h: "disk_heap U (56 * length (splits xs) + n) s" "ll_head (bucket s ! 1) = 0"
    and sl: "cstr (kmem s) (at_slash A) [0x2f]" and xs: "cstr (kmem s) path xs" "inside S path xs" "xs \<noteq> []" "\<forall>v \<in> set (splits xs). length v \<le> 7"
  shows "\<exists>p s' U'. parsePath A path s = Some (p, s') \<and> U \<subseteq> U' \<and> disk_heap U' n s' \<and> path_list (U' - U) (kmem s') p (splits xs) \<and>
    same_volume s s' \<and> bytes_of (topChunk s) 32 \<subseteq> U' - U \<and>
    ll_head (bucket s' ! 1) = 0 \<and> (\<forall>x \<in> U - S. kmem s' x = kmem s x)"
proof -
  obtain w names where sp: "splits xs = w # names" using splits.simps by blast
  have h': "disk_heap U (unat (24 :: u64) + 32 + (56 * length names + n)) s" using h(1) sp by (simp add: add.assoc)
  define c p where "c = topChunk s" and "p = c + 32"
  obtain s1 where al: "kpkZalloc 24 s = Some (p, s1)" "disk_heap (U \<union> bytes_of c (32 + 24)) (56 * length names + n) s1"
      "U \<inter> bytes_of c (32 + 24) = {}" "unat (topChunk s1) = unat c + 32 + unat (24 :: u64)" "unat (topChunk s1) \<le> 0x3000000"
      "bucket s1 = bucket s" "heap.more s1 = heap.more s" "\<forall>x \<in> U. kmem s1 x = kmem s x" "\<forall>x \<in> bytes_of p 24. kmem s1 x = 0"
    using disk_heap_zalloc_header [OF h' _ _ size_class_24(1) h(2), folded c_def, folded p_def] by auto
  have up: "unat p = unat c + 32" using al(4,5) by (simp add: p_def unat_word_ariths)
  then have p: "p \<noteq> 0" "unat p + 24 < 2 ^ 64" using al(4,5) by auto
  have blk: "bytes_of p 24 \<subseteq> bytes_of c (32 + 24)" "bytes_of c 32 \<subseteq> bytes_of c (32 + 24)"
    using bytes_of_sub [of 32 24 "32 + 24" c] bytes_of_sub [of 0 32 "32 + 24" c] by (simp_all add: p_def)
  then have Up: "U \<inter> bytes_of p 24 = {}" using al(3) by blast
  have k1: "cstr (kmem s1) (at_slash A) [0x2f]" "cstr (kmem s1) path xs"
    using slash_cong [OF A(1) _ sl, of "kmem s1"] cstr_inside_cong [OF xs(2), of "kmem s1" "kmem s"] xs(1) al(8) A(2) by auto
  have "path \<noteq> 0" using xs(2) by (simp add: inside_def)
  then obtain e m where st: "strtok path (at_slash A) (strtok_end s1, kmem s1) = Some (path, e, m)" "cstr m path w" "inside S path w"
      "tok_rest S m e names" "\<forall>y. y \<notin> S \<longrightarrow> m y = kmem s1 y"
    using strtok_piece [OF k1 xs(2) sp, of path "strtok_end s1"] xs(3) by auto
  let ?s2 = "s1\<lparr>strtok_end := e, kmem := m\<rparr>" and ?U = "U \<union> bytes_of c (32 + 24)"
  have h2: "disk_heap ?U (56 * length names + n) ?s2"
    using disk_heap_kmem [of ?U _ "s1\<lparr>strtok_end := e\<rparr>" m] al(2) st(5) A(2) by auto
  have "m x = 0" if "x \<in> bytes_of p 16" for x
  proof -
    have "x \<in> bytes_of p 24" "x \<notin> S" using that node_bytes(3) [of p] Up A(2) by blast+
    then show ?thesis using st(5) al(9) by simp
  qed
  then have f: "fresh_node p (kmem ?s2)" using p by (simp add: fresh_node_def)
  have sl2: "cstr (kmem ?s2) (at_slash A) [0x2f]" using slash_cong [OF A(1) _ k1(1), of m] st(5) by auto
  have u: "U \<subseteq> ?U" "bytes_of p 24 \<subseteq> ?U - U" using blk(1) Up by blast+
  obtain s' U' where I: "parsePath_loop A p path ?s2 = Some s'" "?U \<subseteq> U'" "disk_heap U' n s'" "path_list (U' - U) (kmem s') p (w # names)"
      "same_volume ?s2 s'" "ll_head (bucket s' ! 1) = 0" "\<forall>x \<in> ?U - S - bytes_of p 24. kmem s' x = kmem ?s2 x"
    using parsePath_loop_builds [OF A h2 _ u f sl2, of path w] st(2,3,4) al(6) h(2) xs(4) sp by auto
  have "parsePath A path s = Some (p, s')"
    using al(1) st(1) I(1) by (simp add: parsePath_def sizeof_parsedPath_def strtok_st_def)
  moreover have "same_volume s s'" using same_volume_heap [OF al(7)] I(5) by (simp add: same_volume_def)
  moreover have "kmem s' x = kmem s x" if "x \<in> U - S" for x
  proof -
    have "x \<in> ?U - S - bytes_of p 24" using that Up by blast
    then show ?thesis using that I(7) st(5) al(8) by simp
  qed
  moreover have "bytes_of c 32 \<subseteq> U' - U" using I(2) blk(2) al(3) by blast
  ultimately show ?thesis using I(2,3,4,6) sp by (intro exI [of _ p] exI [of _ s'] exI [of _ U']) (auto simp: c_def)
qed

text \<open>Cutting and joining.\<close>

primrec join :: "byte list list \<Rightarrow> byte list" where
  "join [] = []"
| "join (w # ws) = (if ws = [] then w else w @ 0x2f # join ws)"

lemma join_splits: "join (splits xs) = xs \<and> list_all (\<lambda>w. 0x2f \<notin> set w) (splits xs)"
proof (induction xs rule: splits.induct)
  case (1 xs)
  show ?case
  proof (cases "dropWhile (\<lambda>c. c \<noteq> 0x2f) xs")
    case Nil
    then have "takeWhile (\<lambda>c. c \<noteq> 0x2f) xs = xs" by (metis append_Nil2 takeWhile_dropWhile_id)
    then have "splits xs = [xs]" by (subst splits.simps) (simp only: Nil list.case)
    moreover have "0x2f \<notin> set xs" using Nil by (auto simp: dropWhile_eq_Nil_conv)
    ultimately show ?thesis by simp
  next
    case (Cons y ys)
    have y: "y = 0x2f" using hd_dropWhile [of "\<lambda>c. c \<noteq> 0x2f" xs] Cons by simp
    have "xs = takeWhile (\<lambda>c. c \<noteq> 0x2f) xs @ 0x2f # ys" using takeWhile_dropWhile_id [of "\<lambda>c. c \<noteq> 0x2f" xs] Cons y by simp
    moreover have "splits ys \<noteq> []" by (subst splits.simps) simp
    moreover have "splits xs = takeWhile (\<lambda>c. c \<noteq> 0x2f) xs # splits ys" using Cons by (subst splits.simps) simp
    moreover have "0x2f \<notin> set (takeWhile (\<lambda>c. c \<noteq> 0x2f) xs)" by (auto dest: set_takeWhileD)
    ultimately show ?thesis using 1 [OF Cons] by simp
  qed
qed

text \<open>
  C18. \<open>parsePath\<close> returns for every non-empty path of names of at most seven characters, with a linked list of the
  names between the slashes: they contain no slash, and joined with slashes they are the path again. The nodes
  are fresh blocks of the heap, and outside the path itself, whose slashes become NULs, no memory of the client changes.
  The heap has room for a node per name (56 bytes each), the free list of the class of the nodes is empty, and the lists of the two
  classes of disk buffers are empty or hold one buffer. A longer name is not covered: its copy is cut or has no NUL.
\<close>

theorem parsePath_components:
  fixes s :: "('d, 'z) fs_state_scheme"
  assumes "bytes_of (at_slash A) 2 \<subseteq> U - S" "S \<subseteq> U" "disk_heap U (56 * length (splits xs) + n) s" "ll_head (bucket s ! 1) = 0"
    and "cstr (kmem s) (at_slash A) [0x2f]" "cstr (kmem s) path xs" "inside S path xs" "xs \<noteq> []" "\<forall>v \<in> set (splits xs). length v \<le> 7"
  shows "\<exists>p s' U' names. parsePath A path s = Some (p, s') \<and> path_list (U' - U) (kmem s') p names \<and>
    join names = xs \<and> list_all (\<lambda>w. 0x2f \<notin> set w) names \<and> U \<subseteq> U' \<and> disk_heap U' n s' \<and> (\<forall>x \<in> U - S. kmem s' x = kmem s x)"
  using parsePath_builds [OF assms] join_splits [of xs] by blast

section \<open>Opening\<close>

lemma path_list_mono: "path_list W m p names \<Longrightarrow> W \<subseteq> W' \<Longrightarrow> path_list W' m p names"
  by (induction names arbitrary: p) auto

lemma volume_cong:
  assumes "fat_hdr s' = fat_hdr s \<and> root_end s' = root_end s"
  shows "findFATOffset s' = findFATOffset s" "fat_next img s' = fat_next img s" "cluster_bytes img s' = cluster_bytes img s"
    "fat_geometry s' = fat_geometry s"
  by (rule ext | use assms in \<open>simp add: findFATOffset_def fat_next_def fat_pos_def cluster_bytes_def cluster_start_def fat_geometry_def\<close>)+

lemma path_at_cong:
  "path_at img s nail lim names r n \<Longrightarrow> fat_hdr s' = fat_hdr s \<and> root_end s' = root_end s \<Longrightarrow> path_at img s' nail lim names r n"
proof (induction rule: path_at.induct)
  case (path_step nail lim nm k c names r n)
  then show ?case
    using path_at.path_step [of img nail lim nm k c s' names r n] volume_cong(2) [OF path_step.prems] by (simp add: cluster_start_def)
qed (blast intro: path_at.path_missing path_at.path_last)+

text \<open>The memory of \<open>fopenCallback\<close> outside the heap's new blocks.\<close>

definition callback_memory :: "fs_addrs \<Rightarrow> addr set \<Rightarrow> addr set \<Rightarrow> bool" where
  "callback_memory A U S \<longleftrightarrow> bytes_of (at_slash A) 2 \<subseteq> U - S \<and> S \<subseteq> U \<and> bytes_of (at_name A) 15 \<subseteq> U - S \<and> bytes_of (at_local A) 2 \<subseteq> U - S"

text \<open>What a program may keep in memory across the call.\<close>

definition user_memory :: "fs_addrs \<Rightarrow> addr set \<Rightarrow> addr set \<Rightarrow> addr set" where
  "user_memory A U S = U - S - bytes_of (at_name A) 15 - bytes_of (at_local A) 2"

lemma fopenCallback_resolves:
  fixes s :: "('d, 'z) fs_state_scheme"
  assumes drive: "ata_drive P img xfer delay" and A: "callback_memory A U S"
    and h: "disk_heap U (56 * length (splits xs) + 64 + n + n0) s" "ll_head (bucket s ! 1) = 0"
    and sl: "cstr (kmem s) (at_slash A) [0x2f]" and xs: "cstr (kmem s) path xs" "inside S path xs" "\<forall>v \<in> set (splits xs). length v \<le> 7"
    and pa: "splits xs = w # names" "root_path img s names r n" "fat_geometry s"
  shows "\<exists>item s' U'. fopenCallback P A fd path s = Some (if r = None then - 1 else 0, s') \<and> U \<subseteq> U' \<and> disk_heap U' n0 s' \<and>
    bytes_of (topChunk s) 32 \<subseteq> U' - U \<and> bytes_of item 32 \<subseteq> U' - U \<and>
    (\<forall>x \<in> user_memory A U S. kmem s' x = kmem s x) \<and> fat_hdr s' = fat_hdr s \<and> root_end s' = root_end s \<and>
    fileDescriptors s' = fileDescriptors s \<and> (r = None \<longrightarrow> fds s' = fds s) \<and>
    (\<forall>e. r = Some e \<longrightarrow> holds_entry item e (kmem s') \<and> fds s' = (fds s)(fd := (fds s fd)\<lparr>fd_nail := findFATOffset s (entry_cluster e),
       fd_nailStart := findFATOffset s (entry_cluster e), fd_fs := at_fat16 A, fd_hdr16 := item\<rparr>))"
proof -
  note A' = A [unfolded callback_memory_def]
  have ne: "names \<noteq> []" using pa(2) unfolding root_path_def by (cases rule: path_at.cases) auto
  then have x0: "xs \<noteq> []" using pa(1) by (auto simp: splits.simps [of "[]"])
  have h1: "disk_heap U (56 * length (splits xs) + (unat (32 :: u64) + 32 + (n + n0))) s" using h(1) by (simp add: add.assoc)
  obtain p s1 U1 where pp: "parsePath A path s = Some (p, s1)" "U \<subseteq> U1" "disk_heap U1 (unat (32 :: u64) + 32 + (n + n0)) s1"
      "path_list (U1 - U) (kmem s1) p (w # names)" "same_volume s s1" "ll_head (bucket s1 ! 1) = 0" "\<forall>x \<in> U - S. kmem s1 x = kmem s x"
      "bytes_of (topChunk s) 32 \<subseteq> U1 - U"
    using parsePath_builds [OF _ _ h1 h(2) sl xs(1,2) x0 xs(3)] A' pa(1) by auto
  obtain item s2 where al: "kpkZalloc 32 s1 = Some (item, s2)" "item \<noteq> 0" "disk_heap (U1 \<union> bytes_of item 32) (n + n0) s2"
      "U1 \<inter> bytes_of item 32 = {}" "heap.more s2 = heap.more s1" "\<forall>x \<in> U1. kmem s2 x = kmem s1 x"
    using disk_heap_zalloc [OF pp(3) _ _ size_class_24(2) pp(6)] by auto
  let ?U = "U1 \<union> bytes_of item 32"
  have moat: "bytes_of (topChunk s) 32 \<subseteq> ?U - U" "bytes_of item 32 \<subseteq> ?U - U" using pp(2,8) al(4) by blast+
  have v2: "same_volume s s2" using same_volume_heap [OF al(5)] pp(5) by (simp add: same_volume_def)
  have om: "open_memory A ?U item" using A' pp(2) al(4) by (auto simp: open_memory_def)
  have "U1 - U \<subseteq> quiet A ?U item" using A' al(4) by (auto simp: quiet_def)
  then have pl: "path_list (quiet A ?U item) (kmem s2) (nextDir (kmem s1) p) names"
    using path_list_mono [OF path_list_cong [of "U1 - U" "kmem s2" "kmem s1"]] pp(4) al(6) by auto
  have vv: "fat_hdr s2 = fat_hdr s \<and> root_end s2 = root_end s" using v2 by (simp add: same_volume_def)
  note pa' = path_at_cong [OF pa(2) [unfolded root_path_def] vv]
  have g: "fat_geometry s2" using pa(3) volume_cong(4) [OF vv] by simp
  obtain s3 where lp: "fopen_loop P A item (nextDir (kmem s1) p) (root_start s) s2 = Some (map_option (\<lambda>e. findFATOffset s (entry_cluster e)) r, s3)"
      "disk_heap ?U n0 s3" "disk_state.more s3 = disk_state.more s2" "\<forall>x \<in> quiet A ?U item. kmem s3 x = kmem s2 x"
      "\<forall>e. r = Some e \<longrightarrow> holds_entry item e (kmem s3)"
    using fopen_loop_resolves [OF drive om g pa' refl pl al(3)] volume_cong(1) [OF vv] by auto
  have v3: "same_volume s s3" using v2 fs_more_cong [OF lp(3)] by (simp add: same_volume_def)
  have m3: "kmem s3 x = kmem s x" if "x \<in> user_memory A U S" for x
  proof -
    have "x \<in> quiet A ?U item" "x \<in> U1" "x \<in> U - S" using that pp(2) al(4) by (auto simp: quiet_def user_memory_def)
    then show ?thesis using lp(4) al(6) pp(7) by simp
  qed
  have rs: "root_start s2 = root_start s" using v2 by (simp add: same_volume_def)
  show ?thesis
  proof (cases r)
    case None
    then have "fopenCallback P A fd path s = Some (- 1, s3)" using pp(1) al(1,2) lp(1) rs by (simp add: fopenCallback_def sizeof_Item_def)
    then show ?thesis using None pp(2) lp(2) m3 v3 moat by (intro exI [of _ item] exI [of _ s3] exI [of _ ?U]) (auto simp: same_volume_def)
  next
    case (Some e)
    let ?f = "(fds s3 fd)\<lparr>fd_nail := findFATOffset s (entry_cluster e), fd_nailStart := findFATOffset s (entry_cluster e),
      fd_fs := at_fat16 A, fd_hdr16 := item\<rparr>"
    have "fopenCallback P A fd path s = Some (0, s3\<lparr>fds := (fds s3)(fd := ?f)\<rparr>)"
      using Some pp(1) al(1,2) lp(1) rs by (simp add: fopenCallback_def sizeof_Item_def)
    then show ?thesis using Some pp(2) lp(2,5) m3 v3 moat
      by (intro exI [of _ item] exI [of _ "s3\<lparr>fds := (fds s3)(fd := ?f)\<rparr>"] exI [of _ ?U]) (auto simp: same_volume_def)
  qed
qed

section \<open>A path on the volume\<close>

lemma vol_path_splits: "c \<noteq> 0x2f \<Longrightarrow> splits [0x2f, 0x62, 0x2f, c] = [[], [0x62], [c]]"
  by (simp add: splits.simps)

lemma vol_path_inside: "0 < unat a \<Longrightarrow> unat a < 0x10000 \<Longrightarrow> inside (bytes_of a 5) a [0x2f, 0x62, 0x2f, c]"
  by (auto simp: inside_def)

lemma vol_path_memory:
  assumes "0x2000 \<le> unat a" "unat a < 0x10000"
  shows "callback_memory vol_addrs vol_user (bytes_of a 5)"
proof -
  have "bytes_of 0x1000 2 \<subseteq> vol_user" "bytes_of 0x1300 15 \<subseteq> vol_user" "bytes_of 0x1200 2 \<subseteq> vol_user" "bytes_of a 5 \<subseteq> vol_user"
    using assms by (intro vol_block; simp)+
  moreover have "bytes_of 0x1000 2 \<inter> bytes_of a 5 = {}" "bytes_of 0x1300 15 \<inter> bytes_of a 5 = {}"
      "bytes_of 0x1200 2 \<inter> bytes_of a 5 = {}" using assms by (intro blocks_apart; simp)+
  ultimately show ?thesis by (auto simp: callback_memory_def vol_addrs_def)
qed

lemma vol_bucket: "ll_head (bucket vol_state ! 1) = 0"
  by (simp add: vol_state_def KPKBUCKET_SIZE_def LinkedList_def)

theorem parsePath_components_witness:
  "\<exists>p s' U' names. parsePath vol_addrs 0x2000 vol_state = Some (p, s') \<and> path_list (U' - vol_user) (kmem s') p names \<and>
    join names = [0x2f, 0x62, 0x2f, 0x61]"
proof -
  note M = vol_path_memory [of "0x2000", unfolded callback_memory_def]
  have c: "cstr (kmem vol_state) (at_slash vol_addrs) [0x2f]" "cstr (kmem vol_state) 0x2000 [0x2f, 0x62, 0x2f, 0x61]"
    using vol_strings by (simp_all add: vol_state_def vol_addrs_def)
  show ?thesis
    using parsePath_components [OF _ _ vol_heap vol_bucket c vol_path_inside, of 0] M by (fastforce simp: vol_path_splits)
qed

end
