(* ===== verification/Fat_File.thy ===== *)
theory Fat_File
  imports Fat_Open
begin

text \<open>
  Resolving a path that is not there, and the file of the example volume: its directory entries, its chain of
  clusters and its bytes. The slots of the descriptor table (\<open>src/src/kernel/filesystem/VFS/vfs.cpp\<close>) connect the
  number a program holds with the descriptor.
\<close>

section \<open>Descriptors\<close>

lemma path_at_entry: "path_at img s nail lim names r n \<Longrightarrow> r = Some e \<Longrightarrow> length e = 32"
  by (induction rule: path_at.induct) (auto simp: dir_entry_def)

text \<open>The open descriptor in slot \<open>i\<close>.\<close>

definition slot_of :: "nat \<Rightarrow> addr \<Rightarrow> ('d, 'z) fs_state_scheme \<Rightarrow> bool" where
  "slot_of i fd s \<longleftrightarrow> i < MAX_FILE_DESCRIPTORS_NUMBER \<and> i < length (fileDescriptors s) \<and> fileDescriptors s ! i = fd \<and> fd \<noteq> 0"

lemma fread_slot:
  "slot_of i fd s \<Longrightarrow> buffer \<noteq> 0 \<Longrightarrow> fread P A (int i) buffer cnt s = freadCallback P A fd buffer cnt s"
  by (auto simp: slot_of_def fread_def vfs_check_def)

section \<open>Property\<close>


section \<open>A file on the volume\<close>

lemma vol_next: "fat_next vol_image vol_state 2 = 0xffff" "fat_next vol_image vol_state 3 = 4" "fat_next vol_image vol_state 4 = 0xffff"
  by (simp_all add: fat_next_def disk16_def fat_pos_def vol_state_def vol_header_def vol_byte vol_image_def vol_words_def word_bytes_def
      drop_bit_eq_div)

lemma vol_offset: "cluster_start vol_state c = 1536 + (unat c - 2) * 65536"
  by (simp add: cluster_start_def vol_state_def)

lemma vol_clusters: "entry_cluster (dir_entry vol_image 1024 (Suc 0)) = 2" "entry_cluster (dir_entry vol_image 1536 0) = 3"
  by (simp_all add: entry_cluster_def le16_def vol_entries)

lemma vol_step:
  assumes "path_at vol_image vol_state 1536 65536 [c] r n"
  shows "path_at vol_image vol_state 1024 512 [[0x62], c] r (144 + n)"
proof -
  have "dir_search vol_image 1024 512 [0x62] (Suc 0)" using vol_stops(1) vol_clear(1) by (simp add: dir_search_def dir_place_def)
  from path_step [OF this vol_hits(1), of 2 vol_state "[c]" r n] show ?thesis
    using assms vol_clusters(1) vol_next(1) by (simp add: vol_offset vol_entries)
qed

lemma vol_found: "root_path vol_image vol_state [[0x62], [0x61]] (Some (dir_entry vol_image 1536 0)) 192"
proof -
  have "path_at vol_image vol_state 1536 65536 [[0x61]] (Some (dir_entry vol_image 1536 0)) 48"
    using path_last [of vol_image 1536 65536 "[0x61]" 0 vol_state] vol_stops(2) vol_clear(2) vol_hits(2) by (simp add: dir_search_def dir_place_def)
  from vol_step [OF this] show ?thesis by (simp add: root_path_def) (simp add: vol_state_def)
qed

lemma vol_missing: "root_path vol_image vol_state [[0x62], [0x63]] None 240"
proof -
  have "path_at vol_image vol_state 1536 65536 [[0x63]] None 96"
    using path_missing [of vol_image 1536 65536 "[0x63]" "Suc 0" vol_state "[]"] vol_stops(3) vol_clear(3) vol_entries(4)
    by (simp add: dir_search_def dir_place_def entry_hit_def entry_used_def)
  from vol_step [OF this] show ?thesis by (simp add: root_path_def) (simp add: vol_state_def)
qed

lemma vol_buffer:
  assumes "a = 0x2000 \<or> a = 0x2200"
  shows "bytes_of 0x4000000 0x20000 \<subseteq> user_memory vol_addrs vol_user (bytes_of a 5)"
proof -
  have "bytes_of 0x4000000 0x20000 \<subseteq> vol_user" by (rule vol_block) simp_all
  moreover have "bytes_of 0x4000000 0x20000 \<inter> bytes_of a 5 = {}" "bytes_of 0x4000000 0x20000 \<inter> bytes_of 0x1300 15 = {}"
      "bytes_of 0x4000000 0x20000 \<inter> bytes_of 0x1200 2 = {}" using assms by (intro blocks_apart; auto)+
  ultimately show ?thesis by (auto simp: user_memory_def vol_addrs_def)
qed

lemma vol_root: "root_start vol_state = 1024" "cstr (kmem vol_state) (at_slash vol_addrs) [0x2f]"
    "cstr (kmem vol_state) 0x2000 [0x2f, 0x62, 0x2f, 0x61]" "cstr (kmem vol_state) 0x2200 [0x2f, 0x62, 0x2f, 0x63]"
  using vol_strings by (simp_all add: vol_state_def vol_addrs_def)

lemma vol_geometry: "fat_geometry vol_state" "fat_chain (fat_next vol_image vol_state) 3 [3, 4]" "slot_of 3 0x5000 vol_state"
  by (simp_all add: fat_geometry_def vol_next slot_of_def MAX_FILE_DESCRIPTORS_NUMBER_def)
    (simp_all add: vol_state_def vol_header_def)

lemma vol_content:
  "concat (map (cluster_bytes vol_image vol_state) [3, 4]) ! 0 = 131"
  "concat (map (cluster_bytes vol_image vol_state) [3, 4]) ! 65536 = 3"
  by (simp_all add: nth_append cluster_bytes_def vol_offset vol_byte vol_image_def vol_words_def word_bytes_def)


end
