(* ===== verification/Vfs_File.thy ===== *)
theory Vfs_File
  imports Fat_File
begin

text \<open>
  From a name to the bytes of a file, through the virtual file system
  (\<open>src/src/kernel/filesystem/VFS/vfs.cpp\<close>). \<open>fopen\<close> allocates a descriptor, makes a private copy of the name, takes a slot of
  the descriptor table, resolves the copy with the FAT16 driver and releases it; \<open>fread\<close> then goes through the slot.
  The released copy may lie in the smallest class of the heap, and is then what the first list node of the following
  disk access is made of: \<open>disk_heap_spare\<close> is the state of the heap in between.
\<close>

section \<open>The name of the file\<close>

lemma memcpy_string:
  assumes c: "cstr m src xs" and l: "length xs < 2 ^ 32" and d: "bytes_of dst (of_nat (length xs + 1)) \<inter> bytes_of src (of_nat (length xs + 1)) = {}"
  shows "snd (memcpy dst src (of_nat (length xs) + 1) m) = puts_at dst (xs @ [0]) m"
proof
  fix x
  let ?n = "of_nat (length xs) + 1 :: u64"
  have u: "unat ?n = length xs + 1" "?n = of_nat (length xs + 1)"
    using l by (simp_all add: unat_word_ariths unsigned_of_nat take_bit_nat_eq_self)
  have n0: "0 < ?n" using u(1) by (simp add: word_less_nat_alt)
  have "dst \<in> bytes_of dst ?n" using n0 by (simp add: bytes_of_def within_def)
  then have "dst \<notin> bytes_of src ?n" using d unfolding u(2) [symmetric] by blast
  then have g: "?n \<le> dst - src" by (simp add: bytes_of_def within_def not_less)
  have "m (src + (x - dst)) = (xs @ [0]) ! unat (x - dst)" if "unat (x - dst) < length xs + 1"
    using cstr_nth [OF c, of "unat (x - dst)"] that by simp
  then show "snd (memcpy dst src ?n m) x = puts_at dst (xs @ [0]) m x"
    using memcpy_loop_spec [OF disjI2 [OF g], of 0 m x] puts_at_nth [of "xs @ [0]" dst m x] l u(1)
    by (simp add: memcpy_def word_less_nat_alt)
qed

lemma cstr_bytes_cong:
  assumes "cstr m a xs" "length xs < 255" "bytes_of a (of_nat (length xs + 1)) \<subseteq> U" "\<And>x. x \<in> U \<Longrightarrow> m' x = m x"
  shows "cstr m' a xs"
proof -
  have u: "unat (of_nat (length xs + 1) :: u64) = length xs + 1" using assms(2) by (subst unsigned_of_nat) (simp add: take_bit_nat_eq_self)
  have "m' (a + of_nat i) = m (a + of_nat i)" if "i \<le> length xs" for i
  proof -
    have "unat (of_nat i :: u64) = i" using that assms(2) by (subst unsigned_of_nat) (simp add: take_bit_nat_eq_self)
    then have "within a (of_nat (length xs + 1)) (a + of_nat i)" using u that by (simp add: within_def word_less_nat_alt)
    then show ?thesis using assms(3,4) by (auto simp: bytes_of_def)
  qed
  then show ?thesis using cstr_cong [of xs m' a m] assms(1) by auto
qed

lemma size_class_name:
  assumes "z \<noteq> 0" "unat z < 256"
  shows "\<exists>k \<le> 4. size_class z = Some k"
proof -
  have "z < 2 ^ 62" using assms(2) by (simp add: word_less_nat_alt)
  then obtain r where r: "alignSize z = Some r" "16 \<le> r" "unat r \<le> max 16 (2 * unat z)" using alignSize_ge [OF assms(1)] by blast
  then have "bsr_nat (unat r) < 9" using assms(2) by (intro bsr_nat_less) auto
  then show ?thesis using r(1) bucket_index_eq [OF r(2)] by (simp add: size_class_def)
qed

text \<open>Releasing the name: its chunk is parked, in the smallest class as a spare.\<close>

lemma free_name:
  fixes s :: "('d, 'z) disk_state_scheme"
  assumes h: "disk_heap U (48 + n) s" and M: "bytes_of c 48 \<subseteq> U" "unat c + 48 \<le> unat (topChunk s)" "0x200000 \<le> unat c"
    and k: "kmem s c = 0" "bucket_index (read64 (kmem s) (c + 8)) = Some k" "k \<le> 4"
  shows "\<exists>s1. kpkFree (c + 32) s = Some s1 \<and> heap.more s1 = heap.more s \<and> (\<forall>x \<in> U - {c}. kmem s1 x = kmem s x) \<and>
    (disk_heap (U - bytes_of c 48) n s1 \<or> disk_heap_spare (U - bytes_of c 48) n s1)"
proof -
  obtain F G where H: "recycled 512 5 F s" "recycled 66048 13 G s" "F \<inter> G = {}" "U \<inter> F = {}" "U \<inter> G = {}"
      "\<forall>x \<in> U. \<not> (topChunk s \<le> x \<and> x < KPKHEAP_END)" "heap_room {0} (cost 512 F + cost 66048 G + (48 + n)) s" "ll_size (bucket s ! 0) = 0"
    using disk_heapE [OF h] .
  let ?r = "cost 512 F + cost 66048 G + n" and ?V = "U - bytes_of c 48" and ?nd = "topChunk s + 32"
  have room: "heap_room {0} (48 + ?r) s" using H(7) by (simp add: ac_simps)
  note top = heap_room_top [OF room]
  have k': "k < 21" "unat c + 16 \<le> unat (topChunk s)" using k(3) M(2) by simp_all
  obtain s1 where f: "kpkFree (c + 32) s = Some s1" "heap_step k {c} s s1" "heap_room ({0} - {k}) ?r s1" "unat (topChunk s1) = unat (topChunk s) + 48"
      "bucket s1 ! k = (if ll_head (bucket s ! k) = 0 then \<lparr>ll_head = ?nd, ll_last = ?nd, ll_size = ll_size (bucket s ! k) + 1\<rparr>
         else (bucket s ! k)\<lparr>ll_head := ?nd, ll_size := ll_size (bucket s ! k) + 1\<rparr>)"
      "read64 (kmem s1) ?nd = (if ll_head (bucket s ! k) = 0 then 0 else ll_last (bucket s ! k))" "read64 (kmem s1) (?nd + 8) = c"
      "read64 (kmem s1) (c + 8) = read64 (kmem s) (c + 8)"
    using free_pushes [OF room k(1,2) k'] by blast
  note st = f(2) [unfolded heap_step_def]
  have un: "unat ?nd = unat (topChunk s) + 32" using heap_room_add [OF room, of 32] by simp
  have low: "x < topChunk s" if "x \<in> F \<union> G" for x using that recycled_below [OF H(1,7)] recycled_below [OF H(2,7)] by auto
  have cU: "c \<in> U" using M(1) by (auto simp: bytes_of_def within_def)
  have out: "kmem s1 x = kmem s x" if "x \<in> F \<union> G \<or> x \<in> U - {c}" for x
  proof -
    have "x \<noteq> c" using that cU H(4,5) by blast
    moreover have "\<not> (topChunk s \<le> x \<and> x < topChunk s1)"
      using that low [of x] H(6) f(4) top by (auto simp: word_le_nat_alt word_less_nat_alt KPKHEAP_END_def)
    ultimately show ?thesis using st by blast
  qed
  have r: "recycled 512 5 F s1" by (rule recycled_cong [OF H(1)]) (use out st k(3) in auto)
  have r': "recycled 66048 13 G s1" by (rule recycled_cong [OF H(2)]) (use out st k(3) in auto)
  have V: "?V \<inter> F = {}" "?V \<inter> G = {}" "\<forall>x \<in> ?V. \<not> (topChunk s1 \<le> x \<and> x < KPKHEAP_END)"
    using H(4,5,6) st by (auto intro: order_trans)
  have "disk_heap ?V n s1 \<or> disk_heap_spare ?V n s1"
  proof (cases "k = 0")
    case False
    then show ?thesis using disk_heapI [OF r r' H(3) V(1,2), of n] V(3) f(3) H(8) st by simp
  next
    case True
    have hd: "ll_head (bucket s ! k) = 0" "ll_size (bucket s ! k) = 0" using room H(8) True by (simp_all add: heap_room_def)
    have "?nd \<noteq> 0" using un by auto
    then have p: "parked 16 0 ?nd c s1" using f(4-8) hd k(2) M(2,3) un True by (simp add: parked_def)
    have "x \<notin> U \<union> F \<union> G" if "x \<in> bytes_of ?nd 16" for x
    proof -
      have "topChunk s \<le> x \<and> x < KPKHEAP_END"
        using that bytes_of_range [of ?nd 16 x] un top by (simp add: word_le_nat_alt word_less_nat_alt KPKHEAP_END_def)
      then show ?thesis using H(6) low [of x] by (auto simp: not_less)
    qed
    then have "(bytes_of c 48 \<union> bytes_of ?nd 16) \<inter> (?V \<union> F \<union> G) = {}" using M(1) H(4,5) by blast
    then show ?thesis unfolding disk_heap_spare_def using r r' H(3) V p f(3) [unfolded True, simplified] by blast
  qed
  moreover have "\<forall>x \<in> U - {c}. kmem s1 x = kmem s x" using out by simp
  ultimately show ?thesis using f(1) st by (intro exI [of _ s1]) simp
qed

section \<open>Reading after opening\<close>

lemma fread_loop_spare:
  fixes s :: "('d, 'z) fs_state_scheme"
  assumes drive: "ata_drive P img xfer delay" and b: "bytes_of (at_local A) 2 \<subseteq> U" and g: "fat_geometry s"
    and h: "disk_heap U (96 * length cs + n) s \<or> disk_heap_spare U (96 * length cs + n) s" and e: "fat_chain (fat_next img s) e cs"
    and B: "65536 * length cs < 2 ^ 64" "bytes_of buffer (of_nat (65536 * length cs)) \<subseteq> U - bytes_of (at_local A) 2"
  shows "\<exists>s'. fread_loop P A buffer e (findFATOffset s e) 0 s = Some s' \<and> kout s' = kout s \<and> disk_state.more s' = disk_state.more s \<and>
     (\<forall>x \<in> U - bytes_of (at_local A) 2. kmem s' x = puts_at buffer (concat (map (cluster_bytes img s) cs)) (kmem s) x)"
proof (cases "disk_heap U (96 * length cs + n) s \<or> cs = []")
  case True
  then show ?thesis
  proof
    assume d: "disk_heap U (96 * length cs + n) s"
    show ?thesis using fread_loop_reads [OF drive b g d e refl B(1), of buffer 0] B(2) by (auto simp: clusters_read_def)
  next
    assume "cs = []"
    then show ?thesis using e by (subst fread_loop.simps) simp
  qed
next
  case False
  then obtain c cs' where cs: "cs = c # cs'" by (cases cs) auto
  have c: "e = c" "2 \<le> c" "c < 0xffff" "fat_chain (fat_next img s) (ucast (fat_next img s c)) cs'" using e cs by simp_all
  note pos = findFATOffset_pos [OF g c(2,3)]
  have B': "65536 * length (c # cs') < 2 ^ 64" "bytes_of (buffer + 0) (of_nat (65536 * length (c # cs'))) \<subseteq> U - bytes_of (at_local A) 2"
    using B cs by simp_all
  note sub = cluster_space [OF B']
  have sp: "disk_heap_spare U (96 * length cs + n) s" using h False by blast
  have "bytes_of (buffer + 0) 65536 \<subseteq> U" using sub(1) by blast
  from readDisk_spare [OF drive sp this pos(2,3)]
  obtain s1 where s1: "readDisk P (findFATOffset s c) 65536 (buffer + 0) s = Some s1" "disk_heap U (96 * length cs + n) s1"
      "disk_read U (buffer + 0) (cluster_bytes img s c) s s1"
    by (auto simp: cluster_bytes_def pos(1))
  have d1: "disk_heap U (48 + (96 * length cs' + n)) s1" by (rule disk_heap_mono [OF s1(2)]) (simp_all add: cs)
  obtain s2 where s2: "disk_heap U (96 * length cs' + n) s2" "disk_state.more s2 = disk_state.more s"
      "fread_loop P A buffer c (findFATOffset s c) 0 s =
        fread_loop P A buffer (ucast (fat_next img s c)) (findFATOffset s (ucast (fat_next img s c))) (0 + 65536) s2"
      "\<forall>s'. clusters_read A img U n (buffer + (0 + 65536)) cs' s2 s' \<longrightarrow> clusters_read A img U n (buffer + 0) (c # cs') s s'"
    using fread_loop_step [OF drive b c(2,3) s1(1) d1 s1(3) B'(1), of n] by blast
  note fc = fat_cong [OF s2(2)]
  have g2: "fat_geometry s2" "fat_chain (fat_next img s2) (ucast (fat_next img s c)) cs'" "65536 * length cs' < 2 ^ 64"
    using g c(4) B(1) cs by (simp_all add: fc)
  obtain s' where "fread_loop P A buffer (ucast (fat_next img s c)) (findFATOffset s (ucast (fat_next img s c))) (0 + 65536) s2 = Some s'"
      "clusters_read A img U n (buffer + (0 + 65536)) cs' s2 s'"
    using fread_loop_reads [OF drive b g2(1) s2(1) g2(2) refl g2(3) sub(2)] unfolding fc by blast
  then show ?thesis using s2(3,4) c(1) cs by (auto simp: clusters_read_def)
qed

section \<open>Opening\<close>

definition vfs_memory :: "fs_addrs \<Rightarrow> addr set \<Rightarrow> bool" where
  "vfs_memory A U \<longleftrightarrow> bytes_of (at_slash A) 2 \<subseteq> U \<and> bytes_of (at_name A) 15 \<subseteq> U \<and> bytes_of (at_local A) 2 \<subseteq> U"

lemma size_class_35: "size_class 35 = Some 2"
  by (simp add: size_class_def alignSize_def msb_def lsb_def bucket_index_def bsr_nat.simps bsf_nat.simps MIN_CHUNK_SIZE_def)

text \<open>A private copy of the name, in the chunk at \<open>c\<close>.\<close>

definition name_copy :: "addr set \<Rightarrow> nat \<Rightarrow> byte list \<Rightarrow> nat \<Rightarrow> addr \<Rightarrow> ('d, 'z) disk_state_scheme \<Rightarrow> ('d, 'z) disk_state_scheme \<Rightarrow> bool" where
  "name_copy U n xs k c s s' \<longleftrightarrow> (let z = of_nat (length xs + 1) in
     disk_heap (U \<union> bytes_of c (32 + z)) n s' \<and> U \<inter> bytes_of c (32 + z) = {} \<and> cstr (kmem s') (c + 32) xs \<and>
     inside (bytes_of (c + 32) z) (c + 32) xs \<and> kmem s' c = 0 \<and> bucket_index (read64 (kmem s') (c + 8)) = Some k \<and>
     0x200000 \<le> unat c \<and> unat (topChunk s') = unat c + 33 + length xs \<and> unat (topChunk s') \<le> 0x3000000 \<and>
     bucket s' = bucket s \<and> heap.more s' = heap.more s \<and> (\<forall>x \<in> U. kmem s' x = kmem s x))"

lemma name_copied:
  fixes s :: "('d, 'z) disk_state_scheme"
  assumes h: "disk_heap U (length xs + 33 + n) s" "ll_head (bucket s ! k) = 0"
    and k: "size_class (of_nat (length xs + 1)) = Some k" and c: "cstr (kmem s) filename xs" "length xs < 255"
    and F: "bytes_of filename (of_nat (length xs + 1)) \<subseteq> U"
  shows "\<exists>c s2. kpkZalloc (of_nat (length xs) + 1) s = Some (c + 32, s2) \<and>
    name_copy U n xs k c s (s2\<lparr>kmem := snd (memcpy (c + 32) filename (of_nat (length xs) + 1) (kmem s2))\<rparr>)"
proof -
  define z where "z = (of_nat (length xs + 1) :: u64)"
  note k = k [folded z_def] and F = F [folded z_def]
  have zz: "of_nat (length xs) + 1 = z" by (simp add: z_def)
  have z: "unat z = length xs + 1" unfolding z_def using c(2) by (subst unsigned_of_nat) (simp add: take_bit_nat_eq_self)
  then have z': "z \<noteq> 0" "z < 2 ^ 24" using c(2) by (auto simp: word_less_nat_alt)
  have h2: "disk_heap U (unat z + 32 + n) s" using h(1) z by (simp add: ac_simps)
  define c' where "c' = topChunk s"
  obtain s2 where b: "kpkZalloc z s = Some (c' + 32, s2)" "disk_heap (U \<union> bytes_of c' (32 + z)) n s2" "U \<inter> bytes_of c' (32 + z) = {}"
      "0x200000 \<le> unat c'" "unat (topChunk s2) = unat c' + 32 + unat z" "unat (topChunk s2) \<le> 0x3000000" "bucket s2 = bucket s"
      "heap.more s2 = heap.more s" "kmem s2 c' = 0" "bucket_index (read64 (kmem s2) (c' + 8)) = Some k" "\<forall>x \<in> U. kmem s2 x = kmem s x"
    using disk_heap_zalloc_header [OF h2 z' k h(2)] unfolding c'_def by auto
  have cs: "cstr (kmem s2) filename xs"
    by (rule cstr_bytes_cong [OF c F [unfolded z_def]]) (use b(11) in blast)
  have sub: "bytes_of (c' + 32) z \<subseteq> bytes_of c' (32 + z)"
    using bytes_of_sub [of 32 z "32 + z" c'] unat_add32 [OF z'(2)] by simp
  define m where "m = puts_at (c' + 32) (xs @ [0]) (kmem s2)"
  have mc: "snd (memcpy (c' + 32) filename z (kmem s2)) = m"
    unfolding m_def zz [symmetric] by (rule memcpy_string [OF cs]) (use c(2) F sub b(3) in \<open>auto simp: z_def\<close>)
  have out: "m x = kmem s2 x" if "x \<notin> bytes_of (c' + 32) z" for x
    unfolding m_def by (rule puts_at_off) (use that c(2) in \<open>simp_all add: bytes_of_def add.commute z_def\<close>)
  have uc: "unat (c' + 32) = unat c' + 32" using b(5,6) z by (simp add: unat_word_ariths)
  have "m x = kmem s2 x" if "within c' 32 x" for x
    using that out [of x] within_range [of c' 32 x] bytes_of_range [of "c' + 32" z x] uc b(5,6) z by auto
  then have "m c' = 0" "read64 m (c' + 8) = read64 (kmem s2) (c' + 8)"
    using b(9) read64_cong [of "c' + 8" m "kmem s2"] within_shift [of 8 8 32 c'] by (auto simp: within_def)
  moreover have "cstr m (c' + 32) xs"
    unfolding m_def using cstr_padded [OF cstr_nonzero [OF c(1)], of "length xs + 1" "c' + 32" "kmem s2"] c(2) by simp
  moreover have "inside (bytes_of (c' + 32) z) (c' + 32) xs" using uc b(5,6) z by (auto simp: inside_def z_def)
  moreover have "disk_heap (U \<union> bytes_of c' (32 + z)) n (s2\<lparr>kmem := m\<rparr>)" by (rule disk_heap_kmem [OF b(2)]) (use out sub in blast)
  moreover have "m x = kmem s x" if "x \<in> U" for x
  proof -
    have "x \<notin> bytes_of (c' + 32) z" using that sub b(3) by blast
    then show ?thesis using out b(11) that by simp
  qed
  ultimately have "name_copy U n xs k c' s (s2\<lparr>kmem := m\<rparr>)"
    unfolding name_copy_def Let_def z_def [symmetric] using b z by simp
  then show ?thesis using b(1) mc unfolding zz by blast
qed

lemma fopen_prepared:
  fixes s :: "('d, 'z) disk_state_scheme"
  assumes h: "disk_heap U (67 + (length xs + 33 + n)) s" "ll_head (bucket s ! 2) = 0" "ll_head (bucket s ! k) = 0"
    and k: "size_class (of_nat (length xs + 1)) = Some k" and c: "cstr (kmem s) filename xs" "length xs < 255"
    and F: "bytes_of filename (of_nat (length xs + 1)) \<subseteq> U"
  shows "\<exists>fd s1 c s2. kpkZalloc 35 s = Some (fd, s1) \<and> fd \<noteq> 0 \<and> strlen (kmem s1) filename = Some (of_nat (length xs)) \<and>
    kpkZalloc (of_nat (length xs) + 1) s1 = Some (c + 32, s2) \<and>
    name_copy U n xs k c s (s2\<lparr>kmem := snd (memcpy (c + 32) filename (of_nat (length xs) + 1) (kmem s2))\<rparr>)"
proof -
  have h1: "disk_heap U (unat (35 :: u64) + 32 + (length xs + 33 + n)) s" using h(1) by (simp add: add.assoc)
  obtain fd s1 where a: "kpkZalloc 35 s = Some (fd, s1)" "fd \<noteq> 0" "disk_heap (U \<union> bytes_of fd 35) (length xs + 33 + n) s1"
      "bucket s1 = bucket s" "heap.more s1 = heap.more s" "\<forall>x \<in> U. kmem s1 x = kmem s x"
    using disk_heap_zalloc [OF h1 _ _ size_class_35 h(2)] by auto
  have cs: "cstr (kmem s1) filename xs" by (rule cstr_bytes_cong [OF c F]) (use a(6) in blast)
  have h2: "disk_heap U (length xs + 33 + n) s1" by (rule disk_heap_mono [OF a(3)]) auto
  have b: "ll_head (bucket s1 ! k) = 0" using a(4) h(3) by simp
  have tr: "name_copy U n xs k c s1 s3 \<Longrightarrow> name_copy U n xs k c s s3" for c s3
    using a(4-6) by (simp add: name_copy_def Let_def)
  show ?thesis using name_copied [OF h2 b k cs c(2) F] tr a(1,2) strlen_cstr [OF cs] by blast
qed

lemma disk_heap_top:
  assumes "disk_heap U n s"
  shows "unat (topChunk s) + n \<le> 0x3000000"
proof -
  obtain F G where "heap_room {0} (cost 512 F + cost 66048 G + n) s" using disk_heapE [OF assms] .
  from heap_room_top(2) [OF this] show ?thesis by simp
qed

lemma disk_heap_below: "disk_heap U n s \<Longrightarrow> x \<in> U \<Longrightarrow> unat x < 0x3000000 \<Longrightarrow> unat x < unat (topChunk s)"
  by (erule disk_heapE) (auto simp: word_le_nat_alt word_less_nat_alt KPKHEAP_END_def not_le)

lemma disk_heap_fileDescriptors [simp]: "disk_heap U n (s\<lparr>fileDescriptors := f\<rparr>) = disk_heap U n s"
  by (simp add: disk_heap_def two_buffers_def recycled_def parked_def heap_room_def)

lemma take_slot_free:
  assumes "free_slot (fileDescriptors s) 0 = Some i"
  shows "take_slot fd s = s\<lparr>fileDescriptors := (fileDescriptors s)[i := fd], fds := (fds s)(fd := zero_fd\<lparr>fd_idx := of_nat i\<rparr>)\<rparr>"
    "i < 256" "(of_nat i :: u16) \<noteq> - 1" "sint (of_nat i :: u16) = int i"
proof -
  show "take_slot fd s = s\<lparr>fileDescriptors := (fileDescriptors s)[i := fd], fds := (fds s)(fd := zero_fd\<lparr>fd_idx := of_nat i\<rparr>)\<rparr>"
    using assms by (simp add: take_slot_def)
  let ?P = "\<lambda>j. j < MAX_FILE_DESCRIPTORS_NUMBER \<and> fileDescriptors s ! j = 0"
  have "\<exists>j. ?P j" "i = (LEAST j. ?P j)" using assms free_slot_spec [of "fileDescriptors s" 0] by (auto split: if_splits)
  then have "?P i" by (metis (mono_tags, lifting) LeastI)
  then show i: "i < 256" by (simp add: MAX_FILE_DESCRIPTORS_NUMBER_def)
  have u: "unat (of_nat i :: u16) = i" using i by (simp add: unsigned_of_nat take_bit_nat_eq_self)
  show "(of_nat i :: u16) \<noteq> - 1"
  proof
    assume "(of_nat i :: u16) = - 1"
    then have "unat (of_nat i :: u16) = unat (- 1 :: u16)" by simp
    then show False using u i by (simp add: unsigned_minus_1_eq_mask mask_eq_exp_minus_1)
  qed
  show "sint (of_nat i :: u16) = int i" using i by (simp add: signed_of_nat signed_take_bit_int_eq_self)
qed

text \<open>The chunk of the name and what may lie behind it are apart from everything else, so it can be released.\<close>

lemma name_released:
  fixes s5 :: "('d, 'z) fs_state_scheme"
  assumes nc: "name_copy U (64 + N) xs k c s s4" and k: "k \<le> 4" and vm: "vfs_memory A U" and l: "length xs < 255"
    and U5: "U \<union> bytes_of c (32 + of_nat (length xs + 1)) \<subseteq> U5" "bytes_of (topChunk s4) 32 \<subseteq> U5 - (U \<union> bytes_of c (32 + of_nat (length xs + 1)))"
    and h: "disk_heap U5 (48 + n) s5"
    and m: "\<forall>x \<in> user_memory A (U \<union> bytes_of c (32 + of_nat (length xs + 1))) (bytes_of (c + 32) (of_nat (length xs + 1))). kmem s5 x = kmem s4 x"
  shows "\<exists>s6. kpkFree (c + 32) s5 = Some s6 \<and> heap.more s6 = heap.more s5 \<and> U \<subseteq> U5 - bytes_of c 48 \<and>
    (\<forall>x \<in> U5 - {c}. kmem s6 x = kmem s5 x) \<and> (disk_heap (U5 - bytes_of c 48) n s6 \<or> disk_heap_spare (U5 - bytes_of c 48) n s6)"
proof -
  define z where "z = (of_nat (length xs + 1) :: u64)"
  note NC = nc [unfolded name_copy_def Let_def, folded z_def]
  note U5 = U5 [folded z_def] and m = m [folded z_def]
  have z: "unat z = length xs + 1" unfolding z_def using l by (subst unsigned_of_nat) (simp add: take_bit_nat_eq_self)
  then have z24: "z < 2 ^ 24" using l by (simp add: word_less_nat_alt)
  have uc: "unat (c + 32) = unat c + 32" using NC by (simp add: unat_word_ariths)
  have t4: "unat (topChunk s4) = unat c + 33 + length xs" "0x200000 \<le> unat c" using NC by blast+
  have top4: "unat (topChunk s4) + (64 + N) \<le> 0x3000000" using disk_heap_top NC by blast
  have rng: "x \<in> bytes_of c 48 \<longleftrightarrow> unat c \<le> unat x \<and> unat x < unat c + 48"
      "x \<in> bytes_of c (32 + z) \<longleftrightarrow> unat c \<le> unat x \<and> unat x < unat c + (33 + length xs)"
      "x \<in> bytes_of (c + 32) z \<longleftrightarrow> unat c + 32 \<le> unat x \<and> unat x < unat c + 32 + (length xs + 1)"
      "x \<in> bytes_of (topChunk s4) 32 \<longleftrightarrow> unat c + 33 + length xs \<le> unat x \<and> unat x < unat c + 33 + length xs + 32" for x
    using bytes_of_range [of c 48 x] bytes_of_range [of c "32 + z" x] bytes_of_range [of "c + 32" z x] bytes_of_range [of "topChunk s4" 32 x]
      unat_add32 [OF z24] z uc t4 top4 by simp_all
  have M1: "bytes_of c 48 \<subseteq> U5" 
  proof
    fix x assume "x \<in> bytes_of c 48"
    then have "x \<in> bytes_of c (32 + z) \<union> bytes_of (topChunk s4) 32" using rng [of x] by auto
    then show "x \<in> U5" using U5 by blast
  qed
  have "bytes_of c 48 \<inter> U = {}"
  proof -
    have "bytes_of c 48 \<subseteq> bytes_of c (32 + z) \<union> bytes_of (topChunk s4) 32" using rng by auto
    then show ?thesis using NC U5(2) by blast
  qed
  then have US: "U \<subseteq> U5 - bytes_of c 48" using U5(1) by blast
  have u47: "unat (c + 47) = unat c + 47" using t4 top4 by (simp add: unat_word_ariths)
  then have "c + 47 \<in> bytes_of c 48" using rng(1) by simp
  then have M2: "unat c + 48 \<le> unat (topChunk s5)" using disk_heap_below [OF h, of "c + 47"] M1 u47 t4 top4 by auto
  have keep: "kmem s5 x = kmem s4 x" if "x \<in> bytes_of c 32" for x
  proof -
    have "x \<in> bytes_of c (32 + z)" "x \<notin> bytes_of (c + 32) z"
      using that rng [of x] bytes_of_range [of c 32 x] t4 top4 by auto
    then have "x \<in> user_memory A (U \<union> bytes_of c (32 + z)) (bytes_of (c + 32) z)"
      using NC vm by (auto simp: user_memory_def vfs_memory_def)
    then show ?thesis using m by blast
  qed
  have "kmem s5 c = 0" using keep [of c] NC by (simp add: bytes_of_def within_def)
  moreover have "bucket_index (read64 (kmem s5) (c + 8)) = Some k"
    using NC read64_cong [of "c + 8" "kmem s5" "kmem s4"] keep within_shift [of 8 8 32 c] by (simp add: bytes_of_def)
  ultimately show ?thesis using free_name [OF h M1 M2 _ _ _ k] NC US by blast
qed

lemma copy_opens:
  fixes s s3 :: "('d, 'z) fs_state_scheme" and f :: "addr list" and g :: "addr \<Rightarrow> FileDescriptor"
  assumes drive: "ata_drive P img xfer delay" and vm: "vfs_memory A U"
    and nc: "name_copy U (56 * length (splits xs) + 64 + n + (48 + n0)) xs k c s s3" "k \<le> 4" "length xs < 255"
    and b: "ll_head (bucket s ! 1) = 0" "cstr (kmem s) (at_slash A) [0x2f]"
    and pa: "splits xs = w # names" "root_path img s names (Some e) n" "\<forall>v \<in> set (splits xs). length v \<le> 7"
    and g0: "fat_geometry s"
  defines "off \<equiv> findFATOffset s (entry_cluster e)" and "s4 \<equiv> s3\<lparr>fileDescriptors := f, fds := g\<rparr>"
  shows "\<exists>item s5 s6 U'. fopenCallback P A fd (c + 32) s4 = Some (0, s5) \<and> kpkFree (c + 32) s5 = Some s6 \<and> fileDescriptors s6 = f \<and>
    fds s5 = fds s6 \<and> fds s6 = g(fd := (g fd)\<lparr>fd_nail := off, fd_nailStart := off, fd_fs := at_fat16 A, fd_hdr16 := item\<rparr>) \<and>
    holds_entry item e (kmem s6) \<and> fat_hdr s6 = fat_hdr s \<and> root_end s6 = root_end s \<and> U \<subseteq> U' \<and>
    (disk_heap U' n0 s6 \<or> disk_heap_spare U' n0 s6) \<and> (\<forall>x \<in> U - bytes_of (at_name A) 15 - bytes_of (at_local A) 2. kmem s6 x = kmem s x)"
proof -
  define z where "z = (of_nat (length xs + 1) :: u64)"
  note NC = nc(1) [unfolded name_copy_def Let_def, folded z_def]
  have z: "z < 2 ^ 24" "unat (32 + z) = unat z + 32"
    unfolding z_def using nc(3) by (simp_all add: word_less_nat_alt unat_word_ariths unsigned_of_nat take_bit_nat_eq_self)
  let ?U = "U \<union> bytes_of c (32 + z)" and ?S = "bytes_of (c + 32) z"
  have v: "fat_hdr s4 = fat_hdr s" "root_end s4 = root_end s" "root_start s4 = root_start s" "kmem s4 = kmem s3" "topChunk s4 = topChunk s3"
    using same_volume_heap [of s s3] NC by (auto simp: same_volume_def s4_def)
  have SU: "?S \<subseteq> bytes_of c (32 + z)" "c \<in> bytes_of c (32 + z)"
    using bytes_of_sub [of 32 z "32 + z" c] z by (simp_all add: bytes_of_def within_def word_less_nat_alt)
  have cm: "callback_memory A ?U ?S" using vm NC SU by (auto simp: callback_memory_def vfs_memory_def)
  have h4: "disk_heap ?U (56 * length (splits xs) + 64 + n + (48 + n0)) s4" "ll_head (bucket s4 ! 1) = 0" "cstr (kmem s4) (c + 32) xs"
      "inside ?S (c + 32) xs" using NC b(1) by (simp_all add: s4_def)
  have sl4: "cstr (kmem s4) (at_slash A) [0x2f]"
    using slash_cong [OF _ _ b(2), of U "kmem s4"] vm NC v(4) by (auto simp: vfs_memory_def)
  have pa4: "root_path img s4 names (Some e) n" "findFATOffset s4 = findFATOffset s" "fat_geometry s4"
    using path_at_cong [OF pa(2) [unfolded root_path_def], of s4] volume_cong(1,4) [of s4 s] v g0 by (simp_all add: root_path_def)
  obtain item s5 U5 where cb: "fopenCallback P A fd (c + 32) s4 = Some (0, s5)" "?U \<subseteq> U5" "disk_heap U5 (48 + n0) s5"
      "bytes_of (topChunk s4) 32 \<subseteq> U5 - ?U" "bytes_of item 32 \<subseteq> U5 - ?U" "\<forall>x \<in> user_memory A ?U ?S. kmem s5 x = kmem s4 x"
      "fat_hdr s5 = fat_hdr s4" "root_end s5 = root_end s4" "fileDescriptors s5 = fileDescriptors s4" "holds_entry item e (kmem s5)"
      "fds s5 = (fds s4)(fd := (fds s4 fd)\<lparr>fd_nail := off, fd_nailStart := off, fd_fs := at_fat16 A, fd_hdr16 := item\<rparr>)"
    using fopenCallback_resolves [OF drive cm h4(1,2) sl4 h4(3,4) pa(3,1) pa4(1,3), of fd] by (auto simp: off_def pa4(2))
  have nc4: "name_copy U (64 + (56 * length (splits xs) + n + (48 + n0))) xs k c s s3" using nc(1) by (simp add: ac_simps)
  obtain s6 where fr: "kpkFree (c + 32) s5 = Some s6" "heap.more s6 = heap.more s5" "U \<subseteq> U5 - bytes_of c 48"
      "\<forall>x \<in> U5 - {c}. kmem s6 x = kmem s5 x" "disk_heap (U5 - bytes_of c 48) n0 s6 \<or> disk_heap_spare (U5 - bytes_of c 48) n0 s6"
    using name_released [OF nc4 nc(2) vm nc(3), folded z_def, of U5 n0 s5] cb(2,3,4,6) v by auto
  have v6: "same_volume s5 s6" using same_volume_heap [OF fr(2)] by blast
  have "kmem s6 x = kmem s5 x" if "x \<in> bytes_of item 32" for x using that fr(4) cb(5) SU(2) by blast
  then have "holds_entry item e (kmem s6)"
    using cb(10) by (auto simp: holds_entry_def bytes_of_def within_def word_less_nat_alt unsigned_of_nat take_bit_nat_eq_self)
  moreover have "kmem s6 x = kmem s x" if "x \<in> U - bytes_of (at_name A) 15 - bytes_of (at_local A) 2" for x
  proof -
    have "x \<in> user_memory A ?U ?S" "x \<in> U5 - {c}" using that NC SU cb(2) by (auto simp: user_memory_def)
    then show ?thesis using that fr(4) cb(6) v(4) NC by auto
  qed
  moreover have "fds s5 = fds s6" "fds s6 = g(fd := (g fd)\<lparr>fd_nail := off, fd_nailStart := off, fd_fs := at_fat16 A, fd_hdr16 := item\<rparr>)"
      "fat_hdr s6 = fat_hdr s" "root_end s6 = root_end s" "fileDescriptors s6 = f"
    using v6 cb(7,8,9,11) v by (simp_all add: same_volume_def s4_def)
  ultimately show ?thesis using fr(1,3,5) cb(1) by blast
qed

lemma fopen_opens:
  fixes s :: "('d, 'z) fs_state_scheme"
  assumes drive: "ata_drive P img xfer delay" and vm: "vfs_memory A U"
    and h: "disk_heap U (67 + (length xs + 33 + (56 * length (splits xs) + 64 + n + (48 + n0)))) s"
      "ll_head (bucket s ! 1) = 0" "ll_head (bucket s ! 2) = 0" "ll_head (bucket s ! k) = 0"
    and k: "size_class (of_nat (length xs + 1)) = Some k" and sl: "cstr (kmem s) (at_slash A) [0x2f]"
    and c: "cstr (kmem s) filename xs" "length xs < 255" "bytes_of filename (of_nat (length xs + 1)) \<subseteq> U" "\<forall>v \<in> set (splits xs). length v \<le> 7"
    and pa: "splits xs = w # names" "root_path img s names (Some e) n" "fat_geometry s" and slot: "free_slot (fileDescriptors s) 0 = Some i"
  defines "off \<equiv> findFATOffset s (entry_cluster e)"
  shows "\<exists>fd item s' U'. fopen P A filename s = Some (int i, s') \<and> fileDescriptors s' = (fileDescriptors s)[i := fd] \<and> fd \<noteq> 0 \<and>
    fds s' fd = \<lparr>fd_idx = of_nat i, fd_nail = off, fd_nailStart = off, fd_fs = at_fat16 A, fd_hdr16 = item, fd_eof = False\<rparr> \<and>
    holds_entry item e (kmem s') \<and> fat_hdr s' = fat_hdr s \<and> root_end s' = root_end s \<and> U \<subseteq> U' \<and>
    (disk_heap U' n0 s' \<or> disk_heap_spare U' n0 s') \<and> (\<forall>x \<in> U - bytes_of (at_name A) 15 - bytes_of (at_local A) 2. kmem s' x = kmem s x)"
proof -
  have "(of_nat (length xs + 1) :: u64) \<noteq> 0" "unat (of_nat (length xs + 1) :: u64) < 256"
    using c(2) by (simp_all add: word_unat_eq_iff unsigned_of_nat take_bit_nat_eq_self del: of_nat_add of_nat_Suc)
  then have k4: "k \<le> 4" using size_class_name k by fastforce
  obtain fd s1 c' s2 where pr: "kpkZalloc 35 s = Some (fd, s1)" "fd \<noteq> 0" "strlen (kmem s1) filename = Some (of_nat (length xs))"
      "kpkZalloc (of_nat (length xs) + 1) s1 = Some (c' + 32, s2)"
      "name_copy U (56 * length (splits xs) + 64 + n + (48 + n0)) xs k c' s (s2\<lparr>kmem := snd (memcpy (c' + 32) filename (of_nat (length xs) + 1) (kmem s2))\<rparr>)"
    using fopen_prepared [OF h(1,3,4) k c(1-3)] by blast
  define s3 where "s3 = s2\<lparr>kmem := snd (memcpy (c' + 32) filename (of_nat (length xs) + 1) (kmem s2))\<rparr>"
  note nc = pr(5) [folded s3_def]
  have fdeq: "fileDescriptors s3 = fileDescriptors s" "fds s3 = fds s"
    using same_volume_heap [of s s3] nc by (auto simp: name_copy_def Let_def same_volume_def)
  have "free_slot (fileDescriptors s3) 0 = Some i" using slot fdeq by simp
  note ts = take_slot_free [OF this, unfolded fdeq]
  define g where "g = (fds s)(fd := zero_fd\<lparr>fd_idx := of_nat i, fd_fs := at_fat16 A\<rparr>)"
  define s4 where "s4 = s3\<lparr>fileDescriptors := (fileDescriptors s)[i := fd], fds := g\<rparr>"
  obtain item s5 s6 U' where r: "fopenCallback P A fd (c' + 32) s4 = Some (0, s5)" "kpkFree (c' + 32) s5 = Some s6"
      "fileDescriptors s6 = (fileDescriptors s)[i := fd]" "fds s5 = fds s6"
      "fds s6 = g(fd := (g fd)\<lparr>fd_nail := off, fd_nailStart := off, fd_fs := at_fat16 A, fd_hdr16 := item\<rparr>)"
      "holds_entry item e (kmem s6)" "fat_hdr s6 = fat_hdr s" "root_end s6 = root_end s" "U \<subseteq> U'" "disk_heap U' n0 s6 \<or> disk_heap_spare U' n0 s6"
      "\<forall>x \<in> U - bytes_of (at_name A) 15 - bytes_of (at_local A) 2. kmem s6 x = kmem s x"
    using copy_opens [OF drive vm nc k4 c(2) h(2) sl pa(1,2) c(4) pa(3), of fd g "(fileDescriptors s)[i := fd]"] unfolding off_def s4_def by blast
  have "fopen P A filename s = Some (int i, s6)"
    using pr(1-4) ts r(1,2,4,5) by (simp add: fopen_def s3_def [symmetric] s4_def g_def)
  moreover have "fds s6 fd = \<lparr>fd_idx = of_nat i, fd_nail = off, fd_nailStart = off, fd_fs = at_fat16 A, fd_hdr16 = item, fd_eof = False\<rparr>"
    using r(5) by (simp add: g_def zero_fd_def)
  ultimately show ?thesis using r(3,6-11) pr(2) by blast
qed

section \<open>Property\<close>


section \<open>A file on the volume\<close>

lemma vol_vfs: "vfs_memory vol_addrs vol_user" "bytes_of 0x2000 5 \<subseteq> vol_user"
    "bytes_of 0x4000000 0x20000 \<subseteq> vol_user - bytes_of (at_name vol_addrs) 15 - bytes_of (at_local vol_addrs) 2"
  using vol_path_memory [of "0x2000"] vol_buffer [of "0x2000"] by (auto simp: callback_memory_def vfs_memory_def user_memory_def)

lemma vol_slots: "free_slot (fileDescriptors vol_state) 0 = Some 0" "length (fileDescriptors vol_state) = MAX_FILE_DESCRIPTORS_NUMBER"
    "ll_head (bucket vol_state ! 2) = 0" "ll_head (bucket vol_state ! 0) = 0"
  by (simp_all add: vol_state_def free_slot.simps MAX_FILE_DESCRIPTORS_NUMBER_def KPKBUCKET_SIZE_def LinkedList_def)

lemma size_class_5: "size_class 5 = Some 0"
  by (simp add: size_class_def alignSize_def msb_def lsb_def bucket_index_def bsr_nat.simps bsf_nat.simps MIN_CHUNK_SIZE_def)


end
