(* ===== verification/Gdt.thy ===== *)
theory Gdt
  imports Kpkheap
begin

text \<open>
  Segment descriptors, \<open>src/src/kernel/GDT/gdt.cpp\<close> and \<open>gdt.hpp\<close>: the encoding of a descriptor, and the
  construction, for every processor, of a descriptor table with a task state segment and its
  interrupt stacks, all on the kernel heap.

  \<open>None\<close> is a failed \<open>CATCH_FIRE\<close>, which stops the machine. The hardware's reading of a descriptor
  (\<open>seg_base\<close>, \<open>seg_limit\<close>, \<open>seg_access\<close>) is the specification.
\<close>

section \<open>State\<close>

definition TOTAL_GDT_ENTRIES :: nat where "TOTAL_GDT_ENTRIES = 5"
definition TSS_SELECTOR :: u16 where "TSS_SELECTOR = 0x28"
definition KERNEL_STACK_SIZE :: u64 where "KERNEL_STACK_SIZE = 0x1000"

record EncodedEntry =
  ee_base :: u32
  ee_limit :: u32
  ee_type :: u8

definition sizeof_EncodedEntry :: u64 where "sizeof_EncodedEntry = 9"

definition get_EncodedEntry :: "mem \<Rightarrow> addr \<Rightarrow> EncodedEntry" where
  "get_EncodedEntry m a = \<lparr>ee_base = read32 m a, ee_limit = read32 m (a + 4), ee_type = m (a + 8)\<rparr>"

definition put_EncodedEntry :: "addr \<Rightarrow> EncodedEntry \<Rightarrow> mem \<Rightarrow> mem" where
  "put_EncodedEntry a e m = (write32 (a + 4) (ee_limit e) (write32 a (ee_base e) m))(a + 8 := ee_type e)"

definition sizeof_RealEntry :: u64 where "sizeof_RealEntry = 8"

text \<open>\<open>struct TSS\<close>, packed: the offsets of the fields the kernel sets.\<close>

definition sizeof_TSS :: u64 where "sizeof_TSS = 104"
definition tss_rsp0 :: u64 where "tss_rsp0 = 4"
definition tss_ist1 :: u64 where "tss_ist1 = 36"
definition tss_ist2 :: u64 where "tss_ist2 = 44"
definition tss_ist3 :: u64 where "tss_ist3 = 52"

definition sizeof_Descriptor :: u64 where "sizeof_Descriptor = 10"

definition kernelEncodedGDT :: "EncodedEntry list" where
  "kernelEncodedGDT =
     [\<lparr>ee_base = 0, ee_limit = 0, ee_type = 0\<rparr>,
      \<lparr>ee_base = 0, ee_limit = 0xffffffff, ee_type = 0x9a\<rparr>,
      \<lparr>ee_base = 0, ee_limit = 0xffffffff, ee_type = 0x92\<rparr>,
      \<lparr>ee_base = 0, ee_limit = 0xffffffff, ee_type = 0xf2\<rparr>,
      \<lparr>ee_base = 0, ee_limit = 0xffffffff, ee_type = 0xfa\<rparr>]"

record gdt_state = heap +
  perCpuGDT :: addr
  perCpuTSS :: addr
  perCpuRealGDT :: addr
  gdtDesc :: addr

section \<open>Encoding\<close>

definition align8 :: "addr \<Rightarrow> addr" where
  "align8 a = (let remainder = a mod 8 in if remainder \<noteq> 0 then a + (8 - remainder) else a)"

definition encodeGDTEntry :: "addr \<Rightarrow> EncodedEntry \<Rightarrow> mem \<Rightarrow> mem option" where
  "encodeGDTEntry target source m =
     (if ee_limit source > 65536 \<and> ee_limit source AND 0xFFF \<noteq> 0xFFF then None
      else
      let limit = (if ee_limit source > 65536 then drop_bit 12 (ee_limit source) else ee_limit source);
          m0 = (if ee_limit source > 65536 then m(target + 6 := 0xa0) else m(target + 6 := 0x20));
          m1 = m0(target := ucast (limit AND 0xFF));
          m2 = m1(target + 1 := ucast (drop_bit 8 limit AND 0xFF));
          m3 = m2(target + 6 := m2 (target + 6) OR ucast (drop_bit 16 limit AND 0xF));
          m4 = m3(target + 2 := ucast (ee_base source AND 0xFF));
          m5 = m4(target + 3 := ucast (drop_bit 8 (ee_base source) AND 0xFF));
          m6 = m5(target + 4 := ucast (drop_bit 16 (ee_base source) AND 0xFF));
          m7 = m6(target + 7 := ucast (drop_bit 24 (ee_base source) AND 0xFF))
      in Some (m7(target + 5 := ee_type source)))"

definition createDescriptor :: "u32 \<Rightarrow> u32 \<Rightarrow> u16 \<Rightarrow> u64" where
  "createDescriptor base limit flag =
     (let d0 = (ucast (limit AND 0x000F0000) :: u64);
          d1 = d0 OR ucast (push_bit 8 (ucast flag :: u32) AND 0x00F0FF00);
          d2 = d1 OR ucast (drop_bit 16 base AND 0x000000FF);
          d3 = d2 OR ucast (base AND 0xFF000000);
          d4 = push_bit 32 d3;
          d5 = d4 OR ucast (push_bit 16 base)
      in d5 OR ucast (limit AND 0x0000FFFF))"

section \<open>Tables per processor\<close>

text \<open>The slot of an array of pointers.\<close>

definition ptr_slot :: "addr \<Rightarrow> nat \<Rightarrow> addr" where
  "ptr_slot a i = a + 8 * of_nat i"

abbreviation ptr_at :: "'a gdt_state_scheme \<Rightarrow> addr \<Rightarrow> nat \<Rightarrow> addr" where
  "ptr_at s a i \<equiv> read64 (kmem s) (ptr_slot a i)"

text \<open>
  Lines 83 to 91, the table in its intermediate form. The address of the static table
  \<open>kernelEncodedGDT\<close> is the parameter \<open>kgdt\<close>.
\<close>

definition gdt_cpu :: "addr \<Rightarrow> nat \<Rightarrow> 'a gdt_state_scheme \<Rightarrow> 'a gdt_state_scheme option" where
  "gdt_cpu kgdt i s =
     do { (p, s1) \<leftarrow> kpkZalloc (6 * sizeof_EncodedEntry) s;
          let s2 = s1\<lparr>kmem := write64 (ptr_slot (perCpuGDT s1) i) p (kmem s1)\<rparr>;
          _ \<leftarrow> CATCH_FIRE (p = 0);
          Some (s2\<lparr>kmem := snd (memcpy p kgdt (5 * sizeof_EncodedEntry) (kmem s2))\<rparr>) }"

text \<open>One kernel stack: allocated, aligned, stored as the address of its upper end.\<close>

definition tss_stack :: "addr \<Rightarrow> u64 \<Rightarrow> 'a gdt_state_scheme \<Rightarrow> 'a gdt_state_scheme option" where
  "tss_stack tss field s =
     do { (p, s1) \<leftarrow> kpkZalloc KERNEL_STACK_SIZE s;
          let m1 = write64 (tss + field) (align8 p) (kmem s1);
          _ \<leftarrow> CATCH_FIRE (read64 m1 (tss + field) = 0);
          Some (s1\<lparr>kmem := write64 (tss + field) (read64 m1 (tss + field) + KERNEL_STACK_SIZE) m1\<rparr>) }"

text \<open>Lines 101 to 129.\<close>

definition tss_cpu :: "nat \<Rightarrow> 'a gdt_state_scheme \<Rightarrow> 'a gdt_state_scheme option" where
  "tss_cpu i s =
     do { (t, s1) \<leftarrow> kpkZalloc sizeof_TSS s;
          let s2 = s1\<lparr>kmem := write64 (ptr_slot (perCpuTSS s1) i) t (kmem s1)\<rparr>;
          _ \<leftarrow> CATCH_FIRE (t = 0);
          s3 \<leftarrow> tss_stack t tss_rsp0 s2;
          s4 \<leftarrow> tss_stack t tss_ist1 s3;
          s5 \<leftarrow> tss_stack t tss_ist2 s4;
          s6 \<leftarrow> tss_stack t tss_ist3 s5;
          let e = ptr_at s6 (perCpuGDT s6) i + 5 * sizeof_EncodedEntry;
          Some (s6\<lparr>kmem := put_EncodedEntry e
            \<lparr>ee_base = ucast (ptr_at s6 (perCpuTSS s6) i), ee_limit = ucast (sizeof_TSS - 1), ee_type = 0x89\<rparr>
            (kmem s6)\<rparr>) }"

text \<open>Lines 138 to 149.\<close>

fun encode_loop :: "addr \<Rightarrow> addr \<Rightarrow> nat \<Rightarrow> nat \<Rightarrow> mem \<Rightarrow> mem option" where
  "encode_loop real enc j 0 m = Some m"
| "encode_loop real enc j (Suc n) m =
     do { m1 \<leftarrow> encodeGDTEntry (real + sizeof_RealEntry * of_nat j)
                  (get_EncodedEntry m (enc + sizeof_EncodedEntry * of_nat j)) m;
          encode_loop real enc (Suc j) n m1 }"

definition real_cpu :: "nat \<Rightarrow> 'a gdt_state_scheme \<Rightarrow> 'a gdt_state_scheme option" where
  "real_cpu i s =
     do { (p, s1) \<leftarrow> kpkZalloc (7 * sizeof_RealEntry) s;
          let s2 = s1\<lparr>kmem := write64 (ptr_slot (perCpuRealGDT s1) i) p (kmem s1)\<rparr>;
          _ \<leftarrow> CATCH_FIRE (p = 0);
          m \<leftarrow> encode_loop (ptr_at s2 (perCpuRealGDT s2) i) (ptr_at s2 (perCpuGDT s2) i) 1 TOTAL_GDT_ENTRIES (kmem s2);
          Some (s2\<lparr>kmem := m\<rparr>) }"

text \<open>Lines 157 to 162, the operand of \<open>lgdt\<close> of one processor.\<close>

definition desc_cpu :: "nat \<Rightarrow> 'a gdt_state_scheme \<Rightarrow> 'a gdt_state_scheme option" where
  "desc_cpu i s =
     (let d = gdtDesc s + sizeof_Descriptor * of_nat i;
          m1 = write16 d (ucast (7 * sizeof_RealEntry)) (kmem s);
          m2 = write16 d (read16 m1 d - 1) m1
      in Some (s\<lparr>kmem := write64 (d + 2) (read64 m2 (ptr_slot (perCpuRealGDT s) i)) m2\<rparr>))"

primrec for_cpus :: "(nat \<Rightarrow> 's \<Rightarrow> 's option) \<Rightarrow> nat \<Rightarrow> nat \<Rightarrow> 's \<Rightarrow> 's option" where
  "for_cpus f i 0 s = Some s"
| "for_cpus f i (Suc n) s = do { s1 \<leftarrow> f i s; for_cpus f (Suc i) n s1 }"

text \<open>
  The whole function. The check after the allocation of \<open>gdtDesc\<close> tests \<open>perCpuRealGDT\<close>, and the
  loop over the descriptors runs to \<open>TOTAL_GDT_ENTRIES + 1\<close>, not to the number of processors.
\<close>

definition create_encoded :: "addr \<Rightarrow> 'a gdt_state_scheme \<Rightarrow> 'a gdt_state_scheme option" where
  "create_encoded kgdt s =
     (if perCpuGDT s = 0
      then do { (p, s1) \<leftarrow> kpkZalloc 128 s;
                let s2 = s1\<lparr>perCpuGDT := p\<rparr>;
                _ \<leftarrow> CATCH_FIRE (p = 0);
                for_cpus (gdt_cpu kgdt) 0 MAX_CPU_COUNT s2 }
      else Some s)"

definition create_tss :: "'a gdt_state_scheme \<Rightarrow> 'a gdt_state_scheme option" where
  "create_tss s =
     (if perCpuTSS s = 0
      then do { (p, s1) \<leftarrow> kpkZalloc 128 s;
                let s2 = s1\<lparr>perCpuTSS := p\<rparr>;
                _ \<leftarrow> CATCH_FIRE (p = 0);
                for_cpus tss_cpu 0 MAX_CPU_COUNT s2 }
      else Some s)"

definition create_real :: "'a gdt_state_scheme \<Rightarrow> 'a gdt_state_scheme option" where
  "create_real s =
     (if perCpuRealGDT s = 0
      then do { (p, s1) \<leftarrow> kpkZalloc 128 s;
                let s2 = s1\<lparr>perCpuRealGDT := p\<rparr>;
                _ \<leftarrow> CATCH_FIRE (p = 0);
                for_cpus real_cpu 0 MAX_CPU_COUNT s2 }
      else Some s)"

definition create_desc :: "'a gdt_state_scheme \<Rightarrow> 'a gdt_state_scheme option" where
  "create_desc s =
     (if gdtDesc s = 0
      then do { (p, s1) \<leftarrow> kpkZalloc (16 * sizeof_Descriptor) s;
                let s2 = s1\<lparr>gdtDesc := p\<rparr>;
                _ \<leftarrow> CATCH_FIRE (perCpuRealGDT s2 = 0);
                for_cpus desc_cpu 0 (TOTAL_GDT_ENTRIES + 1) s2 }
      else Some s)"

definition createProperGDTs :: "addr \<Rightarrow> 'a gdt_state_scheme \<Rightarrow> 'a gdt_state_scheme option" where
  "createProperGDTs kgdt s =
     do { s1 \<leftarrow> create_encoded kgdt s;
          s2 \<leftarrow> create_tss s1;
          s3 \<leftarrow> create_real s2;
          create_desc s3 }"

text \<open>\<open>loadProperGDT\<close>: the operands of \<open>lgdt\<close> (limit and base) and of \<open>ltr\<close>.\<close>

definition loadProperGDT :: "u8 \<Rightarrow> 'a gdt_state_scheme \<Rightarrow> ((u16 \<times> u64) \<times> u16) option" where
  "loadProperGDT lapicID s =
     (if ptr_at s (perCpuGDT s) (unat lapicID) = 0 then None
      else let d = gdtDesc s + sizeof_Descriptor * ucast lapicID
           in Some ((read16 (kmem s) d, read64 (kmem s) (d + 2)), TSS_SELECTOR))"

section \<open>What the processor reads\<close>

definition seg_base :: "u64 \<Rightarrow> u32" where
  "seg_base d = ucast (drop_bit 16 d AND 0xFFFFFF) OR push_bit 24 (ucast (drop_bit 56 d AND 0xFF))"

definition seg_raw_limit :: "u64 \<Rightarrow> u32" where
  "seg_raw_limit d = ucast (d AND 0xFFFF) OR push_bit 16 (ucast (drop_bit 48 d AND 0xF))"

text \<open>With the granularity bit the limit counts pages of 4 KiB.\<close>

definition seg_limit :: "u64 \<Rightarrow> u32" where
  "seg_limit d = (if bit d 55 then push_bit 12 (seg_raw_limit d) OR 0xFFF else seg_raw_limit d)"

definition seg_access :: "u64 \<Rightarrow> u8" where
  "seg_access d = ucast (drop_bit 40 d)"

text \<open>The bits L (64-bit code), D/B and AVL.\<close>

definition seg_flags :: "u64 \<Rightarrow> u8" where
  "seg_flags d = ucast (drop_bit 52 d AND 0x7)"

text \<open>Entries the format can hold, and their descriptor as one word.\<close>

definition encodable :: "EncodedEntry \<Rightarrow> bool" where
  "encodable e \<longleftrightarrow> ee_limit e \<le> 65536 \<or> ee_limit e AND 0xFFF = 0xFFF"

definition descriptor_of :: "EncodedEntry \<Rightarrow> u64" where
  "descriptor_of e =
     (if ee_limit e > 65536 then createDescriptor (ee_base e) (drop_bit 12 (ee_limit e)) (0xa000 OR ucast (ee_type e))
      else createDescriptor (ee_base e) (ee_limit e) (0x2000 OR ucast (ee_type e)))"

section \<open>Encoding and decoding\<close>

lemma createDescriptor_bytes:
  "ucast (createDescriptor b l f) = (ucast (l AND 0xFF) :: byte)"
  "ucast (drop_bit 8 (createDescriptor b l f)) = (ucast (drop_bit 8 l AND 0xFF) :: byte)"
  "ucast (drop_bit 16 (createDescriptor b l f)) = (ucast (b AND 0xFF) :: byte)"
  "ucast (drop_bit 24 (createDescriptor b l f)) = (ucast (drop_bit 8 b AND 0xFF) :: byte)"
  "ucast (drop_bit 32 (createDescriptor b l f)) = (ucast (drop_bit 16 b AND 0xFF) :: byte)"
  "ucast (drop_bit 40 (createDescriptor b l f)) = (ucast f :: byte)"
  "ucast (drop_bit 48 (createDescriptor b l f)) = (ucast (drop_bit 8 f AND 0xF0) OR ucast (drop_bit 16 l AND 0xF) :: byte)"
  "ucast (drop_bit 56 (createDescriptor b l f)) = (ucast (drop_bit 24 b AND 0xFF) :: byte)"
  by (rule byte_eqI; simp add: createDescriptor_def Let_def bit_simps)+

lemma flag_bytes:
  fixes t :: u8
  shows "ucast (0xa000 OR ucast t :: u16) = t" "ucast (0x2000 OR ucast t :: u16) = t"
    "ucast ((0xa0 OR drop_bit 8 (ucast t)) AND 0xf0 :: u16) = (0xa0 :: u8)"
    "ucast ((0x20 OR drop_bit 8 (ucast t)) AND 0xf0 :: u16) = (0x20 :: u8)"
  by (rule byte_eqI; simp add: bit_simps not_bit_u8)+

lemma encode_byte:
  assumes "encodable e" and "j < 8"
  shows "the (encodeGDTEntry t e m) (t + of_nat j) = ucast (drop_bit (8 * j) (descriptor_of e))"
proof (cases "ee_limit e > 65536")
  case True
  with assms(1) have l: "ee_limit e AND 0xFFF = 0xFFF" by (auto simp: encodable_def)
  show ?thesis
    by (rule less_8_cases [OF _ _ _ _ _ _ _ _ assms(2)];
      simp add: encodeGDTEntry_def descriptor_of_def createDescriptor_bytes flag_bytes Let_def True l)
next
  case False
  show ?thesis
    by (rule less_8_cases [OF _ _ _ _ _ _ _ _ assms(2)];
      simp add: encodeGDTEntry_def descriptor_of_def createDescriptor_bytes flag_bytes Let_def False)
qed

lemma encode_write64:
  assumes "encodable e"
  shows "encodeGDTEntry t e m = Some (write64 t (descriptor_of e) m)"
proof -
  define r where "r = the (encodeGDTEntry t e m)"
  have some: "encodeGDTEntry t e m = Some r"
    using assms by (auto simp: r_def encodeGDTEntry_def encodable_def Let_def)
  have "r x = write64 t (descriptor_of e) m x" for x
  proof (cases "within t 8 x")
    case False
    then have "x \<noteq> t + of_nat j" if "j < 8" for j
      using that by (auto simp: within_def word_less_nat_alt unsigned_of_nat take_bit_nat_eq_self)
    from this [of 0] this [of 1] this [of 2] this [of 3] this [of 4] this [of 5] this [of 6] this [of 7]
    have "r x = m x" using assms by (auto simp: r_def encodeGDTEntry_def encodable_def Let_def)
    then show ?thesis using False by (simp add: write64_outside)
  next
    case True
    define j where "j = unat (x - t)"
    have j: "j < 8" "x = t + of_nat j"
      using True by (simp_all add: j_def within_def word_less_nat_alt)
    have "r (t + of_nat j) = ucast (drop_bit (8 * j) (descriptor_of e))"
      unfolding r_def by (rule encode_byte [OF assms j(1)])
    then show ?thesis using j by (simp add: write64_byte)
  qed
  then show ?thesis using some by (simp add: fun_eq_iff)
qed


lemma seg_base_descriptor: "seg_base (createDescriptor b l f) = b"
  by (rule word32_eqI; rule byte_eqI; simp add: seg_base_def createDescriptor_def Let_def bit_simps)

lemma seg_raw_limit_descriptor: "seg_raw_limit (createDescriptor b l f) = l AND 0xFFFFF"
  by (rule word32_eqI; rule byte_eqI; simp add: seg_raw_limit_def createDescriptor_def Let_def bit_simps)

lemma seg_access_descriptor: "seg_access (createDescriptor b l f) = ucast f"
  by (simp add: seg_access_def createDescriptor_bytes)

lemma seg_flags_descriptor: "seg_flags (createDescriptor b l f) = ucast (drop_bit 12 f AND 7)"
  by (rule byte_eqI; simp add: seg_flags_def createDescriptor_def Let_def bit_simps)

lemma seg_granularity_descriptor: "bit (createDescriptor b l f) 55 = bit f 15"
  by (simp add: createDescriptor_def Let_def bit_simps)

lemma limit_pages:
  assumes "l AND 0xFFF = (0xFFF :: u32)"
  shows "push_bit 12 (drop_bit 12 l AND 0xFFFFF) OR 0xFFF = l"
proof (rule bit_word_eqI)
  fix n :: nat assume n: "n < LENGTH(32)"
  have m: "(0xFFF :: u32) = mask 12" "(0xFFFFF :: u32) = mask 20" by (simp_all add: mask_eq_exp_minus_1)
  have "bit l k" if "k < 12" for k
  proof -
    have "bit (l AND mask 12) k" using assms that by (simp add: m bit_simps)
    then show ?thesis by (simp add: bit_simps)
  qed
  then show "bit (push_bit 12 (drop_bit 12 l AND 0xFFFFF) OR 0xFFF) n = bit l n"
    using n by (auto simp: m bit_simps)
qed

lemma limit_small:
  assumes "l \<le> (65536 :: u32)"
  shows "l AND 0xFFFFF = l"
proof -
  have "unat l \<le> 65536" using assms by (simp add: word_le_nat_alt)
  then have "take_bit 20 (unat l) = unat l" by (simp add: take_bit_nat_eq_self)
  then have "take_bit 20 l = l" by (simp add: word_unat_eq_iff unsigned_take_bit_eq)
  moreover have "(0xFFFFF :: u32) = mask 20" by (simp add: mask_eq_exp_minus_1)
  ultimately show ?thesis by (metis take_bit_eq_mask)
qed

lemma descriptor_of_reads:
  assumes "encodable e"
  shows "seg_base (descriptor_of e) = ee_base e" "seg_limit (descriptor_of e) = ee_limit e"
    "seg_access (descriptor_of e) = ee_type e" "seg_flags (descriptor_of e) = 2"
proof -
  have f: "ucast ((10 OR drop_bit 12 (ucast t)) AND 7 :: u16) = (2 :: u8)"
      "ucast ((2 OR drop_bit 12 (ucast t)) AND 7 :: u16) = (2 :: u8)"
      "bit (0xa000 OR ucast t :: u16) 15" "\<not> bit (0x2000 OR ucast t :: u16) 15" for t :: u8
    by ((rule byte_eqI)?; simp add: bit_simps not_bit_u8)+
  show "seg_base (descriptor_of e) = ee_base e" "seg_access (descriptor_of e) = ee_type e"
    "seg_flags (descriptor_of e) = 2"
    by (simp_all add: descriptor_of_def seg_base_descriptor seg_access_descriptor seg_flags_descriptor flag_bytes f)
  show "seg_limit (descriptor_of e) = ee_limit e"
    using assms limit_pages [of "ee_limit e"] limit_small [of "ee_limit e"]
    by (auto simp: descriptor_of_def seg_limit_def seg_granularity_descriptor seg_raw_limit_descriptor f encodable_def)
qed

section \<open>Properties\<close>

text \<open>
  C35. \<open>encodeGDTEntry\<close> writes exactly the eight bytes that \<open>createDescriptor\<close> computes as a word, and the
  processor reads from them the base, limit and access byte that were given, as a 64-bit segment;
  a limit that the format cannot hold stops the machine and nothing is written.
\<close>

theorem encodeGDTEntry_roundtrip:
  "encodeGDTEntry t e m = (if encodable e then Some (write64 t (descriptor_of e) m) else None) \<and>
   (encodable e \<longrightarrow> seg_base (descriptor_of e) = ee_base e \<and> seg_limit (descriptor_of e) = ee_limit e \<and>
      seg_access (descriptor_of e) = ee_type e \<and> seg_flags (descriptor_of e) = 2)"
proof -
  have "encodeGDTEntry t e m = None" if "\<not> encodable e"
    using that by (auto simp: encodeGDTEntry_def encodable_def)
  then show ?thesis using encode_write64 descriptor_of_reads by simp
qed

theorem encodeGDTEntry_roundtrip_witness:
  "encodeGDTEntry 0x1008 \<lparr>ee_base = 0, ee_limit = 0xffffffff, ee_type = 0x9a\<rparr> (\<lambda>_. 0) =
     Some (write64 0x1008 0x00af9a000000ffff (\<lambda>_. 0)) \<and>
   seg_limit 0x00af9a000000ffff = 0xffffffff"
proof -
  let ?e = "\<lparr>ee_base = 0, ee_limit = 0xffffffff, ee_type = 0x9a\<rparr>"
  have e: "encodable ?e" by (simp add: encodable_def)
  have d: "descriptor_of ?e = 0x00af9a000000ffff"
    by (simp add: descriptor_of_def createDescriptor_def Let_def drop_bit_eq_div push_bit_eq_mult)
  show ?thesis using encodeGDTEntry_roundtrip [of "0x1008" ?e "\<lambda>_. 0"] e unfolding d by simp
qed

end
