(* ===== verification/Acpi.thy ===== *)
theory Acpi
  imports Kdsa
begin

text \<open>
  Discovery of the interrupt controllers' table, \<open>src/src/kernel/memory/acpi/acpi.cpp\<close> and \<open>acpi.hpp\<close>: the
  scan of the BIOS area for the root pointer, and the walk over the table of tables (32-bit or
  64-bit entries) up to the first one with the signature of the MADT. The firmware's tables are
  bytes of memory; the structures are read from it at their packed offsets.

  A loop that does not end is \<open>None\<close>.
\<close>

section \<open>State\<close>

definition EBDA_START :: addr where "EBDA_START = 0xe0000"
definition EBDA_END :: addr where "EBDA_END = 0xfffff"
definition RSD_PTR :: u64 where "RSD_PTR = 0x2052545020445352"
definition MADT_PTR :: u32 where "MADT_PTR = 0x43495041"

text \<open>\<open>struct ACPIHdr\<close>: the two fields that are read, and its size.\<close>

definition hdr_signature :: "mem \<Rightarrow> addr \<Rightarrow> u32" where "hdr_signature m a = read32 m a"
definition hdr_length :: "mem \<Rightarrow> addr \<Rightarrow> u32" where "hdr_length m a = read32 m (a + 4)"
definition sizeof_ACPIHdr :: u64 where "sizeof_ACPIHdr = 36"

text \<open>\<open>struct RSDP\<close>: revision, and the addresses of the two tables.\<close>

definition rsdp_revision :: "mem \<Rightarrow> addr \<Rightarrow> u8" where "rsdp_revision m a = m (a + 15)"
definition rsdp_rsdtAddr :: "mem \<Rightarrow> addr \<Rightarrow> u32" where "rsdp_rsdtAddr m a = read32 m (a + 16)"
definition rsdp_xsdtAddr :: "mem \<Rightarrow> addr \<Rightarrow> u64" where "rsdp_xsdtAddr m a = read64 m (a + 24)"

record acpi = kernel_mem +
  madt :: addr

section \<open>Operations\<close>

text \<open>
  The loop over the entries of a table of tables, for both widths: \<open>a\<close> is the address of the entry,
  \<open>w\<close> its width and \<open>rd\<close> the read of an entry. The result is the value of \<open>ACPI::madt\<close> after it.
\<close>

partial_function (option) sdt_loop ::
    "u64 \<Rightarrow> (addr \<Rightarrow> addr) \<Rightarrow> mem \<Rightarrow> addr \<Rightarrow> addr \<Rightarrow> addr \<Rightarrow> addr option" where
  "sdt_loop w rd m fin a found =
     (if a < fin
      then if hdr_signature m (rd a) = MADT_PTR then Some (rd a) else sdt_loop w rd m fin (a + w) found
      else Some found)"

definition parseRSDT :: "addr \<Rightarrow> 'a acpi_scheme \<Rightarrow> 'a acpi_scheme option" where
  "parseRSDT rsdt s =
     map_option (\<lambda>p. s\<lparr>madt := p\<rparr>)
       (sdt_loop 4 (\<lambda>a. ucast (read32 (kmem s) a)) (kmem s) (rsdt + ucast (hdr_length (kmem s) rsdt))
          (rsdt + sizeof_ACPIHdr) (madt s))"

definition parseXSDT :: "addr \<Rightarrow> 'a acpi_scheme \<Rightarrow> 'a acpi_scheme option" where
  "parseXSDT xsdt s =
     map_option (\<lambda>p. s\<lparr>madt := p\<rparr>)
       (sdt_loop 8 (read64 (kmem s)) (kmem s) (xsdt + ucast (hdr_length (kmem s) xsdt))
          (xsdt + sizeof_ACPIHdr) (madt s))"

definition parseRSDP :: "addr \<Rightarrow> 'a acpi_scheme \<Rightarrow> 'a acpi_scheme option" where
  "parseRSDP rsdp s =
     (if rsdp_revision (kmem s) rsdp = 0 then parseRSDT (ucast (rsdp_rsdtAddr (kmem s) rsdp)) s
      else let xsdt = rsdp_xsdtAddr (kmem s) rsdp
           in if xsdt \<noteq> 0 then parseXSDT xsdt (kpwarn ''Found XSDT instead of RSDT!'' s)
              else parseRSDT (ucast (rsdp_rsdtAddr (kmem s) rsdp)) s)"

function rsdp_scan :: "mem \<Rightarrow> addr \<Rightarrow> addr option" where
  "rsdp_scan m ptr =
     (if ptr < EBDA_END
      then if read64 m ptr = RSD_PTR then Some ptr else rsdp_scan m (ptr + 16)
      else None)"
  by pat_completeness auto

lemma rsdp_scan_measure: "(ptr :: addr) < EBDA_END \<Longrightarrow> unat (EBDA_END + 16 - (ptr + 16)) < unat (EBDA_END + 16 - ptr)"
proof -
  assume p: "ptr < EBDA_END"
  then have q: "unat ptr < 0xfffff" by (simp add: EBDA_END_def word_less_nat_alt)
  then have "unat (ptr + 16) = unat ptr + 16" by (simp add: unat_word_ariths)
  then show ?thesis using q by (simp add: EBDA_END_def unat_sub_if')
qed

termination rsdp_scan
  by (relation "measure (\<lambda>(m, ptr). unat (EBDA_END + 16 - ptr))") (use rsdp_scan_measure in auto)

declare rsdp_scan.simps [simp del]

definition parseACPI :: "'a acpi_scheme \<Rightarrow> 'a acpi_scheme option" where
  "parseACPI s = (case rsdp_scan (kmem s) EBDA_START of None \<Rightarrow> Some s | Some rsdp \<Rightarrow> parseRSDP rsdp s)"

section \<open>Specification vocabulary\<close>

text \<open>The table addresses that a table of tables lists.\<close>

definition rsdt_entries :: "mem \<Rightarrow> addr \<Rightarrow> addr list" where
  "rsdt_entries m t = map (\<lambda>i. ucast (read32 m (t + 36 + 4 * of_nat i)))
     [0..<(unat (hdr_length m t) - 36 + 3) div 4]"

definition xsdt_entries :: "mem \<Rightarrow> addr \<Rightarrow> addr list" where
  "xsdt_entries m t = map (\<lambda>i. read64 m (t + 36 + 8 * of_nat i))
     [0..<(unat (hdr_length m t) - 36 + 7) div 8]"

definition first_madt :: "mem \<Rightarrow> addr list \<Rightarrow> addr option" where
  "first_madt m ts = find (\<lambda>t. hdr_signature m t = MADT_PTR) ts"

definition sdt_tables :: "mem \<Rightarrow> addr \<Rightarrow> addr list" where
  "sdt_tables m p =
     (if rsdp_revision m p = 0 \<or> rsdp_xsdtAddr m p = 0 then rsdt_entries m (ucast (rsdp_rsdtAddr m p))
      else xsdt_entries m (rsdp_xsdtAddr m p))"

section \<open>Lemmas\<close>

lemma read32_unroll:
  "read32 m a = of_nat (unat (m a) + 256 * (unat (m (a + 1)) + 256 * (unat (m (a + 2)) + 256 * unat (m (a + 3)))))"
proof -
  have "(4 :: nat) = Suc (Suc (Suc (Suc 0)))" by simp
  then show ?thesis unfolding read32_def by (simp only: read_le.simps) (simp add: add.assoc)
qed

lemma read64_unroll: "read64 m a = ucast (read32 m a) + 4294967296 * ucast (read32 m (a + 4))"
proof -
  have "(8 :: nat) = Suc (Suc (Suc (Suc 4)))" by simp
  then have "read_le 8 m a = read_le 4 m a + 4294967296 * read_le 4 m (a + 4)" for m a
  proof -
    have "(4 :: nat) = Suc (Suc (Suc (Suc 0)))" by simp
    then show ?thesis by (simp only: \<open>8 = _\<close> read_le.simps) (simp add: add.assoc)
  qed
  moreover have "(ucast (read32 m b) :: u64) = of_nat (read_le 4 m b)" for b
    using read_le_less [of 4 m b] by (simp add: read32_def word_unat_eq_iff unat_ucast_up unsigned_of_nat take_bit_nat_eq_self)
  ultimately show ?thesis by (simp add: read64_def)
qed

lemma sdt_loop_find:
  assumes "unat a + w * n < 2 ^ 64" "unat fin \<le> unat a + w * n" "\<And>i. i < n \<Longrightarrow> unat a + w * i < unat fin"
  shows "sdt_loop (of_nat w) rd m fin a found =
    Some (case first_madt m (map (\<lambda>i. rd (a + of_nat (w * i))) [0..<n]) of None \<Rightarrow> found | Some t \<Rightarrow> t)"
  using assms
proof (induction n arbitrary: a)
  case 0
  then have "\<not> a < fin" by (simp add: word_less_nat_alt)
  then show ?case by (simp add: sdt_loop.simps first_madt_def)
next
  case (Suc n)
  have a: "a < fin" using Suc.prems(3) [of 0] by (simp add: word_less_nat_alt)
  have w: "unat (a + of_nat w) = unat a + w"
    using Suc.prems(1) by (simp add: unat_word_ariths unsigned_of_nat take_bit_nat_eq_self)
  have l: "map (\<lambda>i. rd (a + of_nat (w * i))) [0..<Suc n] = rd a # map (\<lambda>i. rd (a + of_nat w + of_nat (w * i))) [0..<n]"
    by (simp add: upt_conv_Cons map_Suc_upt [symmetric] algebra_simps del: upt_Suc)
  have "sdt_loop (of_nat w) rd m fin (a + of_nat w) found =
    Some (case first_madt m (map (\<lambda>i. rd (a + of_nat w + of_nat (w * i))) [0..<n]) of None \<Rightarrow> found | Some t \<Rightarrow> t)"
    using Suc.prems(1,2) Suc.prems(3) [of "Suc i" for i] by (intro Suc.IH) (simp_all add: w add.assoc)
  then show ?case unfolding l using a by (simp add: sdt_loop.simps [of _ _ _ _ a] first_madt_def)
qed

lemma unat_hdr_end:
  "unat t + 2 ^ 32 < 2 ^ 64 \<Longrightarrow> unat (t + ucast (hdr_length m t) :: u64) = unat t + unat (hdr_length m t)"
  using unsigned_less [of "hdr_length m t", where 'a = nat]
  by (simp add: unat_word_ariths unat_ucast_up)

lemma sdt_bounds:
  fixes len w :: nat
  assumes "0 < w"
  shows "len - 36 \<le> w * ((len - 36 + (w - 1)) div w)" "i < (len - 36 + (w - 1)) div w \<Longrightarrow> 36 + w * i < len"
    "w * ((len - 36 + (w - 1)) div w) \<le> len + w"
proof -
  let ?x = "len - 36 + (w - 1)"
  have d: "w * (?x div w) \<le> ?x" "?x < w * (?x div w) + w"
    using assms using dividend_less_times_div [of w ?x] by simp_all
  show "len - 36 \<le> w * (?x div w)" using d(2) assms by linarith
  show "w * (?x div w) \<le> len + w" using d(1) assms by linarith
  show "36 + w * i < len" if "i < ?x div w"
  proof -
    have "w * (i + 1) \<le> w * (?x div w)" using that by (intro mult_le_mono2) simp
    moreover have "w * (i + 1) = w * i + w" by simp
    ultimately show ?thesis using d(1) assms by linarith
  qed
qed

lemma sdt_loop_table:
  assumes "unat t + 2 ^ 33 < 2 ^ 64" "0 < w" "w \<le> 8"
  shows "sdt_loop (of_nat w) rd m (t + ucast (hdr_length m t)) (t + 36) found =
    Some (case first_madt m (map (\<lambda>i. rd (t + 36 + of_nat (w * i))) [0..<(unat (hdr_length m t) - 36 + (w - 1)) div w]) of
      None \<Rightarrow> found | Some p \<Rightarrow> p)"
proof (rule sdt_loop_find)
  let ?n = "(unat (hdr_length m t) - 36 + (w - 1)) div w"
  have e: "unat (t + ucast (hdr_length m t)) = unat t + unat (hdr_length m t)"
    using assms by (simp add: unat_hdr_end)
  have h: "unat (hdr_length m t) < 4294967296" using unsigned_less [of "hdr_length m t", where 'a = nat] by simp
  have t: "unat (t + 36) = unat t + 36" using assms by (simp add: unat_word_ariths)
  have lim: "unat t + 8589934592 < 18446744073709551616" "(2::nat) ^ 64 = 18446744073709551616" using assms(1) by simp_all
  note b = sdt_bounds [OF assms(2), where len = "unat (hdr_length m t)"]
  show "unat (t + 36) + w * ?n < 2 ^ 64" using b(3) h lim assms(3) unfolding t by linarith
  show "unat (t + ucast (hdr_length m t)) \<le> unat (t + 36) + w * ?n" using b(1) unfolding t e by linarith
  show "unat (t + 36) + w * i < unat (t + ucast (hdr_length m t))" if "i < ?n" for i
    using b(2) [OF that] unfolding t e by linarith
qed

lemma parseRSDT_finds:
  assumes "unat t + 2 ^ 33 < 2 ^ 64"
  shows "parseRSDT t s = Some (s\<lparr>madt := case first_madt (kmem s) (rsdt_entries (kmem s) t) of
    None \<Rightarrow> madt s | Some p \<Rightarrow> p\<rparr>)"
  using sdt_loop_table [OF assms, of 4] by (simp add: parseRSDT_def rsdt_entries_def sizeof_ACPIHdr_def)

lemma parseXSDT_finds:
  assumes "unat t + 2 ^ 33 < 2 ^ 64"
  shows "parseXSDT t s = Some (s\<lparr>madt := case first_madt (kmem s) (xsdt_entries (kmem s) t) of
    None \<Rightarrow> madt s | Some p \<Rightarrow> p\<rparr>)"
  using sdt_loop_table [OF assms, of 8] by (simp add: parseXSDT_def xsdt_entries_def sizeof_ACPIHdr_def)

lemma madt_kpwarn [simp]: "madt (kpwarn w s) = madt s" "kmem (kpwarn w s) = kmem s"
  by (cases s; simp add: kpwarn_def)+

lemma rsdp_scan_first:
  assumes "a + 16 * of_nat k < EBDA_END" "read64 m (a + 16 * of_nat k) = RSD_PTR"
    "\<And>j. j < k \<Longrightarrow> a + 16 * of_nat j < EBDA_END \<and> read64 m (a + 16 * of_nat j) \<noteq> RSD_PTR"
  shows "rsdp_scan m a = Some (a + 16 * of_nat k)"
  using assms
proof (induction k arbitrary: a)
  case 0
  then show ?case by (simp add: rsdp_scan.simps)
next
  case (Suc k)
  have "rsdp_scan m (a + 16) = Some (a + 16 + 16 * of_nat k)"
    using Suc.prems(1,2) Suc.prems(3) [of "Suc j" for j]
    by (intro Suc.IH) (simp_all add: algebra_simps)
  then show ?case using Suc.prems(3) [of 0] by (simp add: rsdp_scan.simps [of _ a] algebra_simps)
qed

text \<open>
  C36. \<open>parseACPI\<close> returns, with \<open>ACPI::madt\<close> set to the first table with the signature \<open>APIC\<close> that the
  RSDT lists, or the XSDT where the root pointer has one; the root pointer used is the first one
  on a 16-byte boundary of the BIOS area. Without such a table \<open>madt\<close> keeps its value.
\<close>

theorem parseACPI_finds_madt:
  assumes "EBDA_START + 16 * of_nat k < EBDA_END" "read64 (kmem s) (EBDA_START + 16 * of_nat k) = RSD_PTR"
    and "\<And>j. j < k \<Longrightarrow> EBDA_START + 16 * of_nat j < EBDA_END \<and> read64 (kmem s) (EBDA_START + 16 * of_nat j) \<noteq> RSD_PTR"
    and "unat (rsdp_xsdtAddr (kmem s) (EBDA_START + 16 * of_nat k)) + 2 ^ 33 < 2 ^ 64"
  shows "\<exists>s'. parseACPI s = Some s' \<and> kmem s' = kmem s \<and>
    madt s' = (case first_madt (kmem s) (sdt_tables (kmem s) (EBDA_START + 16 * of_nat k)) of None \<Rightarrow> madt s | Some t \<Rightarrow> t)"
proof -
  let ?p = "EBDA_START + 16 * of_nat k"
  have r: "unat (ucast (rsdp_rsdtAddr (kmem s) ?p) :: u64) + 2 ^ 33 < 2 ^ 64"
    using unsigned_less [of "rsdp_rsdtAddr (kmem s) ?p", where 'a = nat] by (simp add: unat_ucast_up)
  have scan: "rsdp_scan (kmem s) EBDA_START = Some ?p" using assms(1-3) by (rule rsdp_scan_first)
  show ?thesis
    by (simp add: parseACPI_def scan parseRSDP_def sdt_tables_def Let_def parseRSDT_finds [OF r]
      parseXSDT_finds [OF assms(4)] split: option.split)
qed

text \<open>A root pointer of revision 0 with an RSDT of two tables, the second of which is the MADT.\<close>

definition demo_tables :: acpi where
  "demo_tables = \<lparr>kmem = puts_at 0xe0000 [0x52, 0x53, 0x44, 0x20, 0x50, 0x54, 0x52, 0x20]
     (puts_at 0xe0010 [0, 0x10, 0, 0] (puts_at 0x1004 [44, 0, 0, 0] (puts_at 0x1024 [0, 0x20, 0, 0, 0, 0x30, 0, 0]
       (puts_at 0x3000 [0x41, 0x50, 0x49, 0x43] (\<lambda>_. 0))))), kout = [], madt = 0\<rparr>"

theorem parseACPI_finds_madt_witness:
  "\<exists>s'. parseACPI demo_tables = Some s' \<and> madt s' = 0x3000"
proof -
  note ev = demo_tables_def EBDA_START_def EBDA_END_def RSD_PTR_def read32_unroll read64_unroll
    rsdp_xsdtAddr_def rsdp_revision_def rsdp_rsdtAddr_def sdt_tables_def rsdt_entries_def hdr_length_def
    hdr_signature_def MADT_PTR_def first_madt_def upt_rec
  have a: "EBDA_START + 16 * of_nat 0 < EBDA_END" by (simp add: ev)
  have b: "read64 (kmem demo_tables) (EBDA_START + 16 * of_nat 0) = RSD_PTR" by (simp add: ev)
  have c: "unat (rsdp_xsdtAddr (kmem demo_tables) (EBDA_START + 16 * of_nat 0)) + 2 ^ 33 < 2 ^ 64" by (simp add: ev)
  have d: "first_madt (kmem demo_tables) (sdt_tables (kmem demo_tables) (EBDA_START + 16 * of_nat 0)) = Some 0x3000"
    by (simp add: ev)
  show ?thesis using parseACPI_finds_madt [OF a b _ c] unfolding d by auto
qed

end
