(* ===== verification/Pic.thy ===== *)
theory Pic
  imports Ports
begin

text \<open>
  The legacy interrupt controllers, \<open>src/src/kernel/interrupts/PIC/pic.cpp\<close>: initialisation and register
  access of the two cascaded 8259 chips. The ports are a parameter, as in the other drivers;
  \<open>pic8259\<close> is the initialisation protocol of the chip as its data sheet gives it, against
  which the sequence of control words is checked.
\<close>

section \<open>Driver\<close>

definition PIC1 :: u8 where "PIC1 = 0"
definition PIC2 :: u8 where "PIC2 = 1"
definition PIC1_REG_COMMAND :: u16 where "PIC1_REG_COMMAND = 0x20"
definition PIC1_REG_STATUS :: u16 where "PIC1_REG_STATUS = 0x20"
definition PIC1_REG_IMR :: u16 where "PIC1_REG_IMR = 0x21"
definition PIC1_REG_DATA :: u16 where "PIC1_REG_DATA = 0x21"
definition PIC2_REG_COMMAND :: u16 where "PIC2_REG_COMMAND = 0xa0"
definition PIC2_REG_STATUS :: u16 where "PIC2_REG_STATUS = 0xa0"
definition PIC2_REG_IMR :: u16 where "PIC2_REG_IMR = 0xa1"
definition PIC2_REG_DATA :: u16 where "PIC2_REG_DATA = 0xa1"
definition PIC_ICW1_IC4 :: u8 where "PIC_ICW1_IC4 = 0x01"
definition PIC_ICW1_INIT :: u8 where "PIC_ICW1_INIT = 0x10"
definition PIC1_IRQ0 :: u8 where "PIC1_IRQ0 = 0x20"
definition PIC2_IRQ8 :: u8 where "PIC2_IRQ8 = 0x28"
definition PIC1_ICW3_PIC2_LINK :: u8 where "PIC1_ICW3_PIC2_LINK = 0x04"
definition PIC2_ICW3_PIC1_LINK :: u8 where "PIC2_ICW3_PIC1_LINK = 0x2"
definition PIC_ICW4_UPM :: u8 where "PIC_ICW4_UPM = 0x01"

definition writeCMDR :: "'d ports \<Rightarrow> u8 \<Rightarrow> u8 \<Rightarrow> 'd \<Rightarrow> 'd" where
  "writeCMDR P cmd picNum d =
     (if picNum = 1 then pOutByte P PIC2_REG_COMMAND cmd d
      else if picNum = 0 then pOutByte P PIC1_REG_COMMAND cmd d
      else d)"

definition writeIMR :: "'d ports \<Rightarrow> u8 \<Rightarrow> u8 \<Rightarrow> 'd \<Rightarrow> 'd" where
  "writeIMR P dat picNum d =
     (if picNum = 1 then pOutByte P PIC2_REG_IMR dat d
      else if picNum = 0 then pOutByte P PIC1_REG_IMR dat d
      else d)"

text \<open>The reads; for another number the port is an uninitialised variable, hence \<open>None\<close>.\<close>

definition readDR :: "'d ports \<Rightarrow> u8 \<Rightarrow> 'd \<Rightarrow> (u8 \<times> 'd) option" where
  "readDR P picNum d =
     (if picNum = 1 then Some (pInByte P PIC2_REG_DATA d)
      else if picNum = 0 then Some (pInByte P PIC1_REG_DATA d)
      else None)"

definition readSR :: "'d ports \<Rightarrow> u8 \<Rightarrow> 'd \<Rightarrow> (u8 \<times> 'd) option" where
  "readSR P picNum d =
     (if picNum = 1 then Some (pInByte P PIC2_REG_STATUS d)
      else if picNum = 0 then Some (pInByte P PIC1_REG_STATUS d)
      else None)"

definition initPIC :: "'d ports \<Rightarrow> 'd \<Rightarrow> 'd" where
  "initPIC P d0 =
     (let icw = (0 :: u8);
          d1 = writeCMDR P (icw OR PIC_ICW1_INIT OR PIC_ICW1_IC4) PIC1 d0;
          d2 = writeCMDR P (icw OR PIC_ICW1_INIT OR PIC_ICW1_IC4) PIC2 d1;
          d3 = writeIMR P PIC1_IRQ0 PIC1 d2;
          d4 = writeIMR P PIC2_IRQ8 PIC2 d3;
          d5 = writeIMR P PIC1_ICW3_PIC2_LINK PIC1 d4;
          d6 = writeIMR P PIC2_ICW3_PIC1_LINK PIC2 d5;
          d7 = writeIMR P PIC_ICW4_UPM PIC1 d6;
          d8 = writeIMR P PIC_ICW4_UPM PIC2 d7;
          d9 = writeIMR P 0xff PIC1 d8
      in writeIMR P 0xff PIC2 d9)"

section \<open>The chip\<close>

text \<open>
  The initialisation protocol: a command byte with bit 4 set starts it; the following bytes on the
  data port are the vector base, the cascade (unless bit 1 of the first was set) and, if bit 0 of
  the first was set, the mode; afterwards a byte on the data port is the interrupt mask.
\<close>

datatype pic_phase = Await_ICW2 u8 | Await_ICW3 u8 | Await_ICW4 | Ready

record pic8259 =
  phase :: pic_phase
  vector_base :: u8
  cascade :: u8
  pic_mode :: u8
  irq_mask :: u8

definition pic_command :: "u8 \<Rightarrow> pic8259 \<Rightarrow> pic8259" where
  "pic_command v c = (if bit v 4 then c\<lparr>phase := Await_ICW2 v, irq_mask := 0\<rparr> else c)"

definition after_ICW3 :: "u8 \<Rightarrow> pic_phase" where
  "after_ICW3 icw1 = (if bit icw1 0 then Await_ICW4 else Ready)"

definition pic_data :: "u8 \<Rightarrow> pic8259 \<Rightarrow> pic8259" where
  "pic_data v c =
     (case phase c of
        Await_ICW2 icw1 \<Rightarrow> c\<lparr>vector_base := v, phase := if bit icw1 1 then after_ICW3 icw1 else Await_ICW3 icw1\<rparr>
      | Await_ICW3 icw1 \<Rightarrow> c\<lparr>cascade := v, phase := after_ICW3 icw1\<rparr>
      | Await_ICW4 \<Rightarrow> c\<lparr>pic_mode := v, phase := Ready\<rparr>
      | Ready \<Rightarrow> c\<lparr>irq_mask := v\<rparr>)"

text \<open>Two chips behind their ports.\<close>

definition pic_out :: "u16 \<Rightarrow> u8 \<Rightarrow> pic8259 \<times> pic8259 \<Rightarrow> pic8259 \<times> pic8259" where
  "pic_out p v d =
     (if p = 0x20 then (pic_command v (fst d), snd d)
      else if p = 0x21 then (pic_data v (fst d), snd d)
      else if p = 0xa0 then (fst d, pic_command v (snd d))
      else if p = 0xa1 then (fst d, pic_data v (snd d))
      else d)"

definition pic_ports :: "(pic8259 \<times> pic8259) ports" where
  "pic_ports = \<lparr>pInByte = \<lambda>p d. (if p = 0x21 then irq_mask (fst d) else if p = 0xa1 then irq_mask (snd d) else 0, d),
     pInWord = \<lambda>p d. (0, d), pInDWord = \<lambda>p d. (0, d),
     pOutByte = pic_out, pOutWord = \<lambda>p v d. d, pOutDWord = \<lambda>p v d. d\<rparr>"

section \<open>Properties\<close>

text \<open>
  The control words as one sequence of port writes, for any device.
\<close>

lemma initPIC_outs:
  "initPIC P d = outs P [(0x20, 0x11), (0xa0, 0x11), (0x21, 0x20), (0xa1, 0x28), (0x21, 4), (0xa1, 2),
     (0x21, 1), (0xa1, 1), (0x21, 0xff), (0xa1, 0xff)] d"
  by (simp add: initPIC_def writeCMDR_def writeIMR_def PIC1_def PIC2_def PIC1_REG_COMMAND_def PIC2_REG_COMMAND_def
    PIC1_REG_IMR_def PIC2_REG_IMR_def PIC_ICW1_IC4_def PIC_ICW1_INIT_def PIC1_IRQ0_def PIC2_IRQ8_def
    PIC1_ICW3_PIC2_LINK_def PIC2_ICW3_PIC1_LINK_def PIC_ICW4_UPM_def)

text \<open>
  C37. From any state of the two controllers \<open>initPIC\<close> completes their initialisation protocol: the
  vectors start at 0x20 and 0x28, outside the processor exceptions, the chips are cascaded on
  line 2 in 8086 mode, and every interrupt line is masked.
\<close>

theorem initPIC_initialises:
  "initPIC pic_ports (c1, c2) =
     (c1\<lparr>phase := Ready, vector_base := 0x20, cascade := 4, pic_mode := 1, irq_mask := 0xff\<rparr>,
      c2\<lparr>phase := Ready, vector_base := 0x28, cascade := 2, pic_mode := 1, irq_mask := 0xff\<rparr>)"
  by (cases c1; cases c2)
    (simp add: initPIC_outs pic_ports_def pic_out_def pic_command_def pic_data_def after_ICW3_def)

end
