(* ===== verification/Apic.thy ===== *)
theory Apic
  imports Acpi Pic
begin

text \<open>
  The interrupt controllers of the processors, \<open>src/src/kernel/interrupts/APIC/apic.cpp\<close> (class \<open>APIC\<close> of
  \<open>interrupts.hpp\<close>): the walk over the entries of the MADT, the register access of the local and of
  the I/O controller, inter-processor interrupts and the routing of the device interrupts.

  The registers are a device (\<open>mmio\<close> of \<open>Ports\<close>), the MADT is memory. \<open>None\<close> is a loop without end or
  a write behind one of the arrays of 16 pointers. The timer interrupt \<open>lapicTimerIRQ\<close> of this file
  is part of the scheduler and stands in \<open>Task\<close>.
\<close>

section \<open>State\<close>

definition LAPIC_ADDR :: addr where "LAPIC_ADDR = 0x500"
definition ACTIVE_CPUS_ADDR :: addr where "ACTIVE_CPUS_ADDR = 0x509"
definition sizeof_MADT :: u64 where "sizeof_MADT = 44"
definition madt_LAPICAddr :: "mem \<Rightarrow> addr \<Rightarrow> u32" where "madt_LAPICAddr m a = read32 m (a + 36)"

definition MADT_ENTRY_LAPIC :: u8 where "MADT_ENTRY_LAPIC = 0"
definition MADT_ENTRY_IOAPIC :: u8 where "MADT_ENTRY_IOAPIC = 1"
definition MADT_ENTRY_IOAPICISO :: u8 where "MADT_ENTRY_IOAPICISO = 2"
definition MADT_ENTRY_IOAPICNMIS :: u8 where "MADT_ENTRY_IOAPICNMIS = 3"
definition MADT_ENTRY_LAPICNMI :: u8 where "MADT_ENTRY_LAPICNMI = 4"
definition MADT_ENTRY_LAPICAO :: u8 where "MADT_ENTRY_LAPICAO = 5"
definition MADT_ENTRY_Lx2APIC :: u8 where "MADT_ENTRY_Lx2APIC = 9"

text \<open>Fields of the entries: \<open>struct LAPIC\<close>, \<open>struct IOAPIC\<close> and \<open>struct IOAPICIntrSrcOverride\<close>.\<close>

definition entry_length :: "mem \<Rightarrow> addr \<Rightarrow> u8" where "entry_length m e = m (e + 1)"
definition lapic_apicID :: "mem \<Rightarrow> addr \<Rightarrow> u8" where "lapic_apicID m e = m (e + 3)"
definition ioapic_addr :: "mem \<Rightarrow> addr \<Rightarrow> u32" where "ioapic_addr m e = read32 m (e + 4)"
definition iso_IRQSrc :: "mem \<Rightarrow> addr \<Rightarrow> u8" where "iso_IRQSrc m e = m (e + 3)"
definition iso_glblSysIntr :: "mem \<Rightarrow> addr \<Rightarrow> u32" where "iso_glblSysIntr m e = read32 m (e + 4)"

definition IOREGSEL :: u64 where "IOREGSEL = 0x00"
definition IOWIN :: u64 where "IOWIN = 0x10"
definition IOAPICVER :: u8 where "IOAPICVER = 0x01"
definition IOREDTBL :: u8 where "IOREDTBL = 0x10"
definition LAPIC_ID :: u32 where "LAPIC_ID = 0x20"
definition LAPIC_TPR :: u32 where "LAPIC_TPR = 0x80"
definition LAPIC_EOI :: u32 where "LAPIC_EOI = 0xb0"
definition LAPIC_LDR :: u32 where "LAPIC_LDR = 0xd0"
definition LAPIC_DFR :: u32 where "LAPIC_DFR = 0xe0"
definition LAPIC_SIVR :: u32 where "LAPIC_SIVR = 0xf0"
definition LAPIC_ICR0 :: u32 where "LAPIC_ICR0 = 0x300"
definition LAPIC_ICR1 :: u32 where "LAPIC_ICR1 = 0x310"
definition LAPIC_ICR_PENDING :: u32 where "LAPIC_ICR_PENDING = 0x1000"

definition PIC1_IRQ_TIMER :: u8 where "PIC1_IRQ_TIMER = 0"
definition PIC1_IRQ_KEYBOARD :: u8 where "PIC1_IRQ_KEYBOARD = 1"

record 'd apic = acpi +
  dev :: 'd
  ioapic :: addr
  ioapicisoCount :: u8
  ioapiciso :: "addr list"
  ioapicnsCount :: u8
  ioapicns :: "addr list"
  lapicnCount :: u8
  lapicn :: "addr list"
  lapicao :: addr
  lx2apicCount :: u8
  lx2apic :: "addr list"
  lapic :: "addr list"
  lapicCount :: u8

section \<open>Operations\<close>

text \<open>The constructor: the pointers \<open>lapicAddr\<close> and \<open>activeCPUs\<close> are the fixed addresses above.\<close>

definition APIC_ctor :: "('d, 'z) apic_scheme \<Rightarrow> ('d, 'z) apic_scheme" where
  "APIC_ctor s = s\<lparr>kmem := (kmem s)(ACTIVE_CPUS_ADDR := 1), lapicCount := 0\<rparr>"

text \<open>One entry: the state after its branch and whether the walk goes on.\<close>

definition madt_entry :: "addr \<Rightarrow> ('d, 'z) apic_scheme \<Rightarrow> (addr option \<times> ('d, 'z) apic_scheme) option" where
  "madt_entry e s =
     (let ty = kmem s e; nxt = e + ucast (entry_length (kmem s) e) in
      if ty = MADT_ENTRY_LAPIC then
        (if unat (lapicCount s) \<ge> length (lapic s) then None
         else Some (Some nxt, s\<lparr>lapic := (lapic s)[unat (lapicCount s) := e], lapicCount := lapicCount s + 1\<rparr>))
      else if ty = MADT_ENTRY_IOAPIC then Some (Some nxt, s\<lparr>ioapic := e\<rparr>)
      else if ty = MADT_ENTRY_IOAPICISO then
        (if unat (ioapicisoCount s) \<ge> length (ioapiciso s) then None
         else Some (Some nxt, s\<lparr>ioapiciso := (ioapiciso s)[unat (ioapicisoCount s) := e],
                                ioapicisoCount := ioapicisoCount s + 1\<rparr>))
      else if ty = MADT_ENTRY_IOAPICNMIS then
        (if unat (ioapicnsCount s) \<ge> length (ioapicns s) then None
         else Some (Some nxt, s\<lparr>ioapicns := (ioapicns s)[unat (ioapicnsCount s) := e],
                                ioapicnsCount := ioapicnsCount s + 1\<rparr>))
      else if ty = MADT_ENTRY_LAPICNMI then
        (if unat (lapicnCount s) \<ge> length (lapicn s) then None
         else Some (Some nxt, s\<lparr>lapicn := (lapicn s)[unat (lapicnCount s) := e], lapicnCount := lapicnCount s + 1\<rparr>))
      else if ty = MADT_ENTRY_LAPICAO then Some (Some e, s\<lparr>lapicao := e\<rparr>)
      else if ty = MADT_ENTRY_Lx2APIC then
        (if unat (lx2apicCount s) \<ge> length (lx2apic s) then None
         else Some (Some nxt, s\<lparr>lx2apic := (lx2apic s)[unat (lx2apicCount s) := e],
                                lx2apicCount := lx2apicCount s + 1\<rparr>))
      else Some (None, kpwarn ''Unknown MADT entry found, stopped parsing MADT!'' s))"

partial_function (option) madt_loop ::
    "addr \<Rightarrow> addr \<Rightarrow> ('d, 'z) apic_scheme \<Rightarrow> ('d, 'z) apic_scheme option" where
  "madt_loop fin e s =
     (if e < fin
      then Option.bind (madt_entry e s)
             (\<lambda>r. case fst r of None \<Rightarrow> Some (snd r) | Some e' \<Rightarrow> madt_loop fin e' (snd r))
      else Some s)"

definition parseMADT :: "('d, 'z) apic_scheme \<Rightarrow> ('d, 'z) apic_scheme option" where
  "parseMADT s =
     (let s1 = s\<lparr>kmem := write64 LAPIC_ADDR (ucast (madt_LAPICAddr (kmem s) (madt s))) (kmem s)\<rparr>
      in madt_loop (madt s1 + ucast (hdr_length (kmem s1) (madt s1))) (madt s1 + sizeof_MADT) s1)"

definition ioapic_base :: "('d, 'z) apic_scheme \<Rightarrow> addr" where
  "ioapic_base s = ucast (ioapic_addr (kmem s) (ioapic s))"

definition IOAPICout :: "'d mmio \<Rightarrow> u8 \<Rightarrow> u32 \<Rightarrow> ('d, 'z) apic_scheme \<Rightarrow> ('d, 'z) apic_scheme" where
  "IOAPICout M reg value s =
     s\<lparr>dev := mOutDWord M (ioapic_base s + IOWIN) value (mOutDWord M (ioapic_base s + IOREGSEL) (ucast reg) (dev s))\<rparr>"

definition IOAPICin :: "'d mmio \<Rightarrow> u8 \<Rightarrow> ('d, 'z) apic_scheme \<Rightarrow> u32 \<times> ('d, 'z) apic_scheme" where
  "IOAPICin M reg s =
     (let (v, d) = mInDWord M (ioapic_base s + IOWIN) (mOutDWord M (ioapic_base s + IOREGSEL) (ucast reg) (dev s))
      in (v, s\<lparr>dev := d\<rparr>))"

definition setIOAPICEntry :: "'d mmio \<Rightarrow> u8 \<Rightarrow> u64 \<Rightarrow> ('d, 'z) apic_scheme \<Rightarrow> ('d, 'z) apic_scheme" where
  "setIOAPICEntry M idx a s =
     IOAPICout M (IOREDTBL + push_bit 1 idx + 1) (ucast (drop_bit 32 a))
       (IOAPICout M (IOREDTBL + push_bit 1 idx) (ucast a) s)"

definition getIOAPICVersion :: "'d mmio \<Rightarrow> ('d, 'z) apic_scheme \<Rightarrow> u8 \<times> ('d, 'z) apic_scheme" where
  "getIOAPICVersion M s = (let (v, s1) = IOAPICin M IOAPICVER s in (ucast v, s1))"

definition getIOAPICEntriesCount :: "'d mmio \<Rightarrow> ('d, 'z) apic_scheme \<Rightarrow> u8 \<times> ('d, 'z) apic_scheme" where
  "getIOAPICEntriesCount M s =
     (let (v, s1) = IOAPICin M IOAPICVER s in (ucast (drop_bit 16 v AND 0xff) + 1, s1))"

text \<open>The base of the local controller, stored at \<open>LAPIC_ADDR\<close>.\<close>

definition lapic_base :: "('d, 'z) apic_scheme \<Rightarrow> addr" where
  "lapic_base s = read64 (kmem s) LAPIC_ADDR"

definition LAPICout :: "'d mmio \<Rightarrow> u32 \<Rightarrow> u32 \<Rightarrow> ('d, 'z) apic_scheme \<Rightarrow> ('d, 'z) apic_scheme" where
  "LAPICout M reg value s = s\<lparr>dev := mOutDWord M (lapic_base s + ucast reg) value (dev s)\<rparr>"

definition LAPICin :: "'d mmio \<Rightarrow> u32 \<Rightarrow> ('d, 'z) apic_scheme \<Rightarrow> u32 \<times> ('d, 'z) apic_scheme" where
  "LAPICin M reg s = (let (v, d) = mInDWord M (lapic_base s + ucast reg) (dev s) in (v, s\<lparr>dev := d\<rparr>))"

definition getLAPICID :: "'d mmio \<Rightarrow> ('d, 'z) apic_scheme \<Rightarrow> u8 \<times> ('d, 'z) apic_scheme" where
  "getLAPICID M s = (let (v, s1) = LAPICin M LAPIC_ID s in (ucast (drop_bit 24 v), s1))"

definition getLAPICID_of :: "u8 \<Rightarrow> ('d, 'z) apic_scheme \<Rightarrow> u8 option" where
  "getLAPICID_of i s = (if unat i \<ge> length (lapic s) then None else Some (lapic_apicID (kmem s) (lapic s ! unat i)))"

definition sendLAPICEOI :: "'d mmio \<Rightarrow> ('d, 'z) apic_scheme \<Rightarrow> ('d, 'z) apic_scheme" where
  "sendLAPICEOI M s = s\<lparr>dev := mOutDWord M (lapic_base s + ucast LAPIC_EOI) 0 (dev s)\<rparr>"

definition getLAPICCount :: "('d, 'z) apic_scheme \<Rightarrow> u8" where
  "getLAPICCount s = lapicCount s"

partial_function (option) ipi_wait :: "'d mmio \<Rightarrow> ('d, 'z) apic_scheme \<Rightarrow> ('d, 'z) apic_scheme option" where
  "ipi_wait M s =
     (case LAPICin M LAPIC_ICR0 s of (v, s1) \<Rightarrow> if v AND LAPIC_ICR_PENDING \<noteq> 0 then ipi_wait M s1 else Some s1)"

definition sendLAPICIPI :: "'d mmio \<Rightarrow> u8 \<Rightarrow> u32 \<Rightarrow> ('d, 'z) apic_scheme \<Rightarrow> ('d, 'z) apic_scheme option" where
  "sendLAPICIPI M remoteLAPICID flags s =
     ipi_wait M (LAPICout M LAPIC_ICR0 flags (LAPICout M LAPIC_ICR1 (push_bit 24 (ucast remoteLAPICID)) s))"

text \<open>The four writes that set up a local controller, lines 158 to 164 and the same in \<open>APEntry\<close>.\<close>

definition lapic_setup :: "'d mmio \<Rightarrow> ('d, 'z) apic_scheme \<Rightarrow> ('d, 'z) apic_scheme" where
  "lapic_setup M s =
     LAPICout M LAPIC_DFR 0xffffffff (LAPICout M LAPIC_TPR 0
       (LAPICout M LAPIC_LDR 0x01000000 (LAPICout M LAPIC_SIVR (0x100 OR 0xff) s)))"

text \<open>Lines 170 to 179: the global interrupts of timer and keyboard after the overrides.\<close>

definition iso_override :: "mem \<Rightarrow> addr \<Rightarrow> u8 \<times> u8 \<Rightarrow> u8 \<times> u8" where
  "iso_override m e irqs =
     (if iso_IRQSrc m e = PIC1_IRQ_TIMER then (ucast (iso_glblSysIntr m e), snd irqs)
      else if iso_IRQSrc m e = PIC1_IRQ_KEYBOARD then (fst irqs, ucast (iso_glblSysIntr m e))
      else irqs)"

definition device_irqs :: "('d, 'z) apic_scheme \<Rightarrow> u8 \<times> u8" where
  "device_irqs s = fold (iso_override (kmem s)) (take (unat (ioapicisoCount s)) (ioapiciso s))
     (PIC1_IRQ_TIMER, PIC1_IRQ_KEYBOARD)"

text \<open>Lines 181 to 187: every entry of the redirection table but these two is masked.\<close>

partial_function (option) mask_loop ::
    "'d mmio \<Rightarrow> u8 \<Rightarrow> u8 \<Rightarrow> u8 \<Rightarrow> ('d, 'z) apic_scheme \<Rightarrow> ('d, 'z) apic_scheme option" where
  "mask_loop M pit kbd entry s =
     (case getIOAPICEntriesCount M s of (n, s1) \<Rightarrow>
        if entry < n
        then mask_loop M pit kbd (entry + 1)
               (if entry = pit \<or> entry = kbd then s1 else setIOAPICEntry M entry 0x10000 s1)
        else Some s1)"

definition initAPICs :: "'d mmio \<Rightarrow> ('d, 'z) apic_scheme \<Rightarrow> ('d, 'z) apic_scheme option" where
  "initAPICs M s =
     do { s1 \<leftarrow> parseMADT s;
          let s2 = lapic_setup M s1;
          let irqs = device_irqs s2;
          s3 \<leftarrow> mask_loop M (fst irqs) (snd irqs) 0 s2;
          let s4 = setIOAPICEntry M (fst irqs) (ucast (PIC1_IRQ0 + PIC1_IRQ_TIMER)) s3;
          Some (setIOAPICEntry M (snd irqs) (ucast (PIC1_IRQ0 + PIC1_IRQ_KEYBOARD)) s4) }"


section \<open>Specification vocabulary\<close>

text \<open>The addresses of the entries from \<open>e\<close> on, each found behind its predecessor, up to \<open>fin\<close>.\<close>

primrec madt_chain :: "mem \<Rightarrow> addr \<Rightarrow> addr \<Rightarrow> addr list \<Rightarrow> bool" where
  "madt_chain m fin e [] \<longleftrightarrow> \<not> e < fin"
| "madt_chain m fin e (x # xs) \<longleftrightarrow> x = e \<and> e < fin \<and> madt_chain m fin (e + ucast (entry_length m e)) xs"

definition by_type :: "mem \<Rightarrow> u8 \<Rightarrow> addr list \<Rightarrow> addr list" where
  "by_type m ty es = filter (\<lambda>e. m e = ty) es"

text \<open>An array of 16 pointers of which the first \<open>c\<close> are in use.\<close>

definition holds_list :: "u8 \<Rightarrow> addr list \<Rightarrow> addr list \<Rightarrow> bool" where
  "holds_list c a xs \<longleftrightarrow> length a = MAX_CPU_COUNT \<and> unat c = length xs \<and> take (length xs) a = xs"

definition known_types :: "u8 list" where
  "known_types = [MADT_ENTRY_LAPIC, MADT_ENTRY_IOAPIC, MADT_ENTRY_IOAPICISO, MADT_ENTRY_IOAPICNMIS,
     MADT_ENTRY_LAPICNMI, MADT_ENTRY_Lx2APIC]"

text \<open>The tables the class keeps, when it has seen the entries \<open>es\<close>.\<close>

definition madt_inv :: "mem \<Rightarrow> addr list \<Rightarrow> ('d, 'z) apic_scheme \<Rightarrow> bool" where
  "madt_inv m es s \<longleftrightarrow> kmem s = m \<and>
     holds_list (lapicCount s) (lapic s) (by_type m MADT_ENTRY_LAPIC es) \<and>
     holds_list (ioapicisoCount s) (ioapiciso s) (by_type m MADT_ENTRY_IOAPICISO es) \<and>
     holds_list (ioapicnsCount s) (ioapicns s) (by_type m MADT_ENTRY_IOAPICNMIS es) \<and>
     holds_list (lapicnCount s) (lapicn s) (by_type m MADT_ENTRY_LAPICNMI es) \<and>
     holds_list (lx2apicCount s) (lx2apic s) (by_type m MADT_ENTRY_Lx2APIC es) \<and>
     (by_type m MADT_ENTRY_IOAPIC es \<noteq> [] \<longrightarrow> ioapic s = last (by_type m MADT_ENTRY_IOAPIC es))"

text \<open>Memory while the table is walked: the base of the local controllers is already stored.\<close>

definition madt_mem :: "('d, 'z) apic_scheme \<Rightarrow> mem" where
  "madt_mem s = write64 LAPIC_ADDR (ucast (madt_LAPICAddr (kmem s) (madt s))) (kmem s)"

definition madt_fin :: "('d, 'z) apic_scheme \<Rightarrow> addr" where
  "madt_fin s = madt s + ucast (hdr_length (madt_mem s) (madt s))"

section \<open>The walk over the MADT\<close>

lemma holds_list_add:
  assumes "holds_list c a xs" "length xs < MAX_CPU_COUNT"
  shows "unat c < length a" "holds_list (c + 1) (a[unat c := e]) (xs @ [e])"
proof -
  have "unat (c + 1) = length xs + 1"
    using assms by (simp add: holds_list_def MAX_CPU_COUNT_def unat_word_ariths)
  then show "unat c < length a" "holds_list (c + 1) (a[unat c := e]) (xs @ [e])"
    using assms by (simp_all add: holds_list_def take_Suc_conv_app_nth)
qed

lemmas madt_types = MADT_ENTRY_LAPIC_def MADT_ENTRY_IOAPIC_def MADT_ENTRY_IOAPICISO_def MADT_ENTRY_IOAPICNMIS_def
  MADT_ENTRY_LAPICNMI_def MADT_ENTRY_LAPICAO_def MADT_ENTRY_Lx2APIC_def

lemma by_type_snoc: "by_type m ty (es @ [e]) = by_type m ty es @ (if m e = ty then [e] else [])"
  by (simp add: by_type_def)

lemma madt_entry_step:
  assumes inv: "madt_inv m es s" and ty: "m e \<in> set known_types"
    and room: "length (by_type m (m e) es) < MAX_CPU_COUNT \<or> m e = MADT_ENTRY_IOAPIC"
  shows "\<exists>s'. madt_entry e s = Some (Some (e + ucast (entry_length m e)), s') \<and> madt_inv m (es @ [e]) s' \<and>
    apic.dev s' = apic.dev s \<and> madt s' = madt s"
proof -
  have k: "kmem s = m" using inv by (simp add: madt_inv_def)
  consider "m e = MADT_ENTRY_LAPIC" | "m e = MADT_ENTRY_IOAPIC" | "m e = MADT_ENTRY_IOAPICISO"
    | "m e = MADT_ENTRY_IOAPICNMIS" | "m e = MADT_ENTRY_LAPICNMI" | "m e = MADT_ENTRY_Lx2APIC"
    using ty by (auto simp: known_types_def)
  then show ?thesis
    by cases (use inv room in \<open>auto simp: madt_inv_def madt_entry_def k by_type_snoc madt_types Let_def not_le
      dest: holds_list_add(1) intro: holds_list_add(2)\<close>)
qed

lemma madt_loop_chain:
  assumes "madt_inv m done s" "madt_chain m fin e es" "\<forall>x \<in> set es. m x \<in> set known_types"
    "\<And>ty. ty \<noteq> MADT_ENTRY_IOAPIC \<Longrightarrow> length (by_type m ty (done @ es)) \<le> MAX_CPU_COUNT"
  shows "\<exists>s'. madt_loop fin e s = Some s' \<and> madt_inv m (done @ es) s' \<and> apic.dev s' = apic.dev s \<and> madt s' = madt s"
  using assms
proof (induction es arbitrary: "done" e s)
  case Nil
  then show ?case by (simp add: madt_loop.simps)
next
  case (Cons x es)
  have x: "x = e" "e < fin" "madt_chain m fin (e + ucast (entry_length m e)) es" "m e \<in> set known_types"
    using Cons.prems(2,3) by simp_all
  have "length (by_type m (m e) done) < MAX_CPU_COUNT \<or> m e = MADT_ENTRY_IOAPIC"
    using Cons.prems(4) [of "m e"] by (auto simp: by_type_def x(1))
  then obtain s1 where s1: "madt_entry e s = Some (Some (e + ucast (entry_length m e)), s1)"
      "madt_inv m (done @ [e]) s1" "apic.dev s1 = apic.dev s" "madt s1 = madt s"
    using madt_entry_step [OF Cons.prems(1) x(4)] by blast
  obtain s' where "madt_loop fin (e + ucast (entry_length m e)) s1 = Some s'" "madt_inv m (done @ [e] @ es) s'"
      "apic.dev s' = apic.dev s1" "madt s' = madt s1"
    using Cons.IH [OF s1(2) x(3)] Cons.prems(3,4) by (auto simp: x(1))
  then show ?case using s1 x(1,2) by (simp add: madt_loop.simps [of fin e])
qed

lemma parseMADT_collects:
  assumes "madt_inv (kmem s) [] s" "madt_chain (madt_mem s) (madt_fin s) (madt s + sizeof_MADT) es"
    "\<forall>x \<in> set es. madt_mem s x \<in> set known_types"
    "\<And>ty. ty \<noteq> MADT_ENTRY_IOAPIC \<Longrightarrow> length (by_type (madt_mem s) ty es) \<le> MAX_CPU_COUNT"
  shows "\<exists>s'. parseMADT s = Some s' \<and> madt_inv (madt_mem s) es s' \<and> apic.dev s' = apic.dev s \<and> madt s' = madt s"
proof -
  let ?s = "s\<lparr>kmem := madt_mem s\<rparr>"
  have f: "madt ?s = madt s" "apic.dev ?s = apic.dev s" by (cases s; simp)+
  have "madt_inv (madt_mem s) [] ?s" using assms(1) by (cases s) (simp add: madt_inv_def by_type_def)
  from madt_loop_chain [OF this assms(2,3)] assms(4) show ?thesis
    unfolding parseMADT_def Let_def madt_mem_def [symmetric] by (simp add: f madt_fin_def)
qed

text \<open>An address override entry is never stepped over.\<close>

lemma madt_entry_override:
  "kmem s e = MADT_ENTRY_LAPICAO \<Longrightarrow> madt_entry e s = Some (Some e, s\<lparr>lapicao := e\<rparr>)"
  by (simp add: madt_entry_def madt_types)

lemma madt_loop_override_diverges:
  assumes "e < fin" "kmem s e = MADT_ENTRY_LAPICAO"
  shows "madt_loop fin e s = None"
proof -
  have False if "madt_loop fin e s = Some s'" for s'
  proof -
    have "\<not> (e < fin \<and> kmem s e = MADT_ENTRY_LAPICAO)"
    proof (rule madt_loop.raw_induct [where P = "\<lambda>fin e s y. \<not> (e < fin \<and> kmem s e = MADT_ENTRY_LAPICAO)", OF _ that])
      fix f :: "addr \<Rightarrow> addr \<Rightarrow> ('a, 'b) apic_scheme \<Rightarrow> ('a, 'b) apic_scheme option" and fin e s s'
      assume ih: "\<And>fin e s y. f fin e s = Some y \<Longrightarrow> \<not> (e < fin \<and> kmem s e = MADT_ENTRY_LAPICAO)"
        and b: "(if e < fin then madt_entry e s \<bind> (\<lambda>r. case fst r of None \<Rightarrow> Some (snd r) | Some e' \<Rightarrow> f fin e' (snd r))
          else Some s) = Some s'"
      show "\<not> (e < fin \<and> kmem s e = MADT_ENTRY_LAPICAO)"
      proof
        assume e: "e < fin \<and> kmem s e = MADT_ENTRY_LAPICAO"
        then have "f fin e (s\<lparr>lapicao := e\<rparr>) = Some s'" using b by (simp add: madt_entry_override)
        then show False using ih [of fin e "s\<lparr>lapicao := e\<rparr>" s'] e by simp
      qed
    qed
    then show False using assms by simp
  qed
  then show ?thesis by (cases "madt_loop fin e s") auto
qed


lemma mask_loop_dev:
  fixes s :: "('d, 'z) apic_scheme"
  assumes "mask_loop M pit kbd i s = Some s'"
  shows "\<exists>d. s' = s\<lparr>dev := d\<rparr>"
proof (rule mask_loop.raw_induct [where P = "\<lambda>M pit kbd i s s'. \<exists>d. s' = s\<lparr>dev := d\<rparr>", OF _ assms])
  fix f :: "'d mmio \<Rightarrow> u8 \<Rightarrow> u8 \<Rightarrow> u8 \<Rightarrow> ('d, 'z) apic_scheme \<Rightarrow> ('d, 'z) apic_scheme option"
    and M pit kbd i and s s' :: "('d, 'z) apic_scheme"
  assume ih: "\<And>M pit kbd i s s'. f M pit kbd i s = Some s' \<Longrightarrow> \<exists>d. s' = s\<lparr>dev := d\<rparr>"
    and b: "(case getIOAPICEntriesCount M s of (n, s1) \<Rightarrow> if i < n then f M pit kbd (i + 1)
      (if i = pit \<or> i = kbd then s1 else setIOAPICEntry M i 0x10000 s1) else Some s1) = Some s'"
  obtain n d where c: "getIOAPICEntriesCount M s = (n, s\<lparr>dev := d\<rparr>)"
    by (cases "mInDWord M (ioapic_base s + IOWIN) (mOutDWord M (ioapic_base s + IOREGSEL) (ucast IOAPICVER) (dev s))")
      (simp add: getIOAPICEntriesCount_def IOAPICin_def)
  obtain e where "(if i = pit \<or> i = kbd then s\<lparr>dev := d\<rparr> else setIOAPICEntry M i 0x10000 (s\<lparr>dev := d\<rparr>)) = s\<lparr>dev := e\<rparr>"
    by (cases "i = pit \<or> i = kbd") (auto simp: setIOAPICEntry_def IOAPICout_def)
  then show "\<exists>d. s' = s\<lparr>dev := d\<rparr>" using ih [of M pit kbd "i + 1" "s\<lparr>dev := e\<rparr>" s'] b c by (auto split: if_splits)
qed

lemma initAPICs_dev:
  assumes "initAPICs M s = Some s'" "parseMADT s = Some s1"
  shows "\<exists>d. s' = s1\<lparr>dev := d\<rparr>"
proof -
  obtain s3 where s3: "mask_loop M (fst (device_irqs (lapic_setup M s1))) (snd (device_irqs (lapic_setup M s1))) 0 (lapic_setup M s1) = Some s3"
      "s' = setIOAPICEntry M (snd (device_irqs (lapic_setup M s1))) (ucast (PIC1_IRQ0 + PIC1_IRQ_KEYBOARD))
         (setIOAPICEntry M (fst (device_irqs (lapic_setup M s1))) (ucast (PIC1_IRQ0 + PIC1_IRQ_TIMER)) s3)"
    using assms by (auto simp: initAPICs_def Let_def split: bind_splits)
  obtain d where "s3 = (lapic_setup M s1)\<lparr>dev := d\<rparr>" using mask_loop_dev [OF s3(1)] by blast
  then show ?thesis using s3(2) by (auto simp: lapic_setup_def LAPICout_def setIOAPICEntry_def IOAPICout_def)
qed

section \<open>Routing of the device interrupts\<close>

text \<open>
  The two halves of an entry of the redirection table, and the number of entries, in a register
  file \<open>reg\<close>.
\<close>

definition redir :: "('d \<Rightarrow> u8 \<Rightarrow> u32) \<Rightarrow> 'd \<Rightarrow> nat \<Rightarrow> u32 \<times> u32" where
  "redir reg d k = (reg d (of_nat (16 + 2 * k)), reg d (of_nat (17 + 2 * k)))"

definition pins :: "('d \<Rightarrow> u8 \<Rightarrow> u32) \<Rightarrow> 'd \<Rightarrow> u8" where
  "pins reg d = ucast (drop_bit 16 (reg d IOAPICVER) AND 0xff) + 1"

lemma redir_cong: "reg d = reg d' \<Longrightarrow> redir reg d k = redir reg d' k"
  by (simp add: redir_def)

text \<open>
  An I/O controller at \<open>base\<close>: the register number goes to the select register, the value through
  the window; the registers of the redirection table (from 0x10) keep what is written, and stores
  elsewhere leave the registers alone. \<open>reg\<close> reads the register file of a device state.
\<close>

locale ioapic_hw =
  fixes M :: "'d mmio"
    and base :: addr
    and reg :: "'d \<Rightarrow> u8 \<Rightarrow> u32"
  assumes write_reg: "0x10 \<le> r \<Longrightarrow>
      reg (mOutDWord M (base + IOWIN) v (mOutDWord M (base + IOREGSEL) (ucast r) d)) = (reg d)(r := v)"
    and read_reg: "mInDWord M (base + IOWIN) (mOutDWord M (base + IOREGSEL) (ucast r) d) = (v, d') \<Longrightarrow>
      v = reg d r \<and> reg d' = reg d"
    and elsewhere: "\<not> within base 0x20 a \<Longrightarrow> reg (mOutDWord M a v d) = reg d"
begin

text \<open>A state of the driver that works on this controller.\<close>

definition on_hw :: "('d, 'z) apic_scheme \<Rightarrow> bool" where
  "on_hw s \<longleftrightarrow> ioapic_base s = base"

lemma of_nat_u8_eq: "j < 256 \<Longrightarrow> k < 256 \<Longrightarrow> (of_nat j :: u8) = of_nat k \<longleftrightarrow> j = k"
  by (simp add: word_unat_eq_iff unsigned_of_nat take_bit_nat_eq_self)

lemma set_entry_dev:
  assumes "on_hw s" "unat idx < 120"
  shows "reg (apic.dev (setIOAPICEntry M idx a s)) =
    (reg (apic.dev s))(of_nat (16 + 2 * unat idx) := ucast a, of_nat (17 + 2 * unat idx) := ucast (drop_bit 32 a))"
proof -
  have i: "IOREDTBL + push_bit 1 idx = of_nat (16 + 2 * unat idx)"
      "of_nat (16 + 2 * unat idx) + 1 = (of_nat (17 + 2 * unat idx) :: u8)"
    by (simp_all add: IOREDTBL_def push_bit_eq_mult)
  have ge: "(0x10 :: u8) \<le> of_nat (16 + 2 * unat idx)" "(0x10 :: u8) \<le> of_nat (17 + 2 * unat idx)"
    using assms(2) by (simp_all add: word_le_nat_alt unsigned_of_nat take_bit_nat_eq_self del: of_nat_add of_nat_mult)
  have b: "ioapic_base (IOAPICout M r v s) = base" for r v
    using assms(1) by (cases s) (simp add: on_hw_def IOAPICout_def ioapic_base_def)
  show ?thesis
    using assms(1) b unfolding setIOAPICEntry_def i
    by (simp add: IOAPICout_def on_hw_def write_reg ge del: of_nat_add of_nat_mult)
qed

lemma set_entry_redir:
  assumes "on_hw s" "unat idx < 120" "k < 120"
  shows "redir reg (apic.dev (setIOAPICEntry M idx a s)) k =
    (if k = unat idx then (ucast a, ucast (drop_bit 32 a)) else redir reg (apic.dev s) k)"
  using assms by (auto simp: redir_def set_entry_dev of_nat_u8_eq simp del: of_nat_add of_nat_mult) 

lemma set_entry_frame:
  "ioapic_base (setIOAPICEntry M idx a s) = ioapic_base s" "kmem (setIOAPICEntry M idx a s) = kmem s"
  by (cases s; simp add: setIOAPICEntry_def IOAPICout_def ioapic_base_def)+

lemma set_entry_pins:
  assumes "on_hw s" "unat idx < 120"
  shows "pins reg (apic.dev (setIOAPICEntry M idx a s)) = pins reg (apic.dev s)"
proof -
  have "IOAPICVER \<noteq> of_nat (16 + 2 * unat idx)" "IOAPICVER \<noteq> of_nat (17 + 2 * unat idx)"
    using assms(2) of_nat_u8_eq [of 1 "16 + 2 * unat idx"] of_nat_u8_eq [of 1 "17 + 2 * unat idx"]
    by (simp_all add: IOAPICVER_def)
  then show ?thesis using assms by (simp add: pins_def set_entry_dev del: of_nat_add of_nat_mult)
qed

lemma count_reads:
  assumes "on_hw s" "getIOAPICEntriesCount M s = (n, s1)"
  shows "n = pins reg (apic.dev s)" "reg (apic.dev s1) = reg (apic.dev s)" "on_hw s1" "kmem s1 = kmem s"
proof -
  obtain v d where vd: "mInDWord M (base + IOWIN) (mOutDWord M (base + IOREGSEL) (ucast IOAPICVER) (apic.dev s)) = (v, d)"
    by fastforce
  then have s1: "s1 = s\<lparr>dev := d\<rparr>" "n = ucast (drop_bit 16 v AND 0xff) + 1"
    using assms by (simp_all add: getIOAPICEntriesCount_def IOAPICin_def on_hw_def)
  then show "n = pins reg (apic.dev s)" "reg (apic.dev s1) = reg (apic.dev s)" "kmem s1 = kmem s"
    using read_reg [OF vd] by (simp_all add: pins_def)
  show "on_hw s1" using assms(1) s1(1) by (cases s) (simp add: on_hw_def ioapic_base_def)
qed

lemma mask_loop_masks:
  assumes "on_hw s" "entry \<le> pins reg (apic.dev s)" "unat (pins reg (apic.dev s)) < 120"
  shows "\<exists>s'. mask_loop M pit kbd entry s = Some s' \<and> on_hw s' \<and> kmem s' = kmem s \<and>
    (\<forall>k < 120. redir reg (apic.dev s') k =
       (if unat entry \<le> k \<and> k < unat (pins reg (apic.dev s)) \<and> k \<noteq> unat pit \<and> k \<noteq> unat kbd then (0x10000, 0)
        else redir reg (apic.dev s) k))"
  using assms
proof (induction "unat (pins reg (apic.dev s)) - unat entry" arbitrary: entry s)
  case 0
  obtain n s1 where c: "getIOAPICEntriesCount M s = (n, s1)" by fastforce
  note cr = count_reads [OF 0(2) c]
  have "\<not> entry < n" using 0 cr(1) by (simp add: word_less_nat_alt word_le_nat_alt)
  then have "mask_loop M pit kbd entry s = Some s1" using c by (simp add: mask_loop.simps [of _ _ _ entry])
  moreover have "redir reg (apic.dev s1) k = redir reg (apic.dev s) k" for k using cr(2) by (simp add: redir_def)
  ultimately show ?case using 0(1) cr(3,4) by auto
next
  case (Suc j)
  obtain n s1 where c: "getIOAPICEntriesCount M s = (n, s1)" by fastforce
  note cr = count_reads [OF Suc(3) c]
  have lt: "entry < n" using Suc(2) cr(1) by (simp add: word_less_nat_alt)
  have e: "unat (entry + 1) = unat entry + 1" "unat entry < 120"
    using lt cr(1) Suc(5) by (simp_all add: word_less_nat_alt unat_word_ariths)
  define s2 where "s2 = (if entry = pit \<or> entry = kbd then s1 else setIOAPICEntry M entry 0x10000 s1)"
  have p1: "pins reg (apic.dev s1) = pins reg (apic.dev s)" using cr(2) by (simp add: pins_def)
  have s2: "on_hw s2" "kmem s2 = kmem s" "pins reg (apic.dev s2) = pins reg (apic.dev s)"
    using cr(3,4) set_entry_pins [OF cr(3) e(2)] p1 by (simp_all add: s2_def on_hw_def set_entry_frame)
  have r2: "redir reg (apic.dev s2) k = (if k = unat entry \<and> k \<noteq> unat pit \<and> k \<noteq> unat kbd then (0x10000, 0) else redir reg (apic.dev s) k)"
    if "k < 120" for k
    using set_entry_redir [OF cr(3) e(2) that, of "0x10000"] cr(2)
      redir_cong [of reg "apic.dev s1" "apic.dev s" k, OF cr(2)]
    by (auto simp: s2_def word_unat_eq_iff)
  have "j = unat (pins reg (apic.dev s2)) - unat (entry + 1)" using Suc(2) s2(3) e(1) by simp
  moreover have "entry + 1 \<le> pins reg (apic.dev s2)"
    using lt cr(1) s2(3) e(1) by (simp add: word_le_nat_alt word_less_nat_alt)
  ultimately obtain s' where s': "mask_loop M pit kbd (entry + 1) s2 = Some s'" "on_hw s'" "kmem s' = kmem s"
      "\<forall>k < 120. redir reg (apic.dev s') k =
       (if unat (entry + 1) \<le> k \<and> k < unat (pins reg (apic.dev s2)) \<and> k \<noteq> unat pit \<and> k \<noteq> unat kbd then (0x10000, 0)
        else redir reg (apic.dev s2) k)"
    using Suc(1) [of s2 "entry + 1"] s2 Suc(5) by auto
  have "mask_loop M pit kbd entry s = Some s'"
    using s'(1) c lt by (simp add: mask_loop.simps [of _ _ _ entry] s2_def)
  moreover have "redir reg (apic.dev s') k =
       (if unat entry \<le> k \<and> k < unat (pins reg (apic.dev s)) \<and> k \<noteq> unat pit \<and> k \<noteq> unat kbd then (0x10000, 0)
        else redir reg (apic.dev s) k)" if "k < 120" for k
    using s'(4) that r2 [OF that] e(1) s2(3) lt cr(1) by (auto simp: word_less_nat_alt)
  ultimately show ?case using s'(2,3) by blast
qed

lemma lapic_setup_regs:
  assumes "\<And>r. r \<in> {0x80, 0xd0, 0xe0, 0xf0} \<Longrightarrow> \<not> within base 0x20 (lapic_base s + r)"
  shows "reg (apic.dev (lapic_setup M s)) = reg (apic.dev s)" "kmem (lapic_setup M s) = kmem s"
    "ioapic_base (lapic_setup M s) = ioapic_base s" "device_irqs (lapic_setup M s) = device_irqs s"
proof -
  have l: "lapic_base (s\<lparr>dev := d\<rparr>) = lapic_base s" for d by (cases s) (simp add: lapic_base_def)
  show "reg (apic.dev (lapic_setup M s)) = reg (apic.dev s)"
    using assms [of "0x80"] assms [of "0xd0"] assms [of "0xe0"] assms [of "0xf0"]
    by (simp add: lapic_setup_def LAPICout_def l elsewhere LAPIC_TPR_def LAPIC_LDR_def LAPIC_DFR_def LAPIC_SIVR_def)
  show "kmem (lapic_setup M s) = kmem s" "ioapic_base (lapic_setup M s) = ioapic_base s"
    "device_irqs (lapic_setup M s) = device_irqs s"
    by (cases s; simp add: lapic_setup_def LAPICout_def ioapic_base_def device_irqs_def)+
qed

lemma initAPICs_routes_hw:
  assumes "parseMADT s = Some s1" "ioapic_base s1 = base"
    and "\<And>r. r \<in> {0x80, 0xd0, 0xe0, 0xf0} \<Longrightarrow> \<not> within base 0x20 (lapic_base s1 + r)"
    and "device_irqs s1 = (pit, kbd)" "unat pit < 120" "unat kbd < 120" "unat (pins reg (apic.dev s1)) < 120"
  shows "\<exists>s'. initAPICs M s = Some s' \<and> (\<forall>k < unat (pins reg (apic.dev s1)). redir reg (apic.dev s') k =
    (if k = unat kbd then (0x21, 0) else if k = unat pit then (0x20, 0) else (0x10000, 0)))"
proof -
  let ?s2 = "lapic_setup M s1"
  note ls = lapic_setup_regs [OF assms(3)]
  have p: "pins reg (apic.dev ?s2) = pins reg (apic.dev s1)" using ls(1) by (simp add: pins_def)
  have hw: "on_hw ?s2" using ls(3) assms(2) by (simp add: on_hw_def)
  obtain s3 where s3: "mask_loop M pit kbd 0 ?s2 = Some s3" "on_hw s3"
      "\<forall>k < 120. redir reg (apic.dev s3) k =
         (if unat (0 :: u8) \<le> k \<and> k < unat (pins reg (apic.dev ?s2)) \<and> k \<noteq> unat pit \<and> k \<noteq> unat kbd then (0x10000, 0)
          else redir reg (apic.dev ?s2) k)"
    using mask_loop_masks [OF hw, of 0 pit kbd] p assms(7) by auto
  let ?s4 = "setIOAPICEntry M pit (ucast (PIC1_IRQ0 + PIC1_IRQ_TIMER)) s3"
  let ?s5 = "setIOAPICEntry M kbd (ucast (PIC1_IRQ0 + PIC1_IRQ_KEYBOARD)) ?s4"
  have hw4: "on_hw ?s4" using s3(2) by (simp add: on_hw_def set_entry_frame)
  have run: "initAPICs M s = Some ?s5" using assms(1,4) s3(1) ls(4) by (simp add: initAPICs_def)
  have "redir reg (apic.dev ?s5) k = (if k = unat kbd then (0x21, 0) else if k = unat pit then (0x20, 0) else (0x10000, 0))"
    if "k < unat (pins reg (apic.dev s1))" for k
  proof -
    have k: "k < 120" using that assms(7) by simp
    show ?thesis
      using s3(3) k that p set_entry_redir [OF hw4 assms(6) k] set_entry_redir [OF s3(2) assms(5) k]
      by (simp add: PIC1_IRQ0_def PIC1_IRQ_TIMER_def PIC1_IRQ_KEYBOARD_def)
  qed
  then show ?thesis using run by blast
qed

end

text \<open>A controller at its usual address, with 24 entries.\<close>

record sim_ioapic =
  sim_sel :: u32
  sim_reg :: "u8 \<Rightarrow> u32"

definition sim_base :: addr where "sim_base = 0xfec00000"

definition sim_mmio :: "sim_ioapic mmio" where
  "sim_mmio = \<lparr>mInDWord = \<lambda>a d. (if a = sim_base + 0x10 then sim_reg d (ucast (sim_sel d)) else 0, d),
     mOutDWord = \<lambda>a v d. if a = sim_base then d\<lparr>sim_sel := v\<rparr>
       else if a = sim_base + 0x10 \<and> 0x10 \<le> (ucast (sim_sel d) :: u8) then d\<lparr>sim_reg := (sim_reg d)(ucast (sim_sel d) := v)\<rparr>
       else d\<rparr>"

lemma ucast_u8_u32 [simp]: "ucast (ucast (r :: u8) :: u32) = r"
  by (rule byte_eqI; simp add: bit_simps)

interpretation sim_io: ioapic_hw sim_mmio sim_base sim_reg
proof
  show "sim_reg (mOutDWord sim_mmio a v d) = sim_reg d" if "\<not> within sim_base 0x20 a" for a v d
  proof -
    have "a \<noteq> sim_base" "a \<noteq> sim_base + 0x10" using that by (auto simp: within_def)
    then show ?thesis by (simp add: sim_mmio_def)
  qed
qed (auto simp: sim_mmio_def IOWIN_def IOREGSEL_def)

text \<open>A MADT with one processor, one controller and the usual override of the timer to line 2.\<close>

definition demo_madt :: mem where
  "demo_madt = puts_at 0x3004 [74, 0, 0, 0] (puts_at 0x3024 [0, 0, 0xe0, 0xfe]
     (puts_at 0x302c ([0, 8, 0, 0, 1, 0, 0, 0] @ [1, 12, 0, 0, 0, 0, 0xc0, 0xfe, 0, 0, 0, 0] @ [2, 10, 0, 0, 2, 0, 0, 0, 0, 0])
       (\<lambda>_. 0)))"

definition demo_apic :: "sim_ioapic apic" where
  "demo_apic = \<lparr>kmem = demo_madt, kout = [], madt = 0x3000,
     dev = \<lparr>sim_sel = 0, sim_reg = (\<lambda>_. 0)(1 := 0x170011)\<rparr>, ioapic = 0, ioapicisoCount = 0, ioapiciso = replicate 16 0,
     ioapicnsCount = 0, ioapicns = replicate 16 0, lapicnCount = 0, lapicn = replicate 16 0, lapicao = 0,
     lx2apicCount = 0, lx2apic = replicate 16 0, lapic = replicate 16 0, lapicCount = 0\<rparr>"

text \<open>The states of any extension that start from these tables.\<close>

definition demo_like :: "('d, 'z) apic_scheme \<Rightarrow> bool" where
  "demo_like s \<longleftrightarrow> kmem s = demo_madt \<and> madt s = 0x3000 \<and> madt_inv demo_madt [] s"

lemma demo_apic_like: "demo_like demo_apic"
  by (simp add: demo_like_def madt_inv_def by_type_def holds_list_def demo_apic_def MAX_CPU_COUNT_def)

lemma demo_reads:
  assumes "demo_like s"
  shows
  "madt_mem s = write64 0x500 0xfee00000 demo_madt"
  "madt_fin s = 0x304a"
proof -
  show m: "madt_mem s = write64 0x500 0xfee00000 demo_madt"
    by (simp add: madt_mem_def madt_LAPICAddr_def read32_unroll assms [unfolded demo_like_def] demo_madt_def LAPIC_ADDR_def)
  show "madt_fin s = 0x304a"
    unfolding madt_fin_def m hdr_length_def read32_unroll
    by (simp add: assms [unfolded demo_like_def] demo_madt_def write64_outside within_def)
qed


abbreviation demo_entries :: "addr list" where
  "demo_entries \<equiv> [0x302c, 0x3034, 0x3040]"

lemma demo_chain:
  assumes "demo_like s"
  shows
  "madt_inv (kmem s) [] s"
  "madt_chain (madt_mem s) (madt_fin s) (madt s + sizeof_MADT) demo_entries"
  "\<forall>x \<in> set demo_entries. madt_mem s x \<in> set known_types"
  "ty \<noteq> MADT_ENTRY_IOAPIC \<Longrightarrow> length (by_type (madt_mem s) ty demo_entries) \<le> MAX_CPU_COUNT"
proof -
  have m: "demo_madt 0x302c = 0" "demo_madt 0x302d = 8" "demo_madt 0x3034 = 1" "demo_madt 0x3035 = 12"
    "demo_madt 0x3040 = 2" "demo_madt 0x3041 = 10"
    by (simp_all add: demo_madt_def)
  have md: "madt s = 0x3000" using assms by (simp add: demo_like_def)
  show "madt_inv (kmem s) [] s"
    using assms by (simp add: demo_like_def)
  show "madt_chain (madt_mem s) (madt_fin s) (madt s + sizeof_MADT) demo_entries"
    unfolding demo_reads [OF assms] md by (simp add: sizeof_MADT_def entry_length_def write64_outside within_def m)
  show "\<forall>x \<in> set demo_entries. madt_mem s x \<in> set known_types"
    unfolding demo_reads [OF assms] by (simp add: known_types_def madt_types write64_outside within_def m)
  show "length (by_type (madt_mem s) ty demo_entries) \<le> MAX_CPU_COUNT"
    using length_filter_le [of "\<lambda>e. madt_mem s e = ty" demo_entries] by (simp add: by_type_def MAX_CPU_COUNT_def)
qed

lemma demo_parse:
  assumes "demo_like s"
  obtains s1 where "parseMADT s = Some s1" "ioapic_base s1 = sim_base" "lapic_base s1 = 0xfee00000"
    "device_irqs s1 = (2, 1)" "apic.dev s1 = apic.dev s" "unat (lapicCount s1) = 1" "length (lapic s1) = MAX_CPU_COUNT"
proof -
  obtain s1 where s1: "parseMADT s = Some s1" "madt_inv (madt_mem s) demo_entries s1"
      "apic.dev s1 = apic.dev s"
    using parseMADT_collects [OF demo_chain [OF assms]] by blast
  have m: "demo_madt 0x302c = 0" "demo_madt 0x3034 = 1" "demo_madt 0x3040 = 2" "demo_madt 0x3043 = 0"
      "demo_madt 0x3038 = 0" "demo_madt 0x3039 = 0" "demo_madt 0x303a = 0xc0" "demo_madt 0x303b = 0xfe"
      "demo_madt 0x3044 = 2" "demo_madt 0x3045 = 0" "demo_madt 0x3046 = 0" "demo_madt 0x3047 = 0"
    by (simp_all add: demo_madt_def)
  have t: "by_type (madt_mem s) MADT_ENTRY_IOAPIC demo_entries = [0x3034]"
      "by_type (madt_mem s) MADT_ENTRY_IOAPICISO demo_entries = [0x3040]"
      "by_type (madt_mem s) MADT_ENTRY_LAPIC demo_entries = [0x302c]"
    unfolding demo_reads [OF assms] by (simp_all add: by_type_def madt_types write64_outside within_def m)
  have k: "kmem s1 = write64 0x500 0xfee00000 demo_madt" "ioapic s1 = 0x3034"
      "take (unat (ioapicisoCount s1)) (ioapiciso s1) = [0x3040]" "unat (lapicCount s1) = 1" "length (lapic s1) = MAX_CPU_COUNT"
    using s1(2) unfolding madt_inv_def t holds_list_def by (simp_all add: demo_reads [OF assms])
  show ?thesis
  proof (rule that [OF s1(1) _ _ _ s1(3) k(4,5)])
    show "ioapic_base s1 = sim_base"
      by (simp add: ioapic_base_def ioapic_addr_def k read32_unroll write64_outside within_def m sim_base_def)
    show "lapic_base s1 = 0xfee00000" by (simp add: lapic_base_def k LAPIC_ADDR_def)
    show "device_irqs s1 = (2, 1)"
      by (simp add: device_irqs_def k iso_override_def iso_IRQSrc_def iso_glblSysIntr_def read32_unroll
        write64_outside within_def m PIC1_IRQ_TIMER_def PIC1_IRQ_KEYBOARD_def)
  qed
qed

section \<open>Properties\<close>

text \<open>
  C38. For a MADT whose entries follow each other up to its length, are of the types the driver
  handles and at most 16 per type, \<open>parseMADT\<close> returns, and each of its arrays holds exactly the
  entries of its type, in the order of the table; the controller used is the last one listed.
\<close>

theorem parseMADT_collects_entries:
  assumes "madt_inv (kmem s) [] s" "madt_chain (madt_mem s) (madt_fin s) (madt s + sizeof_MADT) es"
    and "\<forall>x \<in> set es. madt_mem s x \<in> set known_types"
    and "\<And>ty. ty \<noteq> MADT_ENTRY_IOAPIC \<Longrightarrow> length (by_type (madt_mem s) ty es) \<le> MAX_CPU_COUNT"
  shows "\<exists>s'. parseMADT s = Some s' \<and> madt_inv (madt_mem s) es s'"
  using parseMADT_collects [OF assms] by blast

theorem parseMADT_collects_entries_witness:
  "\<exists>s'. parseMADT demo_apic = Some s' \<and> madt_inv (madt_mem demo_apic) demo_entries s'"
  by (rule parseMADT_collects_entries [OF demo_chain [OF demo_apic_like]])

text \<open>
  C39. On an I/O controller that behaves as documented \<open>initAPICs\<close> returns with the redirection table
  set: the keyboard's line raises vector 0x21, the timer's line 0x20, both after the overrides of
  the MADT, and every other line is masked.
\<close>

theorem initAPICs_routes:
  assumes "ioapic_hw M base reg" "parseMADT s = Some s1" "ioapic_base s1 = base"
    and "\<And>r. r \<in> {0x80, 0xd0, 0xe0, 0xf0} \<Longrightarrow> \<not> within base 0x20 (lapic_base s1 + r)"
    and "device_irqs s1 = (pit, kbd)" "unat pit < 120" "unat kbd < 120" "unat (pins reg (apic.dev s1)) < 120"
  shows "\<exists>s'. initAPICs M s = Some s' \<and> (\<forall>k < unat (pins reg (apic.dev s1)). redir reg (apic.dev s') k =
    (if k = unat kbd then (0x21, 0) else if k = unat pit then (0x20, 0) else (0x10000, 0)))"
  by (rule ioapic_hw.initAPICs_routes_hw [OF assms])

theorem initAPICs_routes_witness:
  "\<exists>s'. initAPICs sim_mmio demo_apic = Some s' \<and> redir sim_reg (apic.dev s') 0 = (0x10000, 0) \<and>
     redir sim_reg (apic.dev s') 1 = (0x21, 0) \<and> redir sim_reg (apic.dev s') 2 = (0x20, 0)"
proof -
  obtain s1 where s1: "parseMADT demo_apic = Some s1" "ioapic_base s1 = sim_base" "lapic_base s1 = 0xfee00000"
      "device_irqs s1 = (2, 1)" "apic.dev s1 = apic.dev demo_apic"
    by (rule demo_parse [OF demo_apic_like])
  have p: "unat (pins sim_reg (apic.dev s1)) = 24"
    by (simp add: s1(5) demo_apic_def pins_def IOAPICVER_def drop_bit_eq_div)
  have o: "\<not> within sim_base 0x20 (lapic_base s1 + r)" if "r \<in> {0x80, 0xd0, 0xe0, 0xf0}" for r
    using that by (auto simp: s1(3) sim_base_def within_def)
  obtain s' where "initAPICs sim_mmio demo_apic = Some s'"
      "\<forall>k < unat (pins sim_reg (apic.dev s1)). redir sim_reg (apic.dev s') k =
        (if k = unat (1 :: u8) then (0x21, 0) else if k = unat (2 :: u8) then (0x20, 0) else (0x10000, 0))"
    using initAPICs_routes [OF sim_io.ioapic_hw_axioms s1(1,2) o s1(4)] p by auto
  then show ?thesis unfolding p by auto
qed

end
