(* ===== verification/Pit.thy ===== *)
theory Pit
  imports Apic
begin

text \<open>
  The interval timer, \<open>src/src/kernel/interrupts/PIT/pit.cpp\<close>: its registers, the tick counter that its
  interrupt advances, and \<open>sleep\<close>, which polls that counter.

  The busy wait is modelled with its interrupts: \<open>irqs i\<close> is the number of timer interrupts taken
  before the \<open>i\<close>-th read of the counter since boot, so that the polling loop is a function of the
  arrival of interrupts. It is \<open>None\<close> when the loop does not end.
\<close>

section \<open>State\<close>

definition PIT_REG_CHANNEL_0 :: u16 where "PIT_REG_CHANNEL_0 = 0x40"
definition PIT_REG_CHANNEL_1 :: u16 where "PIT_REG_CHANNEL_1 = 0x41"
definition PIT_REG_CHANNEL_2 :: u16 where "PIT_REG_CHANNEL_2 = 0x42"
definition PIT_REG_CW :: u16 where "PIT_REG_CW = 0x43"
definition PIT_OCW_BIN :: u8 where "PIT_OCW_BIN = 0"
definition PIT_OCW_MODE_SQUAREWAVEGENERATOR :: u8 where "PIT_OCW_MODE_SQUAREWAVEGENERATOR = 0x06"
definition PIT_OCW_RL_LMSB :: u8 where "PIT_OCW_RL_LMSB = 0x30"
definition PIT_OCW_SC_0 :: u8 where "PIT_OCW_SC_0 = 0"
definition PIT_OCW_SC_1 :: u8 where "PIT_OCW_SC_1 = 0x40"
definition INPUT_FREQ :: u32 where "INPUT_FREQ = 1193180"
definition DIVISOR :: u32 where "DIVISOR = 100"

text \<open>The counter \<open>INTERRUPTS::ticks\<close>, and the number of times it has been read.\<close>

record 'd pit = "'d apic" +
  ticks :: u32
  polls :: nat

section \<open>Registers\<close>

definition sendOCW :: "'d ports \<Rightarrow> u8 \<Rightarrow> 'd \<Rightarrow> 'd" where
  "sendOCW P ocw d = pOutByte P PIT_REG_CW ocw d"

definition readChannel :: "'d ports \<Rightarrow> u8 \<Rightarrow> 'd \<Rightarrow> u8 \<times> 'd" where
  "readChannel P channel d =
     (if channel = PIT_OCW_SC_0 then pInByte P PIT_REG_CHANNEL_0 d
      else if channel = PIT_OCW_SC_1 then pInByte P PIT_REG_CHANNEL_1 d
      else pInByte P PIT_REG_CHANNEL_2 d)"

definition sendChannel :: "'d ports \<Rightarrow> u8 \<Rightarrow> u8 \<Rightarrow> 'd \<Rightarrow> 'd" where
  "sendChannel P channel value d =
     (if channel = PIT_OCW_SC_0 then pOutByte P PIT_REG_CHANNEL_0 value d
      else if channel = PIT_OCW_SC_1 then pOutByte P PIT_REG_CHANNEL_1 value d
      else pOutByte P PIT_REG_CHANNEL_2 value d)"

text \<open>
  \<open>initPIT\<close>. The arguments of \<open>sendChannel\<close> are passed as the source passes them: the byte of the
  divisor in the place of the channel and the port number in the place of the value.
\<close>

definition initPIT :: "'d ports \<Rightarrow> ('d, 'z) pit_scheme \<Rightarrow> ('d, 'z) pit_scheme" where
  "initPIT P s =
     (let d1 = sendOCW P (PIT_OCW_BIN OR PIT_OCW_MODE_SQUAREWAVEGENERATOR OR PIT_OCW_RL_LMSB) (dev s);
          d2 = sendChannel P (ucast (INPUT_FREQ div DIVISOR AND 0xff)) (ucast PIT_REG_CHANNEL_0) d1;
          d3 = sendChannel P (ucast (drop_bit 8 (INPUT_FREQ div DIVISOR AND 0xff00))) (ucast PIT_REG_CHANNEL_0) d2
      in s\<lparr>dev := d3, ticks := 0\<rparr>)"

definition getTicks :: "('d, 'z) pit_scheme \<Rightarrow> u32" where
  "getTicks s = ticks s"

section \<open>Ticks and sleep\<close>

definition pitIRQ :: "'d mmio \<Rightarrow> ('d, 'z) pit_scheme \<Rightarrow> ('d, 'z) pit_scheme" where
  "pitIRQ M s = sendLAPICEOI M (s\<lparr>ticks := ticks s + 1\<rparr>)"

text \<open>A read of the counter, after the interrupts that arrive before it.\<close>

definition poll :: "'d mmio \<Rightarrow> (nat \<Rightarrow> nat) \<Rightarrow> ('d, 'z) pit_scheme \<Rightarrow> ('d, 'z) pit_scheme" where
  "poll M irqs s = (let s1 = (pitIRQ M ^^ irqs (polls s)) s in s1\<lparr>polls := polls s + 1\<rparr>)"

partial_function (option) sleep_loop ::
    "'d mmio \<Rightarrow> (nat \<Rightarrow> nat) \<Rightarrow> u64 \<Rightarrow> u64 \<Rightarrow> ('d, 'z) pit_scheme \<Rightarrow> ('d, 'z) pit_scheme option" where
  "sleep_loop M irqs start ms30 s =
     (let s1 = poll M irqs s
      in if ucast (ticks s1) - start < ms30 then sleep_loop M irqs start ms30 s1 else Some s1)"

definition sleep :: "'d mmio \<Rightarrow> (nat \<Rightarrow> nat) \<Rightarrow> u64 \<Rightarrow> ('d, 'z) pit_scheme \<Rightarrow> ('d, 'z) pit_scheme option" where
  "sleep M irqs ms30 s = sleep_loop M irqs (ucast (ticks s)) ms30 s"

section \<open>Lemmas\<close>

text \<open>The timer interrupts taken during the reads \<open>i\<close> to \<open>j - 1\<close>.\<close>

definition irqs_in :: "(nat \<Rightarrow> nat) \<Rightarrow> nat \<Rightarrow> nat \<Rightarrow> nat" where
  "irqs_in irqs i j = sum irqs {i..<j}"

lemma pitIRQ_fields: "ticks (pitIRQ M s) = ticks s + 1" "polls (pitIRQ M s) = polls s"
  by (cases s; simp add: pitIRQ_def sendLAPICEOI_def)+

lemma pitIRQ_pow: "ticks ((pitIRQ M ^^ n) s) = ticks s + of_nat n" "polls ((pitIRQ M ^^ n) s) = polls s"
  by (induction n) (simp_all add: pitIRQ_fields)

lemma poll_fields: "ticks (poll M irqs s) = ticks s + of_nat (irqs (polls s))" "polls (poll M irqs s) = polls s + 1"
  by (simp_all add: poll_def pitIRQ_pow)

lemma irqs_in_grows:
  assumes fair: "\<And>i. \<exists>j \<ge> i. 0 < irqs j"
  shows "\<exists>j > i. n \<le> irqs_in irqs i j"
proof (induction n)
  case 0
  then show ?case by auto
next
  case (Suc n)
  then obtain j where j: "i < j" "n \<le> irqs_in irqs i j" by blast
  obtain k where k: "j \<le> k" "0 < irqs k" using fair by blast
  have "irqs_in irqs i (Suc k) = irqs_in irqs i j + irqs_in irqs j (Suc k)"
    using j(1) k(1) by (simp add: irqs_in_def sum.atLeastLessThan_concat)
  moreover have "irqs_in irqs j (Suc k) \<ge> irqs k"
    using k(1) by (simp add: irqs_in_def)
  ultimately show ?case using j k by (intro exI [of _ "Suc k"]) auto
qed


lemma irqs_in_Suc: "i \<le> j \<Longrightarrow> irqs_in irqs i (Suc j) = irqs_in irqs i j + irqs j"
  by (simp add: irqs_in_def)

lemma sleep_test:
  assumes "t + n < 2 ^ 32"
  shows "(ucast (of_nat (t + n) :: u32) :: u64) - of_nat t < ms \<longleftrightarrow> n < unat ms"
proof -
  have "(ucast (of_nat (t + n) :: u32) :: u64) = of_nat (t + n)"
    using assms by (simp add: word_unat_eq_iff unat_ucast_up unsigned_of_nat take_bit_nat_eq_self del: of_nat_add)
  then have "(ucast (of_nat (t + n) :: u32) :: u64) - of_nat t = of_nat n" by simp
  then show ?thesis using assms by (simp add: word_less_nat_alt unsigned_of_nat take_bit_nat_eq_self)
qed

lemma sleep_loop_returns:
  assumes "ticks s = of_nat (t + irqs_in irqs p (polls s))" "p \<le> polls s" "polls s < j"
    and "\<And>k. polls s < k \<Longrightarrow> k < j \<Longrightarrow> irqs_in irqs p k < unat ms"
    and "unat ms \<le> irqs_in irqs p j" "t + irqs_in irqs p j < 2 ^ 32"
  shows "\<exists>s'. sleep_loop M irqs (of_nat t) ms s = Some s' \<and> polls s' = j \<and>
    ticks s' = of_nat (t + irqs_in irqs p j)"
  using assms
proof (induction "j - polls s" arbitrary: s)
  case 0
  then show ?case by simp
next
  case (Suc d)
  let ?s = "poll M irqs s"
  have t1: "ticks ?s = of_nat (t + irqs_in irqs p (polls s + 1))"
    using Suc.prems(1,2) by (simp add: poll_fields irqs_in_Suc)
  show ?case
  proof (cases "polls s + 1 = j")
    case True
    have "\<not> (ucast (ticks ?s) :: u64) - of_nat t < ms"
      unfolding t1 using sleep_test [of t "irqs_in irqs p j" ms] Suc.prems(5,6) True by simp
    then show ?thesis using t1 True by (simp add: sleep_loop.simps [of M irqs _ ms s] poll_fields Let_def)
  next
    case False
    have n: "irqs_in irqs p (polls s + 1) < unat ms" using Suc.prems(3,4) False by simp
    have c: "(ucast (ticks ?s) :: u64) - of_nat t < ms"
      unfolding t1 using sleep_test [of t "irqs_in irqs p (polls s + 1)" ms] n Suc.prems(5,6) by simp
    have "\<exists>s'. sleep_loop M irqs (of_nat t) ms ?s = Some s' \<and> polls s' = j \<and> ticks s' = of_nat (t + irqs_in irqs p j)"
      using Suc.hyps(2) Suc.prems False t1 by (intro Suc.hyps(1)) (simp_all add: poll_fields)
    then show ?thesis using c by (simp add: sleep_loop.simps [of M irqs _ ms s] Let_def)
  qed
qed

lemma sleep_terminates:
  assumes "\<And>i. \<exists>j \<ge> i. 0 < irqs j" "\<And>i. irqs i \<le> b"
    and "unat (ticks s) + unat ms + b < 2 ^ 32"
  shows "\<exists>s' n. sleep M irqs ms s = Some s' \<and> ticks s' = ticks s + of_nat n \<and>
    n = irqs_in irqs (polls s) (polls s') \<and> unat ms \<le> n \<and> n \<le> unat ms + b"
proof -
  define p where "p = polls s"
  define Q where "Q j \<longleftrightarrow> p < j \<and> unat ms \<le> irqs_in irqs p j" for j
  define j where "j = (LEAST j. Q j)"
  have "\<exists>j. Q j" using irqs_in_grows [OF assms(1), of p "unat ms"] by (auto simp: Q_def)
  then have q: "Q j" "\<And>k. k < j \<Longrightarrow> \<not> Q k" unfolding j_def by (auto intro: LeastI_ex dest: not_less_Least)
  have j: "p < j" "unat ms \<le> irqs_in irqs p j" "\<And>k. p < k \<Longrightarrow> k < j \<Longrightarrow> irqs_in irqs p k < unat ms"
    using q by (auto simp: Q_def not_le)
  have late: "irqs_in irqs p j \<le> unat ms + b"
  proof (cases j)
    case (Suc k)
    have "irqs_in irqs p k \<le> unat ms"
      using j(1) j(3) [of k] Suc by (cases "p = k") (auto simp: irqs_in_def)
    then show ?thesis using assms(2) [of k] irqs_in_Suc [of p k irqs] j(1) Suc by simp
  qed (use j(1) in simp)
  obtain s' where s': "sleep_loop M irqs (of_nat (unat (ticks s))) ms s = Some s'" "polls s' = j"
      "ticks s' = of_nat (unat (ticks s) + irqs_in irqs p j)"
    using sleep_loop_returns [of s "unat (ticks s)" irqs p j ms M] j late assms(3)
    by (auto simp: p_def irqs_in_def)
  have "sleep M irqs ms s = Some s'" using s'(1) by (simp add: sleep_def)
  then show ?thesis using s' late j(2) by (auto simp: p_def intro!: exI [of _ s'])
qed

section \<open>Properties\<close>

text \<open>
  C10. \<open>sleep\<close> returns. Whenever timer interrupts keep arriving (after every read there is a later one
  before which an interrupt is taken), it comes back after at least as many ticks as it was asked
  for, and late by no more than the interrupts taken between two reads, provided the 32-bit
  tick counter does not wrap on the way.
\<close>

theorem sleep_returns:
  assumes "\<And>i. \<exists>j \<ge> i. 0 < irqs j" "\<And>i. irqs i \<le> b"
    and "unat (ticks s) + unat ms + b < 2 ^ 32"
  shows "\<exists>s' n. sleep M irqs ms s = Some s' \<and> ticks s' = ticks s + of_nat n \<and>
    n = irqs_in irqs (polls s) (polls s') \<and> unat ms \<le> n \<and> n \<le> unat ms + b"
  by (rule sleep_terminates [OF assms])

definition demo_pit :: "sim_ioapic pit" where
  "demo_pit = apic.extend demo_apic (pit.fields 5 0)"

theorem sleep_returns_witness:
  "\<exists>s' n. sleep sim_mmio (\<lambda>i. i mod 2) 3 demo_pit = Some s' \<and> ticks s' = ticks demo_pit + of_nat n \<and>
    n = irqs_in (\<lambda>i. i mod 2) (polls demo_pit) (polls s') \<and> unat (3 :: u64) \<le> n \<and> n \<le> unat (3 :: u64) + 1"
proof (rule sleep_returns)
  show "\<exists>j \<ge> i. 0 < j mod 2" for i :: nat by (rule exI [of _ "2 * i + 1"]) simp
  show "unat (ticks demo_pit) + unat (3 :: u64) + 1 < 2 ^ 32"
    by (simp add: demo_pit_def apic.defs pit.defs)
qed simp

text \<open>
  \<open>initPIT\<close> never loads the divisor: what reaches the device are the mode byte and twice the number
  of the port of channel 0, written to channel 2.
\<close>

lemma initPIT_outs:
  "dev (initPIT P s) = outs P [(0x43, 0x36), (0x42, 0x40), (0x42, 0x40)] (dev s)"
  by (simp add: initPIT_def sendOCW_def sendChannel_def PIT_OCW_BIN_def PIT_OCW_MODE_SQUAREWAVEGENERATOR_def
    PIT_OCW_RL_LMSB_def PIT_OCW_SC_0_def PIT_OCW_SC_1_def PIT_REG_CHANNEL_0_def PIT_REG_CHANNEL_2_def PIT_REG_CW_def
    INPUT_FREQ_def DIVISOR_def Let_def drop_bit_eq_div)

end
