(* ===== verification/Idt.thy ===== *)
theory Idt
  imports Pit Task
begin

text \<open>
  The interrupt descriptor table and the start of the processors, \<open>src/src/kernel/interrupts/interrupts.cpp\<close>
  (class \<open>Interrupts\<close> of \<open>interrupts.hpp\<close>): the encoding of a gate, the table that \<open>initInterrupts\<close>
  builds, the calibration of the local timers and the wake-up of the other processors.

  The entry points of the handlers are assembly labels and a parameter (\<open>handlers\<close>). \<open>gate_target\<close> is
  the processor's reading of a gate.
\<close>

section \<open>State\<close>

definition MAX_IDT_ENTRIES :: nat where "MAX_IDT_ENTRIES = 256"
definition IDTD_ADDR :: addr where "IDTD_ADDR = 0x50a"
definition INT_DEFAULT :: u8 where "INT_DEFAULT = 0"
definition INT_NMI :: u8 where "INT_NMI = 1"
definition INT_SYSCALL :: u8 where "INT_SYSCALL = 2"
definition SPURIOUS_INTERRUPT_IDT_ENTRY :: u32 where "SPURIOUS_INTERRUPT_IDT_ENTRY = 0xff"
definition SYSCALL_IDT_ENTRY :: u32 where "SYSCALL_IDT_ENTRY = 0x80"
definition LAPIC_TIMER_IDT_ENTRY :: u32 where "LAPIC_TIMER_IDT_ENTRY = 0x22"
definition LAPIC_TIMER_DISABLE :: u32 where "LAPIC_TIMER_DISABLE = 0x10000"
definition LAPIC_TIMER_PERIODIC_MODE :: u32 where "LAPIC_TIMER_PERIODIC_MODE = 0x20000"
definition LAPIC_LTR :: u32 where "LAPIC_LTR = 0x320"
definition LAPIC_TICR :: u32 where "LAPIC_TICR = 0x380"
definition LAPIC_TCCR :: u32 where "LAPIC_TCCR = 0x390"
definition LAPIC_TDCR :: u32 where "LAPIC_TDCR = 0x3e0"
definition LAPIC_ICR_INIT :: u32 where "LAPIC_ICR_INIT = 0x500"
definition LAPIC_ICR_SIPI :: u32 where "LAPIC_ICR_SIPI = 0x600"
definition LAPIC_ICR_PHYSICAL :: u32 where [simp]: "LAPIC_ICR_PHYSICAL = 0"
definition LAPIC_ICR_EDGE :: u32 where [simp]: "LAPIC_ICR_EDGE = 0"
definition LAPIC_ICR_DEFAULT :: u32 where [simp]: "LAPIC_ICR_DEFAULT = 0"
definition LAPIC_ICR_ASSERT :: u32 where "LAPIC_ICR_ASSERT = 0x4000"

text \<open>\<open>struct IDTD\<close> and \<open>struct IDTRD\<close>.\<close>

record IDTD =
  offset1 :: u16
  selector :: u16
  ist :: u8
  typeAttr :: u8
  offset2 :: u16
  offset3 :: u32
  zero32 :: u32

definition zero_IDTD :: IDTD where
  "zero_IDTD = \<lparr>offset1 = 0, selector = 0, ist = 0, typeAttr = 0, offset2 = 0, offset3 = 0, zero32 = 0\<rparr>"

record IDTRD =
  idt_limit :: u16
  idt_base :: u64

text \<open>The entry points of \<open>namespace IntHandlers\<close> and the address of the object \<open>intsHandler\<close>.\<close>

record handlers =
  h_doNothing :: addr
  h_pit :: addr
  h_keyboard :: addr
  h_lapicTimer :: addr
  h_spurious :: addr
  h_syscall :: addr
  h_this :: addr

text \<open>\<open>lticks\<close> is the static variable of \<open>initLAPICTimer\<close>.\<close>

record 'd ints = "'d pit" +
  IDTDescriptors :: "IDTD list"
  IDTRDescriptor :: IDTRD
  lticks :: u32

section \<open>The descriptor table\<close>

text \<open>An index behind the table is an access outside the object, hence \<open>None\<close>.\<close>

definition setIDTEntry :: "u32 \<Rightarrow> addr \<Rightarrow> u8 \<Rightarrow> ('d, 'z) ints_scheme \<Rightarrow> ('d, 'z) ints_scheme option" where
  "setIDTEntry number address type s =
     (if unat number \<ge> length (IDTDescriptors s) then None
      else Some (s\<lparr>IDTDescriptors := (IDTDescriptors s)[unat number :=
        \<lparr>offset1 = ucast (address AND 0x0000ffff), selector = 0x8, ist = type,
         typeAttr = (if type = INT_SYSCALL \<or> type = INT_NMI then 0xee else 0x8e),
         offset2 = ucast (drop_bit 0x10 (address AND 0xffff0000)),
         offset3 = ucast (drop_bit 0x20 (address AND 0xffffffff00000000)), zero32 = 0\<rparr>]\<rparr>))"

primrec default_gates :: "addr \<Rightarrow> nat \<Rightarrow> nat \<Rightarrow> ('d, 'z) ints_scheme \<Rightarrow> ('d, 'z) ints_scheme option" where
  "default_gates h i 0 s = Some s"
| "default_gates h i (Suc n) s = do { s1 \<leftarrow> setIDTEntry (of_nat i) h INT_DEFAULT s; default_gates h (Suc i) n s1 }"

text \<open>Lines 84 to 106: the table is cleared, its register image stored, every gate set.\<close>

definition setup_idt :: "handlers \<Rightarrow> ('d, 'z) ints_scheme \<Rightarrow> ('d, 'z) ints_scheme option" where
  "setup_idt H s =
     do { let s1 = s\<lparr>IDTDescriptors := replicate MAX_IDT_ENTRIES zero_IDTD,
                     IDTRDescriptor := \<lparr>idt_limit = 16 * 256 - 1, idt_base = h_this H\<rparr>\<rparr>;
          let s2 = s1\<lparr>kmem := write64 IDTD_ADDR (h_this H + 16 * 256) (kmem s1)\<rparr>;
          s3 \<leftarrow> default_gates (h_doNothing H) 0 MAX_IDT_ENTRIES s2;
          s4 \<leftarrow> setIDTEntry (ucast (PIC1_IRQ0 + PIC1_IRQ_TIMER)) (h_pit H) INT_NMI s3;
          s5 \<leftarrow> setIDTEntry (ucast (PIC1_IRQ0 + PIC1_IRQ_KEYBOARD)) (h_keyboard H) INT_NMI s4;
          s6 \<leftarrow> setIDTEntry LAPIC_TIMER_IDT_ENTRY (h_lapicTimer H) INT_NMI s5;
          s7 \<leftarrow> setIDTEntry SPURIOUS_INTERRUPT_IDT_ENTRY (h_spurious H) INT_DEFAULT s6;
          setIDTEntry SYSCALL_IDT_ENTRY (h_syscall H) INT_SYSCALL s7 }"

section \<open>Local timers and the other processors\<close>

definition initLAPICTimer :: "'d mmio \<Rightarrow> (nat \<Rightarrow> nat) \<Rightarrow> ('d, 'z) ints_scheme \<Rightarrow> ('d, 'z) ints_scheme option" where
  "initLAPICTimer M irqs s =
     do { s1 \<leftarrow>
            (if lticks s = 0
             then do { let a1 = LAPICout M LAPIC_TDCR 0x3 s;
                       let a2 = LAPICout M LAPIC_TICR 0xffffffff a1;
                       let a3 = LAPICout M LAPIC_LTR LAPIC_TIMER_IDT_ENTRY a2;
                       a4 \<leftarrow> sleep M irqs 10 a3;
                       let a5 = LAPICout M LAPIC_LTR LAPIC_TIMER_DISABLE a4;
                       let r = LAPICin M LAPIC_TCCR a5;
                       Some ((snd r)\<lparr>lticks := 0xffffffff - fst r\<rparr>) }
             else Some s);
          let s2 = LAPICout M LAPIC_LTR (LAPIC_TIMER_IDT_ENTRY OR LAPIC_TIMER_PERIODIC_MODE) s1;
          let s3 = LAPICout M LAPIC_TDCR 0x3 s2;
          let r = getLAPICID M s3;
          Some (if fst r = 0 then LAPICout M LAPIC_TICR (drop_bit 2 (lticks (snd r))) (snd r)
                else LAPICout M LAPIC_TICR (push_bit 2 (lticks (snd r))) (snd r)) }"

text \<open>The two loops of \<open>wakeAPs\<close>: INIT to every other processor, then STARTUP, with a pause after each.\<close>

definition init_flags :: u32 where
  "init_flags = LAPIC_ICR_INIT OR LAPIC_ICR_PHYSICAL OR LAPIC_ICR_ASSERT OR LAPIC_ICR_EDGE OR LAPIC_ICR_DEFAULT"
definition sipi_flags :: u32 where
  "sipi_flags = 0x8 OR LAPIC_ICR_SIPI OR LAPIC_ICR_PHYSICAL OR LAPIC_ICR_ASSERT OR LAPIC_ICR_EDGE OR LAPIC_ICR_DEFAULT"

partial_function (option) init_loop ::
    "'d mmio \<Rightarrow> u8 \<Rightarrow> u8 \<Rightarrow> ('d, 'z) ints_scheme \<Rightarrow> ('d, 'z) ints_scheme option" where
  "init_loop M me i s =
     (if i < getLAPICCount s
      then Option.bind (getLAPICID_of i s)
             (\<lambda>other. Option.bind (if me \<noteq> other then sendLAPICIPI M other init_flags s else Some s)
               (\<lambda>s1. init_loop M me (i + 1) s1))
      else Some s)"

partial_function (option) sipi_loop ::
    "'d mmio \<Rightarrow> (nat \<Rightarrow> nat) \<Rightarrow> u8 \<Rightarrow> u8 \<Rightarrow> ('d, 'z) ints_scheme \<Rightarrow> ('d, 'z) ints_scheme option" where
  "sipi_loop M irqs me i s =
     (if i < getLAPICCount s
      then Option.bind (getLAPICID_of i s)
             (\<lambda>other. Option.bind (if me \<noteq> other then sendLAPICIPI M other sipi_flags s else Some s)
               (\<lambda>s1. Option.bind (sleep M irqs 10 s1) (\<lambda>s2. sipi_loop M irqs me (i + 1) s2)))
      else Some s)"

definition wakeAPs :: "'d mmio \<Rightarrow> (nat \<Rightarrow> nat) \<Rightarrow> ('d, 'z) ints_scheme \<Rightarrow> ('d, 'z) ints_scheme option" where
  "wakeAPs M irqs s =
     do { let r = getLAPICID M s;
          s1 \<leftarrow> init_loop M (fst r) 0 (snd r);
          s2 \<leftarrow> sleep M irqs 10 s1;
          let q = getLAPICID M s2;
          sipi_loop M irqs (fst q) 0 (snd q) }"

definition initInterrupts ::
    "'d ports \<Rightarrow> 'd mmio \<Rightarrow> (nat \<Rightarrow> nat) \<Rightarrow> handlers \<Rightarrow> ('d, 'z) ints_scheme \<Rightarrow> ('d, 'z) ints_scheme option" where
  "initInterrupts P M irqs H s =
     do { let s1 = s\<lparr>dev := initPIC P (dev s)\<rparr>;
          s2 \<leftarrow> initAPICs M s1;
          let s3 = initPIT P s2;
          s4 \<leftarrow> setup_idt H s3;
          s5 \<leftarrow> wakeAPs M irqs s4;
          initLAPICTimer M irqs s5 }"

text \<open>\<open>APEntry\<close> of \<open>kernelMain.cpp\<close>, from the descriptor table on: the set-up of another processor.\<close>

definition APEntry_timer :: "'d mmio \<Rightarrow> (nat \<Rightarrow> nat) \<Rightarrow> ('d, 'z) ints_scheme \<Rightarrow> ('d, 'z) ints_scheme option" where
  "APEntry_timer M irqs s = initLAPICTimer M irqs (lapic_setup M s)"

text \<open>
  \<open>dumpCPU\<close>: the lines it prints, label and value. \<open>fs1\<close> is the word behind the saved registers; the
  labels from \<open>CODE\<close> on are one ahead of the fields of the structure, because the processor has pushed
  an error code.
\<close>

definition dumpCPU :: "u8 \<Rightarrow> CtxRegisters \<Rightarrow> u64 \<Rightarrow> (string \<times> u64) list" where
  "dumpCPU lapicID ctx fs1 =
     [(''LAPIC ID'', ucast lapicID), (''RAX'', ctx_rax ctx), (''RBX'', ctx_rbx ctx), (''RCX'', ctx_rcx ctx),
      (''RDX'', ctx_rdx ctx), (''RDI'', ctx_rdi ctx), (''RSI'', ctx_rsi ctx), (''RBP'', ctx_rbp ctx),
      (''R8'', ctx_r8 ctx), (''R9'', ctx_r9 ctx), (''R10'', ctx_r10 ctx), (''R11'', ctx_r11 ctx),
      (''R12'', ctx_r12 ctx), (''R13'', ctx_r13 ctx), (''R14'', ctx_r14 ctx), (''R15'', ctx_r15 ctx),
      (''CODE'', ctx_rip ctx), (''RIP'', ctx_cs ctx), (''CS'', ctx_flags ctx), (''FLAGS'', ctx_rsp ctx),
      (''RSP'', ctx_ss ctx), (''SS'', ctx_gs ctx), (''GS'', ctx_fs ctx), (''FS'', fs1)]"

section \<open>Specification vocabulary\<close>

text \<open>What the processor reads from a gate: handler address, privilege of the caller, presence.\<close>

definition gate_target :: "IDTD \<Rightarrow> addr" where
  "gate_target g = ucast (offset1 g) OR push_bit 16 (ucast (offset2 g)) OR push_bit 32 (ucast (offset3 g))"

definition gate_dpl :: "IDTD \<Rightarrow> nat" where
  "gate_dpl g = unat (drop_bit 5 (typeAttr g) AND 3)"

definition gate_ok :: "IDTD \<Rightarrow> bool" where
  "gate_ok g \<longleftrightarrow> bit (typeAttr g) 7 \<and> typeAttr g AND 0x1f = 0x0e \<and> selector g = 8 \<and> ist g < 8 \<and> zero32 g = 0"

text \<open>The handler, interrupt stack and caller privilege every vector should have.\<close>

definition vector_spec :: "handlers \<Rightarrow> nat \<Rightarrow> addr \<times> u8 \<times> nat" where
  "vector_spec H v =
     (if v = 0x20 then (h_pit H, 1, 3) else if v = 0x21 then (h_keyboard H, 1, 3)
      else if v = 0x22 then (h_lapicTimer H, 1, 3) else if v = 0x80 then (h_syscall H, 2, 3)
      else if v = 0xff then (h_spurious H, 0, 0) else (h_doNothing H, 0, 0))"

definition idt_ok :: "handlers \<Rightarrow> IDTD list \<Rightarrow> bool" where
  "idt_ok H t \<longleftrightarrow> length t = 256 \<and>
     (\<forall>v < 256. gate_ok (t ! v) \<and> (gate_target (t ! v), ist (t ! v), gate_dpl (t ! v)) = vector_spec H v)"


definition gate :: "addr \<Rightarrow> u8 \<Rightarrow> IDTD" where
  "gate a t = \<lparr>offset1 = ucast (a AND 0x0000ffff), selector = 0x8, ist = t,
     typeAttr = (if t = INT_SYSCALL \<or> t = INT_NMI then 0xee else 0x8e),
     offset2 = ucast (drop_bit 0x10 (a AND 0xffff0000)),
     offset3 = ucast (drop_bit 0x20 (a AND 0xffffffff00000000)), zero32 = 0\<rparr>"

section \<open>Lemmas\<close>

lemma gate_target_gate: "gate_target (gate a t) = a"
proof (rule bit_word_eqI)
  fix n :: nat assume "n < LENGTH(64)"
  moreover have m: "(0xffff :: u64) = mask 16" "(0xffff0000 :: u64) = push_bit 16 (mask 16)"
      "(0xffffffff00000000 :: u64) = push_bit 32 (mask 32)"
    by (simp_all add: mask_eq_exp_minus_1 push_bit_eq_mult)
  ultimately show "bit (gate_target (gate a t)) n = bit a n"
    by (cases "n < 32") (auto simp: gate_target_def gate_def m bit_simps)
qed

lemma gate_fields:
  "ist (gate a t) = t" "selector (gate a t) = 8" "zero32 (gate a t) = 0"
  "gate_dpl (gate a t) = (if t = INT_SYSCALL \<or> t = INT_NMI then 3 else 0)"
  "t < 8 \<Longrightarrow> gate_ok (gate a t)"
  by (simp_all add: gate_def gate_dpl_def gate_ok_def drop_bit_eq_div)

lemma setIDTEntry_gate:
  "unat n < length (IDTDescriptors s) \<Longrightarrow>
     setIDTEntry n a t s = Some (s\<lparr>IDTDescriptors := (IDTDescriptors s)[unat n := gate a t]\<rparr>)"
  by (simp add: setIDTEntry_def gate_def)

lemma default_gates_all:
  assumes "i + n = length (IDTDescriptors s)" "i + n < 2 ^ 32"
  shows "default_gates h i n s =
    Some (s\<lparr>IDTDescriptors := take i (IDTDescriptors s) @ replicate n (gate h INT_DEFAULT)\<rparr>)"
  using assms
proof (induction n arbitrary: i s)
  case 0
  then show ?case by simp
next
  case (Suc n)
  have u: "unat (of_nat i :: u32) = i" using Suc.prems by (simp add: unsigned_of_nat take_bit_nat_eq_self)
  let ?s = "s\<lparr>IDTDescriptors := (IDTDescriptors s)[i := gate h INT_DEFAULT]\<rparr>"
  have "setIDTEntry (of_nat i) h INT_DEFAULT s = Some ?s"
    using setIDTEntry_gate [of "of_nat i" s] Suc.prems by (simp add: u)
  moreover have "take (Suc i) ((IDTDescriptors s)[i := gate h INT_DEFAULT]) = take i (IDTDescriptors s) @ [gate h INT_DEFAULT]"
    using Suc.prems by (simp add: take_Suc_conv_app_nth)
  ultimately show ?case using Suc.IH [of "Suc i" ?s] Suc.prems by (simp add: replicate_append_same [symmetric])
qed

lemma ints_kmem [simp]:
  "IDTDescriptors (s\<lparr>kmem := m\<rparr>) = IDTDescriptors s" "IDTRDescriptor (s\<lparr>kmem := m\<rparr>) = IDTRDescriptor s"
  by (cases s; simp)+

lemma setup_idt_eq:
  "setup_idt H s = Some (s\<lparr>kmem := write64 IDTD_ADDR (h_this H + 4096) (kmem s),
     IDTDescriptors := (replicate 256 (gate (h_doNothing H) 0))[0x20 := gate (h_pit H) 1, 0x21 := gate (h_keyboard H) 1,
       0x22 := gate (h_lapicTimer H) 1, 0xff := gate (h_spurious H) 0, 0x80 := gate (h_syscall H) 2],
     IDTRDescriptor := \<lparr>idt_limit = 4095, idt_base = h_this H\<rparr>\<rparr>)"
  by (cases s) (simp add: setup_idt_def default_gates_all setIDTEntry_gate MAX_IDT_ENTRIES_def PIC1_IRQ0_def
    PIC1_IRQ_TIMER_def PIC1_IRQ_KEYBOARD_def LAPIC_TIMER_IDT_ENTRY_def SPURIOUS_INTERRUPT_IDT_ENTRY_def
    SYSCALL_IDT_ENTRY_def INT_DEFAULT_def INT_NMI_def INT_SYSCALL_def)

lemma setup_idt_ok:
  "idt_ok H ((replicate 256 (gate (h_doNothing H) 0))[0x20 := gate (h_pit H) 1, 0x21 := gate (h_keyboard H) 1,
       0x22 := gate (h_lapicTimer H) 1, 0xff := gate (h_spurious H) 0, 0x80 := gate (h_syscall H) 2])"
  by (auto simp: idt_ok_def vector_spec_def nth_list_update gate_fields gate_target_gate INT_DEFAULT_def INT_NMI_def INT_SYSCALL_def)


text \<open>An inter-processor interrupt leaves the pending state after finitely many reads of the command register.\<close>

definition ipi_delivers :: "'d mmio \<Rightarrow> addr \<Rightarrow> ('d \<Rightarrow> nat) \<Rightarrow> bool" where
  "ipi_delivers M lb delay \<longleftrightarrow> (\<forall>d v d'. mInDWord M (lb + 0x300) d = (v, d') \<longrightarrow>
     v AND LAPIC_ICR_PENDING = 0 \<or> delay d' < delay d)"

text \<open>What the boot code relies on between two steps: table, register image, processors, and at most \<open>n\<close> ticks.\<close>

definition ints_at :: "addr \<Rightarrow> u8 \<Rightarrow> IDTD list \<Rightarrow> IDTRD \<Rightarrow> nat \<Rightarrow> ('d, 'z) ints_scheme \<Rightarrow> bool" where
  "ints_at lb c T R n s \<longleftrightarrow> lapic_base s = lb \<and> lapicCount s = c \<and> length (lapic s) = MAX_CPU_COUNT \<and>
     IDTDescriptors s = T \<and> IDTRDescriptor s = R \<and> unat (ticks s) \<le> n"

section \<open>Frames of the boot code\<close>

lemma lapic_base_dev [simp]: "lapic_base (s\<lparr>dev := d\<rparr>) = lapic_base s"
  by (cases s) (simp add: lapic_base_def)

lemma ints_at_dev [simp]: "ints_at lb c T R n (s\<lparr>dev := d\<rparr>) = ints_at lb c T R n s"
  by (cases s) (simp add: ints_at_def lapic_base_def)

lemma ints_at_LAPICout [simp]: "ints_at lb c T R n (LAPICout M r v s) = ints_at lb c T R n s"
  by (simp add: LAPICout_def)

lemma LAPICin_dev: "\<exists>d. snd (LAPICin M r s) = s\<lparr>dev := d\<rparr>"
  by (auto simp: LAPICin_def split: prod.split)

lemma ints_at_LAPICin [simp]: "ints_at lb c T R n (snd (LAPICin M r s)) = ints_at lb c T R n s"
  using LAPICin_dev [of M r s] by auto

lemma ints_at_getLAPICID [simp]: "ints_at lb c T R n (snd (getLAPICID M s)) = ints_at lb c T R n s"
proof -
  have "snd (getLAPICID M s) = snd (LAPICin M LAPIC_ID s)" by (simp add: getLAPICID_def split: prod.split)
  then show ?thesis by simp
qed

lemma ints_at_lticks [simp]: "ints_at lb c T R n (s\<lparr>lticks := x\<rparr>) = ints_at lb c T R n s"
  by (cases s) (simp add: ints_at_def lapic_base_def)

lemma ints_at_mono: "ints_at lb c T R n s \<Longrightarrow> n \<le> n' \<Longrightarrow> ints_at lb c T R n' s"
  by (simp add: ints_at_def)

lemma ipi_wait_ends:
  assumes "ipi_delivers M (lapic_base s) delay"
  shows "\<exists>d. ipi_wait M s = Some (s\<lparr>dev := d\<rparr>)"
  using assms
proof (induction "delay (dev s)" arbitrary: s rule: less_induct)
  case less
  obtain v d where vd: "mInDWord M (lapic_base s + 0x300) (dev s) = (v, d)" by fastforce
  then have l: "LAPICin M LAPIC_ICR0 s = (v, s\<lparr>dev := d\<rparr>)" by (simp add: LAPICin_def LAPIC_ICR0_def)
  have "v AND LAPIC_ICR_PENDING = 0 \<or> delay d < delay (dev s)"
    using less.prems vd unfolding ipi_delivers_def by blast
  then show ?case using less.hyps [of "s\<lparr>dev := d\<rparr>"] less.prems l by (subst ipi_wait.simps) auto
qed

lemma sendLAPICIPI_ends:
  assumes "ipi_delivers M (lapic_base s) delay"
  shows "\<exists>d. sendLAPICIPI M r f s = Some (s\<lparr>dev := d\<rparr>)"
  using ipi_wait_ends [of M "LAPICout M LAPIC_ICR0 f (LAPICout M LAPIC_ICR1 (push_bit 24 (ucast r)) s)" delay] assms
  by (auto simp: sendLAPICIPI_def LAPICout_def)

lemma pitIRQ_dev: "\<exists>d. pitIRQ M s = s\<lparr>dev := d, ticks := ticks s + 1\<rparr>"
  by (cases s) (auto simp: pitIRQ_def sendLAPICEOI_def)

lemma pitIRQ_pow_dev: "\<exists>d t. (pitIRQ M ^^ n) s = s\<lparr>dev := d, ticks := t\<rparr>"
proof (induction n)
  case 0
  show ?case by (rule exI [of _ "dev s"], rule exI [of _ "ticks s"]) (cases s, simp)
next
  case (Suc n)
  then obtain d t where "(pitIRQ M ^^ n) s = s\<lparr>dev := d, ticks := t\<rparr>" by blast
  moreover obtain d' where "pitIRQ M (s\<lparr>dev := d, ticks := t\<rparr>) = s\<lparr>dev := d, ticks := t\<rparr>\<lparr>dev := d', ticks := t + 1\<rparr>"
    using pitIRQ_dev [of M "s\<lparr>dev := d, ticks := t\<rparr>"] by (cases s) auto
  ultimately show ?case by (cases s) auto
qed

lemma sleep_loop_dev:
  fixes s :: "('d, 'z) pit_scheme"
  assumes "sleep_loop M irqs st ms s = Some s'"
  shows "\<exists>d t k. s' = s\<lparr>dev := d, ticks := t, polls := k\<rparr>"
proof (rule sleep_loop.raw_induct [where P = "\<lambda>M irqs st ms s s'. \<exists>d t k. s' = s\<lparr>dev := d, ticks := t, polls := k\<rparr>", OF _ assms])
  fix f :: "'d mmio \<Rightarrow> (nat \<Rightarrow> nat) \<Rightarrow> u64 \<Rightarrow> u64 \<Rightarrow> ('d, 'z) pit_scheme \<Rightarrow> ('d, 'z) pit_scheme option"
    and M irqs st ms and s s' :: "('d, 'z) pit_scheme"
  assume ih: "\<And>M irqs st ms s s'. f M irqs st ms s = Some s' \<Longrightarrow> \<exists>d t k. s' = s\<lparr>dev := d, ticks := t, polls := k\<rparr>"
    and b: "(let s1 = poll M irqs s in if ucast (ticks s1) - st < ms then f M irqs st ms s1 else Some s1) = Some s'"
  obtain d t where q: "(pitIRQ M ^^ irqs (polls s)) s = s\<lparr>dev := d, ticks := t\<rparr>"
    using pitIRQ_pow_dev [of "irqs (polls s)" M s] by blast
  then have p: "\<exists>d t k. poll M irqs s = s\<lparr>dev := d, ticks := t, polls := k\<rparr>"
    by (intro exI [of _ d] exI [of _ t] exI [of _ "polls s + 1"]) (simp add: poll_def)
  show "\<exists>d t k. s' = s\<lparr>dev := d, ticks := t, polls := k\<rparr>"
  proof (cases "ucast (ticks (poll M irqs s)) - st < ms")
    case True
    then have "f M irqs st ms (poll M irqs s) = Some s'" using b by (simp add: Let_def)
    then obtain d t k where "s' = (poll M irqs s)\<lparr>dev := d, ticks := t, polls := k\<rparr>" using ih by blast
    then show ?thesis using p by (cases s) auto
  next
    case False
    then show ?thesis using b p by (auto simp: Let_def)
  qed
qed

lemma sleep_step:
  assumes fair: "\<And>i. \<exists>j \<ge> i. 0 < irqs j" "\<And>i. irqs i \<le> b"
    and s: "ints_at lb c T R n s" and n: "n + 10 + b < 2 ^ 32"
  shows "\<exists>s'. sleep M irqs 10 s = Some s' \<and> ints_at lb c T R (n + 10 + b) s'"
proof -
  have t: "unat (ticks s) \<le> n" using s by (simp add: ints_at_def)
  then obtain s' k where s': "sleep M irqs 10 s = Some s'" "ticks s' = ticks s + of_nat k" "k \<le> 10 + b"
    using sleep_terminates [OF fair, where s = s and ms = 10 and M = M] n by auto
  obtain d u p where "s' = s\<lparr>dev := d, ticks := u, polls := p\<rparr>"
    using sleep_loop_dev s'(1) unfolding sleep_def by blast
  moreover have "unat (ticks s') \<le> n + 10 + b"
    using s'(2,3) t n by (simp add: unat_word_ariths unsigned_of_nat take_bit_nat_eq_self)
  ultimately have "ints_at lb c T R (n + 10 + b) s'"
    using s by (cases s) (auto simp: ints_at_def lapic_base_def)
  then show ?thesis using s'(1) by blast
qed

lemma init_loop_ends:
  assumes "ints_at lb c T R n s" "ipi_delivers M lb delay" "unat c \<le> MAX_CPU_COUNT" "i \<le> c"
  shows "\<exists>s'. init_loop M me i s = Some s' \<and> ints_at lb c T R n s'"
  using assms
proof (induction "unat c - unat i" arbitrary: i s)
  case 0
  then have "\<not> i < getLAPICCount s" by (simp add: ints_at_def getLAPICCount_def word_less_nat_alt)
  then show ?case using 0 by (simp add: init_loop.simps [of M me i])
next
  case (Suc k)
  have i: "i < c" "unat (i + 1) = unat i + 1" "unat i < MAX_CPU_COUNT"
    using Suc(2,5) by (auto simp: word_less_nat_alt MAX_CPU_COUNT_def unat_word_ariths)
  have g: "getLAPICCount s = c" "lapic_base s = lb" "length (lapic s) = MAX_CPU_COUNT"
    using Suc.prems(1) by (simp_all add: ints_at_def getLAPICCount_def)
  then obtain other where o: "getLAPICID_of i s = Some other" using i(3) by (simp add: getLAPICID_of_def)
  obtain s1 where s1: "(if me \<noteq> other then sendLAPICIPI M other init_flags s else Some s) = Some s1" "ints_at lb c T R n s1"
    using sendLAPICIPI_ends [of M s delay other init_flags] Suc.prems(1,2) g(2) by (cases "me = other") auto
  have "\<exists>s'. init_loop M me (i + 1) s1 = Some s' \<and> ints_at lb c T R n s'"
    using Suc(2) Suc.prems s1(2) i by (intro Suc(1)) (simp_all add: word_le_nat_alt word_less_nat_alt)
  then show ?case using i(1) g(1) o s1(1) by (subst init_loop.simps) auto
qed

lemma sipi_loop_ends:
  assumes fair: "\<And>i. \<exists>j \<ge> i. 0 < irqs j" "\<And>i. irqs i \<le> b"
    and "ints_at lb c T R n s" "ipi_delivers M lb delay" "unat c \<le> MAX_CPU_COUNT" "i \<le> c"
    and "n + (unat c - unat i) * (10 + b) < 2 ^ 32"
  shows "\<exists>s'. sipi_loop M irqs me i s = Some s' \<and> ints_at lb c T R (n + (unat c - unat i) * (10 + b)) s'"
  using assms(3-7)
proof (induction "unat c - unat i" arbitrary: i s n)
  case 0
  then have "\<not> i < getLAPICCount s" by (simp add: ints_at_def getLAPICCount_def word_less_nat_alt)
  then show ?case using 0 by (simp add: sipi_loop.simps [of M irqs me i])
next
  case (Suc k)
  have i: "i < c" "unat (i + 1) = unat i + 1" "unat i < MAX_CPU_COUNT"
    using Suc(2,5) by (auto simp: word_less_nat_alt MAX_CPU_COUNT_def unat_word_ariths)
  have g: "getLAPICCount s = c" "lapic_base s = lb" "length (lapic s) = MAX_CPU_COUNT"
    using Suc.prems(1) by (simp_all add: ints_at_def getLAPICCount_def)
  then obtain other where o: "getLAPICID_of i s = Some other" using i(3) by (simp add: getLAPICID_of_def)
  obtain s1 where s1: "(if me \<noteq> other then sendLAPICIPI M other sipi_flags s else Some s) = Some s1" "ints_at lb c T R n s1"
    using sendLAPICIPI_ends [of M s delay other sipi_flags] Suc.prems(1,2) g(2) by (cases "me = other") auto
  have e: "(unat c - unat i) * (10 + b) = 10 + b + (unat c - unat (i + 1)) * (10 + b)"
  proof -
    have "unat c - unat i = Suc (unat c - unat (i + 1))" using i by (simp add: word_less_nat_alt)
    then show ?thesis by simp
  qed
  have "n + 10 + b < 2 ^ 32" using Suc.prems(5) unfolding e by simp
  then obtain s2 where s2: "sleep M irqs 10 s1 = Some s2" "ints_at lb c T R (n + 10 + b) s2"
    using sleep_step [OF fair s1(2), of M] by blast
  have "\<exists>s'. sipi_loop M irqs me (i + 1) s2 = Some s' \<and> ints_at lb c T R (n + 10 + b + (unat c - unat (i + 1)) * (10 + b)) s'"
    using Suc(2) Suc.prems s2(2) i e by (intro Suc(1)) (simp_all add: word_le_nat_alt word_less_nat_alt)
  then show ?case using i(1) g(1) o s1(1) s2(1) e by (subst sipi_loop.simps) (auto simp: add.assoc)
qed

lemma wakeAPs_ends:
  assumes fair: "\<And>i. \<exists>j \<ge> i. 0 < irqs j" "\<And>i. irqs i \<le> b"
    and s: "ints_at lb c T R n s" "ipi_delivers M lb delay" "unat c \<le> MAX_CPU_COUNT"
    and n: "n + (1 + unat c) * (10 + b) < 2 ^ 32"
  shows "\<exists>s'. wakeAPs M irqs s = Some s' \<and> ints_at lb c T R (n + (1 + unat c) * (10 + b)) s'"
proof -
  obtain s1 where s1: "init_loop M (fst (getLAPICID M s)) 0 (snd (getLAPICID M s)) = Some s1" "ints_at lb c T R n s1"
    using init_loop_ends [of lb c T R n "snd (getLAPICID M s)" M delay 0] s by auto
  obtain s2 where s2: "sleep M irqs 10 s1 = Some s2" "ints_at lb c T R (n + 10 + b) s2"
    using sleep_step [OF fair s1(2), of M] n by auto
  obtain s3 where "sipi_loop M irqs (fst (getLAPICID M s2)) 0 (snd (getLAPICID M s2)) = Some s3"
      "ints_at lb c T R (n + 10 + b + (unat c - unat (0 :: u8)) * (10 + b)) s3"
    using sipi_loop_ends [OF fair, of lb c T R "n + 10 + b" "snd (getLAPICID M s2)" M delay 0] s s2(2) n
    by (auto simp: add.assoc)
  then show ?thesis using s1(1) s2(1) by (simp add: wakeAPs_def add.assoc)
qed

lemma initLAPICTimer_ends:
  assumes fair: "\<And>i. \<exists>j \<ge> i. 0 < irqs j" "\<And>i. irqs i \<le> b"
    and s: "ints_at lb c T R n s" and n: "n + 10 + b < 2 ^ 32"
  shows "\<exists>s'. initLAPICTimer M irqs s = Some s' \<and> ints_at lb c T R (n + 10 + b) s'"
proof -
  let ?a = "LAPICout M LAPIC_LTR LAPIC_TIMER_IDT_ENTRY (LAPICout M LAPIC_TICR 0xffffffff (LAPICout M LAPIC_TDCR 0x3 s))"
  obtain a where a: "sleep M irqs 10 ?a = Some a" "ints_at lb c T R (n + 10 + b) a"
    using sleep_step [OF fair _ n, of lb c T R ?a M] s by auto
  have "ints_at lb c T R (n + 10 + b) s" using ints_at_mono [OF s] by simp
  then show ?thesis using a by (cases "lticks s = 0") (auto simp: initLAPICTimer_def Let_def)
qed

lemma lapic_base_after_setup:
  "lapic_base (s\<lparr>kmem := write64 IDTD_ADDR v (kmem s)\<rparr>) = lapic_base s"
  by (simp add: lapic_base_def LAPIC_ADDR_def IDTD_ADDR_def read64_write64_apart apart_def)

lemma initPIT_dev: "\<exists>d. initPIT P s = s\<lparr>dev := d, ticks := 0\<rparr>"
  by (auto simp: initPIT_def Let_def)

section \<open>Properties\<close>


text \<open>The simulated controller with the MADT of \<open>Apic\<close>, ports without devices, one timer interrupt per two reads.\<close>

definition idle_ports :: "sim_ioapic ports" where
  "idle_ports = \<lparr>pInByte = \<lambda>p d. (0, d), pInWord = \<lambda>p d. (0, d), pInDWord = \<lambda>p d. (0, d),
     pOutByte = \<lambda>p v d. d, pOutWord = \<lambda>p v d. d, pOutDWord = \<lambda>p v d. d\<rparr>"

definition demo_ints :: "sim_ioapic ints" where
  "demo_ints = pit.extend demo_pit (ints.fields [] \<lparr>idt_limit = 0, idt_base = 0\<rparr> 0)"

definition demo_handlers :: handlers where
  "demo_handlers = \<lparr>h_doNothing = 0x101000, h_pit = 0x101100, h_keyboard = 0x101200, h_lapicTimer = 0x101300,
     h_spurious = 0x101400, h_syscall = 0x101500, h_this = 0x110000\<rparr>"


end
