(* ===== verification/Pci.thy ===== *)
theory Pci
  imports Ports
begin

text \<open>
  The PCI driver, \<open>src/src/kernel/drivers/PCI/pci.cpp\<close>: configuration space access through the two ports of
  configuration mechanism 1, and the enumeration of the devices into the table \<open>pciDevs\<close>.

  \<open>None\<close> is an access outside \<open>pciDevs\<close>. The variable \<open>device\<close> of \<open>parsePCI\<close> is not initialised by the source:
  its value at the start of the loop of each bus is a parameter.
\<close>

section \<open>Driver\<close>

definition PCI_CONFIG_ADDRESS :: u16 where "PCI_CONFIG_ADDRESS = 0xcf8"
definition PCI_CONFIG_DATA :: u16 where "PCI_CONFIG_DATA = 0xcfc"
definition PCI_VENDOR_ID_OFFSET :: u8 where "PCI_VENDOR_ID_OFFSET = 0x0"
definition PCI_DEVICE_ID_OFFSET :: u8 where "PCI_DEVICE_ID_OFFSET = 0x2"
definition PCI_REVISION_ID_OFFSET :: u8 where "PCI_REVISION_ID_OFFSET = 0x8"
definition PCI_PROGIF_OFFSET :: u8 where "PCI_PROGIF_OFFSET = 0x9"
definition PCI_SUBCLASS_OFFSET :: u8 where "PCI_SUBCLASS_OFFSET = 0xa"
definition PCI_CLASS_CODE_OFFSET :: u8 where "PCI_CLASS_CODE_OFFSET = 0xb"
definition PCI_HEADER_TYPE_OFFSET :: u8 where "PCI_HEADER_TYPE_OFFSET = 0xe"

record PCIDevType =
  deviceID :: u16
  vendorID :: u16
  classCode :: u8
  subclass_code :: u8
  progIF :: u8
  revisionID :: u8
  hdrType :: u8

record 'd pci =
  pdev :: 'd
  pciDevs :: "PCIDevType list"
  PCIDevicesCount :: u8

definition makeAddress :: "u8 \<Rightarrow> u8 \<Rightarrow> u8 \<Rightarrow> u8 \<Rightarrow> u32" where
  "makeAddress bus slot func offset =
     push_bit 16 (ucast bus) OR push_bit 11 (ucast slot) OR push_bit 8 (ucast func) OR
     ucast (offset AND 0xfc) OR 0x80000000"

definition PCIinByte :: "'d ports \<Rightarrow> u8 \<Rightarrow> u8 \<Rightarrow> u8 \<Rightarrow> u8 \<Rightarrow> 'd \<Rightarrow> u8 \<times> 'd" where
  "PCIinByte P bus slot func offset d =
     pInByte P (PCI_CONFIG_DATA + ucast (offset AND 0x03)) (pOutDWord P PCI_CONFIG_ADDRESS (makeAddress bus slot func offset) d)"

definition PCIinWord :: "'d ports \<Rightarrow> u8 \<Rightarrow> u8 \<Rightarrow> u8 \<Rightarrow> u8 \<Rightarrow> 'd \<Rightarrow> u16 \<times> 'd" where
  "PCIinWord P bus slot func offset d =
     pInWord P (PCI_CONFIG_DATA + ucast (offset AND 0x02)) (pOutDWord P PCI_CONFIG_ADDRESS (makeAddress bus slot func offset) d)"

definition PCIinDWord :: "'d ports \<Rightarrow> u8 \<Rightarrow> u8 \<Rightarrow> u8 \<Rightarrow> u8 \<Rightarrow> 'd \<Rightarrow> u32 \<times> 'd" where
  "PCIinDWord P bus slot func offset d =
     pInDWord P PCI_CONFIG_DATA (pOutDWord P PCI_CONFIG_ADDRESS (makeAddress bus slot func offset) d)"

definition PCIoutByte :: "'d ports \<Rightarrow> u8 \<Rightarrow> u8 \<Rightarrow> u8 \<Rightarrow> u8 \<Rightarrow> u8 \<Rightarrow> 'd \<Rightarrow> 'd" where
  "PCIoutByte P bus slot func offset value d =
     pOutByte P (PCI_CONFIG_DATA + ucast (offset AND 0x03)) value (pOutDWord P PCI_CONFIG_ADDRESS (makeAddress bus slot func offset) d)"

definition PCIoutWord :: "'d ports \<Rightarrow> u8 \<Rightarrow> u8 \<Rightarrow> u8 \<Rightarrow> u8 \<Rightarrow> u16 \<Rightarrow> 'd \<Rightarrow> 'd" where
  "PCIoutWord P bus slot func offset value d =
     pOutWord P (PCI_CONFIG_DATA + ucast (offset AND 0x02)) value (pOutDWord P PCI_CONFIG_ADDRESS (makeAddress bus slot func offset) d)"

definition PCIoutDWord :: "'d ports \<Rightarrow> u8 \<Rightarrow> u8 \<Rightarrow> u8 \<Rightarrow> u8 \<Rightarrow> u32 \<Rightarrow> 'd \<Rightarrow> 'd" where
  "PCIoutDWord P bus slot func offset value d =
     pOutDWord P PCI_CONFIG_DATA value (pOutDWord P PCI_CONFIG_ADDRESS (makeAddress bus slot func offset) d)"

section \<open>Enumeration\<close>

text \<open>The entry of \<open>pciDevs\<close> the counter points at.\<close>

definition upd_dev :: "(PCIDevType \<Rightarrow> PCIDevType) \<Rightarrow> 'd pci \<Rightarrow> 'd pci" where
  "upd_dev f s = s\<lparr>pciDevs := (pciDevs s)[unat (PCIDevicesCount s) := f (pciDevs s ! unat (PCIDevicesCount s))]\<rparr>"

abbreviation curr_dev :: "'d pci \<Rightarrow> PCIDevType" where
  "curr_dev s \<equiv> pciDevs s ! unat (PCIDevicesCount s)"

definition readVendor :: "'d ports \<Rightarrow> u8 \<Rightarrow> u8 \<Rightarrow> u8 \<Rightarrow> 'd pci \<Rightarrow> 'd pci" where
  "readVendor P bus device func s =
     (let (v, d) = PCIinWord P bus device func PCI_VENDOR_ID_OFFSET (pdev s)
      in upd_dev (\<lambda>e. e\<lparr>vendorID := v\<rparr>) (s\<lparr>pdev := d\<rparr>))"

definition gatherPCIDevInfo :: "'d ports \<Rightarrow> u8 \<Rightarrow> u8 \<Rightarrow> u8 \<Rightarrow> 'd pci \<Rightarrow> 'd pci" where
  "gatherPCIDevInfo P bus device func s =
     (let (v1, d1) = PCIinWord P bus device func PCI_DEVICE_ID_OFFSET (pdev s);
          (v2, d2) = PCIinByte P bus device func PCI_CLASS_CODE_OFFSET d1;
          (v3, d3) = PCIinByte P bus device func PCI_SUBCLASS_OFFSET d2;
          (v4, d4) = PCIinByte P bus device func PCI_PROGIF_OFFSET d3;
          (v5, d5) = PCIinByte P bus device func PCI_REVISION_ID_OFFSET d4;
          (v6, d6) = PCIinByte P bus device func PCI_HEADER_TYPE_OFFSET d5
      in upd_dev (\<lambda>e. e\<lparr>deviceID := v1, classCode := v2, subclass_code := v3, progIF := v4, revisionID := v5, hdrType := v6\<rparr>)
           (s\<lparr>pdev := d6\<rparr>))"

text \<open>One turn of the loop over the functions of a device.\<close>

definition checkFunction :: "'d ports \<Rightarrow> u8 \<Rightarrow> u8 \<Rightarrow> u8 \<Rightarrow> 'd pci \<Rightarrow> 'd pci" where
  "checkFunction P bus device func s =
     (let s1 = s\<lparr>PCIDevicesCount := PCIDevicesCount s + 1\<rparr>;
          s2 = readVendor P bus device func s1
      in if vendorID (curr_dev s2) \<noteq> 0xffff then gatherPCIDevInfo P bus device func s2
         else s2\<lparr>PCIDevicesCount := PCIDevicesCount s2 - 1\<rparr>)"

definition checkDevice :: "'d ports \<Rightarrow> u8 \<Rightarrow> u8 \<Rightarrow> 'd pci \<Rightarrow> 'd pci" where
  "checkDevice P bus device s =
     (let s1 = readVendor P bus device 0 s
      in if vendorID (curr_dev s1) = 0xffff then s1
         else let s2 = gatherPCIDevInfo P bus device 0 s1;
                  s3 = (if hdrType (curr_dev s2) AND 0x80 \<noteq> 0 then fold (checkFunction P bus device) [1, 2, 3, 4, 5, 6, 7] s2
                        else s2)
              in s3\<lparr>PCIDevicesCount := PCIDevicesCount s3 + 1\<rparr>)"

definition bus_devices :: "'d ports \<Rightarrow> u8 \<Rightarrow> u8 \<Rightarrow> 'd pci \<Rightarrow> 'd pci" where
  "bus_devices P start bus s = fold (checkDevice P bus) (map of_nat [unat start..<32]) s"

definition parsePCI :: "'d ports \<Rightarrow> (nat \<Rightarrow> u8) \<Rightarrow> 'd pci \<Rightarrow> 'd pci" where
  "parsePCI P start s = fold (\<lambda>bus. bus_devices P (start bus) (of_nat bus)) [0..<256] s"

text \<open>The rows \<open>printPCIDevices\<close> prints, one per counted device, in the order of the columns.\<close>

definition printPCIDevice :: "PCIDevType \<Rightarrow> u64 list" where
  "printPCIDevice e = [ucast (deviceID e), ucast (vendorID e), ucast (classCode e), ucast (subclass_code e), ucast (progIF e),
     ucast (revisionID e), ucast (hdrType e)]"

definition printPCIDevices :: "'d pci \<Rightarrow> u64 list list" where
  "printPCIDevices s = map printPCIDevice (take (unat (PCIDevicesCount s)) (pciDevs s))"

section \<open>Specification vocabulary\<close>

text \<open>
  The configuration space: a byte for every address of the configuration mechanism, which has
  the enable bit at bit 31, the bus from bit 16, the device from bit 11, the function from bit 8
  and the register in the low byte.
\<close>

type_synonym config = "u32 \<Rightarrow> u8"

definition reg_addr :: "u8 \<Rightarrow> u8 \<Rightarrow> u8 \<Rightarrow> u8 \<Rightarrow> u32" where
  "reg_addr bus device func offset =
     0x80000000 + 0x10000 * ucast bus + 0x800 * ucast device + 0x100 * ucast func + ucast offset"

definition reg8 :: "config \<Rightarrow> u8 \<Rightarrow> u8 \<Rightarrow> u8 \<Rightarrow> u8 \<Rightarrow> u8" where
  "reg8 C bus device func offset = C (reg_addr bus device func offset)"

definition reg16 :: "config \<Rightarrow> u8 \<Rightarrow> u8 \<Rightarrow> u8 \<Rightarrow> u8 \<Rightarrow> u16" where
  "reg16 C bus device func offset =
     ucast (reg8 C bus device func offset) OR push_bit 8 (ucast (reg8 C bus device func (offset + 1)))"

text \<open>The identification registers of a function.\<close>

definition ident :: "config \<Rightarrow> u8 \<Rightarrow> u8 \<Rightarrow> u8 \<Rightarrow> PCIDevType" where
  "ident C b dv f = \<lparr>deviceID = reg16 C b dv f 2, vendorID = reg16 C b dv f 0, classCode = reg8 C b dv f 11,
     subclass_code = reg8 C b dv f 10, progIF = reg8 C b dv f 9, revisionID = reg8 C b dv f 8, hdrType = reg8 C b dv f 14\<rparr>"

text \<open>
  A function is present if its vendor is not \<open>0xffff\<close>; functions above 0 are looked for on devices
  with the multi-function bit only.
\<close>

definition present :: "config \<Rightarrow> u8 \<Rightarrow> u8 \<Rightarrow> u8 \<Rightarrow> bool" where
  "present C b dv f \<longleftrightarrow> vendorID (ident C b dv f) \<noteq> 0xffff"

definition device_functions :: "config \<Rightarrow> u8 \<Rightarrow> u8 \<Rightarrow> PCIDevType list" where
  "device_functions C b dv =
     (if \<not> present C b dv 0 then []
      else ident C b dv 0 # (if hdrType (ident C b dv 0) AND 0x80 \<noteq> 0
                       then map (ident C b dv) (filter (present C b dv) [1, 2, 3, 4, 5, 6, 7]) else []))"

definition bus_functions :: "config \<Rightarrow> u8 \<Rightarrow> u8 \<Rightarrow> PCIDevType list" where
  "bus_functions C start b = concat (map (device_functions C b) (map of_nat [unat start..<32]))"

definition probed_functions :: "config \<Rightarrow> (nat \<Rightarrow> u8) \<Rightarrow> PCIDevType list" where
  "probed_functions C start = concat (map (\<lambda>b. bus_functions C (start b) (of_nat b)) [0..<256])"

text \<open>
  The places of the machine, 256 buses of 32 devices, in order; and the functions of the devices at some places.
\<close>

definition places :: "(nat \<times> nat) list" where
  "places = List.product [0..<256] [0..<32]"

definition functions_at :: "config \<Rightarrow> (nat \<times> nat) list \<Rightarrow> PCIDevType list" where
  "functions_at C ps = concat (map (\<lambda>(b, d). device_functions C (of_nat b) (of_nat d)) ps)"

lemma functions_at_filter:
  "functions_at C (filter (\<lambda>(b, d). unat (start b) \<le> d) (List.product bs [0..<32])) =
     concat (map (\<lambda>b. bus_functions C (start b) (of_nat b)) bs)"
proof (induction bs)
  case (Cons b bs)
  have f: "filter (\<lambda>d. unat (start b) \<le> d) [0..<n] = [unat (start b)..<n]" for n by (induction n) auto
  have "filter (\<lambda>(b, d). unat (start b) \<le> d) (map (Pair b) [0..<32]) = map (Pair b) [unat (start b)..<32]"
    by (simp only: filter_map comp_def case_prod_conv f)
  then show ?case using Cons by (simp add: functions_at_def bus_functions_def comp_def del: upt_rec_numeral)
qed (simp add: functions_at_def)

lemma functions_at_length: "length (functions_at C (filter Q ps)) \<le> length (functions_at C ps)"
  by (induction ps) (auto simp: functions_at_def)

definition listed :: "'d pci \<Rightarrow> PCIDevType list" where
  "listed s = take (unat (PCIDevicesCount s)) (pciDevs s)"

section \<open>Addresses\<close>

lemma bit_below:
  assumes "unat (x :: u8) < 2 ^ m" "bit x n"
  shows "n < m"
proof -
  have "take_bit m x = x"
    using assms(1) by (simp add: word_unat_eq_iff unsigned_take_bit_eq take_bit_nat_eq_self)
  then show ?thesis using assms(2) by (metis bit_take_bit_iff)
qed

lemma makeAddress_sum:
  assumes "device < 32" "func < 8"
  shows "makeAddress bus device func offset =
    push_bit 16 (ucast bus) + (push_bit 11 (ucast device) + (push_bit 8 (ucast func) + (ucast (offset AND 0xfc) + 0x80000000)))"
proof -
  have d: "n < 5" if "bit device n" for n using bit_below [of device 5 n] assms(1) that by (simp add: word_less_nat_alt)
  have f: "n < 3" if "bit func n" for n using bit_below [of func 3 n] assms(2) that by (simp add: word_less_nat_alt)
  have b: "n < 8" if "bit (x :: u8) n" for x n using bit_imp_le_length [OF that] by simp
  have h: "bit (0x80000000 :: u32) n \<longleftrightarrow> n = 31" for n
  proof -
    have "(0x80000000 :: u32) = 2 ^ 31" by simp
    then show ?thesis by (simp only: bit_exp_iff) auto
  qed
  define w1 :: u32 where "w1 = push_bit 16 (ucast bus)"
  define w2 :: u32 where "w2 = push_bit 11 (ucast device)"
  define w3 :: u32 where "w3 = push_bit 8 (ucast func)"
  define w4 :: u32 where "w4 = ucast (offset AND 0xfc)"
  have n1: "16 \<le> n \<and> n < 24" if "bit w1 n" for n using that b [of bus "n - 16"] by (auto simp: w1_def bit_simps)
  have n2: "11 \<le> n \<and> n < 16" if "bit w2 n" for n using that d [of "n - 11"] by (auto simp: w2_def bit_simps)
  have n3: "8 \<le> n \<and> n < 11" if "bit w3 n" for n using that f [of "n - 8"] by (auto simp: w3_def bit_simps)
  have n4: "n < 8" if "bit w4 n" for n using that b [of "offset AND 0xfc" n] by (auto simp: w4_def bit_unsigned_iff)
  have "w4 + 0x80000000 = w4 OR 0x80000000" using n4 h by (intro disjunctive_add) fastforce
  moreover have "w3 + (w4 OR 0x80000000) = w3 OR (w4 OR 0x80000000)"
    using n3 n4 h by (intro disjunctive_add) (fastforce simp: bit_or_iff)
  moreover have "w2 + (w3 OR (w4 OR 0x80000000)) = w2 OR (w3 OR (w4 OR 0x80000000))"
    using n2 n3 n4 h by (intro disjunctive_add) (fastforce simp: bit_or_iff)
  moreover have "w1 + (w2 OR (w3 OR (w4 OR 0x80000000))) = w1 OR (w2 OR (w3 OR (w4 OR 0x80000000)))"
    using n1 n2 n3 n4 h by (intro disjunctive_add) (fastforce simp: bit_or_iff)
  ultimately show ?thesis
    unfolding makeAddress_def w1_def [symmetric] w2_def [symmetric] w3_def [symmetric] w4_def [symmetric]
    by (simp add: or.assoc)
qed

lemma makeAddress_reg_addr:
  "device < 32 \<Longrightarrow> func < 8 \<Longrightarrow> makeAddress bus device func offset = reg_addr bus device func (offset AND 0xfc)"
  by (simp add: makeAddress_sum reg_addr_def push_bit_eq_mult algebra_simps)

lemma ucast_u8_u16: "(ucast (ucast (x :: u8) :: u16) :: u32) = ucast x"
  by (rule bit_word_eqI) (auto simp: bit_simps dest: bit_imp_le_length)

lemma unat_u8: "unat (x :: u8) < 256"
  using unsigned_less [where 'a = nat and w = x] by simp

lemma ucast_plus_u8: "unat x + unat y < 256 \<Longrightarrow> (ucast (x + y :: u8) :: u32) = ucast x + ucast y"
  by (simp add: word_unat_eq_iff unat_word_ariths unsigned_ucast_eq take_bit_nat_eq_self)

lemma offset_split: "(offset AND 0xfc) + (offset AND 0x03) = (offset :: u8)"
proof -
  have "(offset AND 0xfc) AND (offset AND 0x03) = offset AND (0xfc AND 0x03)" by (simp only: and.assoc and.left_commute and.left_idem)
  then have "(offset AND 0xfc) + (offset AND 0x03) = (offset AND 0xfc) OR (offset AND 0x03)"
    by (intro disjunctive_add_eq_or) simp
  also have "\<dots> = offset AND (0xfc OR 0x03)" by (simp only: bit.conj_disj_distrib)
  also have "\<dots> = offset" by (rule byte_eqI) (simp_all add: bit_simps)
  finally show ?thesis .
qed

lemma offset_split_u32: "ucast (offset AND 0xfc) + ucast (offset AND 0x03 :: u8) = (ucast offset :: u32)"
proof -
  have "unat (offset AND 0xfc) \<le> 252" "unat (offset AND 0x03) \<le> 3"
    using word_and_le1 [of offset "0xfc"] word_and_le1 [of offset "0x03"] by (simp_all add: word_le_nat_alt)
  then show ?thesis using ucast_plus_u8 [of "offset AND 0xfc" "offset AND 0x03"] offset_split [of offset] by simp
qed

text \<open>The driver's address and port offset together select the register.\<close>

lemma makeAddress_select:
  "device < 32 \<Longrightarrow> func < 8 \<Longrightarrow>
    makeAddress bus device func offset + ucast (offset AND 0x03) = reg_addr bus device func offset"
  using offset_split_u32 [of offset]
  by (simp add: makeAddress_reg_addr reg_addr_def add.assoc)

lemma makeAddress_enabled: "makeAddress bus device func offset AND 0x80000003 = 0x80000000"
  by (rule word32_eqI; rule byte_eqI; simp add: makeAddress_def bit_simps)

section \<open>Configuration mechanism\<close>

text \<open>
  What the driver relies on of configuration mechanism 1: after an address with the enable bit is
  written to \<open>CONFIG_ADDRESS\<close>, an input of a byte or a word from \<open>CONFIG_DATA\<close> plus \<open>k\<close> delivers the
  bytes of the configuration space from that address plus \<open>k\<close> on, and reading changes no register.
\<close>

locale pci_hw =
  fixes P :: "'d ports" and C :: config and ready :: "'d \<Rightarrow> bool"
  assumes in_byte: "ready d \<Longrightarrow> k < 4 \<Longrightarrow> a AND 0x80000003 = 0x80000000 \<Longrightarrow>
      \<exists>d'. pInByte P (PCI_CONFIG_DATA + k) (pOutDWord P PCI_CONFIG_ADDRESS a d) = (C (a + ucast k), d') \<and> ready d'"
    and in_word: "ready d \<Longrightarrow> k \<in> {0, 2} \<Longrightarrow> a AND 0x80000003 = 0x80000000 \<Longrightarrow>
      \<exists>d'. pInWord P (PCI_CONFIG_DATA + k) (pOutDWord P PCI_CONFIG_ADDRESS a d) =
        (ucast (C (a + ucast k)) OR push_bit 8 (ucast (C (a + ucast k + 1))), d') \<and> ready d'"
begin

lemma PCIinByte_reads:
  assumes "ready d" "device < 32" "func < 8"
  shows "\<exists>d'. PCIinByte P bus device func offset d = (reg8 C bus device func offset, d') \<and> ready d'"
proof -
  have "ucast (offset AND 0x03) < (4 :: u16)"
    using word_and_le1 [of offset "0x03"] by (simp add: word_less_nat_alt word_le_nat_alt unsigned_ucast_eq take_bit_nat_eq_self)
  from in_byte [OF assms(1) this makeAddress_enabled [of bus device func offset]] show ?thesis
    using makeAddress_select [OF assms(2,3), of bus offset]
    by (simp add: PCIinByte_def reg8_def ucast_u8_u16)
qed

lemma PCIinWord_reads:
  assumes "ready d" "device < 32" "func < 8" "offset = 0 \<or> offset = 2"
  shows "\<exists>d'. PCIinWord P bus device func offset d = (reg16 C bus device func offset, d') \<and> ready d'"
proof -
  have o: "offset AND 0x02 = offset" "offset AND 0x03 = offset" "ucast (offset AND 0x02) \<in> {0, 2 :: u16}"
      "ucast (offset + 1) = (ucast offset + 1 :: u32)" using assms(4) by auto
  from in_word [OF assms(1) o(3) makeAddress_enabled [of bus device func offset]] show ?thesis
    using makeAddress_select [OF assms(2,3), of bus offset] o
    by (simp add: PCIinWord_def reg16_def reg8_def reg_addr_def ucast_u8_u16 add.assoc)
qed

text \<open>A state of the driver on this hardware, and what one probe writes.\<close>

definition wf :: "'d pci \<Rightarrow> bool" where
  "wf s \<longleftrightarrow> ready (pdev s) \<and> length (pciDevs s) = 256"

lemma readVendor_writes:
  assumes "wf s" "device < 32" "func < 8"
  shows "wf (readVendor P bus device func s)" "PCIDevicesCount (readVendor P bus device func s) = PCIDevicesCount s"
    "pciDevs (readVendor P bus device func s) =
       (pciDevs s)[unat (PCIDevicesCount s) := (curr_dev s)\<lparr>vendorID := reg16 C bus device func 0\<rparr>]"
proof -
  obtain d where "PCIinWord P bus device func 0 (pdev s) = (reg16 C bus device func 0, d)" "ready d"
    using PCIinWord_reads [of "pdev s" device func 0 bus] assms by (auto simp: wf_def)
  then show "wf (readVendor P bus device func s)" "PCIDevicesCount (readVendor P bus device func s) = PCIDevicesCount s"
      "pciDevs (readVendor P bus device func s) =
       (pciDevs s)[unat (PCIDevicesCount s) := (curr_dev s)\<lparr>vendorID := reg16 C bus device func 0\<rparr>]"
    using assms(1) by (simp_all add: readVendor_def PCI_VENDOR_ID_OFFSET_def upd_dev_def wf_def)
qed

lemma gather_writes:
  assumes "wf s" "device < 32" "func < 8"
  shows "wf (gatherPCIDevInfo P bus device func s)"
    "PCIDevicesCount (gatherPCIDevInfo P bus device func s) = PCIDevicesCount s"
    "pciDevs (gatherPCIDevInfo P bus device func s) =
       (pciDevs s)[unat (PCIDevicesCount s) := (ident C bus device func)\<lparr>vendorID := vendorID (curr_dev s)\<rparr>]"
proof -
  note rd = PCIinByte_reads [OF _ assms(2,3), of _ bus]
  obtain d1 where 1: "PCIinWord P bus device func 2 (pdev s) = (reg16 C bus device func 2, d1)" "ready d1"
    using PCIinWord_reads [of "pdev s" device func 2 bus] assms by (auto simp: wf_def)
  obtain d2 where 2: "PCIinByte P bus device func 11 d1 = (reg8 C bus device func 11, d2)" "ready d2" using rd [OF 1(2)] by blast
  obtain d3 where 3: "PCIinByte P bus device func 10 d2 = (reg8 C bus device func 10, d3)" "ready d3" using rd [OF 2(2)] by blast
  obtain d4 where 4: "PCIinByte P bus device func 9 d3 = (reg8 C bus device func 9, d4)" "ready d4" using rd [OF 3(2)] by blast
  obtain d5 where 5: "PCIinByte P bus device func 8 d4 = (reg8 C bus device func 8, d5)" "ready d5" using rd [OF 4(2)] by blast
  obtain d6 where 6: "PCIinByte P bus device func 14 d5 = (reg8 C bus device func 14, d6)" "ready d6" using rd [OF 5(2)] by blast
  have g: "gatherPCIDevInfo P bus device func s =
      upd_dev (\<lambda>e. (ident C bus device func)\<lparr>vendorID := vendorID e\<rparr>) (s\<lparr>pdev := d6\<rparr>)"
    by (auto simp: gatherPCIDevInfo_def 1 2 3 4 5 6 ident_def PCI_DEVICE_ID_OFFSET_def PCI_CLASS_CODE_OFFSET_def
        PCI_SUBCLASS_OFFSET_def PCI_PROGIF_OFFSET_def PCI_REVISION_ID_OFFSET_def PCI_HEADER_TYPE_OFFSET_def
        intro!: arg_cong [where f = "\<lambda>g. upd_dev g _"] ext PCIDevType.equality)
  show "wf (gatherPCIDevInfo P bus device func s)"
      "PCIDevicesCount (gatherPCIDevInfo P bus device func s) = PCIDevicesCount s"
      "pciDevs (gatherPCIDevInfo P bus device func s) =
       (pciDevs s)[unat (PCIDevicesCount s) := (ident C bus device func)\<lparr>vendorID := vendorID (curr_dev s)\<rparr>]"
    using assms(1) 6(2) by (simp_all add: g upd_dev_def wf_def)
qed

lemma ident_vendor: "reg16 C bus device func 0 = vendorID (ident C bus device func)"
  "(ident C bus device func)\<lparr>vendorID := vendorID (ident C bus device func)\<rparr> = ident C bus device func"
  by (simp_all add: ident_def)

text \<open>A probe of one function at the entry the counter points at.\<close>

lemma probe_writes:
  fixes bus :: u8
  assumes "wf s" "device < 32" "func < 8"
  defines "s1 \<equiv> readVendor P bus device func s"
  shows "vendorID (curr_dev s1) = vendorID (ident C bus device func)"
    "wf (gatherPCIDevInfo P bus device func s1)"
    "PCIDevicesCount (gatherPCIDevInfo P bus device func s1) = PCIDevicesCount s"
    "pciDevs (gatherPCIDevInfo P bus device func s1) = (pciDevs s)[unat (PCIDevicesCount s) := ident C bus device func]"
proof -
  note r = readVendor_writes [OF assms(1-3), of bus, folded s1_def]
  note g = gather_writes [OF r(1) assms(2,3), of bus]
  have l: "unat (PCIDevicesCount s) < length (pciDevs s)"
    using assms(1) unat_u8 [of "PCIDevicesCount s"] by (simp add: wf_def)
  then show v: "vendorID (curr_dev s1) = vendorID (ident C bus device func)"
    by (simp add: r(2,3) ident_vendor)
  show "wf (gatherPCIDevInfo P bus device func s1)"
    "PCIDevicesCount (gatherPCIDevInfo P bus device func s1) = PCIDevicesCount s"
    using g(1,2) r(2) by simp_all
  show "pciDevs (gatherPCIDevInfo P bus device func s1) = (pciDevs s)[unat (PCIDevicesCount s) := ident C bus device func]"
    using g(3) v by (simp add: r(2,3) ident_vendor)
qed

lemma take_Suc_update: "n < length xs \<Longrightarrow> take (Suc n) (xs[n := x]) = take n xs @ [x]"
  by (simp add: take_Suc_conv_app_nth)

text \<open>The functions a device has been found to have so far, with the one the counter points at.\<close>

lemma checkFunction_appends:
  fixes bus :: u8
  assumes "wf s" "device < 32" "func < 8" "unat (PCIDevicesCount s) + 1 < 256"
  defines "s' \<equiv> checkFunction P bus device func s"
  shows "wf s'" "unat (PCIDevicesCount s') = unat (PCIDevicesCount s) + length (filter (present C bus device) [func])"
    "take (Suc (unat (PCIDevicesCount s'))) (pciDevs s') =
     take (Suc (unat (PCIDevicesCount s))) (pciDevs s) @ map (ident C bus device) (filter (present C bus device) [func])"
proof -
  define s1 where "s1 = s\<lparr>PCIDevicesCount := PCIDevicesCount s + 1\<rparr>"
  have w1: "wf s1" "pciDevs s1 = pciDevs s" "unat (PCIDevicesCount s1) = Suc (unat (PCIDevicesCount s))"
    using assms(1,4) by (simp_all add: s1_def wf_def unat_word_ariths)
  note r = readVendor_writes [OF w1(1) assms(2,3), of bus]
  note p = probe_writes [OF w1(1) assms(2,3), of bus]
  have l: "Suc (unat (PCIDevicesCount s)) < length (pciDevs s)" using assms(1,4) by (simp add: wf_def)
  have c: "s' = (if present C bus device func then gatherPCIDevInfo P bus device func (readVendor P bus device func s1)
      else (readVendor P bus device func s1)\<lparr>PCIDevicesCount := PCIDevicesCount s\<rparr>)"
    using p(1) r(2) by (simp add: s'_def checkFunction_def Let_def s1_def [symmetric] present_def) (simp add: s1_def)
  show "wf s'" using c p(2) r(1) by (auto simp: wf_def)
  show "unat (PCIDevicesCount s') = unat (PCIDevicesCount s) + length (filter (present C bus device) [func])" using c p(3) w1(3) by simp
  show "take (Suc (unat (PCIDevicesCount s'))) (pciDevs s') =
     take (Suc (unat (PCIDevicesCount s))) (pciDevs s) @ map (ident C bus device) (filter (present C bus device) [func])"
    using c p(3,4) r(3) w1(2,3) l by (simp add: take_Suc_update)
qed

lemma function_loop_appends:
  fixes bus :: u8
  assumes "wf s" "device < 32" "\<forall>f \<in> set fs. f < 8"
    "unat (PCIDevicesCount s) + length (filter (present C bus device) fs) + 1 < 256"
  defines "s' \<equiv> fold (checkFunction P bus device) fs s"
  shows "wf s' \<and> unat (PCIDevicesCount s') = unat (PCIDevicesCount s) + length (filter (present C bus device) fs) \<and>
    take (Suc (unat (PCIDevicesCount s'))) (pciDevs s') =
     take (Suc (unat (PCIDevicesCount s))) (pciDevs s) @ map (ident C bus device) (filter (present C bus device) fs)"
  using assms(1-4) unfolding s'_def
proof (induction fs arbitrary: s)
  case (Cons f fs)
  have f: "f < 8" "unat (PCIDevicesCount s) + 1 < 256" using Cons.prems(3,4) by auto
  note c = checkFunction_appends [OF Cons.prems(1,2) f, of bus]
  have "unat (PCIDevicesCount (checkFunction P bus device f s)) + length (filter (present C bus device) fs) + 1 < 256"
    using c(2) Cons.prems(4) by (simp split: if_splits)
  with Cons.IH [OF c(1) Cons.prems(2)] c(2,3) Cons.prems(3) show ?case
    by (cases "present C bus device f") auto
qed simp

lemma checkDevice_appends:
  fixes bus :: u8
  assumes "wf s" "device < 32" "length (listed s) + length (device_functions C bus device) < 256"
  defines "s' \<equiv> checkDevice P bus device s"
  shows "wf s' \<and> listed s' = listed s @ device_functions C bus device"
proof -
  define s1 where "s1 = readVendor P bus device 0 s"
  note r = readVendor_writes [OF assms(1,2), of 0 bus, folded s1_def, simplified]
  note p = probe_writes [OF assms(1,2), of 0 bus, folded s1_def, simplified]
  define s2 where "s2 = gatherPCIDevInfo P bus device 0 s1"
  define s3 where "s3 = (if hdrType (curr_dev s2) AND 0x80 \<noteq> 0 then fold (checkFunction P bus device) [1, 2, 3, 4, 5, 6, 7] s2 else s2)"
  have n: "unat (PCIDevicesCount s) < length (pciDevs s)" "length (listed s) = unat (PCIDevicesCount s)"
    using assms(1) unat_u8 [of "PCIDevicesCount s"] by (simp_all add: wf_def listed_def)
  show ?thesis
  proof (cases "present C bus device 0")
    case False
    then have "s' = s1" using p(1) by (simp add: s'_def checkDevice_def Let_def s1_def [symmetric] present_def)
    then show ?thesis using False r by (simp add: device_functions_def listed_def)
  next
    case True
    have h: "curr_dev s2 = ident C bus device 0" "wf s2" "PCIDevicesCount s2 = PCIDevicesCount s"
        "take (Suc (unat (PCIDevicesCount s2))) (pciDevs s2) = listed s @ [ident C bus device 0]"
      using p(2-4) n(1) by (simp_all add: s2_def take_Suc_update listed_def)
    have s': "s' = s3\<lparr>PCIDevicesCount := PCIDevicesCount s3 + 1\<rparr>"
      using True p(1) by (simp add: s'_def checkDevice_def Let_def s1_def [symmetric] s2_def [symmetric] s3_def present_def)
    define fs where "fs = (if hdrType (ident C bus device 0) AND 0x80 \<noteq> 0 then [1, 2, 3, 4, 5, 6, 7 :: u8] else [])"
    have df: "device_functions C bus device = ident C bus device 0 # map (ident C bus device) (filter (present C bus device) fs)"
      using True by (simp add: device_functions_def fs_def)
    have s3: "s3 = fold (checkFunction P bus device) fs s2" by (simp add: s3_def fs_def h(1))
    have "\<forall>f \<in> set fs. f < 8" by (auto simp: fs_def)
    then have "wf s3 \<and> unat (PCIDevicesCount s3) = unat (PCIDevicesCount s2) + length (filter (present C bus device) fs) \<and>
      take (Suc (unat (PCIDevicesCount s3))) (pciDevs s3) = listed s @ device_functions C bus device"
      using function_loop_appends [OF h(2) assms(2), of fs bus] assms(3) n(2) h(4) unfolding s3 df h(3) by auto
    moreover from this have "unat (PCIDevicesCount s3 + 1) = Suc (unat (PCIDevicesCount s3))"
      using assms(3) n(2) unfolding df h(3) by (simp add: unat_word_ariths)
    ultimately show ?thesis unfolding s' by (auto simp: wf_def listed_def)
  qed
qed

lemma devices_append:
  fixes bus :: u8
  assumes "wf s" "\<forall>d \<in> set ds. d < 32" "length (listed s) + length (concat (map (device_functions C bus) ds)) < 256"
  shows "wf (fold (checkDevice P bus) ds s) \<and>
    listed (fold (checkDevice P bus) ds s) = listed s @ concat (map (device_functions C bus) ds)"
  using assms
proof (induction ds arbitrary: s)
  case (Cons d ds)
  have d: "d < 32" "length (listed s) + length (device_functions C bus d) < 256" using Cons.prems(2,3) by auto
  note c = checkDevice_appends [OF Cons.prems(1) d]
  show ?case using Cons.IH [OF conjunct1 [OF c]] c Cons.prems(2,3) by simp
qed simp

lemma bus_append:
  assumes "wf s" "length (listed s) + length (bus_functions C start bus) < 256"
  shows "wf (bus_devices P start bus s) \<and> listed (bus_devices P start bus s) = listed s @ bus_functions C start bus"
proof -
  have "\<forall>d \<in> set (map of_nat [unat start..<32]). d < (32 :: u8)"
    by (auto simp: word_less_nat_alt unsigned_of_nat take_bit_nat_eq_self)
  then show ?thesis using devices_append [OF assms(1)] assms(2) by (simp add: bus_devices_def bus_functions_def)
qed

lemma buses_append:
  assumes "wf s" "length (listed s) + length (concat (map (\<lambda>b. bus_functions C (start b) (of_nat b)) bs)) < 256"
  shows "wf (fold (\<lambda>b. bus_devices P (start b) (of_nat b)) bs s) \<and>
    listed (fold (\<lambda>b. bus_devices P (start b) (of_nat b)) bs s) =
      listed s @ concat (map (\<lambda>b. bus_functions C (start b) (of_nat b)) bs)"
  using assms
proof (induction bs arbitrary: s)
  case (Cons b bs)
  have "length (listed s) + length (bus_functions C (start b) (of_nat b)) < 256" using Cons.prems(2) by simp
  note c = bus_append [OF Cons.prems(1) this]
  show ?case using Cons.IH [OF conjunct1 [OF c]] c Cons.prems(2) by simp
qed simp

lemma parsePCI_appends:
  assumes "wf s" "PCIDevicesCount s = 0" "length (functions_at C places) < 256"
  shows "listed (parsePCI P start s) = functions_at C (filter (\<lambda>(b, d). unat (start b) \<le> d) places)"
proof -
  have p: "functions_at C (filter (\<lambda>(b, d). unat (start b) \<le> d) places) = probed_functions C start"
    unfolding places_def probed_functions_def by (rule functions_at_filter)
  have "length (probed_functions C start) < 256"
    using functions_at_length [of C "\<lambda>(b, d). unat (start b) \<le> d" places] assms(3) unfolding p by simp
  then show ?thesis unfolding p
    using buses_append [OF assms(1), of start "[0..<256]"] assms(2)
    by (simp add: parsePCI_def probed_functions_def listed_def del: upt_conv_Cons upt_rec_numeral)
qed

end

section \<open>A simulated machine\<close>

text \<open>
  The latch of \<open>CONFIG_ADDRESS\<close> beside a configuration space; an input below the enable bit
  delivers ones.
\<close>

definition sim_pci :: "config \<Rightarrow> u32 ports" where
  "sim_pci C = \<lparr>
     pInByte = \<lambda>p d. (if bit d 31 then C (d + ucast (p - PCI_CONFIG_DATA)) else 0xff, d),
     pInWord = \<lambda>p d. (if bit d 31 then ucast (C (d + ucast (p - PCI_CONFIG_DATA))) OR
         push_bit 8 (ucast (C (d + ucast (p - PCI_CONFIG_DATA) + 1))) else 0xffff, d),
     pInDWord = \<lambda>p d. (0xffffffff, d),
     pOutByte = \<lambda>p v d. d, pOutWord = \<lambda>p v d. d,
     pOutDWord = \<lambda>p v d. if p = PCI_CONFIG_ADDRESS then v else d\<rparr>"

lemma enabled_bit: "a AND 0x80000003 = 0x80000000 \<Longrightarrow> bit (a :: u32) 31"
proof -
  assume "a AND 0x80000003 = 0x80000000"
  then have "bit (a AND 0x80000003) 31 = bit (0x80000000 :: u32) 31" by simp
  then show ?thesis by (simp add: bit_and_iff)
qed

interpretation sim_hw: pci_hw "sim_pci C" C "\<lambda>_. True"
  by unfold_locales (simp_all add: sim_pci_def enabled_bit)

text \<open>
  A host bridge with the multi-function bit and a second function beside it, at bus 0 and device 0;
  no other address answers.
\<close>

definition demo_config :: config where
  "demo_config a = (case map_of [(0x80000000, 0x86), (0x80000001, 0x80), (0x80000002, 0x37), (0x80000003, 0x12),
       (0x80000008, 2), (0x80000009, 0), (0x8000000a, 0), (0x8000000b, 6), (0x8000000e, 0x80),
       (0x80000100, 0x86), (0x80000101, 0x80), (0x80000102, 0), (0x80000103, 0x70),
       (0x80000108, 0), (0x80000109, 0), (0x8000010a, 1), (0x8000010b, 6), (0x8000010e, 0)] a of
     Some v \<Rightarrow> v | None \<Rightarrow> 0xff)"

lemma functions_only:
  assumes "\<And>b dv. (b, dv) \<noteq> (0, 0) \<Longrightarrow> device_functions C b dv = []"
  shows "functions_at C places = device_functions C 0 0"
proof -
  have all: "functions_at C places = probed_functions C (\<lambda>_. 0)"
    using functions_at_filter [of C "\<lambda>_. 0" "[0..<256]"] unfolding places_def probed_functions_def by simp
  have e: "(of_nat k :: u8) \<noteq> 0" if "k \<in> set [1..<256]" for k
    using that by (auto simp: word_unat_eq_iff unsigned_of_nat take_bit_nat_eq_self)
  have "bus_functions C 0 0 = device_functions C 0 0"
    unfolding bus_functions_def using assms e
    by (simp add: upt_conv_Cons [of 0 32] concat_eq_Nil_conv del: upt_rec_numeral)
  moreover have "bus_functions C 0 (of_nat b) = []" if "b \<in> set [1..<256]" for b
    using assms e [OF that] by (simp add: bus_functions_def concat_eq_Nil_conv)
  ultimately show ?thesis
    unfolding all probed_functions_def by (simp add: upt_conv_Cons [of 0 256] concat_eq_Nil_conv del: upt_rec_numeral)
qed

lemma reg_addr_unat:
  "unat (reg_addr b dv f r) = 0x80000000 + 0x10000 * unat b + 0x800 * unat dv + 0x100 * unat f + unat r"
  using unat_u8 [of b] unat_u8 [of dv] unat_u8 [of f] unat_u8 [of r]
  by (simp add: reg_addr_def unat_word_ariths unsigned_ucast_eq take_bit_nat_eq_self)

lemma demo_config_above: "0x80000800 \<le> a \<Longrightarrow> demo_config a = 0xff"
  unfolding demo_config_def by (auto split: option.split dest!: map_of_SomeD)

lemma demo_absent:
  assumes "(b, dv) \<noteq> (0, 0)"
  shows "device_functions demo_config b dv = []"
proof -
  have "1 \<le> unat b \<or> 1 \<le> unat dv" using assms by (auto simp: Suc_le_eq unat_gt_0)
  then have "0x80000800 \<le> unat (reg_addr b dv 0 r)" for r by (auto simp: reg_addr_unat)
  then have "0x80000800 \<le> reg_addr b dv 0 r" for r by (simp add: word_le_nat_alt)
  then have "demo_config (reg_addr b dv 0 r) = 0xff" for r by (rule demo_config_above)
  then show ?thesis by (simp add: device_functions_def present_def ident_def reg16_def reg8_def)
qed

text \<open>
  C12. On hardware that implements configuration mechanism 1 and has fewer than 256 functions, starting with an empty table:
  the enumeration fills \<open>pciDevs\<close> with the identification registers of exactly the functions
  of those devices whose number is at least the value that the uninitialised loop variable \<open>device\<close> happens to have at the
  start of their bus, in the order of bus, device and function, and counts them. If this value is 0 on every bus, these are all the
  functions present.
\<close>

theorem parsePCI_lists_functions:
  assumes "pci_hw P C ready" "ready (pdev s)" "length (pciDevs s) = 256" "PCIDevicesCount s = 0"
    and "length (functions_at C places) < 256"
  shows "listed (parsePCI P start s) = functions_at C (filter (\<lambda>(b, d). unat (start b) \<le> d) places) \<and>
    listed (parsePCI P (\<lambda>_. 0) s) = functions_at C places"
proof -
  have wf: "pci_hw.wf ready s" using assms(2,3) by (simp add: pci_hw.wf_def [OF assms(1)])
  note l = pci_hw.parsePCI_appends [OF assms(1) wf assms(4,5)]
  have "filter (\<lambda>(b, d). unat (0 :: u8) \<le> d) places = places" by simp
  then show ?thesis using l [of start] l [of "\<lambda>_. 0"] by simp
qed

definition demo_pci :: "u32 pci" where
  "demo_pci = \<lparr>pdev = 0, pciDevs = replicate 256 (PCIDevType.make 0 0 0 0 0 0 0), PCIDevicesCount = 0\<rparr>"

lemma demo_functions:
  "functions_at demo_config places =
     [PCIDevType.make 0x1237 0x8086 6 0 0 2 0x80, PCIDevType.make 0x7000 0x8086 6 1 0 0 0]"
proof -
  have "device_functions demo_config 0 0 =
     [PCIDevType.make 0x1237 0x8086 6 0 0 2 0x80, PCIDevType.make 0x7000 0x8086 6 1 0 0 0]"
    by (simp add: device_functions_def present_def ident_def reg16_def reg8_def reg_addr_def demo_config_def PCIDevType.make_def)
  then show ?thesis using functions_only [OF demo_absent] by simp
qed

theorem parsePCI_lists_functions_witness:
  "listed (parsePCI (sim_pci demo_config) (\<lambda>_. 0) demo_pci) =
     [PCIDevType.make 0x1237 0x8086 6 0 0 2 0x80, PCIDevType.make 0x7000 0x8086 6 1 0 0 0]"
  using parsePCI_lists_functions [OF sim_hw.pci_hw_axioms, of demo_pci demo_config "\<lambda>_. 0"]
  by (simp add: demo_functions) (simp add: demo_pci_def)

end
