(* ===== verification/Elf.thy ===== *)
theory Elf
  imports Task
begin

text \<open>
  The ELF loader, \<open>src/src/kernel/elfLoader/elfLoader.cpp\<close> with the structures of \<open>elf.hpp\<close>: the
  checks of the file header and the loop over the program headers, which maps pages from
  \<open>USERSPACE_START_ADDR\<close> on and copies each segment to its virtual address.

  The file lies in kernel memory, which is mapped one to one; stores to the virtual addresses of
  the program go through the page tables, and \<open>None\<close> is a page fault, a stop of the machine or a
  loop that never ends. The counter \<open>pg\<close> of the source is not initialised: its first value is a
  parameter.
\<close>

section \<open>File format\<close>

definition EI_MAG0 :: nat where "EI_MAG0 = 0"
definition EI_MAG1 :: nat where "EI_MAG1 = 1"
definition EI_MAG2 :: nat where "EI_MAG2 = 2"
definition EI_MAG3 :: nat where "EI_MAG3 = 3"
definition EI_CLASS :: nat where "EI_CLASS = 4"
definition EI_DATA :: nat where "EI_DATA = 5"
definition EI_OSABI :: nat where "EI_OSABI = 7"
definition EI_NIDENT :: nat where "EI_NIDENT = 16"
definition ELFCLASS64 :: u8 where "ELFCLASS64 = 2"
definition ELFDATA2LSB :: u8 where "ELFDATA2LSB = 1"
definition ELFOSABI_SYSV :: u8 where "ELFOSABI_SYSV = 0"
definition ET_EXEC :: u16 where "ET_EXEC = 2"
definition PT_NULL :: u32 where "PT_NULL = 0"
definition PT_LOAD :: u32 where "PT_LOAD = 1"
definition PT_TLS :: u32 where "PT_TLS = 7"

record Elf64_Ehdr =
  e_ident :: "u8 list"
  e_type :: u16
  e_machine :: u16
  e_version :: u32
  e_entry :: addr
  e_phoff :: u64
  e_shoff :: u64
  e_flags :: u32
  e_ehsize :: u16
  e_phentsize :: u16
  e_phnum :: u16
  e_shentsize :: u16
  e_shnum :: u16
  e_shstrndx :: u16

record Elf64_Phdr =
  p_type :: u32
  p_flags :: u32
  p_offset :: u64
  p_vaddr :: addr
  p_paddr :: addr
  p_filesz :: u64
  p_memsz :: u64
  p_align :: u64

definition sizeof_Phdr :: u64 where "sizeof_Phdr = 56"

definition get_Ehdr :: "mem \<Rightarrow> addr \<Rightarrow> Elf64_Ehdr" where
  "get_Ehdr m a = \<lparr>e_ident = map (\<lambda>i. m (a + of_nat i)) [0..<EI_NIDENT], e_type = read16 m (a + 16),
     e_machine = read16 m (a + 18), e_version = read32 m (a + 20), e_entry = read64 m (a + 24),
     e_phoff = read64 m (a + 32), e_shoff = read64 m (a + 40), e_flags = read32 m (a + 48),
     e_ehsize = read16 m (a + 52), e_phentsize = read16 m (a + 54), e_phnum = read16 m (a + 56),
     e_shentsize = read16 m (a + 58), e_shnum = read16 m (a + 60), e_shstrndx = read16 m (a + 62)\<rparr>"

definition get_Phdr :: "mem \<Rightarrow> addr \<Rightarrow> Elf64_Phdr" where
  "get_Phdr m a = \<lparr>p_type = read32 m a, p_flags = read32 m (a + 4), p_offset = read64 m (a + 8),
     p_vaddr = read64 m (a + 16), p_paddr = read64 m (a + 24), p_filesz = read64 m (a + 32),
     p_memsz = read64 m (a + 40), p_align = read64 m (a + 48)\<rparr>"

section \<open>Symbol hash\<close>

definition hash_step :: "u64 \<Rightarrow> byte \<Rightarrow> u64" where
  "hash_step h c =
     (let h1 = push_bit 4 h + ucast c;
          g = h1 AND 0xf0000000;
          h2 = (if g \<noteq> 0 then h1 XOR drop_bit 24 g else h1)
      in h2 AND 0x0fffffff)"

partial_function (option) elf64Hash_loop :: "mem \<Rightarrow> addr \<Rightarrow> u64 \<Rightarrow> u64 option" where
  "elf64Hash_loop m name h = (if m name \<noteq> 0 then elf64Hash_loop m (name + 1) (hash_step h (m name)) else Some h)"

definition elf64Hash :: "mem \<Rightarrow> addr \<Rightarrow> u64 option" where
  "elf64Hash m name = elf64Hash_loop m name 0"

section \<open>Program headers\<close>

text \<open>
  The loop that maps pages from \<open>pg\<close> up to \<open>lim\<close>, with the counter of pages; the inner \<open>None\<close> is the
  exit for want of a frame.
\<close>

partial_function (option) load_pages ::
    "addr \<Rightarrow> addr \<Rightarrow> u8 \<Rightarrow> 'a tmgr_scheme \<Rightarrow> ((addr \<times> u8) option \<times> 'a tmgr_scheme) option" where
  "load_pages pg lim pgCount s =
     (if pg < lim
      then let (lastPaddr, s1) = PgMgr_reqPg s
           in if lastPaddr = 0 then Some (None, kpwarn ''No more available pages!'' s1)
              else load_pages (pg + PAGE_SIZE) lim (pgCount + 1) (mapPg pg lastPaddr (PDE_P OR PDE_R OR PDE_U) s1)
      else Some (Some (pg, pgCount), s))"

text \<open>\<open>memcpy\<close> from kernel memory to a virtual address, byte by byte from the first.\<close>

primrec vmemcpy :: "addr \<Rightarrow> addr \<Rightarrow> nat \<Rightarrow> 'a mmu_scheme \<Rightarrow> 'a mmu_scheme option" where
  "vmemcpy destAddr srcAddr 0 s = Some s"
| "vmemcpy destAddr srcAddr (Suc n) s =
     do { s1 \<leftarrow> vwrite destAddr (kmem s srcAddr) s; vmemcpy (destAddr + 1) (srcAddr + 1) n s1 }"

text \<open>
  One turn of the loop over the program headers: the local variables are \<open>lastVaddr\<close>, \<open>pg\<close> and
  \<open>pgCount\<close>. The loop of \<open>PT_TLS\<close> has a \<open>pg\<close> of its own, so that \<open>lastVaddr\<close> is set from the one of
  the last \<open>PT_LOAD\<close>.
\<close>

definition tls_setup :: "addr \<Rightarrow> addr \<Rightarrow> Elf64_Phdr \<Rightarrow> 'a tmgr_scheme \<Rightarrow> 'a tmgr_scheme option" where
  "tls_setup elf task ph s =
     do { let s1 = upd_pcb (PCB (hdrs s task)) (\<lambda>p. p\<lparr>tlsSize := p_memsz ph\<rparr>) s;
          let base = p_vaddr ph + p_memsz ph;
          let s2 = upd_tcb (TCB (hdrs s1 task)) (\<lambda>t. t\<lparr>ctxReg := (ctxReg t)\<lparr>ctx_fs := base\<rparr>\<rparr>) s1;
          s3 \<leftarrow> vwrites base (u64_bytes base) s2;
          (og, s4) \<leftarrow> kpkZalloc (tlsSize (pcb_of s3 task)) s3;
          let s5 = upd_pcb (PCB (hdrs s4 task)) (\<lambda>p. p\<lparr>ogTLS := og\<rparr>) s4;
          Some (s5\<lparr>kmem := snd (memcpy og (elf + p_offset ph) (p_filesz ph) (kmem s5))\<rparr>) }"

definition load_entry ::
    "addr \<Rightarrow> addr \<Rightarrow> Elf64_Phdr \<Rightarrow> addr \<times> addr \<times> u8 \<Rightarrow> 'a tmgr_scheme \<Rightarrow>
      ((addr \<times> addr \<times> u8) option \<times> 'a tmgr_scheme) option" where
  "load_entry elf task ph vars s = (case vars of (lastV, pg, pgCount) \<Rightarrow>
     if p_type ph = PT_NULL then Some (Some vars, s)
     else if p_type ph = PT_LOAD then
       do { (r, s1) \<leftarrow> load_pages lastV (lastV + p_memsz ph) pgCount s;
            case r of None \<Rightarrow> Some (None, s1)
            | Some (pg1, pgCount1) \<Rightarrow>
                do { s2 \<leftarrow> vmemcpy (p_vaddr ph) (elf + p_offset ph) (unat (p_filesz ph)) s1;
                     Some (Some (pg1, pg1, pgCount1), s2) } }
     else if p_type ph = PT_TLS then
       do { (r, s1) \<leftarrow> load_pages lastV (lastV + p_memsz ph) pgCount s;
            case r of None \<Rightarrow> Some (None, s1)
            | Some (pg1, pgCount1) \<Rightarrow>
                do { s2 \<leftarrow> vmemcpy (p_vaddr ph) (elf + p_offset ph) (unat (p_filesz ph)) s1;
                     s3 \<leftarrow> tls_setup elf task ph s2;
                     Some (Some (pg, pg, pgCount1), s3) } }
     else Some (Some vars, kpwarn ''PT not yet supported!'' s))"

primrec phdr_loop ::
    "addr \<Rightarrow> addr \<Rightarrow> addr list \<Rightarrow> addr \<times> addr \<times> u8 \<Rightarrow> 'a tmgr_scheme \<Rightarrow>
      ((addr \<times> addr \<times> u8) option \<times> 'a tmgr_scheme) option" where
  "phdr_loop elf task [] vars s = Some (Some vars, s)"
| "phdr_loop elf task (ph # phs) vars s =
     do { (r, s1) \<leftarrow> load_entry elf task (get_Phdr (kmem s) ph) vars s;
          case r of None \<Rightarrow> Some (None, s1) | Some vars1 \<Rightarrow> phdr_loop elf task phs vars1 s1 }"

text \<open>The addresses of the program headers of the file at \<open>elf\<close>.\<close>

definition phdrs_at :: "mem \<Rightarrow> addr \<Rightarrow> addr list" where
  "phdrs_at m elf = map (\<lambda>i. elf + e_phoff (get_Ehdr m elf) + sizeof_Phdr * of_nat i) [0..<unat (e_phnum (get_Ehdr m elf))]"

definition loadPHDR :: "addr \<Rightarrow> addr \<Rightarrow> addr \<Rightarrow> 'a tmgr_scheme \<Rightarrow> (addr \<times> 'a tmgr_scheme) option" where
  "loadPHDR pg0 elf task s =
     do { (r, s1) \<leftarrow> phdr_loop elf task (phdrs_at (kmem s) elf) (USERSPACE_START_ADDR, pg0, 0) s;
          case r of None \<Rightarrow> Some (0, s1)
          | Some (lastV, pg, pgCount) \<Rightarrow>
              Some (lastV, upd_hdr task (\<lambda>h. h\<lparr>estimate := ucast pgCount\<rparr>) s1) }"

definition loadELF :: "addr \<Rightarrow> addr \<Rightarrow> addr \<Rightarrow> 'a tmgr_scheme \<Rightarrow> (addr \<times> 'a tmgr_scheme) option" where
  "loadELF pg0 elf task s =
     (let ehdr = get_Ehdr (kmem s) elf
      in if e_ident ehdr ! EI_MAG0 \<noteq> 0x7f \<or> e_ident ehdr ! EI_MAG1 \<noteq> 0x45 \<or> e_ident ehdr ! EI_MAG2 \<noteq> 0x4c \<or>
            e_ident ehdr ! EI_MAG3 \<noteq> 0x46
         then Some (0, kpwarn ''Unknown ELF format'' s)
         else if e_ident ehdr ! EI_CLASS \<noteq> ELFCLASS64
         then Some (0, kpwarn ''Unknown ELF Class - only ELF64 supported!'' s)
         else if e_ident ehdr ! EI_DATA \<noteq> ELFDATA2LSB then Some (0, kpwarn ''ELF file not little endian!'' s)
         else if e_ident ehdr ! EI_OSABI \<noteq> ELFOSABI_SYSV then Some (0, kpwarn ''Only SysV ELF ABI supported!'' s)
         else if e_type ehdr \<noteq> ET_EXEC then Some (0, kpwarn ''ELF not executable!'' s)
         else loadPHDR pg0 elf task
                (upd_tcb (TCB (hdrs s task)) (\<lambda>t. t\<lparr>ctxReg := (ctxReg t)\<lparr>ctx_rip := e_entry ehdr\<rparr>\<rparr>) s))"

section \<open>Specification vocabulary\<close>

text \<open>A file header the loader accepts.\<close>

definition elf_header_ok :: "Elf64_Ehdr \<Rightarrow> bool" where
  "elf_header_ok h \<longleftrightarrow> take 6 (e_ident h) = [0x7f, 0x45, 0x4c, 0x46, 2, 1] \<and> e_ident h ! 7 = 0 \<and> e_type h = 2"

text \<open>The number of pages that hold \<open>n\<close> bytes.\<close>

definition pages_of :: "u64 \<Rightarrow> nat" where
  "pages_of n = (unat n + 4095) div 4096"

text \<open>The pages that a list of program headers takes for loadable segments and for thread-local storage.\<close>

fun seg_pages :: "Elf64_Phdr list \<Rightarrow> nat" where
  "seg_pages [] = 0"
| "seg_pages (ph # phs) = (if p_type ph = PT_LOAD then pages_of (p_memsz ph) else 0) + seg_pages phs"

fun tls_pages :: "Elf64_Phdr list \<Rightarrow> nat" where
  "tls_pages [] = 0"
| "tls_pages (ph # phs) = (if p_type ph = PT_TLS then pages_of (p_memsz ph) else 0) + tls_pages phs"

text \<open>
  The layout the loader relies on. Every loadable segment lies in the pages that are mapped for it, which follow those of the
  segments before: from the start of user space on, the segments lie back to back. There is at most one segment of
  thread-local storage, behind all loadable ones, of which there is then at least one; its image is not larger than the
  storage, and the storage and the word behind it, to which the loader writes, lie in mapped pages.
\<close>

fun loads_ok :: "nat \<Rightarrow> Elf64_Phdr list \<Rightarrow> bool" where
  "loads_ok base [] \<longleftrightarrow> base \<le> 2 ^ 47"
| "loads_ok base (ph # phs) \<longleftrightarrow> p_type ph \<noteq> PT_TLS \<and>
     (if p_type ph = PT_LOAD
      then base \<le> unat (p_vaddr ph) \<and> unat (p_vaddr ph) + unat (p_filesz ph) \<le> base + 4096 * pages_of (p_memsz ph) \<and>
           loads_ok (base + 4096 * pages_of (p_memsz ph)) phs
      else loads_ok base phs)"

definition tls_ok :: "nat \<Rightarrow> Elf64_Phdr \<Rightarrow> bool" where
  "tls_ok base t \<longleftrightarrow> 0 < p_memsz t \<and> p_filesz t \<le> p_memsz t \<and> unat USERSPACE_START_ADDR \<le> unat (p_vaddr t) \<and>
     unat (p_vaddr t) + unat (p_memsz t) + 8 \<le> base + 4096 * pages_of (p_memsz t) \<and> base + 4096 * pages_of (p_memsz t) \<le> 2 ^ 47"

definition layout_ok :: "Elf64_Phdr list \<Rightarrow> bool" where
  "layout_ok phs \<longleftrightarrow> (let loads = takeWhile (\<lambda>ph. p_type ph \<noteq> PT_TLS) phs in
     loads_ok (unat USERSPACE_START_ADDR) loads \<and>
     (case dropWhile (\<lambda>ph. p_type ph \<noteq> PT_TLS) phs of [] \<Rightarrow> True
      | t # rest \<Rightarrow> list_ex (\<lambda>ph. p_type ph = PT_LOAD) loads \<and> tls_ok (unat USERSPACE_START_ADDR + 4096 * seg_pages loads) t \<and>
          list_all (\<lambda>ph. p_type ph \<noteq> PT_LOAD \<and> p_type ph \<noteq> PT_TLS) rest))"

text \<open>
  The addresses that the set-up of the thread-local storage writes to: the image of the storage and the word behind the
  storage, which gets its own address and to which \<open>fs\<close> points. The word may lie over bytes of a loadable segment.
\<close>

definition tls_written :: "Elf64_Phdr list \<Rightarrow> addr \<Rightarrow> bool" where
  "tls_written phs w \<longleftrightarrow> list_ex (\<lambda>t. p_type t = PT_TLS \<and> (within (p_vaddr t) (p_filesz t) w \<or> within (p_vaddr t + p_memsz t) 8 w)) phs"

text \<open>
  The storage of the segment \<open>t\<close> is set up for the task: the image at its address, \<open>fs\<close> and the word it points to, and
  a copy of the image, filled up with zeros, for the threads of the process.
\<close>

definition tls_ready :: "mem \<Rightarrow> addr \<Rightarrow> addr \<Rightarrow> Elf64_Phdr \<Rightarrow> 'a tmgr_scheme \<Rightarrow> bool" where
  "tls_ready m elf task t s \<longleftrightarrow> (let base = p_vaddr t + p_memsz t in
     (\<forall>i < unat (p_filesz t). vread s (p_vaddr t + of_nat i) = Some (m (elf + p_offset t + of_nat i))) \<and>
     (\<forall>i < 8. vread s (base + of_nat i) = Some (u64_bytes base ! i)) \<and>
     ctx_fs (ctxReg (tcb_of s task)) = base \<and> tlsSize (pcb_of s task) = p_memsz t \<and>
     (\<forall>i < unat (p_memsz t). kmem s (ogTLS (pcb_of s task) + of_nat i) =
        (if i < unat (p_filesz t) then m (elf + p_offset t + of_nat i) else 0)))"

text \<open>The heap can serve the copy from its top, where there are data pages and not the file.\<close>

definition tls_heap :: "(addr \<Rightarrow> u64 list option) \<Rightarrow> 'a mmu_scheme \<Rightarrow> addr \<Rightarrow> nat \<Rightarrow> Elf64_Phdr \<Rightarrow> bool" where
  "tls_heap own s elf sz t \<longleftrightarrow> p_memsz t < 2 ^ 24 \<and>
     (\<exists>k. size_class (p_memsz t) = Some k \<and> heap_room {k} (unat (p_memsz t) + 32) s) \<and>
     (\<forall>x. within (topChunk s) (p_memsz t + 32) x \<longrightarrow> data_page own s (x div PAGE_SIZE) \<and> (\<forall>j < sz. x \<noteq> elf + of_nat j))"

text \<open>The bytes at a virtual address, in data pages of the current address space.\<close>

definition phdrs_of :: "mem \<Rightarrow> addr \<Rightarrow> Elf64_Phdr list" where
  "phdrs_of m elf = map (get_Phdr m) (phdrs_at m elf)"

definition vholds :: "(addr \<Rightarrow> u64 list option) \<Rightarrow> 'a mmu_scheme \<Rightarrow> addr \<Rightarrow> (nat \<Rightarrow> byte) \<Rightarrow> nat \<Rightarrow> bool" where
  "vholds own s v f n \<longleftrightarrow> (\<forall>i < n. \<exists>p. translate s (v + of_nat i) = Some p \<and> data_page own s (p div PAGE_SIZE) \<and> kmem s p = f i)"

section \<open>Hash of a symbol name\<close>

lemma elf64Hash_loop_fold: "cstr m a cs \<Longrightarrow> elf64Hash_loop m a h = Some (foldl hash_step h cs)"
  by (induction cs arbitrary: a h) (simp_all add: elf64Hash_loop.simps)

text \<open>The hash of a string is computed in finitely many steps and has 28 bits.\<close>

lemma elf64Hash_string:
  assumes "cstr m a cs"
  shows "elf64Hash m a = Some (foldl hash_step 0 cs)" "foldl hash_step 0 cs \<le> 0x0fffffff"
proof -
  show "elf64Hash m a = Some (foldl hash_step 0 cs)" using elf64Hash_loop_fold [OF assms] by (simp add: elf64Hash_def)
  show "foldl hash_step 0 cs \<le> 0x0fffffff"
    by (cases cs rule: rev_cases) (simp_all add: hash_step_def Let_def word_and_le1)
qed

section \<open>Pages of virtual addresses\<close>

lemma same_page_iff:
  assumes "unat (w :: u64) < 2 ^ 48" "unat (v :: u64) < 2 ^ 48"
  shows "take_bit 36 (drop_bit 12 w) = take_bit 36 (drop_bit 12 v) \<longleftrightarrow> unat w div 4096 = unat v div 4096"
proof -
  have "unat (take_bit 36 (drop_bit 12 x)) = unat x div 4096" if "unat x < 2 ^ 48" for x :: u64
    using that by (simp add: unsigned_take_bit_eq unat_drop_bit_eq drop_bit_eq_div unat_div take_bit_nat_eq_self)
  then show ?thesis using assms by (metis unsigned_word_eqI)
qed

lemma frame_or:
  assumes "j < 2 ^ 40"
  shows "(getPgAddr (j * PAGE_SIZE) OR (w AND 0xfff)) div PAGE_SIZE = j"
    "unat (getPgAddr (j * PAGE_SIZE) OR (w AND 0xfff)) mod 4096 = unat w mod 4096"
proof -
  have j: "unat j < 2 ^ 40" using assms by (simp add: word_less_nat_alt)
  have w: "(w AND 0xfff) = take_bit 12 w" by (simp add: take_bit_eq_mask mask_eq_exp_minus_1)
  have "j * PAGE_SIZE + take_bit 12 w = j * PAGE_SIZE OR take_bit 12 w"
  proof (rule disjunctive_add)
    fix n
    have "j * PAGE_SIZE = push_bit 12 j" by (simp add: PAGE_SIZE_def push_bit_eq_mult)
    then show "\<not> bit (j * PAGE_SIZE) n \<or> \<not> bit (take_bit 12 w) n" by (auto simp: bit_simps)
  qed
  then have p: "(getPgAddr (j * PAGE_SIZE) OR (w AND 0xfff)) = j * PAGE_SIZE + take_bit 12 w"
    using getPgAddr_frame [OF assms] w by simp
  have t: "unat (take_bit 12 w) = unat w mod 4096" by (simp add: unsigned_take_bit_eq take_bit_eq_mod unat_mod)
  have m: "unat (j * PAGE_SIZE) = 4096 * unat j" using j by (simp add: PAGE_SIZE_def unat_word_ariths)
  have lt: "unat w mod 4096 < 4096" by simp
  have "4096 * unat j + unat w mod 4096 < 2 ^ 64" using j lt by simp
  then have u: "unat (j * PAGE_SIZE + take_bit 12 w) = 4096 * unat j + unat w mod 4096"
    using m t by (simp add: unat_word_ariths)
  show "(getPgAddr (j * PAGE_SIZE) OR (w AND 0xfff)) div PAGE_SIZE = j"
    unfolding p by (simp only: word_unat_eq_iff unat_div u) (simp add: PAGE_SIZE_def)
  show "unat (getPgAddr (j * PAGE_SIZE) OR (w AND 0xfff)) mod 4096 = unat w mod 4096"
    unfolding p u by simp
qed

section \<open>Mapping the pages of a segment\<close>

text \<open>
  \<open>fresh_map own s own' s' lo hi\<close>: the virtual pages from \<open>lo\<close> up to \<open>hi\<close> lie in data pages of \<open>s'\<close>
  that were none in \<open>s\<close>, no two addresses in the same place, and every other address keeps its
  translation.
\<close>

definition fresh_map ::
    "(addr \<Rightarrow> u64 list option) \<Rightarrow> 'a mmu_scheme \<Rightarrow> (addr \<Rightarrow> u64 list option) \<Rightarrow> 'a mmu_scheme \<Rightarrow> nat \<Rightarrow> nat \<Rightarrow> bool" where
  "fresh_map own s own' s' lo hi \<longleftrightarrow>
     (\<forall>w. lo \<le> unat w \<and> unat w < hi \<longrightarrow> (\<exists>p. translate s' w = Some p \<and> data_page own' s' (p div PAGE_SIZE) \<and>
        \<not> data_page own s (p div PAGE_SIZE) \<and> unat p mod 4096 = unat w mod 4096)) \<and>
     (\<forall>w w'. lo \<le> unat w \<and> unat w < hi \<and> lo \<le> unat w' \<and> unat w' < hi \<and> translate s' w = translate s' w' \<longrightarrow> w = w') \<and>
     (\<forall>w. unat w < 2 ^ 48 \<and> \<not> (lo \<le> unat w \<and> unat w < hi) \<longrightarrow> translate s' w = translate s w)"

lemma fresh_map_refl: "fresh_map own s own s lo lo"
  by (auto simp: fresh_map_def)

lemma fresh_map_cons:
  assumes one: "map_inv_own own1 s1" "extends own s own1 s1" "data_page own1 s1 j" "\<not> data_page own s j" "j < 2 ^ 40"
    and tr: "\<And>w. translate s1 w = (if take_bit 36 (drop_bit 12 w) = take_bit 36 (drop_bit 12 v)
       then Some (getPgAddr (j * PAGE_SIZE) OR (w AND 0xfff)) else translate s w)"
    and rest: "extends own1 s1 own' s'" "fresh_map own1 s1 own' s' (unat v + 4096) hi"
    and v: "unat v mod 4096 = 0" "unat v + 4096 \<le> hi" "hi \<le> 2 ^ 47"
  shows "fresh_map own s own' s' (unat v) hi"
proof -
  have pg: "unat w div 4096 = unat v div 4096 \<longleftrightarrow> unat v \<le> unat w \<and> unat w < unat v + 4096" for w :: u64
    using v(1) by auto
  have tr1: "translate s1 w = (if unat v \<le> unat w \<and> unat w < unat v + 4096
       then Some (getPgAddr (j * PAGE_SIZE) OR (w AND 0xfff)) else translate s w)" if "unat w < 2 ^ 48" for w
    using tr [of w] same_page_iff [of w v] pg [of w] that v(2,3) by simp
  have first: "translate s' w = Some (getPgAddr (j * PAGE_SIZE) OR (w AND 0xfff))"
    if "unat v \<le> unat w" "unat w < unat v + 4096" for w
    using that rest(2) tr1 [of w] v(2,3) by (simp add: fresh_map_def)
  note fo = frame_or [OF one(5)]
  have dj: "data_page own' s' j"
    using rest(1) one(3) fo(1) [of 0] unfolding extends_def by metis
  have new: "\<exists>p. translate s' w = Some p \<and> data_page own' s' (p div PAGE_SIZE) \<and>
        \<not> data_page own1 s1 (p div PAGE_SIZE) \<and> unat p mod 4096 = unat w mod 4096"
    if "unat v + 4096 \<le> unat w" "unat w < hi" for w
    using rest(2) that by (simp add: fresh_map_def)
  have old: "\<not> data_page own s (p div PAGE_SIZE)" if "\<not> data_page own1 s1 (p div PAGE_SIZE)" for p
    using that one(2) by (auto simp: extends_def)
  show ?thesis
    unfolding fresh_map_def
  proof (intro conjI allI impI)
    fix w :: u64 assume w: "unat v \<le> unat w \<and> unat w < hi"
    show "\<exists>p. translate s' w = Some p \<and> data_page own' s' (p div PAGE_SIZE) \<and>
        \<not> data_page own s (p div PAGE_SIZE) \<and> unat p mod 4096 = unat w mod 4096"
    proof (cases "unat w < unat v + 4096")
      case True
      then show ?thesis using first [of w] w fo [of w] dj one(4) by simp
    next
      case False
      then show ?thesis using new [of w] w old by (metis not_less)
    qed
  next
    fix w w' :: u64 assume w: "unat v \<le> unat w \<and> unat w < hi \<and> unat v \<le> unat w' \<and> unat w' < hi \<and> translate s' w = translate s' w'"
    have apart: False if x: "unat v \<le> unat x" "unat x < unat v + 4096" and y: "unat v + 4096 \<le> unat y" "unat y < hi"
        and t: "translate s' x = translate s' y" for x y
      using first [OF x] new [OF y] t fo(1) [of x] one(3) by auto
    show "w = w'"
    proof (cases "unat w < unat v + 4096 \<or> unat w' < unat v + 4096")
      case True
      then have b: "unat w < unat v + 4096" "unat w' < unat v + 4096"
        using apart [of w w'] apart [of w' w] w by (metis not_less)+
      then have "getPgAddr (j * PAGE_SIZE) OR (w AND 0xfff) = getPgAddr (j * PAGE_SIZE) OR (w' AND 0xfff)"
        using w first [of w] first [of w'] by simp
      then have "unat w mod 4096 = unat w' mod 4096" using fo(2) [of w] fo(2) [of w'] by metis
      moreover have "unat w div 4096 = unat w' div 4096" using pg [of w] pg [of w'] w b by simp
      ultimately have "unat w = unat w'" by (metis div_mult_mod_eq)
      then show ?thesis by (simp add: word_unat_eq_iff)
    next
      case False
      then show ?thesis using rest(2) w by (simp add: fresh_map_def)
    qed
  next
    fix w :: u64 assume w: "unat w < 2 ^ 48 \<and> \<not> (unat v \<le> unat w \<and> unat w < hi)"
    then have n: "\<not> (unat v \<le> unat w \<and> unat w < unat v + 4096)" "\<not> (unat v + 4096 \<le> unat w \<and> unat w < hi)"
      using v(2) by auto
    have "translate s' w = translate s1 w" using rest(2) w n(2) unfolding fresh_map_def by blast
    also have "\<dots> = translate s w" using tr1 [of w] w n(1) by simp
    finally show "translate s' w = translate s w" .
  qed
qed

lemma load_flags: "bit (PDE_P OR PDE_R OR PDE_U) 0" "bit (PDE_P OR PDE_R OR PDE_U) 1" "(PDE_P OR PDE_R OR PDE_U) < 4096"
  by (simp_all add: PDE_P_def PDE_R_def PDE_U_def)

lemma reqPg_heap: "topChunk (snd (reqPg s)) = topChunk s" "bucket (snd (reqPg s)) = bucket s"
proof -
  have "topChunk (snd (reqPg_loop lim s)) = topChunk s \<and> bucket (snd (reqPg_loop lim s)) = bucket s" for lim
    by (induction lim s rule: reqPg_loop.induct) (subst reqPg_loop.simps, subst (2) reqPg_loop.simps, auto simp: Let_def allocPg_def split: prod.split)
  then show "topChunk (snd (reqPg s)) = topChunk s" "bucket (snd (reqPg s)) = bucket s" by (simp_all add: reqPg_def)
qed

lemma walkLevel_heap: "topChunk (walkLevel ea f s) = topChunk s" "bucket (walkLevel ea f s) = bucket s"
  using reqPg_heap [of s] by (cases "reqPg s"; simp add: walkLevel_def)+

lemma mapPg_heap: "topChunk (mapPg v p f s) = topChunk s" "bucket (mapPg v p f s) = bucket s"
  by (simp_all add: mapPg_def Let_def walkLevel_heap)

lemma load_pages_maps:
  fixes s :: "'a tmgr_scheme"
  assumes "map_inv_own own s" "4 * n + k \<le> pg_free_frames s" "unat v mod 4096 = 0" "unat v + 4096 * n \<le> 2 ^ 47"
    and "unat lim \<le> unat v + 4096 * n" "unat v + 4096 * n < unat lim + 4096"
  shows "\<exists>own' s'. load_pages v lim c s = Some (Some (v + of_nat (4096 * n), c + of_nat n), s') \<and> map_inv_own own' s' \<and>
    extends own s own' s' \<and> k \<le> pg_free_frames s' \<and> fresh_map own s own' s' (unat v) (unat v + 4096 * n) \<and>
    topChunk s' = topChunk s \<and> bucket s' = bucket s"
  using assms
proof (induction n arbitrary: own s v c)
  case 0
  then have "\<not> v < lim" by (simp add: word_less_nat_alt)
  then have "load_pages v lim c s = Some (Some (v, c), s)" by (simp add: load_pages.simps [of v])
  then show ?case using 0 by (intro exI [of _ own] exI [of _ s]) (simp add: fresh_map_refl)
next
  case (Suc n)
  have lt: "v < lim" using Suc.prems(6) by (simp add: word_less_nat_alt)
  have "Suc (3 + (4 * n + k)) \<le> pg_free_frames s" using Suc.prems(2) by simp
  then obtain j s1 where r: "reqPg s = (j * PAGE_SIZE, s1)" "0 < j" "j < 2 ^ 40" "map_inv_own own s1" "extends own s own s1"
      "3 + (4 * n + k) \<le> pg_free_frames s1" "data_page own s1 j" "\<not> data_page own s j" "\<And>w. translate s1 w = translate s w"
    using reqPg_step [OF Suc.prems(1)] by blast
  define s2 where "s2 = mapPg v (j * PAGE_SIZE) (PDE_P OR PDE_R OR PDE_U) s1"
  obtain own2 where m: "map_inv_own own2 s2" "extends own s1 own2 s2" "4 * n + k \<le> pg_free_frames s2"
      "\<And>w. translate s2 w = (if take_bit 36 (drop_bit 12 w) = take_bit 36 (drop_bit 12 v)
       then Some (getPgAddr (j * PAGE_SIZE) OR (w AND 0xfff)) else translate s1 w)"
    using mapPg_step [OF r(4,6) load_flags, of v "j * PAGE_SIZE"] unfolding s2_def by blast
  have nz: "j * PAGE_SIZE \<noteq> 0"
  proof
    assume "j * PAGE_SIZE = 0"
    then have "unat (j * PAGE_SIZE) = 0" by simp
    moreover have "unat (j * PAGE_SIZE) = 4096 * unat j"
      using r(3) by (simp add: PAGE_SIZE_def unat_word_ariths word_less_nat_alt)
    ultimately show False using r(2) by (simp add: word_less_nat_alt)
  qed
  have v1: "unat (v + PAGE_SIZE) = unat v + 4096"
    using Suc.prems(4) by (simp add: PAGE_SIZE_def unat_word_ariths)
  have step: "load_pages v lim c s = load_pages (v + PAGE_SIZE) lim (c + 1) s2"
    using lt r(1) nz by (simp add: load_pages.simps [of v] PgMgr_reqPg_def s2_def)
  obtain own' s' where i: "load_pages (v + PAGE_SIZE) lim (c + 1) s2 =
        Some (Some (v + PAGE_SIZE + of_nat (4096 * n), c + 1 + of_nat n), s')"
      "map_inv_own own' s'" "extends own2 s2 own' s'" "k \<le> pg_free_frames s'"
      "fresh_map own2 s2 own' s' (unat (v + PAGE_SIZE)) (unat (v + PAGE_SIZE) + 4096 * n)" "topChunk s' = topChunk s2" "bucket s' = bucket s2"
    using Suc.IH [OF m(1,3), of "v + PAGE_SIZE" "c + 1"] Suc.prems(3-6) v1 by auto
  have e: "v + PAGE_SIZE + of_nat (4096 * n) = v + of_nat (4096 * Suc n)" "c + 1 + of_nat n = c + of_nat (Suc n)"
    by (simp_all add: PAGE_SIZE_def algebra_simps)
  have x: "extends own s own2 s2" by (rule extends_trans [OF r(5) m(2)])
  have d2: "data_page own2 s2 j"
    using m(2) r(7) frame_or(1) [OF r(3), of 0] unfolding extends_def by metis
  have "fresh_map own s own' s' (unat v) (unat v + 4096 * Suc n)"
    by (rule fresh_map_cons [OF m(1) x d2 r(8,3) _ i(3)]) (use m(4) r(9) i(5) v1 Suc.prems(3,4) in \<open>simp_all add: ac_simps\<close>)
  moreover have "load_pages v lim c s = Some (Some (v + of_nat (4096 * Suc n), c + of_nat (Suc n)), s')"
    using step i(1) unfolding e by simp
  moreover have "topChunk s' = topChunk s" "bucket s' = bucket s"
    using i(6,7) reqPg_heap [of s] r(1) by (simp_all add: s2_def mapPg_heap)
  ultimately show ?case
    using i(2,4) extends_trans [OF x i(3)] by (intro exI [of _ own'] exI [of _ s']) (simp only: simp_thms)
qed

section \<open>Copying to virtual addresses\<close>

lemma vmemcpy_writes:
  fixes s :: "'a mmu_scheme"
  assumes "map_inv_own own s"
    and "\<And>i. i < n \<Longrightarrow> \<exists>p. translate s (v + of_nat i) = Some p \<and> data_page own s (p div PAGE_SIZE)"
    and "\<And>i k. i < n \<Longrightarrow> k < n \<Longrightarrow> translate s (v + of_nat i) = translate s (v + of_nat k) \<Longrightarrow> i = k"
    and "\<And>i k. i < n \<Longrightarrow> k < n \<Longrightarrow> translate s (v + of_nat i) \<noteq> Some (src + of_nat k)"
  shows "\<exists>m. vmemcpy v src n s = Some (s\<lparr>kmem := m\<rparr>) \<and>
    (\<forall>i < n. \<forall>p. translate s (v + of_nat i) = Some p \<longrightarrow> m p = kmem s (src + of_nat i)) \<and>
    (\<forall>x. (\<forall>i < n. translate s (v + of_nat i) \<noteq> Some x) \<longrightarrow> m x = kmem s x)"
  using assms
proof (induction n arbitrary: v src s)
  case 0
  show ?case by (intro exI [of _ "kmem s"]) simp
next
  case (Suc n)
  obtain p where p: "translate s v = Some p" "data_page own s (p div PAGE_SIZE)" using Suc.prems(2) [of 0] by auto
  define m0 where "m0 = (kmem s)(p := kmem s src)"
  let ?s = "s\<lparr>kmem := m0\<rparr>"
  have w: "\<not> data_page own s (x div PAGE_SIZE) \<Longrightarrow> m0 x = kmem s x" for x using p(2) by (auto simp: m0_def)
  have d: "map_inv_own own ?s" "\<And>w. translate ?s w = translate s w" "\<And>pg. data_page own ?s pg = data_page own s pg"
    by (rule data_write [OF Suc.prems(1)], erule w)+
  have sh: "v + 1 + of_nat i = v + of_nat (Suc i)" "src + 1 + of_nat i = src + of_nat (Suc i)" for i by simp_all
  have "\<exists>m. vmemcpy (v + 1) (src + 1) n ?s = Some (?s\<lparr>kmem := m\<rparr>) \<and>
    (\<forall>i < n. \<forall>q. translate ?s (v + 1 + of_nat i) = Some q \<longrightarrow> m q = kmem ?s (src + 1 + of_nat i)) \<and>
    (\<forall>x. (\<forall>i < n. translate ?s (v + 1 + of_nat i) \<noteq> Some x) \<longrightarrow> m x = kmem ?s x)"
  proof (rule Suc.IH)
    show "map_inv_own own ?s" by (rule d(1))
    show "\<exists>q. translate ?s (v + 1 + of_nat i) = Some q \<and> data_page own ?s (q div PAGE_SIZE)" if "i < n" for i
      using Suc.prems(2) [of "Suc i"] that unfolding sh d(2,3) by simp
    show "i = k" if "i < n" "k < n" "translate ?s (v + 1 + of_nat i) = translate ?s (v + 1 + of_nat k)" for i k
      using Suc.prems(3) [of "Suc i" "Suc k"] that unfolding sh d(2) by simp
    show "translate ?s (v + 1 + of_nat i) \<noteq> Some (src + 1 + of_nat k)" if "i < n" "k < n" for i k
      using Suc.prems(4) [of "Suc i" "Suc k"] that unfolding sh d(2) by simp
  qed
  then obtain m where m: "vmemcpy (v + 1) (src + 1) n ?s = Some (?s\<lparr>kmem := m\<rparr>)"
    "\<And>i q. i < n \<Longrightarrow> translate s (v + of_nat (Suc i)) = Some q \<Longrightarrow> m q = kmem ?s (src + of_nat (Suc i))"
    "\<And>x. (\<forall>i < n. translate s (v + of_nat (Suc i)) \<noteq> Some x) \<Longrightarrow> m x = kmem ?s x"
    unfolding d(2) sh by blast
  have "vmemcpy v src (Suc n) s = Some (s\<lparr>kmem := m\<rparr>)" using m(1) p(1) by (simp add: vwrite_def m0_def)
  moreover have "m q = kmem s (src + of_nat i)" if i: "i < Suc n" and q: "translate s (v + of_nat i) = Some q" for i q
  proof (cases i)
    case 0
    then have "q = p" using q p(1) by simp
    have "\<forall>k < n. translate s (v + of_nat (Suc k)) \<noteq> Some p"
      using Suc.prems(3) [of 0] p(1) by fastforce
    then show ?thesis using m(3) [of p] 0 \<open>q = p\<close> by (simp add: m0_def)
  next
    case (Suc k)
    have "src + of_nat i \<noteq> p" using Suc.prems(4) [of 0 i] p(1) i by auto
    then show ?thesis using m(2) [of k q] q i Suc by (simp add: m0_def)
  qed
  moreover have "m x = kmem s x" if "\<forall>i < Suc n. translate s (v + of_nat i) \<noteq> Some x" for x
  proof -
    have "x \<noteq> p" using that p(1) by fastforce
    moreover have "\<forall>i < n. translate s (v + of_nat (Suc i)) \<noteq> Some x" using that by (metis Suc_less_eq)
    ultimately show ?thesis using m(3) [of x] by (simp add: m0_def)
  qed
  ultimately show ?case by blast
qed

lemma vwrites_writes:
  fixes s :: "'a mmu_scheme"
  assumes "map_inv_own own s"
    and "\<And>i. i < length bs \<Longrightarrow> \<exists>p. translate s (v + of_nat i) = Some p \<and> data_page own s (p div PAGE_SIZE)"
    and "\<And>i k. i < length bs \<Longrightarrow> k < length bs \<Longrightarrow> translate s (v + of_nat i) = translate s (v + of_nat k) \<Longrightarrow> i = k"
  shows "\<exists>m. vwrites v bs s = Some (s\<lparr>kmem := m\<rparr>) \<and>
    (\<forall>i < length bs. \<forall>p. translate s (v + of_nat i) = Some p \<longrightarrow> m p = bs ! i) \<and>
    (\<forall>x. (\<forall>i < length bs. translate s (v + of_nat i) \<noteq> Some x) \<longrightarrow> m x = kmem s x)"
  using assms
proof (induction bs arbitrary: v s)
  case Nil
  show ?case by (intro exI [of _ "kmem s"]) simp
next
  case (Cons b bs)
  obtain p where p: "translate s v = Some p" "data_page own s (p div PAGE_SIZE)" using Cons.prems(2) [of 0] by auto
  let ?s = "s\<lparr>kmem := (kmem s)(p := b)\<rparr>"
  have w: "\<not> data_page own s (x div PAGE_SIZE) \<Longrightarrow> ((kmem s)(p := b)) x = kmem s x" for x using p(2) by auto
  have d: "map_inv_own own ?s" "\<And>w. translate ?s w = translate s w" "\<And>pg. data_page own ?s pg = data_page own s pg"
    by (rule data_write [OF Cons.prems(1)], erule w)+
  have sh: "v + 1 + of_nat i = v + of_nat (Suc i)" for i by simp
  have inj: "i = k" if "i < length bs" "k < length bs" "translate ?s (v + 1 + of_nat i) = translate ?s (v + 1 + of_nat k)" for i k
    using Cons.prems(3) [of "Suc i" "Suc k"] that unfolding sh d(2) by simp
  have tr: "\<exists>q. translate ?s (v + 1 + of_nat i) = Some q \<and> data_page own ?s (q div PAGE_SIZE)" if "i < length bs" for i
    using Cons.prems(2) [of "Suc i"] that unfolding sh d(2,3) by simp
  from Cons.IH [OF d(1) tr inj] obtain m where m: "vwrites (v + 1) bs ?s = Some (?s\<lparr>kmem := m\<rparr>)"
      "\<And>i q. i < length bs \<Longrightarrow> translate s (v + of_nat (Suc i)) = Some q \<Longrightarrow> m q = bs ! i"
      "\<And>x. (\<forall>i < length bs. translate s (v + of_nat (Suc i)) \<noteq> Some x) \<Longrightarrow> m x = kmem ?s x"
    unfolding d(2) sh by blast
  have "vwrites v (b # bs) s = Some (s\<lparr>kmem := m\<rparr>)" using m(1) p(1) by (simp add: vwrite_def)
  moreover have "m q = (b # bs) ! i" if i: "i < length (b # bs)" and q: "translate s (v + of_nat i) = Some q" for i q
  proof (cases i)
    case 0
    have "\<forall>k < length bs. translate s (v + of_nat (Suc k)) \<noteq> Some p" using Cons.prems(3) [of 0] p(1) by fastforce
    then show ?thesis using m(3) [of p] 0 q p(1) by simp
  next
    case (Suc k)
    then show ?thesis using m(2) [of k q] q i by simp
  qed
  moreover have "m x = kmem s x" if "\<forall>i < length (b # bs). translate s (v + of_nat i) \<noteq> Some x" for x
  proof -
    have "x \<noteq> p" using that p(1) by fastforce
    moreover have "\<forall>i < length bs. translate s (v + of_nat (Suc i)) \<noteq> Some x" using that by (metis Suc_less_eq length_Cons)
    ultimately show ?thesis using m(3) [of x] by simp
  qed
  ultimately show ?case by blast
qed

section \<open>Loading segments\<close>

lemma pages_of_bounds: "unat n \<le> 4096 * pages_of n" "4096 * pages_of n < unat n + 4096"
  unfolding pages_of_def by linarith+

text \<open>
  A step of the loader from \<open>s\<close> to \<open>s'\<close> that takes the virtual pages from \<open>lo\<close> up to \<open>hi\<close>: data pages,
  other translations and the heap are kept.
\<close>

definition seg_step ::
    "(addr \<Rightarrow> u64 list option) \<Rightarrow> 'a mmu_scheme \<Rightarrow> (addr \<Rightarrow> u64 list option) \<Rightarrow> 'a mmu_scheme \<Rightarrow> nat \<Rightarrow> nat \<Rightarrow> bool" where
  "seg_step own s own' s' lo hi \<longleftrightarrow> map_inv_own own' s' \<and> extends own s own' s' \<and> fresh_map own s own' s' lo hi \<and>
     topChunk s' = topChunk s \<and> bucket s' = bucket s"

lemma seg_step_refl: "map_inv_own own s \<Longrightarrow> seg_step own s own s lo lo"
  by (simp add: seg_step_def fresh_map_refl)

lemma fresh_map_trans:
  assumes "fresh_map own s own1 s1 lo mid" "fresh_map own1 s1 own2 s2 mid hi" "extends own s own1 s1" "extends own1 s1 own2 s2"
    and "lo \<le> mid" "mid \<le> hi" "mid \<le> 2 ^ 48"
  shows "fresh_map own s own2 s2 lo hi"
proof -
  have low: "\<exists>p. translate s2 w = Some p \<and> data_page own2 s2 (p div PAGE_SIZE) \<and> data_page own1 s1 (p div PAGE_SIZE) \<and>
      \<not> data_page own s (p div PAGE_SIZE) \<and> unat p mod 4096 = unat w mod 4096 \<and> translate s1 w = Some p"
    if w: "lo \<le> unat w" "unat w < mid" for w
  proof -
    obtain p where p: "translate s1 w = Some p" "data_page own1 s1 (p div PAGE_SIZE)" "\<not> data_page own s (p div PAGE_SIZE)"
        "unat p mod 4096 = unat w mod 4096" using assms(1) w unfolding fresh_map_def by blast
    have "translate s2 w = translate s1 w" using assms(2,7) w unfolding fresh_map_def by simp
    then show ?thesis using p assms(4) unfolding extends_def by auto
  qed
  have high: "\<exists>p. translate s2 w = Some p \<and> data_page own2 s2 (p div PAGE_SIZE) \<and> \<not> data_page own1 s1 (p div PAGE_SIZE) \<and>
      \<not> data_page own s (p div PAGE_SIZE) \<and> unat p mod 4096 = unat w mod 4096"
    if "mid \<le> unat w" "unat w < hi" for w
    using assms(2,3) that unfolding fresh_map_def extends_def by blast
  show ?thesis
    unfolding fresh_map_def
  proof (intro conjI allI impI)
    fix w :: u64 assume "lo \<le> unat w \<and> unat w < hi"
    then show "\<exists>p. translate s2 w = Some p \<and> data_page own2 s2 (p div PAGE_SIZE) \<and> \<not> data_page own s (p div PAGE_SIZE) \<and>
        unat p mod 4096 = unat w mod 4096" using low [of w] high [of w] by (metis not_less)
  next
    fix w w' :: u64 assume w: "lo \<le> unat w \<and> unat w < hi \<and> lo \<le> unat w' \<and> unat w' < hi \<and> translate s2 w = translate s2 w'"
    have mix: False if "lo \<le> unat x" "unat x < mid" "mid \<le> unat y" "unat y < hi" "translate s2 x = translate s2 y" for x y
      using low [OF that(1,2)] high [OF that(3,4)] that(5) by auto
    show "w = w'"
    proof (cases "unat w < mid \<and> unat w' < mid")
      case True
      then have "translate s1 w = translate s1 w'" using w low [of w] low [of w'] by auto
      then show ?thesis using assms(1) True w unfolding fresh_map_def by blast
    next
      case False
      then have "mid \<le> unat w" "mid \<le> unat w'" using w mix [of w w'] mix [of w' w] by (metis not_less)+
      then show ?thesis using assms(2) w unfolding fresh_map_def by blast
    qed
  next
    fix w :: u64 assume w: "unat w < 2 ^ 48 \<and> \<not> (lo \<le> unat w \<and> unat w < hi)"
    then have "\<not> (lo \<le> unat w \<and> unat w < mid)" "\<not> (mid \<le> unat w \<and> unat w < hi)" using assms(5,6) by auto
    then show "translate s2 w = translate s w" using assms(1,2) w unfolding fresh_map_def by metis
  qed
qed

lemma seg_step_trans:
  assumes "seg_step own s own1 s1 lo mid" "seg_step own1 s1 own2 s2 mid hi" "lo \<le> mid" "mid \<le> hi" "mid \<le> 2 ^ 48"
  shows "seg_step own s own2 s2 lo hi"
  using assms extends_trans fresh_map_trans unfolding seg_step_def by (metis (no_types, lifting))

lemma vholds_kept:
  assumes "vholds own s v f n" "seg_step own s own' s' lo hi" "unat v + n \<le> lo" "lo \<le> 2 ^ 48"
  shows "vholds own' s' v f n"
  unfolding vholds_def
proof (intro allI impI)
  fix i assume i: "i < n"
  then obtain p where p: "translate s (v + of_nat i) = Some p" "data_page own s (p div PAGE_SIZE)" "kmem s p = f i"
    using assms(1) by (auto simp: vholds_def)
  have "unat (v + of_nat i) = unat v + i"
    using i assms(3,4) by (simp add: unat_word_ariths unsigned_of_nat take_bit_nat_eq_self)
  then have "translate s' (v + of_nat i) = Some p" using p(1) assms(2-4) i by (simp add: seg_step_def fresh_map_def)
  moreover have "data_page own' s' (p div PAGE_SIZE)" "kmem s' p = f i"
    using p(2,3) assms(2) by (auto simp: seg_step_def extends_def)
  ultimately show "\<exists>p. translate s' (v + of_nat i) = Some p \<and> data_page own' s' (p div PAGE_SIZE) \<and> kmem s' p = f i" by blast
qed

text \<open>A store to the virtual addresses from \<open>v\<close> on, inside the pages taken so far: no other address reads differently.\<close>

lemma space_write:
  fixes s s1 :: "'a mmu_scheme"
  assumes seg: "seg_step own s own1 s1 lo hi" "hi \<le> 2 ^ 47" and v: "lo \<le> unat v" "unat v + N \<le> hi"
    and m: "\<forall>i < N. \<forall>p. translate s1 (v + of_nat i) = Some p \<longrightarrow> m p = f i"
      "\<forall>x. (\<forall>i < N. translate s1 (v + of_nat i) \<noteq> Some x) \<longrightarrow> m x = kmem s1 x"
  shows "seg_step own s own1 (s1\<lparr>kmem := m\<rparr>) lo hi" "pg_free_frames (s1\<lparr>kmem := m\<rparr>) = pg_free_frames s1"
    "lo \<le> unat w \<Longrightarrow> unat w < hi \<Longrightarrow> vread (s1\<lparr>kmem := m\<rparr>) w =
      (if unat v \<le> unat w \<and> unat w < unat v + N then Some (f (unat w - unat v)) else vread s1 w)"
    "translate (s1\<lparr>kmem := m\<rparr>) w = translate s1 w" "data_page own1 (s1\<lparr>kmem := m\<rparr>) pg = data_page own1 s1 pg"
proof -
  note S = seg(1) [unfolded seg_step_def]
  have va: "unat (v + of_nat i) = unat v + i" if "i < N" for i
    using that v(2) seg(2) by (simp add: unat_word_ariths unsigned_of_nat take_bit_nat_eq_self)
  have tr: "\<exists>p. translate s1 x = Some p \<and> data_page own1 s1 (p div PAGE_SIZE) \<and> \<not> data_page own s (p div PAGE_SIZE)"
    if "lo \<le> unat x" "unat x < hi" for x using S that unfolding fresh_map_def by blast
  have tv: "\<exists>p. translate s1 (v + of_nat i) = Some p \<and> data_page own1 s1 (p div PAGE_SIZE) \<and> \<not> data_page own s (p div PAGE_SIZE)"
    if "i < N" for i by (rule tr) (use va [OF that] that v in simp_all)
  have out: "m x = kmem s1 x" if "\<not> data_page own1 s1 (x div PAGE_SIZE) \<or> data_page own s (x div PAGE_SIZE)" for x
    using m(2) tv that by (metis option.inject)
  have inv: "map_inv_own own1 s1" using S by blast
  have d: "map_inv_own own1 (s1\<lparr>kmem := m\<rparr>)" "\<And>w. translate (s1\<lparr>kmem := m\<rparr>) w = translate s1 w"
      "\<And>pg. data_page own1 (s1\<lparr>kmem := m\<rparr>) pg = data_page own1 s1 pg" "pg_free_frames (s1\<lparr>kmem := m\<rparr>) = pg_free_frames s1"
    by (rule data_write [OF inv], use out in blast)+
  have "extends own s own1 (s1\<lparr>kmem := m\<rparr>)" using S out d(3) unfolding extends_def by simp
  then show "seg_step own s own1 (s1\<lparr>kmem := m\<rparr>) lo hi" using d S unfolding seg_step_def fresh_map_def by simp
  show "pg_free_frames (s1\<lparr>kmem := m\<rparr>) = pg_free_frames s1" "translate (s1\<lparr>kmem := m\<rparr>) w = translate s1 w"
      "data_page own1 (s1\<lparr>kmem := m\<rparr>) pg = data_page own1 s1 pg" by (rule d)+
  assume w: "lo \<le> unat w" "unat w < hi"
  obtain p where p: "translate s1 w = Some p" using tr [OF w] by blast
  show "vread (s1\<lparr>kmem := m\<rparr>) w = (if unat v \<le> unat w \<and> unat w < unat v + N then Some (f (unat w - unat v)) else vread s1 w)"
  proof (cases "unat v \<le> unat w \<and> unat w < unat v + N")
    case True
    let ?i = "unat w - unat v"
    have "unat (v + of_nat ?i) = unat w" using va [of ?i] True by simp
    then have "v + of_nat ?i = w" by (simp only: word_unat_eq_iff)
    moreover have "?i < N" using True by linarith
    ultimately have "m p = f ?i" using m(1) [rule_format, of ?i p] p by simp
    then show ?thesis using True p d(2) by (simp add: vread_def)
  next
    case False
    have "translate s1 (v + of_nat i) \<noteq> Some p" if "i < N" for i
    proof
      assume "translate s1 (v + of_nat i) = Some p"
      then have "v + of_nat i = w" using S p w v va [OF that] that unfolding fresh_map_def by simp
      then show False using False va [OF that] that by auto
    qed
    then have "m p = kmem s1 p" using m(2) by blast
    then show ?thesis using False p d(2) by (auto simp: vread_def)
  qed
qed

text \<open>What a store needs of the addresses it goes to.\<close>

lemma space_range:
  fixes v :: addr
  assumes seg: "seg_step own s own1 s1 lo hi" "hi \<le> 2 ^ 47" and v: "lo \<le> unat v" "unat v + N \<le> hi"
  shows "i < N \<Longrightarrow> \<exists>p. translate s1 (v + of_nat i) = Some p \<and> data_page own1 s1 (p div PAGE_SIZE) \<and> \<not> data_page own s (p div PAGE_SIZE)"
    "i < N \<Longrightarrow> k < N \<Longrightarrow> translate s1 (v + of_nat i) = translate s1 (v + of_nat k) \<Longrightarrow> i = k"
proof -
  have va: "unat (v + of_nat i) = unat v + i" if "i < N" for i
    using that v(2) seg(2) by (simp add: unat_word_ariths unsigned_of_nat take_bit_nat_eq_self)
  have fr: "fresh_map own s own1 s1 lo hi" using seg(1) by (simp add: seg_step_def)
  have inr: "lo \<le> unat (v + of_nat i) \<and> unat (v + of_nat i) < hi" if "i < N" for i using va [OF that] that v by simp
  show "\<exists>p. translate s1 (v + of_nat i) = Some p \<and> data_page own1 s1 (p div PAGE_SIZE) \<and> \<not> data_page own s (p div PAGE_SIZE)" if "i < N"
    using fr inr [OF that] unfolding fresh_map_def by blast
  assume a: "i < N" "k < N" "translate s1 (v + of_nat i) = translate s1 (v + of_nat k)"
  have "v + of_nat i = v + of_nat k" using fr inr [OF a(1)] inr [OF a(2)] a(3) unfolding fresh_map_def by blast
  then have "unat (v + of_nat i) = unat (v + of_nat k)" by simp
  then show "i = k" using va a(1,2) by simp
qed

text \<open>Copying a segment into the pages taken so far: the source is not overwritten, and memory that was in use is kept.\<close>

lemma fresh_copy:
  fixes s1 :: "'a tmgr_scheme" and v a :: addr
  assumes seg: "seg_step own s own1 s1 lo hi" "hi \<le> 2 ^ 47" "lo \<le> unat v" "unat v + N \<le> hi"
    and src: "\<And>i. i < N \<Longrightarrow> data_page own s ((a + of_nat i) div PAGE_SIZE)"
  shows "\<exists>m. vmemcpy v a N s1 = Some (s1\<lparr>kmem := m\<rparr>) \<and> seg_step own s own1 (s1\<lparr>kmem := m\<rparr>) lo hi \<and>
    pg_free_frames (s1\<lparr>kmem := m\<rparr>) = pg_free_frames s1 \<and> vholds own1 (s1\<lparr>kmem := m\<rparr>) v (\<lambda>i. kmem s (a + of_nat i)) N \<and>
    (\<forall>w. lo \<le> unat w \<and> unat w < hi \<longrightarrow> vread (s1\<lparr>kmem := m\<rparr>) w =
      (if unat v \<le> unat w \<and> unat w < unat v + N then Some (kmem s (a + of_nat (unat w - unat v))) else vread s1 w))"
proof -
  note R = space_range [OF seg] and S = seg(1) [unfolded seg_step_def]
  have inv: "map_inv_own own1 s1" using S by blast
  have "translate s1 (v + of_nat i) \<noteq> Some (a + of_nat k)" if "i < N" "k < N" for i k
    using R(1) [OF that(1)] src [of k] that(2) by auto
  from vmemcpy_writes [OF inv _ R(2) this] R(1) obtain m where m: "vmemcpy v a N s1 = Some (s1\<lparr>kmem := m\<rparr>)"
      "\<forall>i < N. \<forall>p. translate s1 (v + of_nat i) = Some p \<longrightarrow> m p = kmem s1 (a + of_nat i)"
      "\<forall>x. (\<forall>i < N. translate s1 (v + of_nat i) \<noteq> Some x) \<longrightarrow> m x = kmem s1 x" by blast
  have k: "kmem s1 (a + of_nat i) = kmem s (a + of_nat i)" if "i < N" for i using S src [OF that] unfolding extends_def by blast
  have m2: "\<forall>i < N. \<forall>p. translate s1 (v + of_nat i) = Some p \<longrightarrow> m p = kmem s (a + of_nat i)" using m(2) k by simp
  note W = space_write [OF seg m2 m(3)]
  have "vholds own1 (s1\<lparr>kmem := m\<rparr>) v (\<lambda>i. kmem s (a + of_nat i)) N"
    unfolding vholds_def W(4,5) using R(1) m2 by fastforce
  then show ?thesis using m(1) W(1-3) by (intro exI [of _ m]) simp
qed

lemma load_entry_loads:
  fixes s :: "'a tmgr_scheme" and elf :: addr
  assumes inv: "map_inv_own own s" and fr: "4 * pages_of (p_memsz ph) + k \<le> pg_free_frames s"
    and ty: "p_type ph = PT_LOAD" and al: "unat lv mod 4096 = 0" and hi: "unat lv + 4096 * pages_of (p_memsz ph) \<le> 2 ^ 47"
    and seg: "unat lv \<le> unat (p_vaddr ph)" "unat (p_vaddr ph) + unat (p_filesz ph) \<le> unat lv + 4096 * pages_of (p_memsz ph)"
    and src: "\<And>i. i < unat (p_filesz ph) \<Longrightarrow> data_page own s ((elf + p_offset ph + of_nat i) div PAGE_SIZE)"
  defines "lv' \<equiv> lv + of_nat (4096 * pages_of (p_memsz ph))"
  shows "\<exists>own' s'. load_entry elf task ph (lv, pg, c) s = Some (Some (lv', lv', c + of_nat (pages_of (p_memsz ph))), s') \<and>
    seg_step own s own' s' (unat lv) (unat lv + 4096 * pages_of (p_memsz ph)) \<and> k \<le> pg_free_frames s' \<and>
    vholds own' s' (p_vaddr ph) (\<lambda>i. kmem s (elf + p_offset ph + of_nat i)) (unat (p_filesz ph))"
proof -
  define n where "n = pages_of (p_memsz ph)"
  have lim: "unat (lv + p_memsz ph) = unat lv + unat (p_memsz ph)"
    using pages_of_bounds(1) [of "p_memsz ph"] hi by (simp add: unat_word_ariths)
  obtain own1 s1 where L: "load_pages lv (lv + p_memsz ph) c s = Some (Some (lv', c + of_nat n), s1)"
      "map_inv_own own1 s1" "extends own s own1 s1" "k \<le> pg_free_frames s1"
      "fresh_map own s own1 s1 (unat lv) (unat lv + 4096 * n)" "topChunk s1 = topChunk s" "bucket s1 = bucket s"
    using load_pages_maps [OF inv fr al hi, of "lv + p_memsz ph" c] pages_of_bounds [of "p_memsz ph"]
    unfolding lim n_def lv'_def by auto
  have L': "seg_step own s own1 s1 (unat lv) (unat lv + 4096 * n)" using L by (simp add: seg_step_def)
  obtain s' where m: "vmemcpy (p_vaddr ph) (elf + p_offset ph) (unat (p_filesz ph)) s1 = Some s'"
      "seg_step own s own1 s' (unat lv) (unat lv + 4096 * n)" "pg_free_frames s' = pg_free_frames s1"
      "vholds own1 s' (p_vaddr ph) (\<lambda>i. kmem s (elf + p_offset ph + of_nat i)) (unat (p_filesz ph))"
    using fresh_copy [OF L' hi [folded n_def] seg(1) seg(2) [folded n_def] src] by blast
  moreover have "load_entry elf task ph (lv, pg, c) s = Some (Some (lv', lv', c + of_nat n), s')"
    using ty L(1) m(1) by (simp add: load_entry_def PT_NULL_def PT_LOAD_def)
  ultimately show ?thesis using L(4) unfolding n_def by (intro exI [of _ own1] exI [of _ s']) simp
qed

lemma read_le_at:
  fixes a :: addr
  assumes "\<And>j. j < N \<Longrightarrow> m (a + of_nat j) = m' (a + of_nat j)" "k + n \<le> N"
  shows "read_le n m (a + of_nat k) = read_le n m' (a + of_nat k)"
proof (rule read_le_cong)
  fix i assume "i < n"
  then show "m (a + of_nat k + of_nat i) = m' (a + of_nat k + of_nat i)"
    using assms(1) [of "k + i"] assms(2) by (simp add: add.assoc)
qed

lemma get_Phdr_cong:
  fixes a :: addr
  assumes "\<And>j. j < 56 \<Longrightarrow> m (a + of_nat j) = m' (a + of_nat j)"
  shows "get_Phdr m a = get_Phdr m' a"
proof -
  have r: "read_le n m (a + of_nat k) = read_le n m' (a + of_nat k)" if "k + n \<le> 56" for k n
    using read_le_at [of 56 m a m' k n] assms that by blast
  show ?thesis
    using r [of 0 4] r [of 4 4] r [of 8 8] r [of 16 8] r [of 24 8] r [of 32 8] r [of 40 8] r [of 48 8]
    by (simp add: get_Phdr_def read64_def read32_def)
qed

text \<open>The file at \<open>elf\<close>: \<open>m\<close> has its contents, and its bytes lie in data pages.\<close>

definition file_in :: "(addr \<Rightarrow> u64 list option) \<Rightarrow> 'a mmu_scheme \<Rightarrow> mem \<Rightarrow> addr \<Rightarrow> nat \<Rightarrow> bool" where
  "file_in own s m elf sz \<longleftrightarrow> (\<forall>j < sz. data_page own s ((elf + of_nat j) div PAGE_SIZE) \<and> kmem s (elf + of_nat j) = m (elf + of_nat j))"

lemma file_in_kept: "file_in own s m elf sz \<Longrightarrow> seg_step own s own' s' lo hi \<Longrightarrow> file_in own' s' m elf sz"
  by (simp add: file_in_def seg_step_def extends_def)

definition seg_in_file :: "Elf64_Phdr \<Rightarrow> nat \<Rightarrow> bool" where
  "seg_in_file ph sz \<longleftrightarrow> unat (p_offset ph) + unat (p_filesz ph) \<le> sz"

text \<open>The segments that have been loaded.\<close>

definition seg_loaded :: "(addr \<Rightarrow> u64 list option) \<Rightarrow> 'a mmu_scheme \<Rightarrow> mem \<Rightarrow> addr \<Rightarrow> Elf64_Phdr \<Rightarrow> bool" where
  "seg_loaded own s m elf ph \<longleftrightarrow>
     (p_type ph = PT_LOAD \<longrightarrow> vholds own s (p_vaddr ph) (\<lambda>i. m (elf + p_offset ph + of_nat i)) (unat (p_filesz ph)))"

lemma file_in_seg:
  assumes "file_in own s m elf sz" "seg_in_file ph sz" "i < unat (p_filesz ph)"
  shows "data_page own s ((elf + p_offset ph + of_nat i) div PAGE_SIZE)"
    "kmem s (elf + p_offset ph + of_nat i) = m (elf + p_offset ph + of_nat i)"
proof -
  have e: "elf + p_offset ph + of_nat i = elf + of_nat (unat (p_offset ph) + i)" by (simp add: add.assoc)
  have "unat (p_offset ph) + i < sz" using assms(2,3) by (simp add: seg_in_file_def)
  then show "data_page own s ((elf + p_offset ph + of_nat i) div PAGE_SIZE)"
      "kmem s (elf + p_offset ph + of_nat i) = m (elf + p_offset ph + of_nat i)"
    using assms(1) unfolding e file_in_def by blast+
qed

lemma kpwarn_keeps:
  fixes s :: "'a mmu_scheme"
  assumes "map_inv_own own s"
  shows "map_inv_own own (kpwarn msg s)" "extends own s own (kpwarn msg s)" "translate (kpwarn msg s) w = translate s w"
    "pg_free_frames (kpwarn msg s) = pg_free_frames s"
proof -
  have u: "pg_used (kpwarn msg s) = pg_used s" by (auto simp: kpwarn_def pg_used_def)
  have f: "PgsMap (kpwarn msg s) = PgsMap s" "kmem (kpwarn msg s) = kmem s" "PML4 (kpwarn msg s) = PML4 s"
      "bitmapIdx (kpwarn msg s) = bitmapIdx s" "mmu.more (kpwarn msg s) = mmu.more s" by (simp_all add: kpwarn_def)
  show "map_inv_own own (kpwarn msg s)" using assms by (simp add: map_inv_own_def pg_hint_def u f)
  show "extends own s own (kpwarn msg s)" by (simp add: extends_def data_page_def u f)
  show "translate (kpwarn msg s) w = translate s w" by (simp add: translate_def f)
  show "pg_free_frames (kpwarn msg s) = pg_free_frames s" by (simp add: pg_free_frames_def u f)
qed

lemma seg_pages_layout: "loads_ok base phs \<Longrightarrow> base + 4096 * seg_pages phs \<le> 2 ^ 47"
  by (induction base phs rule: loads_ok.induct) (auto split: if_splits)

text \<open>One program header: a loadable segment is mapped and copied, an entry of another type leaves everything as it is.\<close>

lemma load_entry_step:
  fixes s :: "'a tmgr_scheme" and elf :: addr
  assumes inv: "map_inv_own own s" and fin: "file_in own s m elf sz" and sf: "seg_in_file ph sz" and al: "unat lv mod 4096 = 0"
    and lay: "loads_ok (unat lv) (ph # phs)" and fr: "4 * seg_pages (ph # phs) + k \<le> pg_free_frames s"
  defines "n1 \<equiv> if p_type ph = PT_LOAD then pages_of (p_memsz ph) else 0"
  shows "\<exists>own1 s1. load_entry elf task ph (lv, pg, c) s =
      Some (Some (lv + of_nat (4096 * n1), if p_type ph = PT_LOAD then lv + of_nat (4096 * n1) else pg, c + of_nat n1), s1) \<and>
    seg_step own s own1 s1 (unat lv) (unat lv + 4096 * n1) \<and> 4 * seg_pages phs + k \<le> pg_free_frames s1 \<and> seg_loaded own1 s1 m elf ph"
proof (cases "p_type ph = PT_LOAD")
  case True
  have seg: "unat lv \<le> unat (p_vaddr ph)" "unat (p_vaddr ph) + unat (p_filesz ph) \<le> unat lv + 4096 * pages_of (p_memsz ph)"
    and rest: "loads_ok (unat lv + 4096 * pages_of (p_memsz ph)) phs" using lay True by auto
  have hi: "unat lv + 4096 * pages_of (p_memsz ph) \<le> 2 ^ 47" using seg_pages_layout [OF rest] by simp
  have fr': "4 * pages_of (p_memsz ph) + (4 * seg_pages phs + k) \<le> pg_free_frames s" using fr True by simp
  have "vholds own1 s1 (p_vaddr ph) (\<lambda>i. m (elf + p_offset ph + of_nat i)) (unat (p_filesz ph))"
    if "vholds own1 s1 (p_vaddr ph) (\<lambda>i. kmem s (elf + p_offset ph + of_nat i)) (unat (p_filesz ph))" for own1 and s1 :: "'a tmgr_scheme"
    using that file_in_seg(2) [OF fin sf] by (simp add: vholds_def)
  with load_entry_loads [OF inv fr' True al hi seg file_in_seg(1) [OF fin sf], of task pg c] show ?thesis
    using True unfolding n1_def seg_loaded_def by fastforce
next
  case False
  note kw = kpwarn_keeps [OF inv, of "''PT not yet supported!''"]
  define s1 where "s1 = (if p_type ph = PT_NULL then s else kpwarn ''PT not yet supported!'' s)"
  have "seg_step own s own s1 (unat lv) (unat lv)" "pg_free_frames s1 = pg_free_frames s"
    using kw inv fresh_map_refl [of own s "unat lv"] by (auto simp: s1_def seg_step_def fresh_map_def kpwarn_def)
  moreover have "load_entry elf task ph (lv, pg, c) s = Some (Some (lv, pg, c), s1)"
    using False lay by (auto simp: load_entry_def s1_def)
  ultimately show ?thesis using False fr by (intro exI [of _ own] exI [of _ s1]) (simp add: n1_def seg_loaded_def)
qed

text \<open>A loaded segment stays loaded while pages above it are mapped.\<close>

lemma seg_loaded_kept:
  assumes "seg_loaded own s m elf ph" "seg_step own s own' s' lo hi" "lo \<le> 2 ^ 48"
    and "p_type ph = PT_LOAD \<Longrightarrow> unat (p_vaddr ph) + unat (p_filesz ph) \<le> lo"
  shows "seg_loaded own' s' m elf ph"
  using assms vholds_kept [OF _ assms(2)] unfolding seg_loaded_def by blast

lemma phdr_loop_loads:
  fixes s :: "'a tmgr_scheme" and elf :: addr
  assumes "map_inv_own own s" "file_in own s m elf sz" "\<And>a j. a \<in> set addrs \<Longrightarrow> j < 56 \<Longrightarrow> \<exists>q < sz. a + of_nat j = elf + of_nat q"
    and "\<And>a. a \<in> set addrs \<Longrightarrow> seg_in_file (get_Phdr m a) sz" "unat lv mod 4096 = 0"
    and "loads_ok (unat lv) (map (get_Phdr m) addrs)" "4 * seg_pages (map (get_Phdr m) addrs) + k \<le> pg_free_frames s"
  defines "n \<equiv> seg_pages (map (get_Phdr m) addrs)"
  shows "\<exists>own' s'. phdr_loop elf task addrs (lv, pg, c) s = Some (Some (lv + of_nat (4096 * n),
      if list_ex (\<lambda>a. p_type (get_Phdr m a) = PT_LOAD) addrs then lv + of_nat (4096 * n) else pg, c + of_nat n), s') \<and>
    seg_step own s own' s' (unat lv) (unat lv + 4096 * n) \<and> k \<le> pg_free_frames s' \<and>
    (\<forall>a \<in> set addrs. seg_loaded own' s' m elf (get_Phdr m a))"
  using assms(1-7) unfolding n_def
proof (induction addrs arbitrary: own s lv pg c)
  case Nil
  then show ?case by (intro exI [of _ own] exI [of _ s]) (simp add: seg_step_refl)
next
  case (Cons a addrs)
  let ?ph = "get_Phdr m a"
  define n1 where "n1 = (if p_type ?ph = PT_LOAD then pages_of (p_memsz ?ph) else 0)"
  have ph: "get_Phdr (kmem s) a = ?ph"
  proof (rule get_Phdr_cong)
    fix j :: nat assume "j < 56"
    then obtain q where "q < sz" "a + of_nat j = elf + of_nat q" using Cons.prems(3) [of a j] by auto
    then show "kmem s (a + of_nat j) = m (a + of_nat j)" using Cons.prems(2) by (simp add: file_in_def)
  qed
  have lay: "loads_ok (unat lv + 4096 * n1) (map (get_Phdr m) addrs)"
    using Cons.prems(6) by (auto simp: n1_def split: if_splits)
  note b = seg_pages_layout [OF lay]
  have sf: "seg_in_file ?ph sz" using Cons.prems(4) by simp
  let ?lv = "lv + of_nat (4096 * n1)" and ?n = "seg_pages (map (get_Phdr m) addrs)"
  define pg1 where "pg1 = (if p_type ?ph = PT_LOAD then ?lv else pg)"
  obtain own1 s1 where L: "load_entry elf task ?ph (lv, pg, c) s = Some (Some (?lv, pg1, c + of_nat n1), s1)"
      "seg_step own s own1 s1 (unat lv) (unat lv + 4096 * n1)" "4 * ?n + k \<le> pg_free_frames s1"
      "seg_loaded own1 s1 m elf ?ph"
    using load_entry_step [OF Cons.prems(1,2) sf Cons.prems(5), of "map (get_Phdr m) addrs" k task pg c] Cons.prems(6,7)
    unfolding list.map n1_def [symmetric] pg1_def [symmetric] by blast
  have lv: "unat ?lv = unat lv + 4096 * n1"
    using b by (simp add: unat_word_ariths unsigned_of_nat take_bit_nat_eq_self)
  have al: "unat ?lv mod 4096 = 0" using lv Cons.prems(5) by simp
  have inv1: "map_inv_own own1 s1" using L(2) by (simp add: seg_step_def)
  define pg2 where "pg2 = (if list_ex (\<lambda>a. p_type (get_Phdr m a) = PT_LOAD) addrs then ?lv + of_nat (4096 * ?n) else pg1)"
  obtain own' s' where I: "phdr_loop elf task addrs (?lv, pg1, c + of_nat n1) s1 =
        Some (Some (?lv + of_nat (4096 * ?n), pg2, c + of_nat n1 + of_nat ?n), s')"
      "seg_step own1 s1 own' s' (unat ?lv) (unat ?lv + 4096 * ?n)" "\<forall>a \<in> set addrs. seg_loaded own' s' m elf (get_Phdr m a)"
      "k \<le> pg_free_frames s'"
    using Cons.IH [OF inv1 file_in_kept [OF Cons.prems(2) L(2)] _ _ al _ L(3), of pg1 "c + of_nat n1"] Cons.prems(3,4) lay lv
    unfolding pg2_def by auto
  have hd: "seg_loaded own' s' m elf ?ph"
    by (rule seg_loaded_kept [OF L(4) I(2)]) (use b lv Cons.prems(6) in \<open>simp_all add: n1_def\<close>)
  have N: "seg_pages (map (get_Phdr m) (a # addrs)) = n1 + ?n" by (simp add: n1_def)
  have "seg_step own s own' s' (unat lv) (unat lv + 4096 * (n1 + ?n))"
    using seg_step_trans [OF L(2) I(2) [unfolded lv]] b by (simp add: algebra_simps)
  moreover have "phdr_loop elf task (a # addrs) (lv, pg, c) s =
      Some (Some (lv + of_nat (4096 * (n1 + ?n)), pg2, c + of_nat (n1 + ?n)), s')"
    using L(1) I(1) ph by (simp add: algebra_simps)
  moreover have "pg2 = (if list_ex (\<lambda>a. p_type (get_Phdr m a) = PT_LOAD) (a # addrs) then lv + of_nat (4096 * (n1 + ?n)) else pg)"
  proof (cases "list_ex (\<lambda>a. p_type (get_Phdr m a) = PT_LOAD) addrs")
    case False
    then have "?n = 0" by (induction addrs) auto
    then show ?thesis using False by (simp add: pg2_def pg1_def)
  qed (simp add: pg2_def algebra_simps)
  ultimately show ?case using hd I(3,4) unfolding N by (intro exI [of _ own'] exI [of _ s']) simp
qed

text \<open>The frames of a task's record are not touched by the loader's steps.\<close>

lemma seg_step_more: "seg_step own s own' s' lo hi \<Longrightarrow> mmu.more s' = mmu.more s"
  by (simp add: seg_step_def extends_def)

lemma tmgr_mmu_more:
  fixes s s' :: "'a tmgr_scheme"
  assumes "mmu.more s' = mmu.more s"
  shows "hdrs s' = hdrs s" "tcbs s' = tcbs s" "pcbs s' = pcbs s"
  using assms by (cases s; cases s'; simp)+


lemma upd_tcb_keeps:
  "map_inv_own own (upd_tcb a f s) = map_inv_own own s" "data_page own (upd_tcb a f s) = data_page own s"
  "translate (upd_tcb a f s) = translate s" "pg_free_frames (upd_tcb a f s) = pg_free_frames s" "kmem (upd_tcb a f s) = kmem s"
  "hdrs (upd_tcb a f s) = hdrs s"
  by (auto simp: map_inv_own_def pg_hint_def pg_used_def upd_tcb_def data_page_def translate_def pg_free_frames_def fun_eq_iff)

lemma upd_hdr_keeps:
  "map_inv_own own (upd_hdr a f s) = map_inv_own own s" "translate (upd_hdr a f s) = translate s" "kmem (upd_hdr a f s) = kmem s"
  "tcbs (upd_hdr a f s) = tcbs s"
  by (auto simp: map_inv_own_def pg_hint_def pg_used_def upd_hdr_def translate_def fun_eq_iff)

lemma mmu_fields_cong:
  fixes s :: "'a mmu_scheme" and s' :: "'b mmu_scheme"
  assumes "kmem s' = kmem s" "PgsMap s' = PgsMap s" "bitmapIdx s' = bitmapIdx s" "PML4 s' = PML4 s"
  shows "map_inv_own own s' = map_inv_own own s" "data_page own s' pg = data_page own s pg" "pg_free_frames s' = pg_free_frames s"
    "translate s' w = translate s w" "vread s' w = vread s w"
  using assms by (simp_all add: map_inv_own_def pg_hint_def pg_used_def data_page_def pg_free_frames_def translate_def vread_def)

section \<open>Thread-local storage\<close>

lemma upd_pcb_keeps:
  "map_inv_own own (upd_pcb a f s) = map_inv_own own s" "translate (upd_pcb a f s) = translate s" "kmem (upd_pcb a f s) = kmem s"
  by (auto simp: map_inv_own_def pg_hint_def pg_used_def upd_pcb_def translate_def fun_eq_iff)

lemma vwrites_upd_tcb: "vwrites v bs (upd_tcb a f s) = map_option (upd_tcb a f) (vwrites v bs s)"
proof (induction bs arbitrary: v s)
  case (Cons b bs)
  have "vwrite v b (upd_tcb a f s) = map_option (upd_tcb a f) (vwrite v b s)"
    by (cases "translate s v") (simp_all add: vwrite_def upd_tcb_keeps, simp add: upd_tcb_def)
  then show ?case using Cons.IH by (cases "vwrite v b s") simp_all
qed simp

lemma vwrites_upd_pcb: "vwrites v bs (upd_pcb a f s) = map_option (upd_pcb a f) (vwrites v bs s)"
proof (induction bs arbitrary: v s)
  case (Cons b bs)
  have "vwrite v b (upd_pcb a f s) = map_option (upd_pcb a f) (vwrite v b s)"
    by (cases "translate s v") (simp_all add: vwrite_def upd_pcb_keeps, simp add: upd_pcb_def)
  then show ?case using Cons.IH by (cases "vwrite v b s") simp_all
qed simp

text \<open>The pages, the image and the word behind the storage.\<close>

lemma load_tls_space:
  fixes s0 s :: "'a tmgr_scheme" and elf :: addr
  assumes seg: "seg_step own0 s0 own s (unat USERSPACE_START_ADDR) (unat lv)"
    and lv: "unat lv mod 4096 = 0" "unat USERSPACE_START_ADDR \<le> unat lv" and ok: "tls_ok (unat lv) t"
    and src: "\<And>i. i < unat (p_filesz t) \<Longrightarrow> data_page own0 s0 ((elf + p_offset t + of_nat i) div PAGE_SIZE)"
    and fr: "4 * pages_of (p_memsz t) \<le> pg_free_frames s"
  defines "base \<equiv> p_vaddr t + p_memsz t" and "hi \<equiv> unat lv + 4096 * pages_of (p_memsz t)" and "lo \<equiv> unat USERSPACE_START_ADDR"
  shows "\<exists>own1 s1 m2 m3. load_pages lv (lv + p_memsz t) c s =
      Some (Some (lv + of_nat (4096 * pages_of (p_memsz t)), c + of_nat (pages_of (p_memsz t))), s1) \<and>
    vmemcpy (p_vaddr t) (elf + p_offset t) (unat (p_filesz t)) s1 = Some (s1\<lparr>kmem := m2\<rparr>) \<and>
    vwrites base (u64_bytes base) (s1\<lparr>kmem := m2\<rparr>) = Some (s1\<lparr>kmem := m3\<rparr>) \<and> seg_step own0 s0 own1 (s1\<lparr>kmem := m3\<rparr>) lo hi \<and>
    mmu.more s1 = mmu.more s \<and> (\<forall>w. lo \<le> unat w \<and> unat w < hi \<longrightarrow> vread (s1\<lparr>kmem := m3\<rparr>) w =
      (if unat base \<le> unat w \<and> unat w < unat base + 8 then Some (u64_bytes base ! (unat w - unat base))
       else if unat (p_vaddr t) \<le> unat w \<and> unat w < unat (p_vaddr t) + unat (p_filesz t)
         then Some (kmem s0 (elf + p_offset t + of_nat (unat w - unat (p_vaddr t)))) else vread s1 w)) \<and>
    (\<forall>w. lo \<le> unat w \<and> unat w < unat lv \<longrightarrow> vread s1 w = vread s w)"
proof -
  note T = ok [unfolded tls_ok_def] and S = seg [unfolded seg_step_def]
  have hi: "hi \<le> 2 ^ 47" using T by (simp add: hi_def)
  have inv: "map_inv_own own s" using S by blast
  have lim: "unat (lv + p_memsz t) = unat lv + unat (p_memsz t)"
    using pages_of_bounds(1) [of "p_memsz t"] T by (simp add: unat_word_ariths)
  have fr0: "4 * pages_of (p_memsz t) + 0 \<le> pg_free_frames s" using fr by simp
  obtain own1 s1 where L: "load_pages lv (lv + p_memsz t) c s =
        Some (Some (lv + of_nat (4096 * pages_of (p_memsz t)), c + of_nat (pages_of (p_memsz t))), s1)"
      "map_inv_own own1 s1" "extends own s own1 s1" "fresh_map own s own1 s1 (unat lv) hi" "topChunk s1 = topChunk s" "bucket s1 = bucket s"
    using load_pages_maps [OF inv fr0 lv(1), of "lv + p_memsz t" c] pages_of_bounds [of "p_memsz t"] T unfolding lim hi_def by auto
  have new: "seg_step own s own1 s1 (unat lv) hi" using L by (simp add: seg_step_def)
  have seg1: "seg_step own0 s0 own1 s1 lo hi"
    using seg_step_trans [OF seg new] lv(2) hi T by (simp add: lo_def hi_def)
  have v: "lo \<le> unat (p_vaddr t)" "unat (p_vaddr t) + unat (p_filesz t) \<le> hi"
    using T by (simp_all add: lo_def hi_def word_le_nat_alt)
  obtain m2 where c2: "vmemcpy (p_vaddr t) (elf + p_offset t) (unat (p_filesz t)) s1 = Some (s1\<lparr>kmem := m2\<rparr>)"
      "seg_step own0 s0 own1 (s1\<lparr>kmem := m2\<rparr>) lo hi"
      "\<forall>w. lo \<le> unat w \<and> unat w < hi \<longrightarrow> vread (s1\<lparr>kmem := m2\<rparr>) w = (if unat (p_vaddr t) \<le> unat w \<and> unat w < unat (p_vaddr t) + unat (p_filesz t)
         then Some (kmem s0 (elf + p_offset t + of_nat (unat w - unat (p_vaddr t)))) else vread s1 w)"
    using fresh_copy [OF seg1 hi v src] by blast
  have ub: "unat base = unat (p_vaddr t) + unat (p_memsz t)" using T hi by (simp add: base_def hi_def unat_word_ariths)
  have b: "lo \<le> unat base" "unat base + length (u64_bytes base) \<le> hi" using v(1) ub T by (simp_all add: u64_bytes_def hi_def)
  note R = space_range [OF c2(2) hi b]
  have inv2: "map_inv_own own1 (s1\<lparr>kmem := m2\<rparr>)" using c2(2) by (simp add: seg_step_def)
  have "\<exists>m. vwrites base (u64_bytes base) (s1\<lparr>kmem := m2\<rparr>) = Some ((s1\<lparr>kmem := m2\<rparr>)\<lparr>kmem := m\<rparr>) \<and>
      (\<forall>i < length (u64_bytes base). \<forall>p. translate (s1\<lparr>kmem := m2\<rparr>) (base + of_nat i) = Some p \<longrightarrow> m p = u64_bytes base ! i) \<and>
      (\<forall>x. (\<forall>i < length (u64_bytes base). translate (s1\<lparr>kmem := m2\<rparr>) (base + of_nat i) \<noteq> Some x) \<longrightarrow> m x = kmem (s1\<lparr>kmem := m2\<rparr>) x)"
    by (rule vwrites_writes [OF inv2]) (use R in blast)+
  then obtain m3 where w3: "vwrites base (u64_bytes base) (s1\<lparr>kmem := m2\<rparr>) = Some ((s1\<lparr>kmem := m2\<rparr>)\<lparr>kmem := m3\<rparr>)"
      "\<forall>i < length (u64_bytes base). \<forall>p. translate (s1\<lparr>kmem := m2\<rparr>) (base + of_nat i) = Some p \<longrightarrow> m3 p = u64_bytes base ! i"
      "\<forall>x. (\<forall>i < length (u64_bytes base). translate (s1\<lparr>kmem := m2\<rparr>) (base + of_nat i) \<noteq> Some x) \<longrightarrow> m3 x = kmem (s1\<lparr>kmem := m2\<rparr>) x"
    by blast
  note W = space_write [OF c2(2) hi b w3(2,3)]
  have old: "vread s1 w = vread s w" if w: "lo \<le> unat w" "unat w < unat lv" for w
  proof -
    obtain p where p: "translate s w = Some p" "data_page own s (p div PAGE_SIZE)"
      using S w unfolding fresh_map_def lo_def by blast
    have "unat w < 2 ^ 48" using w(2) T by simp
    then have "translate s1 w = translate s w" using L(4) w(2) unfolding fresh_map_def by simp
    moreover have "kmem s1 p = kmem s p" using L(3) p(2) unfolding extends_def by blast
    ultimately show ?thesis using p(1) by (simp add: vread_def)
  qed
  have e: "(s1\<lparr>kmem := m2\<rparr>)\<lparr>kmem := m3\<rparr> = s1\<lparr>kmem := m3\<rparr>" "length (u64_bytes base) = 8" by (simp_all add: u64_bytes_def)
  have new: "vread (s1\<lparr>kmem := m3\<rparr>) w =
      (if unat base \<le> unat w \<and> unat w < unat base + 8 then Some (u64_bytes base ! (unat w - unat base))
       else if unat (p_vaddr t) \<le> unat w \<and> unat w < unat (p_vaddr t) + unat (p_filesz t)
         then Some (kmem s0 (elf + p_offset t + of_nat (unat w - unat (p_vaddr t)))) else vread s1 w)" if "lo \<le> unat w \<and> unat w < hi" for w
    using W(3) [of w] c2(3) [rule_format, OF that] that unfolding e by (simp only: simp_thms)
  have "mmu.more s1 = mmu.more s" using L(3) by (simp add: extends_def)
  with L(1) c2(1) w3(1) [unfolded e] W(1) [unfolded e] show ?thesis
    by - (rule exI [of _ own1], rule exI [of _ s1], rule exI [of _ m2], rule exI [of _ m3], intro conjI allI impI, (assumption | erule new | (elim conjE, erule (1) old))+)
qed

text \<open>The copy of the image in a block of the heap.\<close>

lemma tls_copied:
  fixes h :: "'a heap_scheme"
  assumes room: "heap_room {k} (unat z + 32) h" and z: "z \<noteq> 0" "z < 2 ^ 24" "size_class z = Some k" "n \<le> z"
    and src: "\<And>i. i < unat n \<Longrightarrow> \<not> within (topChunk h) (z + 32) (src + of_nat i)"
  shows "\<exists>m. kpkZalloc z h = Some (topChunk h + 32, h\<lparr>kmem := m, topChunk := topChunk h + (z + 32)\<rparr>) \<and>
    (\<forall>i < unat z. snd (memcpy (topChunk h + 32) src n m) (topChunk h + 32 + of_nat i) = (if i < unat n then kmem h (src + of_nat i) else 0)) \<and>
    (\<forall>x. \<not> within (topChunk h) (z + 32) x \<longrightarrow> snd (memcpy (topChunk h + 32) src n m) x = kmem h x)"
proof -
  obtain asz where a: "alignSize z = Some asz" "bucket_index asz = Some k" using size_class_align [OF z(3)] .
  have k: "k < 21" using size_class_bound [OF z(1,2)] z(3) by auto
  have room0: "heap_room {k} (unat z + 32 + 0) h" using room by simp
  note zal = kpkZalloc_room [OF room0 a _ k] and uz = kpkMalloc_room(2) [OF room0 a _ k]
  define c where "c = topChunk h"
  define m where "m = zeroed (c + 32) z (chunk_header c asz (kmem h))"
  have uz': "unat (z + 32) = unat z + 32" using uz by simp
  have sub: "within c (z + 32) x" if "within (c + 32) z x \<or> within c 32 x" for x
    using that within_shift [of 32 z "z + 32" c x] within_shift [of 0 32 "z + 32" c x] uz' by auto
  have out: "m x = kmem h x" if "\<not> within c (z + 32) x" for x
  proof -
    have "\<not> within (c + 32) z x" "\<not> within c 32 x" using that sub [of x] by blast+
    then show ?thesis by (simp add: m_def zeroed_def chunk_header_outside)
  qed
  have "n \<le> c + 32 - src"
  proof (rule ccontr)
    assume "\<not> n \<le> c + 32 - src"
    then have "unat (c + 32 - src) < unat n" by (simp add: word_le_nat_alt)
    from src [OF this] have "\<not> within c (z + 32) (c + 32)" by (simp add: c_def)
    moreover have "within (c + 32) z (c + 32)" using z(1) by (simp add: within_def word_neq_0_conv)
    ultimately show False using sub by blast
  qed
  then have cp: "snd (memcpy (c + 32) src n m) x = (if x - (c + 32) < n then m (src + (x - (c + 32))) else m x)" for x
    using memcpy_loop_spec [OF disjI2, of n "c + 32" src 0 m x] by (simp add: memcpy_def)
  have "snd (memcpy (c + 32) src n m) (c + 32 + of_nat i) = (if i < unat n then kmem h (src + of_nat i) else 0)" if i: "i < unat z" for i
  proof -
    have ui: "unat (of_nat i :: u64) = i" using i unat_u64_less [of z] by (subst unsigned_of_nat) (simp add: take_bit_nat_eq_self)
    have "m (c + 32 + of_nat i) = 0" using ui i by (simp add: m_def zeroed_def within_def word_less_nat_alt)
    moreover have "m (src + of_nat i) = kmem h (src + of_nat i)" if "i < unat n" using out src [OF that] by (simp add: c_def)
    ultimately show ?thesis using ui by (simp add: cp word_less_nat_alt)
  qed
  moreover have "snd (memcpy (c + 32) src n m) x = kmem h x" if "\<not> within c (z + 32) x" for x
  proof -
    have "\<not> x - (c + 32) < n" using that sub [of x] order_less_le_trans [OF _ z(4)] unfolding within_def by blast
    then show ?thesis using cp [of x] out [OF that] by simp
  qed
  ultimately show ?thesis using zal by (intro exI [of _ m]) (simp add: c_def m_def)
qed

text \<open>The set-up behind the two stores: the fields of the task and the copy. What the pages hold does not change.\<close>

lemma tls_setup_done:
  fixes s0 s1 :: "'a tmgr_scheme" and elf :: addr
  assumes seg: "seg_step own0 s0 own1 (s1\<lparr>kmem := m3\<rparr>) lo hi" and ok: "tls_ok l t" and heap: "tls_heap own0 s0 elf sz t"
    and fin: "file_in own0 s0 m elf sz" "seg_in_file t sz"
  defines "base \<equiv> p_vaddr t + p_memsz t"
  assumes w: "vwrites base (u64_bytes base) (s1\<lparr>kmem := m2\<rparr>) = Some (s1\<lparr>kmem := m3\<rparr>)"
  shows "\<exists>s'. tls_setup elf task t (s1\<lparr>kmem := m2\<rparr>) = Some s' \<and> map_inv_own own1 s' \<and> hdrs s' = hdrs s1 \<and>
    (\<forall>a. ctx_rip (ctxReg (tcbs s' a)) = ctx_rip (ctxReg (tcbs s1 a))) \<and> ctx_fs (ctxReg (tcb_of s' task)) = base \<and>
    tlsSize (pcb_of s' task) = p_memsz t \<and>
    (\<forall>i < unat (p_memsz t). kmem s' (ogTLS (pcb_of s' task) + of_nat i) = (if i < unat (p_filesz t) then m (elf + p_offset t + of_nat i) else 0)) \<and>
    (\<forall>w. lo \<le> unat w \<and> unat w < hi \<longrightarrow> vread s' w = vread (s1\<lparr>kmem := m3\<rparr>) w) \<and> (\<forall>j < sz. kmem s' (elf + of_nat j) = m (elf + of_nat j))"
proof -
  define z c where "z = p_memsz t" and "c = topChunk s0"
  let ?n = "p_filesz t" and ?src = "elf + p_offset t" and ?s3 = "s1\<lparr>kmem := m3\<rparr>"
  note S = seg [unfolded seg_step_def]
  define s2 where "s2 = upd_tcb (TCB (hdrs s1 task)) (\<lambda>t. t\<lparr>ctxReg := (ctxReg t)\<lparr>ctx_fs := base\<rparr>\<rparr>)
    (upd_pcb (PCB (hdrs s1 task)) (\<lambda>q. q\<lparr>tlsSize := z\<rparr>) ?s3)"
  have f2: "topChunk s2 = c" "bucket s2 = bucket s0" "kmem s2 = m3" using S by (simp_all add: s2_def upd_tcb_def upd_pcb_def c_def)
  obtain k where k: "size_class z = Some k" "heap_room {k} (unat z + 32) s2" using heap f2 by (auto simp: tls_heap_def z_def heap_room_def c_def)
  have blk: "data_page own0 s0 (x div PAGE_SIZE)" "\<forall>j < sz. x \<noteq> elf + of_nat j" if "within c (z + 32) x" for x
    using that heap unfolding tls_heap_def z_def c_def by blast+
  have zz: "z \<noteq> 0" "z < 2 ^ 24" "?n \<le> z" using ok heap by (auto simp: z_def tls_heap_def tls_ok_def)
  have idx: "\<exists>j < sz. ?src + of_nat i = elf + of_nat j" if "i < unat ?n" for i
    using that fin(2) by (intro exI [of _ "unat (p_offset t) + i"]) (simp add: seg_in_file_def add.assoc)
  have src: "\<not> within (topChunk s2) (z + 32) (?src + of_nat i)" if "i < unat ?n" for i using idx [OF that] blk(2) f2(1) by metis
  obtain m4 where A: "kpkZalloc z s2 = Some (c + 32, s2\<lparr>kmem := m4, topChunk := c + (z + 32)\<rparr>)"
      "\<forall>i < unat z. snd (memcpy (c + 32) ?src ?n m4) (c + 32 + of_nat i) = (if i < unat ?n then m3 (?src + of_nat i) else 0)"
      "\<forall>x. \<not> within c (z + 32) x \<longrightarrow> snd (memcpy (c + 32) ?src ?n m4) x = m3 x"
    using tls_copied [OF k(2) zz(1,2) k(1) zz(3) src] unfolding f2 by blast
  define m5 s' where "m5 = snd (memcpy (c + 32) ?src ?n m4)"
    and "s' = upd_pcb (PCB (hdrs s1 task)) (\<lambda>q. q\<lparr>ogTLS := c + 32\<rparr>) (s2\<lparr>kmem := m5, topChunk := c + (z + 32)\<rparr>)"
  have t5: "m5 x = m3 x" if "\<not> data_page own0 s0 (x div PAGE_SIZE)" for x using A(3) blk(1) [of x] that by (auto simp: m5_def)
  have inv3: "map_inv_own own1 ?s3" using S by blast
  have "m5 x = kmem ?s3 x" if "\<not> data_page own1 ?s3 (x div PAGE_SIZE)" for x
    using that t5 [of x] S unfolding extends_def by auto
  note d = data_write [OF inv3 this, simplified]
  have C: "map_inv_own own1 s'" "\<And>w. vread s' w = vread (s1\<lparr>kmem := m5\<rparr>) w"
    using d(1) mmu_fields_cong [of s' "s1\<lparr>kmem := m5\<rparr>"] by (simp_all add: s'_def s2_def upd_pcb_def upd_tcb_def)
  have "vread s' v = vread ?s3 v" if v: "lo \<le> unat v \<and> unat v < hi" for v
  proof -
    obtain p where p: "translate ?s3 v = Some p" "\<not> data_page own0 s0 (p div PAGE_SIZE)" using S v unfolding fresh_map_def by blast
    then show ?thesis using C(2) [of v] d(2) [of v] t5 [OF p(2)] by (simp add: vread_def)
  qed
  moreover have "tls_setup elf task t (s1\<lparr>kmem := m2\<rparr>) = Some s'"
  proof -
    have "vwrites base (u64_bytes base) (upd_tcb (TCB (hdrs s1 task)) (\<lambda>t. t\<lparr>ctxReg := (ctxReg t)\<lparr>ctx_fs := base\<rparr>\<rparr>)
        (upd_pcb (PCB (hdrs s1 task)) (\<lambda>q. q\<lparr>tlsSize := z\<rparr>) (s1\<lparr>kmem := m2\<rparr>))) = Some s2"
      using w by (simp add: vwrites_upd_tcb vwrites_upd_pcb s2_def)
    moreover have "tlsSize (pcb_of s2 task) = z" "hdrs s2 = hdrs s1" by (simp_all add: s2_def upd_tcb_def upd_pcb_def)
    ultimately show ?thesis
      using A(1) unfolding tls_setup_def Let_def base_def [symmetric] unfolding z_def [symmetric]
      by (simp add: s'_def m5_def upd_pcb_keeps) (simp add: upd_pcb_def)
  qed
  moreover have m3: "m3 (elf + of_nat j) = m (elf + of_nat j)" if "j < sz" for j
    using S fin(1) that unfolding extends_def file_in_def by simp
  moreover have "m3 (?src + of_nat i) = m (?src + of_nat i)" if "i < unat ?n" for i using m3 idx [OF that] by metis
  moreover have "m5 (elf + of_nat j) = m (elf + of_nat j)" if "j < sz" for j
    using A(3) blk(2) [of "elf + of_nat j", rule_format, OF _ that] m3 [OF that] unfolding m5_def by metis
  ultimately show ?thesis using C(1) A(2)
    by (intro exI [of _ s']) (simp add: s'_def s2_def upd_pcb_def upd_tcb_def z_def m5_def)
qed

text \<open>The entry as a whole, from the state \<open>s\<close> in which the loadable segments are in place.\<close>

lemma load_tls:
  fixes s0 s :: "'a tmgr_scheme" and elf :: addr
  assumes seg: "seg_step own0 s0 own s (unat USERSPACE_START_ADDR) (unat lv)"
    and lv: "unat lv mod 4096 = 0" "unat USERSPACE_START_ADDR \<le> unat lv" and ok: "p_type t = PT_TLS" "tls_ok (unat lv) t"
    and fin: "file_in own0 s0 m elf sz" "seg_in_file t sz" and fr: "4 * pages_of (p_memsz t) \<le> pg_free_frames s"
    and heap: "tls_heap own0 s0 elf sz t"
  shows "\<exists>own1 s1. load_entry elf task t (lv, pg, c) s = Some (Some (pg, pg, c + of_nat (pages_of (p_memsz t))), s1) \<and>
    map_inv_own own1 s1 \<and> tls_ready m elf task t s1 \<and> hdrs s1 = hdrs s \<and> (\<forall>a. ctx_rip (ctxReg (tcbs s1 a)) = ctx_rip (ctxReg (tcbs s a))) \<and>
    (\<forall>w. unat USERSPACE_START_ADDR \<le> unat w \<and> unat w < unat lv \<and> \<not> tls_written [t] w \<longrightarrow> vread s1 w = vread s w) \<and>
    (\<forall>j < sz. kmem s1 (elf + of_nat j) = m (elf + of_nat j))"
proof -
  define base hi lo where "base = p_vaddr t + p_memsz t" and "hi = unat lv + 4096 * pages_of (p_memsz t)" and "lo = unat USERSPACE_START_ADDR"
  let ?n = "p_filesz t" and ?src = "elf + p_offset t"
  note T = ok(2) [unfolded tls_ok_def]
  obtain own1 s1 m2 m3 where L: "load_pages lv (lv + p_memsz t) c s =
        Some (Some (lv + of_nat (4096 * pages_of (p_memsz t)), c + of_nat (pages_of (p_memsz t))), s1)"
      "vmemcpy (p_vaddr t) ?src (unat ?n) s1 = Some (s1\<lparr>kmem := m2\<rparr>)"
      "vwrites base (u64_bytes base) (s1\<lparr>kmem := m2\<rparr>) = Some (s1\<lparr>kmem := m3\<rparr>)"
      "seg_step own0 s0 own1 (s1\<lparr>kmem := m3\<rparr>) lo hi" "mmu.more s1 = mmu.more s"
      and V: "\<forall>w. lo \<le> unat w \<and> unat w < hi \<longrightarrow> vread (s1\<lparr>kmem := m3\<rparr>) w =
      (if unat base \<le> unat w \<and> unat w < unat base + 8 then Some (u64_bytes base ! (unat w - unat base))
       else if unat (p_vaddr t) \<le> unat w \<and> unat w < unat (p_vaddr t) + unat ?n
         then Some (kmem s0 (?src + of_nat (unat w - unat (p_vaddr t)))) else vread s1 w)"
      and V': "\<forall>w. lo \<le> unat w \<and> unat w < unat lv \<longrightarrow> vread s1 w = vread s w"
    using load_tls_space [OF seg lv ok(2) file_in_seg(1) [OF fin] fr, of c] unfolding base_def hi_def lo_def by blast
  obtain s' where D: "tls_setup elf task t (s1\<lparr>kmem := m2\<rparr>) = Some s'" "map_inv_own own1 s'" "hdrs s' = hdrs s1"
      "\<forall>a. ctx_rip (ctxReg (tcbs s' a)) = ctx_rip (ctxReg (tcbs s1 a))" "ctx_fs (ctxReg (tcb_of s' task)) = base"
      "tlsSize (pcb_of s' task) = p_memsz t"
      "\<forall>i < unat (p_memsz t). kmem s' (ogTLS (pcb_of s' task) + of_nat i) = (if i < unat ?n then m (?src + of_nat i) else 0)"
      "\<forall>w. lo \<le> unat w \<and> unat w < hi \<longrightarrow> vread s' w = vread (s1\<lparr>kmem := m3\<rparr>) w" "\<forall>j < sz. kmem s' (elf + of_nat j) = m (elf + of_nat j)"
    using tls_setup_done [OF L(4) ok(2) heap fin L(3) [unfolded base_def], of task] unfolding base_def by blast
  have ub: "unat base = unat (p_vaddr t) + unat (p_memsz t)" using T by (simp add: base_def unat_word_ariths)
  have "vread s' (p_vaddr t + of_nat i) = Some (m (?src + of_nat i))" if i: "i < unat ?n" for i
  proof -
    let ?w = "p_vaddr t + of_nat i"
    have iz: "i < unat (p_memsz t)" using i T by (simp add: word_le_nat_alt)
    have "unat ?w = unat (p_vaddr t) + i" using iz T by (simp add: unat_word_ariths unsigned_of_nat take_bit_nat_eq_self)
    then have "vread s' ?w = Some (kmem s0 (?src + of_nat i))" using D(8) V i iz T ub by (simp add: lo_def hi_def)
    then show ?thesis using file_in_seg(2) [OF fin i] by simp
  qed
  moreover have "vread s' (base + of_nat i) = Some (u64_bytes base ! i)" if i: "i < 8" for i
  proof -
    have "unat (base + of_nat i) = unat base + i" using i ub T by (simp add: unat_word_ariths unsigned_of_nat take_bit_nat_eq_self)
    then show ?thesis using D(8) V i T ub by (simp add: lo_def hi_def)
  qed
  ultimately have ready: "tls_ready m elf task t s'" using D(5,6,7) by (simp add: tls_ready_def base_def)
  have "vread s' w = vread s w" if "unat USERSPACE_START_ADDR \<le> unat w \<and> unat w < unat lv \<and> \<not> tls_written [t] w" for w
  proof -
    have w: "lo \<le> unat w" "unat w < unat lv" "unat w < hi" using that by (simp_all add: lo_def hi_def)
    have "\<not> within (p_vaddr t) ?n w" "\<not> within base 8 w" using that ok(1) by (simp_all add: tls_written_def base_def)
    then have o: "\<not> (unat base \<le> unat w \<and> unat w < unat base + 8)" "\<not> (unat (p_vaddr t) \<le> unat w \<and> unat w < unat (p_vaddr t) + unat ?n)"
      using within_range [of base 8 w] within_range [of "p_vaddr t" ?n w] ub T by (auto simp: word_le_nat_alt)
    have "vread s' w = vread (s1\<lparr>kmem := m3\<rparr>) w" using D(8) w by blast
    also have "\<dots> = vread s1 w" using V [rule_format, of w] w unfolding if_not_P [OF o(1)] if_not_P [OF o(2)] by blast
    also have "\<dots> = vread s w" using V' w by blast
    finally show ?thesis .
  qed
  moreover have "load_entry elf task t (lv, pg, c) s = Some (Some (pg, pg, c + of_nat (pages_of (p_memsz t))), s')"
    using ok(1) L(1,2) D(1) by (simp add: load_entry_def PT_TLS_def PT_NULL_def PT_LOAD_def)
  moreover have "hdrs s' = hdrs s" "\<forall>a. ctx_rip (ctxReg (tcbs s' a)) = ctx_rip (ctxReg (tcbs s a))"
    using D(3,4) tmgr_mmu_more [OF L(5)] by simp_all
  ultimately show ?thesis using ready D(2,9) by blast
qed

section \<open>All program headers\<close>

lemma phdr_loop_append:
  "phdr_loop elf task (xs @ ys) vars s =
     do { (r, s1) \<leftarrow> phdr_loop elf task xs vars s; case r of None \<Rightarrow> Some (None, s1) | Some v \<Rightarrow> phdr_loop elf task ys v s1 }"
proof (induction xs arbitrary: vars s)
  case (Cons x xs)
  then show ?case by (cases "load_entry elf task (get_Phdr (kmem s) x) vars s") (auto split: option.splits)
qed simp

lemma phdr_loop_others:
  assumes "\<forall>a \<in> set addrs. p_type (get_Phdr (kmem s) a) \<noteq> PT_LOAD \<and> p_type (get_Phdr (kmem s) a) \<noteq> PT_TLS"
  shows "\<exists>ws. phdr_loop elf task addrs vars s = Some (Some vars, s\<lparr>kout := ws\<rparr>)"
  using assms
proof (induction addrs arbitrary: s)
  case (Cons a addrs)
  obtain ws where ws: "load_entry elf task (get_Phdr (kmem s) a) vars s = Some (Some vars, s\<lparr>kout := ws\<rparr>)"
  proof (cases "p_type (get_Phdr (kmem s) a) = PT_NULL")
    case True
    then show ?thesis by (intro that [of "kout s"]) (simp add: load_entry_def split: prod.split)
  next
    case False
    then show ?thesis
      using Cons.prems that by (auto simp: load_entry_def kpwarn_def split: prod.splits)
  qed
  obtain vs where "phdr_loop elf task addrs vars (s\<lparr>kout := ws\<rparr>) = Some (Some vars, s\<lparr>kout := ws\<rparr>\<lparr>kout := vs\<rparr>)"
    using Cons.IH [of "s\<lparr>kout := ws\<rparr>"] Cons.prems by auto
  then show ?case using ws by (intro exI [of _ vs]) simp
next
  case Nil
  show ?case by (intro exI [of _ "kout s"]) simp
qed

lemma pages_append: "seg_pages (xs @ ys) = seg_pages xs + seg_pages ys" "tls_pages (xs @ ys) = tls_pages xs + tls_pages ys"
  by (induction xs) simp_all

lemma pages_none:
  "list_all (\<lambda>ph. p_type ph \<noteq> PT_LOAD \<and> p_type ph \<noteq> PT_TLS) phs \<Longrightarrow> seg_pages phs = 0 \<and> tls_pages phs = 0"
  by (induction phs) auto

lemma loads_ok_tls: "loads_ok base phs \<Longrightarrow> tls_pages phs = 0 \<and> (\<forall>ph \<in> set phs. p_type ph \<noteq> PT_TLS)"
  by (induction base phs rule: loads_ok.induct) (auto split: if_splits)

lemma loads_ok_range:
  "loads_ok base phs \<Longrightarrow> ph \<in> set phs \<Longrightarrow> p_type ph = PT_LOAD \<Longrightarrow>
    base \<le> unat (p_vaddr ph) \<and> unat (p_vaddr ph) + unat (p_filesz ph) \<le> base + 4096 * seg_pages phs"
proof (induction base phs rule: loads_ok.induct)
  case (2 base q phs)
  then show ?case by (auto split: if_splits)
qed simp

text \<open>The result of the loop: pages, bytes and the set-up of the thread-local storage.\<close>

definition program_loaded :: "mem \<Rightarrow> addr \<Rightarrow> addr \<Rightarrow> Elf64_Phdr list \<Rightarrow> 'a tmgr_scheme \<Rightarrow> bool" where
  "program_loaded m elf task phs s \<longleftrightarrow> map_inv s \<and>
     (\<forall>ph \<in> set phs. p_type ph = PT_LOAD \<longrightarrow> (\<forall>i < unat (p_filesz ph). \<not> tls_written phs (p_vaddr ph + of_nat i) \<longrightarrow>
        vread s (p_vaddr ph + of_nat i) = Some (m (elf + p_offset ph + of_nat i)))) \<and>
     (\<forall>t \<in> set phs. p_type t = PT_TLS \<longrightarrow> tls_ready m elf task t s)"

lemma get_Phdr_file:
  fixes a :: addr
  assumes "\<And>j. j < 56 \<Longrightarrow> \<exists>q < sz. a + of_nat j = elf + of_nat q" "\<And>j. j < sz \<Longrightarrow> m' (elf + of_nat j) = m (elf + of_nat j)"
  shows "get_Phdr m' a = get_Phdr m a"
proof (rule get_Phdr_cong)
  fix j :: nat assume "j < 56"
  then obtain q where "q < sz" "a + of_nat j = elf + of_nat q" using assms(1) by blast
  then show "m' (a + of_nat j) = m (a + of_nat j)" using assms(2) by simp
qed

lemma phdr_loop_program:
  fixes s :: "'a tmgr_scheme" and elf :: addr
  assumes inv: "map_inv_own own s" and fin: "file_in own s m elf sz"
    and ad: "\<And>a j. a \<in> set addrs \<Longrightarrow> j < 56 \<Longrightarrow> \<exists>q < sz. a + of_nat j = elf + of_nat q"
    and sf: "\<And>a. a \<in> set addrs \<Longrightarrow> seg_in_file (get_Phdr m a) sz" and lay: "layout_ok (map (get_Phdr m) addrs)"
    and fr: "4 * (seg_pages (map (get_Phdr m) addrs) + tls_pages (map (get_Phdr m) addrs)) \<le> pg_free_frames s"
    and heap: "\<forall>t \<in> set (map (get_Phdr m) addrs). p_type t = PT_TLS \<longrightarrow> tls_heap own s elf sz t"
  defines "phs \<equiv> map (get_Phdr m) addrs"
  shows "\<exists>s' pg'. phdr_loop elf task addrs (USERSPACE_START_ADDR, pg0, 0) s =
      Some (Some (USERSPACE_START_ADDR + of_nat (4096 * seg_pages phs), pg', of_nat (seg_pages phs + tls_pages phs)), s') \<and>
    program_loaded m elf task phs s' \<and> hdrs s' = hdrs s \<and> (\<forall>a. ctx_rip (ctxReg (tcbs s' a)) = ctx_rip (ctxReg (tcbs s a)))"
proof -
  define as bs where "as = takeWhile (\<lambda>a. p_type (get_Phdr m a) \<noteq> PT_TLS) addrs" and "bs = dropWhile (\<lambda>a. p_type (get_Phdr m a) \<noteq> PT_TLS) addrs"
  have addrs: "addrs = as @ bs" by (simp add: as_def bs_def)
  let ?ls = "map (get_Phdr m) as" and ?lv = "USERSPACE_START_ADDR + of_nat (4096 * seg_pages (map (get_Phdr m) as))"
  have tw: "takeWhile (\<lambda>ph. p_type ph \<noteq> PT_TLS) (map (get_Phdr m) addrs) = ?ls"
      "dropWhile (\<lambda>ph. p_type ph \<noteq> PT_TLS) (map (get_Phdr m) addrs) = map (get_Phdr m) bs"
    by (simp_all add: as_def bs_def takeWhile_map dropWhile_map comp_def)
  have lo: "loads_ok (unat USERSPACE_START_ADDR) ?ls" using lay by (simp add: layout_ok_def Let_def tw)
  have al: "unat USERSPACE_START_ADDR mod 4096 = 0" by (simp add: USERSPACE_START_ADDR_def)
  define k where "k = 4 * tls_pages (map (get_Phdr m) bs)"
  have fr': "4 * seg_pages ?ls + k \<le> pg_free_frames s" using fr by (simp add: addrs pages_append k_def)
  have sub: "a \<in> set as \<Longrightarrow> a \<in> set addrs" "a \<in> set bs \<Longrightarrow> a \<in> set addrs" for a by (simp_all add: addrs)
  define pg1 where "pg1 = (if list_ex (\<lambda>a. p_type (get_Phdr m a) = PT_LOAD) as then ?lv else pg0)"
  obtain own1 s1 where L: "phdr_loop elf task as (USERSPACE_START_ADDR, pg0, 0) s = Some (Some (?lv, pg1, of_nat (seg_pages ?ls)), s1)"
      "seg_step own s own1 s1 (unat USERSPACE_START_ADDR) (unat USERSPACE_START_ADDR + 4096 * seg_pages ?ls)" "k \<le> pg_free_frames s1"
      "\<forall>a \<in> set as. seg_loaded own1 s1 m elf (get_Phdr m a)"
    using phdr_loop_loads [OF inv fin ad [OF sub(1)] sf [OF sub(1)] al lo fr', of task pg0 0] unfolding pg1_def by auto
  note more = tmgr_mmu_more [OF seg_step_more [OF L(2)]]
  have lv: "unat ?lv = unat USERSPACE_START_ADDR + 4096 * seg_pages ?ls"
    using seg_pages_layout [OF lo] by (simp add: unat_word_ariths unsigned_of_nat take_bit_nat_eq_self USERSPACE_START_ADDR_def)
  have ld: "vread s1 (p_vaddr ph + of_nat i) = Some (m (elf + p_offset ph + of_nat i))"
      "unat USERSPACE_START_ADDR \<le> unat (p_vaddr ph + of_nat i)" "unat (p_vaddr ph + of_nat i) < unat ?lv"
    if "ph \<in> set ?ls" "p_type ph = PT_LOAD" "i < unat (p_filesz ph)" for ph i
  proof -
    show "vread s1 (p_vaddr ph + of_nat i) = Some (m (elf + p_offset ph + of_nat i))"
      using L(4) that by (fastforce simp: seg_loaded_def vholds_def vread_def)
    have r: "unat USERSPACE_START_ADDR \<le> unat (p_vaddr ph)" "unat (p_vaddr ph) + unat (p_filesz ph) \<le> unat ?lv"
      using loads_ok_range [OF lo that(1,2)] lv by simp_all
    then have "unat (p_vaddr ph + of_nat i) = unat (p_vaddr ph) + i"
      using that(3) unat_u64_less [of ?lv] by (simp add: unat_word_ariths unsigned_of_nat take_bit_nat_eq_self)
    then show "unat USERSPACE_START_ADDR \<le> unat (p_vaddr ph + of_nat i)" "unat (p_vaddr ph + of_nat i) < unat ?lv"
      using r that(3) by simp_all
  qed
  show ?thesis
  proof (cases bs)
    case Nil
    have "map_inv s1" using L(2) by (auto simp: map_inv_def seg_step_def)
    then have "program_loaded m elf task phs s1"
      using ld loads_ok_tls [OF lo] addrs Nil by (auto simp: program_loaded_def phs_def)
    then show ?thesis using L(1) more addrs Nil loads_ok_tls [OF lo] by (auto simp: phs_def)
  next
    case (Cons b rest)
    let ?t = "get_Phdr m b" and ?rs = "map (get_Phdr m) rest"
    have t: "p_type ?t = PT_TLS" using Cons hd_dropWhile [of "\<lambda>a. p_type (get_Phdr m a) \<noteq> PT_TLS" addrs] by (simp add: bs_def)
    have R: "list_ex (\<lambda>ph. p_type ph = PT_LOAD) ?ls" "tls_ok (unat ?lv) ?t"
        "list_all (\<lambda>ph. p_type ph \<noteq> PT_LOAD \<and> p_type ph \<noteq> PT_TLS) ?rs"
      unfolding lv using lay by (simp_all add: layout_ok_def Let_def tw Cons)
    have pg: "pg1 = ?lv" using R(1) by (simp add: pg1_def list_ex_iff)
    have n: "seg_pages phs = seg_pages ?ls" "tls_pages phs = pages_of (p_memsz ?t)" "k = 4 * pages_of (p_memsz ?t)"
      using pages_none [OF R(3)] loads_ok_tls [OF lo] t by (simp_all add: phs_def addrs Cons pages_append k_def PT_LOAD_def PT_TLS_def)
    have in_phs: "?t \<in> set phs" "b \<in> set addrs" by (simp_all add: phs_def addrs Cons)
    have seg: "seg_step own s own1 s1 (unat USERSPACE_START_ADDR) (unat ?lv)" using L(2) lv by simp
    have th: "tls_heap own s elf sz ?t" using heap t in_phs by (simp add: phs_def)
    obtain own2 s2 where E: "load_entry elf task ?t (?lv, pg1, of_nat (seg_pages ?ls)) s1 =
          Some (Some (pg1, pg1, of_nat (seg_pages ?ls) + of_nat (pages_of (p_memsz ?t))), s2)"
        "map_inv_own own2 s2" "tls_ready m elf task ?t s2" "hdrs s2 = hdrs s1" "\<forall>a. ctx_rip (ctxReg (tcbs s2 a)) = ctx_rip (ctxReg (tcbs s1 a))"
        "\<forall>w. unat USERSPACE_START_ADDR \<le> unat w \<and> unat w < unat ?lv \<and> \<not> tls_written [?t] w \<longrightarrow> vread s2 w = vread s1 w"
        "\<forall>j < sz. kmem s2 (elf + of_nat j) = m (elf + of_nat j)"
      using load_tls [OF seg _ _ t R(2) fin sf [OF in_phs(2)] L(3) [unfolded n(3)] th, of task pg1 "of_nat (seg_pages ?ls)"] lv al by auto
    have ph1: "get_Phdr (kmem s1) b = ?t"
      by (rule get_Phdr_file [OF ad [OF in_phs(2)]]) (use file_in_kept [OF fin L(2)] in \<open>simp_all add: file_in_def\<close>)
    have ph2: "get_Phdr (kmem s2) a = get_Phdr m a" if "a \<in> set rest" for a
      by (rule get_Phdr_file [OF ad]) (use that E(7) in \<open>simp_all add: addrs Cons\<close>)
    obtain ws where O: "phdr_loop elf task rest (pg1, pg1, of_nat (seg_pages ?ls) + of_nat (pages_of (p_memsz ?t))) s2 =
        Some (Some (pg1, pg1, of_nat (seg_pages ?ls) + of_nat (pages_of (p_memsz ?t))), s2\<lparr>kout := ws\<rparr>)"
      using phdr_loop_others [of rest s2 elf task] R(3) ph2 by (fastforce simp: list_all_iff)
    let ?s = "s2\<lparr>kout := ws\<rparr>"
    have tr: "tls_ready m elf task ?t ?s" using E(3) by (simp add: tls_ready_def vread_def translate_def)
    have "map_inv ?s" using E(2) mmu_fields_cong(1) [of ?s s2 own2] by (auto simp: map_inv_def)
    moreover have "vread ?s (p_vaddr ph + of_nat i) = Some (m (elf + p_offset ph + of_nat i))"
      if "ph \<in> set phs" "p_type ph = PT_LOAD" "i < unat (p_filesz ph)" "\<not> tls_written phs (p_vaddr ph + of_nat i)" for ph i
    proof -
      have ph: "ph \<in> set ?ls" using that(1,2) t R(3) by (auto simp: phs_def addrs Cons list_all_iff PT_LOAD_def PT_TLS_def)
      have "\<not> tls_written [?t] (p_vaddr ph + of_nat i)" using that(4) in_phs(1) by (auto simp: tls_written_def list_ex_iff)
      then show ?thesis using ld [OF ph that(2,3)] E(6) by (simp add: vread_def translate_def)
    qed
    moreover have "ph = ?t" if "ph \<in> set phs" "p_type ph = PT_TLS" for ph
      using that R(3) loads_ok_tls [OF lo] by (auto simp: phs_def addrs Cons list_all_iff)
    ultimately have "program_loaded m elf task phs ?s" using tr unfolding program_loaded_def by blast
    moreover have "phdr_loop elf task addrs (USERSPACE_START_ADDR, pg0, 0) s =
        Some (Some (?lv, pg1, of_nat (seg_pages phs + tls_pages phs)), ?s)"
      using L(1) E(1) O ph1 pg by (simp add: addrs Cons phdr_loop_append n)
    ultimately show ?thesis using E(4,5) more n(1) by (intro exI [of _ ?s] exI [of _ pg1]) simp
  qed
qed

text \<open>
  A well-formed file of \<open>sz\<close> bytes: the header is one the loader accepts, the program headers and
  the segments lie in the file, and the segments are laid out from the start of user space.
\<close>

definition elf_file_ok :: "mem \<Rightarrow> addr \<Rightarrow> nat \<Rightarrow> bool" where
  "elf_file_ok m elf sz \<longleftrightarrow> elf_header_ok (get_Ehdr m elf) \<and>
     unat (e_phoff (get_Ehdr m elf)) + 56 * unat (e_phnum (get_Ehdr m elf)) \<le> sz \<and>
     (\<forall>ph \<in> set (phdrs_of m elf). seg_in_file ph sz) \<and> layout_ok (phdrs_of m elf)"

lemma phdrs_at_in:
  assumes "unat (e_phoff (get_Ehdr m elf)) + 56 * unat (e_phnum (get_Ehdr m elf)) \<le> sz" "a \<in> set (phdrs_at m elf)" "j < 56"
  shows "\<exists>q < sz. a + of_nat j = elf + of_nat q"
proof -
  obtain i where i: "i < unat (e_phnum (get_Ehdr m elf))" "a = elf + e_phoff (get_Ehdr m elf) + sizeof_Phdr * of_nat i"
    using assms(2) by (auto simp: phdrs_at_def)
  let ?q = "unat (e_phoff (get_Ehdr m elf)) + 56 * i + j"
  have "?q < sz" using assms(1,3) i(1) by linarith
  moreover have "a + of_nat j = elf + of_nat ?q" using i(2) by (simp add: sizeof_Phdr_def algebra_simps)
  ultimately show ?thesis by blast
qed

lemma loadELF_accepts:
  assumes "elf_header_ok (get_Ehdr (kmem s) elf)"
  shows "loadELF pg0 elf task s = loadPHDR pg0 elf task
    (upd_tcb (TCB (hdrs s task)) (\<lambda>t. t\<lparr>ctxReg := (ctxReg t)\<lparr>ctx_rip := e_entry (get_Ehdr (kmem s) elf)\<rparr>\<rparr>) s)"
proof -
  have l: "6 \<le> length (e_ident (get_Ehdr (kmem s) elf))" by (simp add: get_Ehdr_def EI_NIDENT_def)
  have "e_ident (get_Ehdr (kmem s) elf) ! i = [0x7f, 0x45, 0x4c, 0x46, 2, 1] ! i" if "i < 6" for i
    using assms that l unfolding elf_header_ok_def by (metis nth_take)
  from this [of 0] this [of 1] this [of 2] this [of 3] this [of 4] this [of 5] assms show ?thesis
    by (simp add: loadELF_def elf_header_ok_def EI_MAG0_def EI_MAG1_def EI_MAG2_def EI_MAG3_def EI_CLASS_def EI_DATA_def
        EI_OSABI_def ELFCLASS64_def ELFDATA2LSB_def ELFOSABI_SYSV_def ET_EXEC_def)
qed

text \<open>
  A file with any other header is refused: the result is NULL and only a warning is printed.
\<close>

lemma loadELF_rejects:
  assumes "\<not> elf_header_ok (get_Ehdr (kmem s) elf)"
  shows "\<exists>msg. loadELF pg0 elf task s = Some (0, kpwarn msg s)"
proof -
  have l: "length (e_ident (get_Ehdr (kmem s) elf)) = 16" by (simp add: get_Ehdr_def EI_NIDENT_def)
  have "take 6 xs = [xs ! 0, xs ! 1, xs ! 2, xs ! 3, xs ! 4, xs ! 5]" if "length xs = 16" for xs :: "u8 list"
    using that by (intro nth_equalityI) (auto simp: less_Suc_eq numeral_eq_Suc)
  from this [OF l] assms show ?thesis
    by (auto simp add: loadELF_def elf_header_ok_def EI_MAG0_def EI_MAG1_def EI_MAG2_def EI_MAG3_def EI_CLASS_def EI_DATA_def
        EI_OSABI_def ELFCLASS64_def ELFDATA2LSB_def ELFOSABI_SYSV_def ET_EXEC_def Let_def)
qed

lemma program_loaded_hdr:
  assumes "program_loaded m elf task phs s" "\<And>h. TCB (f h) = TCB h" "\<And>h. PCB (f h) = PCB h"
  shows "program_loaded m elf task phs (upd_hdr a f s)"
proof -
  have "vread (upd_hdr a f s) w = vread s w" for w by (simp add: vread_def upd_hdr_keeps)
  moreover have "pcbs (upd_hdr a f s) = pcbs s" "TCB (hdrs (upd_hdr a f s) t) = TCB (hdrs s t)" "PCB (hdrs (upd_hdr a f s) t) = PCB (hdrs s t)" for t
    using assms(2,3) by (simp_all add: upd_hdr_def)
  moreover have "map_inv (upd_hdr a f s) = map_inv s" by (simp add: map_inv_def upd_hdr_keeps)
  ultimately show ?thesis using assms(1) by (simp add: program_loaded_def tls_ready_def upd_hdr_keeps)
qed

section \<open>Properties of the loader\<close>

text \<open>
  C1. An executable whose segments are laid out as the loader needs it is loaded, with its thread-local storage. The loader
  returns the first address behind the loadable segments. Every byte of the file that belongs to a loadable segment
  can then be read at its virtual address through the page tables, whose invariant holds again, unless the set-up of the
  thread-local storage writes to that address. If there is a segment of thread-local storage, its image is in place,
  \<open>fs\<close> points behind the storage to a word that holds this very address, and the size and a copy of the image, filled up
  with zeros, are kept for the threads of the process. The thread starts at the entry point of the file, and the estimate
  of the task is the number of pages, cut to a byte. The layout (\<open>layout_ok\<close>): the loadable segments lie back to back, page by page, from
  \<open>USERSPACE_START_ADDR\<close> on, and at most one segment of thread-local storage follows them, inside the pages mapped so far together
  with its own. The file lies in data pages, there are four free frames for each page,
  and the heap serves the copy from its top. Nothing is said of the bytes of a segment that are not in the file,
  which the loader does not clear.
\<close>

theorem loadELF_loads:
  fixes s :: "'a tmgr_scheme"
  assumes inv: "map_inv_own own s" and ok: "elf_file_ok (kmem s) elf sz"
    and src: "\<forall>j < sz. data_page own s ((elf + of_nat j) div PAGE_SIZE)"
    and fr: "4 * (seg_pages (phdrs_of (kmem s) elf) + tls_pages (phdrs_of (kmem s) elf)) \<le> pg_free_frames s"
    and heap: "\<forall>t \<in> set (phdrs_of (kmem s) elf). p_type t = PT_TLS \<longrightarrow> tls_heap own s elf sz t"
  shows "\<exists>s'. loadELF pg0 elf task s = Some (USERSPACE_START_ADDR + of_nat (4096 * seg_pages (phdrs_of (kmem s) elf)), s') \<and>
    map_inv s' \<and>
    (\<forall>ph \<in> set (phdrs_of (kmem s) elf). p_type ph = PT_LOAD \<longrightarrow> (\<forall>i < unat (p_filesz ph).
       \<not> tls_written (phdrs_of (kmem s) elf) (p_vaddr ph + of_nat i) \<longrightarrow>
       vread s' (p_vaddr ph + of_nat i) = Some (kmem s (elf + p_offset ph + of_nat i)))) \<and>
    (\<forall>t \<in> set (phdrs_of (kmem s) elf). p_type t = PT_TLS \<longrightarrow> tls_ready (kmem s) elf task t s') \<and>
    ctx_rip (ctxReg (tcb_of s' task)) = e_entry (get_Ehdr (kmem s) elf) \<and>
    estimate (hdrs s' task) = ucast (of_nat (seg_pages (phdrs_of (kmem s) elf) + tls_pages (phdrs_of (kmem s) elf)) :: u8)"
proof -
  let ?m = "kmem s" and ?phs = "phdrs_of (kmem s) elf"
  define s1 where "s1 = upd_tcb (TCB (hdrs s task)) (\<lambda>t. t\<lparr>ctxReg := (ctxReg t)\<lparr>ctx_rip := e_entry (get_Ehdr ?m elf)\<rparr>\<rparr>) s"
  have f: "kmem s1 = kmem s" "topChunk s1 = topChunk s" "bucket s1 = bucket s" "hdrs s1 = hdrs s" by (simp_all add: s1_def upd_tcb_def)
  have inv1: "map_inv_own own s1" using inv by (simp add: s1_def upd_tcb_keeps)
  have fil: "file_in own s1 ?m elf sz" using src by (simp add: file_in_def s1_def upd_tcb_keeps)
  have o: "unat (e_phoff (get_Ehdr ?m elf)) + 56 * unat (e_phnum (get_Ehdr ?m elf)) \<le> sz"
      "\<And>a. a \<in> set (phdrs_at ?m elf) \<Longrightarrow> seg_in_file (get_Phdr ?m a) sz" "layout_ok (map (get_Phdr ?m) (phdrs_at ?m elf))"
    using ok by (auto simp: elf_file_ok_def phdrs_of_def)
  have fr1: "4 * (seg_pages (map (get_Phdr ?m) (phdrs_at ?m elf)) + tls_pages (map (get_Phdr ?m) (phdrs_at ?m elf))) \<le> pg_free_frames s1"
    using fr by (simp add: s1_def upd_tcb_keeps phdrs_of_def)
  have "tls_heap own s1 elf sz t = tls_heap own s elf sz t" for t
    using f by (simp add: tls_heap_def heap_room_def s1_def upd_tcb_keeps)
  then have hp: "\<forall>t \<in> set (map (get_Phdr ?m) (phdrs_at ?m elf)). p_type t = PT_TLS \<longrightarrow> tls_heap own s1 elf sz t"
    using heap by (simp add: phdrs_of_def)
  obtain s2 pg' where L: "phdr_loop elf task (phdrs_at ?m elf) (USERSPACE_START_ADDR, pg0, 0) s1 =
        Some (Some (USERSPACE_START_ADDR + of_nat (4096 * seg_pages ?phs), pg', of_nat (seg_pages ?phs + tls_pages ?phs)), s2)"
      "program_loaded ?m elf task ?phs s2" "hdrs s2 = hdrs s1" "\<forall>a. ctx_rip (ctxReg (tcbs s2 a)) = ctx_rip (ctxReg (tcbs s1 a))"
    using phdr_loop_program [OF inv1 fil phdrs_at_in [OF o(1)] o(2,3) fr1 hp, of task pg0] by (auto simp: phdrs_of_def)
  define s' where "s' = upd_hdr task (\<lambda>h. h\<lparr>estimate := ucast (of_nat (seg_pages ?phs + tls_pages ?phs) :: u8)\<rparr>) s2"
  have "loadELF pg0 elf task s = Some (USERSPACE_START_ADDR + of_nat (4096 * seg_pages ?phs), s')"
    using loadELF_accepts [of s elf pg0 task] ok L(1) f(1)
    by (simp add: elf_file_ok_def loadPHDR_def s1_def [symmetric] s'_def)
  moreover have "program_loaded ?m elf task ?phs s'" using L(2) unfolding s'_def by (rule program_loaded_hdr) simp_all
  moreover have "ctx_rip (ctxReg (tcb_of s' task)) = e_entry (get_Ehdr ?m elf)"
    using L(3,4) by (simp add: s'_def upd_hdr_def s1_def upd_tcb_def)
  moreover have "estimate (hdrs s' task) = ucast (of_nat (seg_pages ?phs + tls_pages ?phs) :: u8)" by (simp add: s'_def upd_hdr_def)
  ultimately show ?thesis unfolding program_loaded_def by blast
qed

section \<open>A small executable\<close>

text \<open>
  A machine of 520 frames with an empty root table at \<open>0x1000\<close>, the bit map at \<open>0x2000\<close> and the first frame of the heap
  in use, and a file of 180 bytes at \<open>0x100\<close>: a header, a loadable segment of three bytes, a segment of thread-local storage of
  eight bytes, of which the file has one, and the four bytes of contents.
\<close>

definition demo_elf :: "byte list" where
  "demo_elf = [0x7f, 0x45, 0x4c, 0x46, 2, 1, 1, 0] @ replicate 8 0 @ [2, 0, 0x3e, 0, 1, 0, 0, 0] @
     [0, 0, 0, 0x70, 0, 0, 0, 0] @ [64, 0, 0, 0, 0, 0, 0, 0] @ replicate 8 0 @ replicate 4 0 @
     [64, 0, 56, 0, 2, 0, 0, 0, 0, 0, 0, 0] @
     [1, 0, 0, 0, 5, 0, 0, 0] @ [176, 0, 0, 0, 0, 0, 0, 0] @ [0, 0, 0, 0x70, 0, 0, 0, 0] @ [0, 0, 0, 0x70, 0, 0, 0, 0] @
     [3, 0, 0, 0, 0, 0, 0, 0] @ [3, 0, 0, 0, 0, 0, 0, 0] @ [0, 0x10, 0, 0, 0, 0, 0, 0] @
     [7, 0, 0, 0, 4, 0, 0, 0] @ [179, 0, 0, 0, 0, 0, 0, 0] @ [0x10, 0, 0, 0x70, 0, 0, 0, 0] @ [0x10, 0, 0, 0x70, 0, 0, 0, 0] @
     [1, 0, 0, 0, 0, 0, 0, 0] @ [8, 0, 0, 0, 0, 0, 0, 0] @ [8, 0, 0, 0, 0, 0, 0, 0] @
     [0x90, 0xeb, 0xfe, 0x2a]"

definition mmu_load :: mmu where
  "mmu_load = \<lparr>kmem = (\<lambda>_. 0)(0x2000 := 0xe0, 0x2040 := 0x80), kout = [], topChunk = KPKHEAP_START,
     bucket = replicate KPKBUCKET_SIZE LinkedList, freeMem = 0x204000, usedMem = 0x4000,
     memRegionCount = 1, PgsMap = \<lparr>bm_length = 65, bm_buffer = 0x2000\<rparr>, bitmapIdx = 3,
     PML4 = 0x1000, userPD = 0\<rparr>"

definition demo_load :: tmgr where
  "demo_load = mmu.extend (mmu_load\<lparr>kmem := puts_at 0x100 demo_elf (kmem mmu_load)\<rparr>)
     \<lparr>tasks = replicate 255 0, tasksCount = 0, kernelPHdr = 0, tasksToReap = LinkedList, tasksToLoad = LinkedList,
      threadsQue = replicate 16 LinkedList, hdrs = \<lambda>_. zero_Hdr, tcbs = \<lambda>_. zero_TCB, pcbs = \<lambda>_. zero_PCB\<rparr>"

lemma demo_elf_length: "length demo_elf = 180" by (simp add: demo_elf_def)

lemma mmu_load_used:
  "pg_used mmu_load 0" "pg_used mmu_load 1" "pg_used mmu_load 2" "pg_used mmu_load 0x200"
  "\<not> pg_used mmu_load 3" "\<not> pg_used mmu_load 4" "\<not> pg_used mmu_load 5" "\<not> pg_used mmu_load 6"
  "\<not> pg_used mmu_load 7" "\<not> pg_used mmu_load 8" "\<not> pg_used mmu_load 9" "\<not> pg_used mmu_load 10"
  by (simp_all add: pg_used_def mmu_load_def BitMap_get_def bitIdx_def)

lemma mmu_load_free: "8 \<le> pg_free_frames mmu_load"
proof -
  have "{3, 4, 5, 6, 7, 8, 9, 10} \<subseteq> {j. j < pg_lim mmu_load \<and> \<not> pg_used mmu_load j}"
    using mmu_load_used by (simp add: mmu_load_def)
  then have "card {3 :: u64, 4, 5, 6, 7, 8, 9, 10} \<le> pg_free_frames mmu_load"
    unfolding pg_free_frames_def by (intro card_mono) simp_all
  then show ?thesis by simp
qed

lemma mmu_load_map: "pg_lim mmu_load = 520" "bm_buffer (PgsMap mmu_load) = 0x2000" "i \<le> 520 \<Longrightarrow> (0x2000 + i div 8 :: u64) div PAGE_SIZE = 2"
proof -
  show "pg_lim mmu_load = 520" "bm_buffer (PgsMap mmu_load) = 0x2000" by (simp_all add: mmu_load_def)
  assume "i \<le> 520"
  then have "unat i \<le> 520" by (simp add: word_le_nat_alt)
  then have d: "unat (i div 8) \<le> 65" by (simp add: unat_div)
  then have "unat (0x2000 + i div 8) = 0x2000 + unat (i div 8)" by (simp add: unat_word_ariths)
  then show "(0x2000 + i div 8) div PAGE_SIZE = 2" using d by (simp add: word_unat_eq_iff unat_div PAGE_SIZE_def)
qed

lemma mmu_load_inv_own: "map_inv_own [0x1000 \<mapsto> []] mmu_load"
proof -
  let ?own = "[0x1000 \<mapsto> []] :: addr \<Rightarrow> u64 list option"
  have "unat j < 3 \<Longrightarrow> unat j = 0 \<or> unat j = 1 \<or> unat j = 2" for j :: u64 by linarith
  then have "j < 3 \<Longrightarrow> j = 0 \<or> j = 1 \<or> j = 2" for j :: u64 by (simp add: word_less_nat_alt word_unat_eq_iff)
  then have h: "pg_hint mmu_load" using mmu_load_used by (auto simp: pg_hint_def mmu_load_def)
  have "read64 (kmem mmu_load) (entry_addr 0x1000 i) = 0" if "i < 512" for i
    by (rule read64_zero [OF _ that]) (auto simp: mmu_load_def PAGE_SIZE_def)
  then have tb: "tables (kmem mmu_load) ?own (PML4 mmu_load)" by (auto simp: tables_def PAGE_SIZE_def mmu_load_def)
  show ?thesis
    unfolding map_inv_own_def Let_def mmu_load_map(1,2)
  proof (intro conjI)
    show "\<forall>t \<in> dom ?own. t div PAGE_SIZE \<le> 520 \<and> pg_used mmu_load (t div PAGE_SIZE)"
      using mmu_load_used(2) by (simp add: PAGE_SIZE_def)
    show "\<forall>i \<le> 520. (0x2000 + i div 8) div PAGE_SIZE \<le> 520 \<and> pg_used mmu_load ((0x2000 + i div 8) div PAGE_SIZE) \<and>
        (\<forall>t \<in> dom ?own. t div PAGE_SIZE \<noteq> (0x2000 + i div 8) div PAGE_SIZE)"
      using mmu_load_map(3) mmu_load_used(3) by (simp add: PAGE_SIZE_def)
  qed (use h mmu_load_used(1) tb in \<open>simp_all add: mmu_load_def\<close>)
qed

lemma mmu_load_pages: "data_page [0x1000 \<mapsto> []] mmu_load 0" "data_page [0x1000 \<mapsto> []] mmu_load 0x200"
  using mmu_load_used(1,4) mmu_load_map(3) unfolding data_page_def mmu_load_map(1,2) by (auto simp: PAGE_SIZE_def)

lemma demo_low: "unat (x - 0x100 :: addr) < 180 \<Longrightarrow> x div PAGE_SIZE = 0"
proof -
  assume a: "unat (x - 0x100) < 180"
  have "unat (0x100 + (x - 0x100)) = 0x100 + unat (x - 0x100)"
    using a by (subst unat_word_ariths) simp
  then have "unat x < 4096" using a by simp
  then show ?thesis by (simp add: word_unat_eq_iff unat_div PAGE_SIZE_def)
qed

lemma demo_load_ok:
  "map_inv_own [0x1000 \<mapsto> []] demo_load" "data_page [0x1000 \<mapsto> []] demo_load 0" "8 \<le> pg_free_frames demo_load"
  "data_page [0x1000 \<mapsto> []] demo_load 0x200"
proof -
  let ?s = "mmu_load\<lparr>kmem := puts_at 0x100 demo_elf (kmem mmu_load)\<rparr>"
  have f: "kmem demo_load = kmem ?s" "PgsMap demo_load = PgsMap ?s" "bitmapIdx demo_load = bitmapIdx ?s" "PML4 demo_load = PML4 ?s"
    by (simp_all add: demo_load_def mmu.extend_def)
  have w: "puts_at 0x100 demo_elf (kmem mmu_load) x = kmem mmu_load x" if "\<not> data_page [0x1000 \<mapsto> []] mmu_load (x div PAGE_SIZE)" for x
    using that demo_low [of x] mmu_load_pages(1) by (auto simp: puts_at_nth demo_elf_length)
  note d = data_write [OF mmu_load_inv_own]
  show "map_inv_own [0x1000 \<mapsto> []] demo_load"
    unfolding mmu_fields_cong(1) [OF f] by (rule d(1)) (erule w)
  have dp: "data_page [0x1000 \<mapsto> []] demo_load pg = data_page [0x1000 \<mapsto> []] mmu_load pg" for pg
    unfolding mmu_fields_cong(2) [OF f] by (rule d(3)) (erule w)
  show "data_page [0x1000 \<mapsto> []] demo_load 0" "data_page [0x1000 \<mapsto> []] demo_load 0x200" using mmu_load_pages dp by simp_all
  show "8 \<le> pg_free_frames demo_load"
    unfolding mmu_fields_cong(3) [OF f] using mmu_load_free by (subst d(4)) (erule w)
qed

lemma demo_bytes: "j < 180 \<Longrightarrow> kmem demo_load (0x100 + of_nat j) = demo_elf ! j"
  by (simp add: demo_load_def mmu.extend_def puts_at_nth demo_elf_length unsigned_of_nat take_bit_nat_eq_self)

primrec bytes_le :: "byte list \<Rightarrow> nat" where
  "bytes_le [] = 0"
| "bytes_le (b # bs) = unat b + 256 * bytes_le bs"

lemma read_le_list:
  fixes a :: addr
  assumes "\<And>j. j < length xs \<Longrightarrow> m (a + of_nat j) = xs ! j" "k + n \<le> length xs"
  shows "read_le n m (a + of_nat k) = bytes_le (take n (drop k xs))"
  using assms(2)
proof (induction n arbitrary: k)
  case (Suc n)
  then have "take (Suc n) (drop k xs) = xs ! k # take n (drop (Suc k) xs)" by (simp add: Cons_nth_drop_Suc [symmetric])
  moreover have "a + of_nat k + 1 = a + of_nat (Suc k)" by simp
  ultimately show ?case using Suc.IH [of "Suc k"] Suc.prems assms(1) [of k] by (simp add: ac_simps)
qed simp

lemma demo_read:
  "k + 8 \<le> 180 \<Longrightarrow> read64 (kmem demo_load) (0x100 + of_nat k) = of_nat (bytes_le (take 8 (drop k demo_elf)))"
  "k + 4 \<le> 180 \<Longrightarrow> read32 (kmem demo_load) (0x100 + of_nat k) = of_nat (bytes_le (take 4 (drop k demo_elf)))"
  "k + 2 \<le> 180 \<Longrightarrow> read16 (kmem demo_load) (0x100 + of_nat k) = of_nat (bytes_le (take 2 (drop k demo_elf)))"
  using read_le_list [of demo_elf "kmem demo_load" "0x100" k] demo_bytes
  by (simp_all add: read64_def read32_def read16_def demo_elf_length)

lemma demo_header:
  "e_phoff (get_Ehdr (kmem demo_load) 0x100) = 64" "e_phnum (get_Ehdr (kmem demo_load) 0x100) = 2"
  "e_entry (get_Ehdr (kmem demo_load) 0x100) = 0x70000000" "elf_header_ok (get_Ehdr (kmem demo_load) 0x100)"
proof -
  show "e_phoff (get_Ehdr (kmem demo_load) 0x100) = 64" using demo_read(1) [of 32] by (simp add: get_Ehdr_def demo_elf_def)
  show "e_phnum (get_Ehdr (kmem demo_load) 0x100) = 2" using demo_read(3) [of 56] by (simp add: get_Ehdr_def demo_elf_def)
  show "e_entry (get_Ehdr (kmem demo_load) 0x100) = 0x70000000" using demo_read(1) [of 24] by (simp add: get_Ehdr_def demo_elf_def)
  have "e_ident (get_Ehdr (kmem demo_load) 0x100) = take 16 demo_elf"
    by (rule nth_equalityI) (simp_all add: get_Ehdr_def EI_NIDENT_def demo_elf_length demo_bytes)
  moreover have "e_type (get_Ehdr (kmem demo_load) 0x100) = 2" using demo_read(3) [of 16] by (simp add: get_Ehdr_def demo_elf_def)
  ultimately show "elf_header_ok (get_Ehdr (kmem demo_load) 0x100)" by (simp add: elf_header_ok_def demo_elf_def)
qed

definition demo_segment :: Elf64_Phdr where
  "demo_segment = \<lparr>p_type = 1, p_flags = 5, p_offset = 176, p_vaddr = 0x70000000, p_paddr = 0x70000000,
     p_filesz = 3, p_memsz = 3, p_align = 0x1000\<rparr>"

definition demo_storage :: Elf64_Phdr where
  "demo_storage = \<lparr>p_type = 7, p_flags = 4, p_offset = 179, p_vaddr = 0x70000010, p_paddr = 0x70000010,
     p_filesz = 1, p_memsz = 8, p_align = 8\<rparr>"

lemma demo_phdr: "phdrs_of (kmem demo_load) 0x100 = [demo_segment, demo_storage]"
proof -
  have "phdrs_at (kmem demo_load) 0x100 = [0x140, 0x178]" by (simp add: phdrs_at_def demo_header sizeof_Phdr_def upt_conv_Cons)
  moreover have "get_Phdr (kmem demo_load) 0x140 = demo_segment"
    using demo_read(2) [of 64] demo_read(2) [of 68] demo_read(1) [of 72] demo_read(1) [of 80] demo_read(1) [of 88]
      demo_read(1) [of 96] demo_read(1) [of 104] demo_read(1) [of 112]
    by (simp add: get_Phdr_def demo_elf_def demo_segment_def)
  moreover have "get_Phdr (kmem demo_load) 0x178 = demo_storage"
    using demo_read(2) [of 120] demo_read(2) [of 124] demo_read(1) [of 128] demo_read(1) [of 136] demo_read(1) [of 144]
      demo_read(1) [of 152] demo_read(1) [of 160] demo_read(1) [of 168]
    by (simp add: get_Phdr_def demo_elf_def demo_storage_def)
  ultimately show ?thesis by (simp add: phdrs_of_def)
qed

lemma demo_heap: "tls_heap [0x1000 \<mapsto> []] demo_load 0x100 180 demo_storage"
proof -
  have c: "size_class 8 = Some 0"
    by (simp add: size_class_def alignSize_def msb_def lsb_def bucket_index_def bsr_nat.simps bsf_nat.simps MIN_CHUNK_SIZE_def)
  have top: "topChunk demo_load = 0x200000" "bucket demo_load = replicate 21 LinkedList"
    by (simp_all add: demo_load_def mmu.extend_def mmu_load_def KPKHEAP_START_def KPKBUCKET_SIZE_def)
  have r: "heap_room {0} 40 demo_load"
    by (simp add: heap_room_def top LinkedList_def KPKBUCKET_SIZE_def KPKHEAP_START_def KPKHEAP_END_def)
  have "data_page [0x1000 \<mapsto> []] demo_load (x div PAGE_SIZE) \<and> (\<forall>j < 180. x \<noteq> 0x100 + of_nat j)" if "within 0x200000 40 x" for x
  proof -
    have x: "0x200000 \<le> unat x" "unat x < 0x200000 + 40" using that within_range [of "0x200000" 40 x] by simp_all
    then have "unat (x div PAGE_SIZE) = 0x200" by (simp add: unat_div PAGE_SIZE_def)
    then have "x div PAGE_SIZE = 0x200" by (simp add: word_unat_eq_iff)
    moreover have "x \<noteq> 0x100 + of_nat j" if "j < 180" for j
    proof
      assume "x = 0x100 + of_nat j"
      then have "unat x = 0x100 + j" using that by (simp add: unat_word_ariths unsigned_of_nat take_bit_nat_eq_self)
      then show False using x that by simp
    qed
    ultimately show ?thesis using demo_load_ok(4) by simp
  qed
  then show ?thesis using c r by (simp add: tls_heap_def top demo_storage_def)
qed

theorem loadELF_loads_witness:
  "\<exists>s'. loadELF 0 0x100 0 demo_load = Some (0x70001000, s') \<and> vread s' 0x70000002 = Some 0xfe \<and> vread s' 0x70000010 = Some 0x2a \<and>
     vread s' 0x70000018 = Some 0x18 \<and> ctx_fs (ctxReg (tcb_of s' 0)) = 0x70000018 \<and> estimate (hdrs s' 0) = 2"
proof -
  have pg: "data_page [0x1000 \<mapsto> []] demo_load ((0x100 + of_nat j) div PAGE_SIZE)" if "j < 180" for j
    using demo_low [of "0x100 + of_nat j"] that demo_load_ok(2) by (simp add: unsigned_of_nat take_bit_nat_eq_self)
  note segs = demo_segment_def demo_storage_def PT_LOAD_def PT_TLS_def
  have n: "seg_pages (phdrs_of (kmem demo_load) 0x100) = 1" "tls_pages (phdrs_of (kmem demo_load) 0x100) = 1"
    by (simp_all add: demo_phdr segs pages_of_def)
  have ok: "elf_file_ok (kmem demo_load) 0x100 180"
    by (simp add: elf_file_ok_def demo_header demo_phdr seg_in_file_def layout_ok_def tls_ok_def segs USERSPACE_START_ADDR_def pages_of_def)
  have hp: "\<forall>t \<in> set (phdrs_of (kmem demo_load) 0x100). p_type t = PT_TLS \<longrightarrow> tls_heap [0x1000 \<mapsto> []] demo_load 0x100 180 t"
    using demo_heap by (simp add: demo_phdr demo_segment_def PT_TLS_def)
  obtain s' where s': "loadELF 0 0x100 0 demo_load = Some (USERSPACE_START_ADDR + of_nat (4096 * 1), s')"
      "\<forall>ph \<in> set (phdrs_of (kmem demo_load) 0x100). p_type ph = PT_LOAD \<longrightarrow> (\<forall>i < unat (p_filesz ph).
        \<not> tls_written (phdrs_of (kmem demo_load) 0x100) (p_vaddr ph + of_nat i) \<longrightarrow>
        vread s' (p_vaddr ph + of_nat i) = Some (kmem demo_load (0x100 + p_offset ph + of_nat i)))"
      "\<forall>t \<in> set (phdrs_of (kmem demo_load) 0x100). p_type t = PT_TLS \<longrightarrow> tls_ready (kmem demo_load) 0x100 0 t s'"
      "estimate (hdrs s' 0) = ucast (of_nat (1 + 1) :: u8)"
    using loadELF_loads [OF demo_load_ok(1) ok _ _ hp, of 0 0] pg demo_load_ok(3) unfolding n by auto
  have "\<not> tls_written [demo_segment, demo_storage] 0x70000002" by (simp add: tls_written_def segs within_def)
  then have "vread s' (0x70000000 + of_nat 2) = Some (kmem demo_load (0x1b0 + of_nat 2))"
    using s'(2) [unfolded demo_phdr, rule_format, of demo_segment 2] by (simp add: segs)
  then have a: "vread s' 0x70000002 = Some 0xfe" using demo_bytes [of 178] by (simp add: demo_elf_def nth_append)
  have r: "tls_ready (kmem demo_load) 0x100 0 demo_storage s'" using s'(3) by (simp add: demo_phdr segs)
  have "vread s' 0x70000010 = Some (kmem demo_load 0x1b3)" "vread s' 0x70000018 = Some (u64_bytes 0x70000018 ! 0)"
      "ctx_fs (ctxReg (tcb_of s' 0)) = 0x70000018"
    using r by (auto simp: tls_ready_def Let_def demo_storage_def dest: spec [of _ 0])
  then show ?thesis using s'(1,4) a demo_bytes [of 179] by (simp add: USERSPACE_START_ADDR_def demo_elf_def u64_bytes_def nth_append)
qed

end
