(* ===== verification/Process.thy ===== *)
theory Process
  imports Elf Filesystem
begin

text \<open>
  Creation of processes and threads, the two \<open>createTask\<close> of \<open>src/src/kernel/task/task.cpp\<close>: the
  command line is split with \<open>strtok\<close>, the executable is read through the virtual file system and
  loaded, and the new thread gets its stack, its arguments and its place in the task table and the
  queues.

  The file system and the task manager share memory and heap: a step of the one is a step of the
  combined state. User addresses go through the page tables of the current address space, and
  \<open>None\<close> is a page fault, a failed \<open>CATCH_FIRE\<close> or a loop that never ends.
\<close>

section \<open>State\<close>

record 'd kernel = tmgr +
  kfs :: "'d fs_state"

definition to_fs :: "('d, 'z) kernel_scheme \<Rightarrow> 'd fs_state" where
  "to_fs s = (kfs s)\<lparr>kmem := kmem s, kout := kout s, topChunk := topChunk s, bucket := bucket s\<rparr>"

definition from_fs :: "'d fs_state \<Rightarrow> ('d, 'z) kernel_scheme \<Rightarrow> ('d, 'z) kernel_scheme" where
  "from_fs f s = s\<lparr>kmem := kmem f, kout := kout f, topChunk := topChunk f, bucket := bucket f, kfs := f\<rparr>"

definition on_fs ::
    "('d fs_state \<Rightarrow> ('r \<times> 'd fs_state) option) \<Rightarrow> ('d, 'z) kernel_scheme \<Rightarrow> ('r \<times> ('d, 'z) kernel_scheme) option" where
  "on_fs f s = do { (r, t) \<leftarrow> f (to_fs s); Some (r, from_fs t s) }"

text \<open>The addresses of the locals of \<open>createTask\<close>: the copy of the command line and the delimiter.\<close>

record proc_addrs =
  at_args :: addr
  at_filter :: addr

section \<open>Virtual memory\<close>

text \<open>\<open>memcpy\<close> from a virtual address to kernel memory.\<close>

primrec vcopy_in :: "addr \<Rightarrow> addr \<Rightarrow> nat \<Rightarrow> 'a mmu_scheme \<Rightarrow> 'a mmu_scheme option" where
  "vcopy_in destAddr srcAddr 0 s = Some s"
| "vcopy_in destAddr srcAddr (Suc n) s =
     do { b \<leftarrow> vread s srcAddr; vcopy_in (destAddr + 1) (srcAddr + 1) n (s\<lparr>kmem := (kmem s)(destAddr := b)\<rparr>) }"

text \<open>\<open>memcpy\<close> between virtual addresses, and \<open>strncpy\<close> from kernel memory to a virtual address.\<close>

primrec vvmemcpy :: "addr \<Rightarrow> addr \<Rightarrow> nat \<Rightarrow> 'a mmu_scheme \<Rightarrow> 'a mmu_scheme option" where
  "vvmemcpy destAddr srcAddr 0 s = Some s"
| "vvmemcpy destAddr srcAddr (Suc n) s =
     do { b \<leftarrow> vread s srcAddr; s1 \<leftarrow> vwrite destAddr b s; vvmemcpy (destAddr + 1) (srcAddr + 1) n s1 }"

primrec vstrncpy :: "addr \<Rightarrow> addr \<Rightarrow> nat \<Rightarrow> 'a mmu_scheme \<Rightarrow> 'a mmu_scheme option" where
  "vstrncpy stringDst stringSrc 0 s = Some s"
| "vstrncpy stringDst stringSrc (Suc n) s =
     (if kmem s stringSrc \<noteq> 0
      then do { s1 \<leftarrow> vwrite stringDst (kmem s stringSrc) s; vstrncpy (stringDst + 1) (stringSrc + 1) n s1 }
      else Some s)"

partial_function (option) vstrlen_loop :: "'a mmu_scheme \<Rightarrow> addr \<Rightarrow> u64 \<Rightarrow> u64 option" where
  "vstrlen_loop s string len =
     do { b \<leftarrow> vread s (string + len); if b \<noteq> 0 then vstrlen_loop s string (len + 1) else Some len }"

definition vstrlen :: "'a mmu_scheme \<Rightarrow> addr \<Rightarrow> u64 option" where
  "vstrlen s string = vstrlen_loop s string 0"

text \<open>\<open>strtok\<close> on a string at a virtual address, with the delimiters in kernel memory.\<close>

partial_function (option) vstrtok_loop :: "'a mmu_scheme \<Rightarrow> addr \<Rightarrow> addr \<Rightarrow> addr option option" where
  "vstrtok_loop s delim str =
     do { b \<leftarrow> vread s str;
          if b \<noteq> 0
          then do { d \<leftarrow> delim_loop (kmem s) delim b 0; if d then Some (Some str) else vstrtok_loop s delim (str + 1) }
          else Some None }"

definition set_strtok :: "addr \<Rightarrow> ('d, 'z) kernel_scheme \<Rightarrow> ('d, 'z) kernel_scheme" where
  "set_strtok e s = s\<lparr>kfs := (kfs s)\<lparr>strtok_end := e\<rparr>\<rparr>"

definition vstrtok :: "addr \<Rightarrow> addr \<Rightarrow> ('d, 'z) kernel_scheme \<Rightarrow> (addr \<times> ('d, 'z) kernel_scheme) option" where
  "vstrtok str delim s =
     do { b \<leftarrow> (if str \<noteq> 0 then vread s str else Some 1);
          if str \<noteq> 0 \<and> b = 0 then Some (0, s)
          else if str = 0 \<and> strtok_end (kfs s) = 0 then Some (0, s)
          else do { let start = (if str \<noteq> 0 then str else strtok_end (kfs s) + 1);
                    r \<leftarrow> vstrtok_loop s delim start;
                    case r of
                      Some hit \<Rightarrow> do { s1 \<leftarrow> vwrite hit 0 s; Some (start, set_strtok hit s1) }
                    | None \<Rightarrow> Some (start, set_strtok 0 s) } }"

section \<open>Threads\<close>

text \<open>One page for the address space of \<open>pcb\<close>, mapped at its \<open>lastVaddr\<close>, which moves on.\<close>

definition thread_page :: "addr \<Rightarrow> u64 \<Rightarrow> 'a tmgr_scheme \<Rightarrow> 'a tmgr_scheme" where
  "thread_page pcb flags s =
     (let (pg, s1) = PgMgr_reqPg s;
          s2 = mapPg (lastVaddr (pcbs s1 pcb)) pg flags s1
      in upd_pcb pcb (\<lambda>p. p\<lparr>lastVaddr := lastVaddr p + PAGE_SIZE\<rparr>) s2)"

partial_function (option) tls_loop :: "addr \<Rightarrow> u64 \<Rightarrow> u64 \<Rightarrow> 'a tmgr_scheme \<Rightarrow> 'a tmgr_scheme option" where
  "tls_loop pcb flags i s =
     (if i * PAGE_SIZE < tlsSize (pcbs s pcb) then tls_loop pcb flags (i + 1) (thread_page pcb flags s) else Some s)"

text \<open>The words of the argument string, copied one behind the other from \<open>argv0\<close> on.\<close>

partial_function (option) thread_words ::
    "addr \<Rightarrow> addr \<Rightarrow> addr \<Rightarrow> u32 \<Rightarrow> ('d, 'z) kernel_scheme \<Rightarrow> (addr \<times> u32 \<times> ('d, 'z) kernel_scheme) option" where
  "thread_words filt arg argv0 cnt s =
     (if arg \<noteq> 0
      then do { len \<leftarrow> vstrlen s arg;
                s1 \<leftarrow> vvmemcpy argv0 arg (unat len) s;
                (arg1, s2) \<leftarrow> vstrtok 0 filt s1;
                thread_words filt arg1 (argv0 + len + 1) (cnt + 1) s2 }
      else Some (argv0, cnt, s))"

text \<open>The vector of pointers to the words, at \<open>vec\<close>: \<open>n\<close> words follow each other from \<open>argv0\<close> on.\<close>

primrec word_vector :: "addr \<Rightarrow> addr \<Rightarrow> nat \<Rightarrow> 'a mmu_scheme \<Rightarrow> 'a mmu_scheme option" where
  "word_vector vec argv0 0 s = Some s"
| "word_vector vec argv0 (Suc n) s =
     do { s1 \<leftarrow> vwrites vec (u64_bytes argv0) s;
          len \<leftarrow> vstrlen s1 argv0;
          word_vector (vec + 8) (argv0 + len + 1) n s1 }"

definition thread_args ::
    "proc_addrs \<Rightarrow> addr \<Rightarrow> u64 \<Rightarrow> addr \<Rightarrow> addr \<Rightarrow> ('d, 'z) kernel_scheme \<Rightarrow> ('d, 'z) kernel_scheme option" where
  "thread_args L args flags tcb pcb s =
     do { (arg, s1) \<leftarrow> vstrtok args (at_filter L) s;
          let (pg, s2) = PgMgr_reqPg s1;
          let base = lastVaddr (pcbs s2 pcb);
          let s3 = mapPg base pg flags s2;
          (vec, cnt, s4) \<leftarrow> thread_words (at_filter L) arg base 0 s3;
          let s5 = upd_tcb tcb (\<lambda>t. t\<lparr>argc := cnt, argv := vec\<rparr>) s4;
          s6 \<leftarrow> word_vector vec base (unat cnt) s5;
          Some (upd_pcb pcb (\<lambda>p. p\<lparr>lastVaddr := lastVaddr p + PAGE_SIZE\<rparr>) s6) }"

text \<open>The copy of the thread-local storage of the process: lines 422 to 435.\<close>

definition thread_tls :: "u64 \<Rightarrow> addr \<Rightarrow> addr \<Rightarrow> 'a tmgr_scheme \<Rightarrow> 'a tmgr_scheme option" where
  "thread_tls flags tcb pcb s =
     (if ogTLS (pcbs s pcb) \<noteq> 0 \<and> tlsSize (pcbs s pcb) > 0
      then do { let base = lastVaddr (pcbs s pcb);
                s1 \<leftarrow> tls_loop pcb flags 0 s;
                s2 \<leftarrow> vmemcpy base (ogTLS (pcbs s1 pcb)) (unat (tlsSize (pcbs s1 pcb))) s1;
                let fs = base + tlsSize (pcbs s2 pcb);
                vwrites fs (u64_bytes fs) (upd_tcb tcb (\<lambda>t. t\<lparr>ctxReg := (ctxReg t)\<lparr>ctx_fs := fs\<rparr>\<rparr>) s2) }
      else Some s)"

text \<open>The stack with the call of \<open>exit\<close> on it, and the entry in the table: lines 399 to 419.\<close>

definition thread_stack :: "u64 \<Rightarrow> addr \<Rightarrow> addr \<Rightarrow> addr \<Rightarrow> 'a tmgr_scheme \<Rightarrow> 'a tmgr_scheme option" where
  "thread_stack flags task tcb pcb s =
     do { let s1 = thread_page pcb flags s;
          let stk = lastVaddr (pcbs s1 pcb) - 32;
          s2 \<leftarrow> vwrites stk (u64_bytes (stk + 8)) s1;
          s3 \<leftarrow> vwrites (stk + 8) threadEnd s2;
          let new = tasksCount s3;
          Some (upd_tcb tcb (\<lambda>t. t\<lparr>stack := stk, tid := new, tcb_statusEnd := False,
                      ctxReg := (ctxReg t)\<lparr>ctx_rsp := stk, ctx_rbp := stk, ctx_gs := task\<rparr>\<rparr>)
                  (s3\<lparr>tasksCount := new + 1, tasks := (tasks s3)[unat new := task]\<rparr>)) }"

text \<open>The registers, the thread's own copy of the process header, the queue: lines 437 to 462.\<close>

definition thread_finish ::
    "addr \<Rightarrow> addr \<Rightarrow> u64 \<Rightarrow> u32 \<Rightarrow> addr \<Rightarrow> addr \<Rightarrow> addr \<Rightarrow> 'a tmgr_scheme \<Rightarrow> (u8 \<times> 'a tmgr_scheme) option" where
  "thread_finish loader func flags est task tcb pcb s =
     do { let s1 = upd_tcb tcb (\<lambda>t. t\<lparr>ctxReg := (ctxReg t)\<lparr>ctx_rdi := scast (argc t), ctx_rsi := argv t, ctx_rip := func\<rparr>\<rparr>)
                     (thread_page pcb flags s);
          (npcb, s2) \<leftarrow> kpkZalloc sizeof_ProcessHdr s1;
          _ \<leftarrow> CATCH_FIRE (npcb = 0);
          let s3 = upd_hdr task (\<lambda>h. h\<lparr>PCB := npcb, estimate := est\<rparr>)
                     (s2\<lparr>pcbs := (pcbs s2)(npcb := (pcbs s2 pcb)\<lparr>pd := read64 (kmem s2) (userPD_slot s2)\<rparr>)\<rparr>);
          s4 \<leftarrow> (if func = loader then push_thread 0 (tid (tcbs s3 tcb)) s3 else push_load (tid (tcbs s3 tcb)) s3);
          Some (tid (tcbs s4 tcb), s4) }"

text \<open>The headers of the thread with the segments of its privilege level: lines 350 to 369.\<close>

definition thread_header :: "u8 \<Rightarrow> addr \<Rightarrow> 'a tmgr_scheme \<Rightarrow> (addr \<times> addr \<times> 'a tmgr_scheme) option" where
  "thread_header dpl pcb s =
     do { (task, s1) \<leftarrow> kpkZalloc sizeof_TaskHeader s;
          _ \<leftarrow> CATCH_FIRE (task = 0);
          (tcb, s2) \<leftarrow> kpkZalloc sizeof_ThreadHdr s1;
          _ \<leftarrow> CATCH_FIRE (tcb = 0);
          Some (task, tcb, s2\<lparr>hdrs := (hdrs s2)(task := zero_Hdr\<lparr>TCB := tcb, PCB := pcb\<rparr>),
            tcbs := (tcbs s2)(tcb := zero_TCB\<lparr>ctxReg := zero_ctx\<lparr>ctx_ss := (if dpl = 3 then USER_DATA else KERNEL_DATA),
                      ctx_cs := (if dpl = 3 then USER_CODE else KERNEL_CODE)\<rparr>\<rparr>)\<rparr>) }"

text \<open>\<open>createTask(func, dpl, args, PCB)\<close>. The parameter \<open>loader\<close> is the address of that function.\<close>

definition createThread ::
    "proc_addrs \<Rightarrow> addr \<Rightarrow> addr \<Rightarrow> u8 \<Rightarrow> addr \<Rightarrow> addr \<Rightarrow> ('d, 'z) kernel_scheme \<Rightarrow> (u8 \<times> ('d, 'z) kernel_scheme) option" where
  "createThread L loader func dpl args pcb s =
     (if unat (tasksCount s) = MAX_TASKS_COUNT
      then Some (0, kpwarn ''Maximum tasks reached! Retry again later!'' s)
      else
      do { let s0 = set_userPD (pd (pcbs s pcb)) s;
           let s1 = s0\<lparr>kmem := (kmem s0)(at_filter L := 0x20, at_filter L + 1 := 0)\<rparr>;
           (task, tcb, s2) \<leftarrow> thread_header dpl pcb s1;
           let flags = (if dpl = 3 then PDE_P OR PDE_R OR PDE_U else PDE_P OR PDE_R);
           s3 \<leftarrow> (if args \<noteq> 0 then thread_args L args flags tcb pcb s2 else Some s2);
           s4 \<leftarrow> thread_stack flags task tcb pcb s3;
           s5 \<leftarrow> thread_tls flags tcb pcb s4;
           let pgCount = (if args \<noteq> 0 then 3 else 2);
           thread_finish loader func flags (push_bit 2 pgCount) task tcb pcb s5 })"

section \<open>Processes\<close>

text \<open>The arguments of the command line; at the end of them the source takes the length of NULL.\<close>

partial_function (option) process_words ::
    "addr \<Rightarrow> addr \<Rightarrow> u64 \<Rightarrow> addr \<Rightarrow> u32 \<Rightarrow> ('d, 'z) kernel_scheme \<Rightarrow> (addr \<times> u32 \<times> ('d, 'z) kernel_scheme) option" where
  "process_words filt arg argSize lastV cnt s =
     (if arg \<noteq> 0
      then do { s1 \<leftarrow> vstrncpy lastV arg (unat argSize) s;
                (arg1, s2) \<leftarrow> on_fs (strtok_st 0 filt) s1;
                argSize1 \<leftarrow> strlen (kmem s2) arg1;
                process_words filt arg1 argSize1 (lastV + argSize + 1) (cnt + 1) s2 }
      else Some (lastV, cnt, s))"

text \<open>The headers and the table entry of the new task: lines 258 to 288.\<close>

definition process_header ::
    "addr \<Rightarrow> u8 \<Rightarrow> u8 \<Rightarrow> addr \<Rightarrow> addr \<Rightarrow> 'a tmgr_scheme \<Rightarrow> 'a tmgr_scheme" where
  "process_header task dpl ppid0 lastV arg s =
     (let new = tasksCount s;
          s1 = upd_tcb (TCB (hdrs s task)) (\<lambda>t. t\<lparr>stack := lastV, tid := new, tcb_statusEnd := False,
                 ctxReg := (ctxReg t)\<lparr>ctx_ss := (if dpl = 3 then USER_DATA else KERNEL_DATA),
                   ctx_cs := (if dpl = 3 then USER_CODE else KERNEL_CODE), ctx_rsp := lastV, ctx_rbp := lastV, ctx_gs := task\<rparr>\<rparr>) s;
          s2 = upd_pcb (PCB (hdrs s task)) (\<lambda>p. p\<lparr>pd := read64 (kmem s) (userPD_slot s), ppid := ppid0, pid := new,
                 pcb_statusEnd := False, filename := map (\<lambda>i. kmem s (arg + of_nat i)) [0..<15]\<rparr>) s1
      in s2\<lparr>tasksCount := new + 1, tasks := (tasks s2)[unat new := task]\<rparr>)"

text \<open>The argument page and the arguments: lines 290 to 322.\<close>

definition process_args ::
    "proc_addrs \<Rightarrow> addr \<Rightarrow> addr \<Rightarrow> ('d, 'z) kernel_scheme \<Rightarrow> ('d, 'z) kernel_scheme option" where
  "process_args L task lastV s =
     do { let (pg, s1) = PgMgr_reqPg s;
          let s2 = mapPg lastV pg (PDE_P OR PDE_R OR PDE_U) s1;
          let s3 = upd_pcb (PCB (hdrs s2 task)) (\<lambda>p. p\<lparr>lastVaddr := lastV + PAGE_SIZE\<rparr>) s2;
          len \<leftarrow> strlen (kmem s3) (at_args L);
          (arg, s4) \<leftarrow> on_fs (strtok_st (at_args L + len + 1) (at_filter L)) s3;
          argSize \<leftarrow> strlen (kmem s4) arg;
          (vec, cnt, s5) \<leftarrow> process_words (at_filter L) arg argSize lastV 0 s4;
          s6 \<leftarrow> word_vector vec lastV (unat cnt) s5;
          Some (upd_tcb (TCB (hdrs s6 task)) (\<lambda>t. t\<lparr>argv := vec, argc := cnt,
                 ctxReg := (ctxReg t)\<lparr>ctx_rdi := scast cnt, ctx_rsi := vec\<rparr>\<rparr>) s6) }"

text \<open>The structures of the task, zeroed: lines 229 to 236.\<close>

definition alloc_task :: "'a tmgr_scheme \<Rightarrow> (addr \<times> 'a tmgr_scheme) option" where
  "alloc_task s =
     do { (task, s1) \<leftarrow> kpkZalloc sizeof_TaskHeader s;
          _ \<leftarrow> CATCH_FIRE (task = 0);
          (tcb, s2) \<leftarrow> kpkZalloc sizeof_ThreadHdr s1;
          _ \<leftarrow> CATCH_FIRE (tcb = 0);
          (pcb, s3) \<leftarrow> kpkZalloc sizeof_ProcessHdr s2;
          _ \<leftarrow> CATCH_FIRE (pcb = 0);
          Some (task, s3\<lparr>hdrs := (hdrs s3)(task := zero_Hdr\<lparr>TCB := tcb, PCB := pcb\<rparr>),
                  tcbs := (tcbs s3)(tcb := zero_TCB), pcbs := (pcbs s3)(pcb := zero_PCB)\<rparr>) }"

text \<open>From the open file on: lines 226 to 330.\<close>

definition start_process ::
    "'d ports \<Rightarrow> fs_addrs \<Rightarrow> proc_addrs \<Rightarrow> addr \<Rightarrow> int \<Rightarrow> addr \<Rightarrow> u8 \<Rightarrow> u8 \<Rightarrow> ('d, 'z) kernel_scheme \<Rightarrow>
      (int \<times> ('d, 'z) kernel_scheme) option" where
  "start_process P A L pg0 fd arg dpl ppid0 s =
     do { (st, s1) \<leftarrow> on_fs (kfstat fd) s;
          _ \<leftarrow> CATCH_FIRE (st = 0);
          (task, s2) \<leftarrow> alloc_task s1;
          (buffer, s3) \<leftarrow> kpkZalloc (ucast (st_size (stats (kfs s2) st) + 65535)) s2;
          _ \<leftarrow> CATCH_FIRE (buffer = 0);
          (n, s4) \<leftarrow> on_fs (kfread P A fd buffer (ucast (st_size (stats (kfs s3) st)))) s3;
          let oldPD = read64 (kmem s4) (userPD_slot s4);
          let s5 = set_userPD 0 s4;
          (lastV, s6) \<leftarrow> loadELF pg0 buffer task s5;
          _ \<leftarrow> CATCH_FIRE (lastV = 0);
          s7 \<leftarrow> kpkFree buffer s6;
          (r, s8) \<leftarrow> on_fs (kfclose fd) s7;
          let (pg, s9) = PgMgr_reqPg s8;
          let s10 = mapPg lastV pg (PDE_P OR PDE_R OR PDE_U) s9;
          let s11 = process_header task dpl ppid0 (lastV + PAGE_SIZE) arg s10;
          s12 \<leftarrow> process_args L task (lastV + PAGE_SIZE) s11;
          let s13 = set_userPD oldPD s12;
          s14 \<leftarrow> push_thread 0 (tid (tcb_of s13 task)) s13;
          Some (uint (tid (tcb_of s14 task)), s14) }"

text \<open>\<open>createTask(args, dpl, ppid)\<close>.\<close>

definition createProcess ::
    "'d ports \<Rightarrow> fs_addrs \<Rightarrow> proc_addrs \<Rightarrow> addr \<Rightarrow> addr \<Rightarrow> u8 \<Rightarrow> u8 \<Rightarrow> ('d, 'z) kernel_scheme \<Rightarrow>
      (int \<times> ('d, 'z) kernel_scheme) option" where
  "createProcess P A L pg0 args dpl ppid0 s =
     (if unat (tasksCount s) = MAX_TASKS_COUNT
      then Some (- 1, kpwarn ''Maximum tasks reached! Retry again later!'' s)
      else do { s1 \<leftarrow> vcopy_in (at_args L) args 100 (s\<lparr>kmem := (kmem s)(at_filter L := 0x20, at_filter L + 1 := 0)\<rparr>);
                (arg, s2) \<leftarrow> on_fs (strtok_st (at_args L) (at_filter L)) s1;
                if arg = 0 then Some (- 1, kpwarn ''Incorrect executable/task name!'' s2)
                else do { (fd, s3) \<leftarrow> on_fs (kfopen P A arg) s2;
                          if fd < 0 then Some (- 1, kpwarn ''No such ELF!'' s3)
                          else start_process P A L pg0 fd arg dpl ppid0 s3 } })"

section \<open>What the steps keep\<close>

text \<open>
  The task table and what identifies a task: its slot, its headers, its ids and its privilege.
\<close>

definition keeps :: "'a tmgr_scheme \<Rightarrow> 'a tmgr_scheme \<Rightarrow> bool" where
  "keeps s s' \<longleftrightarrow> tasks s' = tasks s \<and> tasksCount s' = tasksCount s \<and>
     (\<forall>t. TCB (hdrs s' t) = TCB (hdrs s t) \<and> PCB (hdrs s' t) = PCB (hdrs s t)) \<and>
     (\<forall>a. tid (tcbs s' a) = tid (tcbs s a) \<and> ctx_cs (ctxReg (tcbs s' a)) = ctx_cs (ctxReg (tcbs s a)) \<and>
          ctx_ss (ctxReg (tcbs s' a)) = ctx_ss (ctxReg (tcbs s a)) \<and> ctx_gs (ctxReg (tcbs s' a)) = ctx_gs (ctxReg (tcbs s a))) \<and>
     (\<forall>a. pid (pcbs s' a) = pid (pcbs s a) \<and> ppid (pcbs s' a) = ppid (pcbs s a))"

lemma keeps_refl [simp, intro]: "keeps s s"
  by (simp add: keeps_def)

lemma keeps_trans [trans]: "keeps s s1 \<Longrightarrow> keeps s1 s2 \<Longrightarrow> keeps s s2"
  by (simp add: keeps_def)

lemma keeps_mmu: "mmu.more s' = mmu.more s \<Longrightarrow> keeps s (s' :: 'a tmgr_scheme)"
  by (cases s; cases s'; simp add: keeps_def)

lemma keeps_heap: "heap.more s' = heap.more s \<Longrightarrow> keeps s (s' :: 'a tmgr_scheme)"
  by (cases s; cases s'; simp add: keeps_def)

lemma keeps_kmem [simp]: "keeps s (s\<lparr>kmem := m\<rparr>)"
  by (simp add: keeps_def)

lemma keeps_kpwarn [simp]: "keeps s (kpwarn msg s)"
  by (simp add: keeps_def kpwarn_def)

lemma keeps_set_userPD [simp]: "keeps s (set_userPD p s)"
  by (simp add: set_userPD_def)

lemma keeps_from_fs [simp]: "keeps s (from_fs f s)"
  by (simp add: keeps_def from_fs_def)

lemma keeps_on_fs: "on_fs f s = Some (r, s') \<Longrightarrow> keeps s s'"
  by (auto simp: on_fs_def bind_eq_Some_conv)

lemma keeps_zalloc: "kpkZalloc n s = Some (p, s') \<Longrightarrow> keeps s (s' :: 'a tmgr_scheme)"
  by (rule keeps_heap) (rule kpkZalloc_frame)

lemma keeps_free: "kpkFree p s = Some s' \<Longrightarrow> keeps s (s' :: 'a tmgr_scheme)"
  by (rule keeps_heap) (rule kpkFree_frame)

lemma keeps_reqPg: "PgMgr_reqPg s = (p, s') \<Longrightarrow> keeps s (s' :: 'a tmgr_scheme)"
  using reqPg_more [of s] by (intro keeps_mmu) (simp add: PgMgr_reqPg_def)

lemma mapPg_more: "mmu.more (mapPg v p f s) = mmu.more s"
  by (simp add: mapPg_def Let_def walkLevel_more)

lemma keeps_mapPg [simp]: "keeps s (mapPg v p f s)"
  by (intro keeps_mmu mapPg_more)

lemma keeps_vwrite: "vwrite v b s = Some s' \<Longrightarrow> keeps s s'"
  by (auto simp: vwrite_def)

lemma keeps_vwrites: "vwrites v bs s = Some s' \<Longrightarrow> keeps s s'"
proof (induction bs arbitrary: v s)
  case (Cons b bs)
  then obtain s1 where "vwrite v b s = Some s1" "vwrites (v + 1) bs s1 = Some s'" by (auto simp: bind_eq_Some_conv)
  then show ?case using Cons.IH keeps_vwrite keeps_trans by blast
qed simp

lemma keeps_vmemcpy: "vmemcpy d a n s = Some s' \<Longrightarrow> keeps s s'"
proof (induction n arbitrary: d a s)
  case (Suc n)
  then obtain s1 where "vwrite d (kmem s a) s = Some s1" "vmemcpy (d + 1) (a + 1) n s1 = Some s'" by (auto simp: bind_eq_Some_conv)
  then show ?case using Suc.IH keeps_vwrite keeps_trans by blast
qed simp

lemma keeps_vcopy_in: "vcopy_in d a n s = Some s' \<Longrightarrow> keeps s s'"
proof (induction n arbitrary: d a s)
  case (Suc n)
  then obtain b where "vcopy_in (d + 1) (a + 1) n (s\<lparr>kmem := (kmem s)(d := b)\<rparr>) = Some s'" by (auto simp: bind_eq_Some_conv)
  then show ?case using Suc.IH keeps_kmem keeps_trans by blast
qed simp

lemma keeps_vstrncpy: "vstrncpy d a n s = Some s' \<Longrightarrow> keeps s s'"
proof (induction n arbitrary: d a s)
  case (Suc n)
  show ?case
  proof (cases "kmem s a = 0")
    case False
    then obtain s1 where "vwrite d (kmem s a) s = Some s1" "vstrncpy (d + 1) (a + 1) n s1 = Some s'"
      using Suc.prems by (auto simp: bind_eq_Some_conv)
    then show ?thesis using Suc.IH keeps_vwrite keeps_trans by blast
  qed (use Suc.prems in simp)
qed simp

lemma keeps_word_vector: "word_vector vec a n s = Some s' \<Longrightarrow> keeps s s'"
proof (induction n arbitrary: vec a s)
  case (Suc n)
  then obtain s1 len where "vwrites vec (u64_bytes a) s = Some s1" "word_vector (vec + 8) (a + len + 1) n s1 = Some s'"
    by (auto simp: bind_eq_Some_conv)
  then show ?case using Suc.IH keeps_vwrites keeps_trans by blast
qed simp

lemma keeps_load_pages:
  fixes s :: "'a tmgr_scheme"
  assumes "load_pages pg lim c s = Some (r, s')"
  shows "keeps s s'"
proof -
  have "keeps s (snd (r, s'))"
  proof (rule load_pages.raw_induct [where P = "\<lambda>pg lim c s y. keeps s (snd y)", OF _ assms])
    fix f :: "addr \<Rightarrow> addr \<Rightarrow> u8 \<Rightarrow> 'a tmgr_scheme \<Rightarrow> ((addr \<times> u8) option \<times> 'a tmgr_scheme) option"
      and pg lim c and s :: "'a tmgr_scheme" and y
    assume ih: "\<And>pg lim c s y. f pg lim c s = Some y \<Longrightarrow> keeps s (snd y)"
      and b: "(if pg < lim then let (p, s1) = PgMgr_reqPg s in if p = 0 then Some (None, kpwarn ''No more available pages!'' s1)
         else f (pg + PAGE_SIZE) lim (c + 1) (mapPg pg p (PDE_P OR PDE_R OR PDE_U) s1) else Some (Some (pg, c), s)) = Some y"
    obtain p s1 where p: "PgMgr_reqPg s = (p, s1)" by fastforce
    show "keeps s (snd y)"
    proof (cases "pg < lim \<and> p \<noteq> 0")
      case True
      then have "keeps (mapPg pg p (PDE_P OR PDE_R OR PDE_U) s1) (snd y)" using b p ih by simp
      then show ?thesis by (rule keeps_trans [OF keeps_trans [OF keeps_reqPg [OF p] keeps_mapPg]])
    next
      case False
      then have "snd y = s \<or> snd y = kpwarn ''No more available pages!'' s1" using b p by (auto split: if_splits)
      then show ?thesis using keeps_trans [OF keeps_reqPg [OF p] keeps_kpwarn] by auto
    qed
  qed
  then show ?thesis by simp
qed

lemma keeps_process_words:
  fixes s :: "('d, 'z) kernel_scheme"
  assumes "process_words filt arg n v cnt s = Some (v', cnt', s')"
  shows "keeps s s'"
proof -
  have "keeps s (snd (snd (v', cnt', s')))"
  proof (rule process_words.raw_induct [where P = "\<lambda>filt arg n v cnt s y. keeps s (snd (snd y))", OF _ assms])
    fix f :: "addr \<Rightarrow> addr \<Rightarrow> u64 \<Rightarrow> addr \<Rightarrow> u32 \<Rightarrow> ('d, 'z) kernel_scheme \<Rightarrow> (addr \<times> u32 \<times> ('d, 'z) kernel_scheme) option"
      and filt arg n v cnt and s :: "('d, 'z) kernel_scheme" and y
    assume ih: "\<And>filt arg n v cnt s y. f filt arg n v cnt s = Some y \<Longrightarrow> keeps s (snd (snd y))"
      and b: "(if arg \<noteq> 0 then vstrncpy v arg (unat n) s \<bind> (\<lambda>s1. on_fs (strtok_st 0 filt) s1 \<bind> (\<lambda>(arg1, s2).
         strlen (kmem s2) arg1 \<bind> (\<lambda>n1. f filt arg1 n1 (v + n + 1) (cnt + 1) s2))) else Some (v, cnt, s)) = Some y"
    show "keeps s (snd (snd y))"
    proof (cases "arg = 0")
      case False
      then obtain s1 arg1 s2 n1 where o: "vstrncpy v arg (unat n) s = Some s1" "on_fs (strtok_st 0 filt) s1 = Some (arg1, s2)"
          "f filt arg1 n1 (v + n + 1) (cnt + 1) s2 = Some y"
        using b by (auto simp: bind_eq_Some_conv)
      show ?thesis by (rule keeps_trans [OF keeps_trans [OF keeps_vstrncpy [OF o(1)] keeps_on_fs [OF o(2)]] ih [OF o(3)]])
    qed (use b in auto)
  qed
  then show ?thesis by simp
qed

lemma keeps_upd_tcb:
  "tid (f (tcbs s a)) = tid (tcbs s a) \<Longrightarrow> ctx_cs (ctxReg (f (tcbs s a))) = ctx_cs (ctxReg (tcbs s a)) \<Longrightarrow>
   ctx_ss (ctxReg (f (tcbs s a))) = ctx_ss (ctxReg (tcbs s a)) \<Longrightarrow> ctx_gs (ctxReg (f (tcbs s a))) = ctx_gs (ctxReg (tcbs s a)) \<Longrightarrow>
   keeps s (upd_tcb a f s)"
  by (simp add: keeps_def upd_tcb_def)

lemma keeps_upd_pcb:
  "pid (f (pcbs s a)) = pid (pcbs s a) \<Longrightarrow> ppid (f (pcbs s a)) = ppid (pcbs s a) \<Longrightarrow> keeps s (upd_pcb a f s)"
  by (simp add: keeps_def upd_pcb_def)

lemma keeps_estimate: "keeps s (upd_hdr a (\<lambda>h. h\<lparr>estimate := n\<rparr>) s)"
  by (simp add: keeps_def upd_hdr_def)

lemma keeps_tls_setup:
  assumes "tls_setup elf task ph s = Some s'"
  shows "keeps s s'"
proof -
  define s1 where "s1 = upd_pcb (PCB (hdrs s task)) (\<lambda>p. p\<lparr>tlsSize := p_memsz ph\<rparr>) s"
  define b where "b = p_vaddr ph + p_memsz ph"
  define s2 where "s2 = upd_tcb (TCB (hdrs s1 task)) (\<lambda>t. t\<lparr>ctxReg := (ctxReg t)\<lparr>ctx_fs := b\<rparr>\<rparr>) s1"
  obtain s3 og s4 where "vwrites b (u64_bytes b) s2 = Some s3" "kpkZalloc (tlsSize (pcb_of s3 task)) s3 = Some (og, s4)"
      and s': "s' = (upd_pcb (PCB (hdrs s4 task)) (\<lambda>p. p\<lparr>ogTLS := og\<rparr>) s4)\<lparr>kmem := snd (memcpy og (elf + p_offset ph) (p_filesz ph)
        (kmem (upd_pcb (PCB (hdrs s4 task)) (\<lambda>p. p\<lparr>ogTLS := og\<rparr>) s4)))\<rparr>"
    using assms unfolding tls_setup_def Let_def bind_eq_Some_conv s1_def [symmetric] b_def [symmetric] s2_def [symmetric] by auto
  have "keeps s s1" unfolding s1_def by (rule keeps_upd_pcb) simp_all
  also have "keeps s1 s2" unfolding s2_def by (rule keeps_upd_tcb) simp_all
  also have "keeps s2 s3" by (rule keeps_vwrites) fact
  also have "keeps s3 s4" by (rule keeps_zalloc) fact
  also have "keeps s4 (upd_pcb (PCB (hdrs s4 task)) (\<lambda>p. p\<lparr>ogTLS := og\<rparr>) s4)" by (rule keeps_upd_pcb) simp_all
  also have "keeps \<dots> s'" unfolding s' by (rule keeps_kmem)
  finally show ?thesis .
qed

lemma keeps_load_entry: "load_entry elf task ph vars s = Some (r, s') \<Longrightarrow> keeps s s'"
  by (cases vars) (auto 4 3 simp: load_entry_def bind_eq_Some_conv split: if_splits option.splits
      dest!: keeps_load_pages keeps_vmemcpy keeps_tls_setup elim: keeps_trans)

lemma keeps_phdr_loop: "phdr_loop elf task phs vars s = Some (r, s') \<Longrightarrow> keeps s s'"
proof (induction phs arbitrary: vars s)
  case (Cons ph phs)
  then obtain r1 s1 where e: "load_entry elf task (get_Phdr (kmem s) ph) vars s = Some (r1, s1)"
      "(case r1 of None \<Rightarrow> Some (None, s1) | Some v \<Rightarrow> phdr_loop elf task phs v s1) = Some (r, s')"
    by (auto simp: bind_eq_Some_conv)
  then have "keeps s1 s'" using Cons.IH by (cases r1) auto
  then show ?case using keeps_load_entry [OF e(1)] keeps_trans by blast
qed simp

lemma keeps_loadPHDR: "loadPHDR pg0 elf task s = Some (r, s') \<Longrightarrow> keeps s s'"
  by (auto simp: loadPHDR_def bind_eq_Some_conv split: option.splits
      dest!: keeps_phdr_loop elim: keeps_trans [OF _ keeps_estimate])

lemma keeps_loadELF:
  assumes "loadELF pg0 elf task s = Some (r, s')"
  shows "keeps s s'"
proof -
  define s0 where "s0 = upd_tcb (TCB (hdrs s task)) (\<lambda>t. t\<lparr>ctxReg := (ctxReg t)\<lparr>ctx_rip := e_entry (get_Ehdr (kmem s) elf)\<rparr>\<rparr>) s"
  have "keeps s s0" unfolding s0_def by (rule keeps_upd_tcb) simp_all
  then have "keeps s s'" if "loadPHDR pg0 elf task s0 = Some (r, s')"
    using that keeps_loadPHDR keeps_trans by blast
  then show ?thesis using assms by (auto simp: loadELF_def Let_def s0_def [symmetric] split: if_splits)
qed

lemma keeps_threadsQue: "keeps s (s\<lparr>threadsQue := q\<rparr>)"
  by (simp add: keeps_def)

lemma keeps_push_thread: "push_thread c d s = Some s' \<Longrightarrow> keeps s (s' :: 'a tmgr_scheme)"
  by (auto simp: push_thread_def bind_eq_Some_conv split: if_splits
      dest!: Queue_push_frame keeps_heap elim: keeps_trans [OF _ keeps_threadsQue])

lemma keeps_process_args:
  assumes "process_args L task v s = Some s'"
  shows "keeps s s'"
proof -
  obtain pg s1 where p: "PgMgr_reqPg s = (pg, s1)" by fastforce
  define s2 where "s2 = mapPg v pg (PDE_P OR PDE_R OR PDE_U) s1"
  define s3 where "s3 = upd_pcb (PCB (hdrs s2 task)) (\<lambda>p. p\<lparr>lastVaddr := v + PAGE_SIZE\<rparr>) s2"
  obtain len arg s4 n vec cnt s5 s6 where o:
      "on_fs (strtok_st (at_args L + len + 1) (at_filter L)) s3 = Some (arg, s4)"
      "process_words (at_filter L) arg n v 0 s4 = Some (vec, cnt, s5)" "word_vector vec v (unat cnt) s5 = Some s6"
      and s': "s' = upd_tcb (TCB (hdrs s6 task)) (\<lambda>t. t\<lparr>argv := vec, argc := cnt,
                 ctxReg := (ctxReg t)\<lparr>ctx_rdi := scast cnt, ctx_rsi := vec\<rparr>\<rparr>) s6"
    using assms by (auto simp: process_args_def Let_def p s2_def [symmetric] s3_def [symmetric] bind_eq_Some_conv)
  have "keeps s s1" by (rule keeps_reqPg [OF p])
  also have "keeps s1 s2" unfolding s2_def by (rule keeps_mapPg)
  also have "keeps s2 s3" unfolding s3_def by (rule keeps_upd_pcb) simp_all
  also have "keeps s3 s4" by (rule keeps_on_fs [OF o(1)])
  also have "keeps s4 s5" by (rule keeps_process_words [OF o(2)])
  also have "keeps s5 s6" by (rule keeps_word_vector [OF o(3)])
  also have "keeps s6 s'" unfolding s' by (rule keeps_upd_tcb) simp_all
  finally show ?thesis .
qed

lemma keeps_vvmemcpy: "vvmemcpy d a n s = Some s' \<Longrightarrow> keeps s s'"
proof (induction n arbitrary: d a s)
  case (Suc n)
  then obtain b s1 where "vwrite d b s = Some s1" "vvmemcpy (d + 1) (a + 1) n s1 = Some s'" by (auto simp: bind_eq_Some_conv)
  then show ?case using Suc.IH keeps_vwrite keeps_trans by blast
qed simp

lemma keeps_set_strtok: "keeps s (set_strtok e s)"
  by (simp add: keeps_def set_strtok_def)

lemma keeps_vstrtok: "vstrtok str delim s = Some (r, s') \<Longrightarrow> keeps s s'"
  by (auto simp: vstrtok_def Let_def bind_eq_Some_conv split: if_splits option.splits
      dest!: keeps_vwrite intro: keeps_set_strtok elim: keeps_trans [OF _ keeps_set_strtok])

lemma keeps_thread_words:
  fixes s :: "('d, 'z) kernel_scheme"
  assumes "thread_words filt arg v cnt s = Some (v', cnt', s')"
  shows "keeps s s'"
proof -
  have "keeps s (snd (snd (v', cnt', s')))"
  proof (rule thread_words.raw_induct [where P = "\<lambda>filt arg v cnt s y. keeps s (snd (snd y))", OF _ assms])
    fix f :: "addr \<Rightarrow> addr \<Rightarrow> addr \<Rightarrow> u32 \<Rightarrow> ('d, 'z) kernel_scheme \<Rightarrow> (addr \<times> u32 \<times> ('d, 'z) kernel_scheme) option"
      and filt arg v cnt and s :: "('d, 'z) kernel_scheme" and y
    assume ih: "\<And>filt arg v cnt s y. f filt arg v cnt s = Some y \<Longrightarrow> keeps s (snd (snd y))"
      and b: "(if arg \<noteq> 0 then vstrlen s arg \<bind> (\<lambda>len. vvmemcpy v arg (unat len) s \<bind> (\<lambda>s1. vstrtok 0 filt s1 \<bind>
        (\<lambda>(arg1, s2). f filt arg1 (v + len + 1) (cnt + 1) s2))) else Some (v, cnt, s)) = Some y"
    show "keeps s (snd (snd y))"
    proof (cases "arg = 0")
      case False
      then obtain len s1 arg1 s2 where o: "vvmemcpy v arg (unat len) s = Some s1" "vstrtok 0 filt s1 = Some (arg1, s2)"
          "f filt arg1 (v + len + 1) (cnt + 1) s2 = Some y"
        using b by (auto simp: bind_eq_Some_conv)
      show ?thesis by (rule keeps_trans [OF keeps_trans [OF keeps_vvmemcpy [OF o(1)] keeps_vstrtok [OF o(2)]] ih [OF o(3)]])
    qed (use b in auto)
  qed
  then show ?thesis by simp
qed

lemma keeps_lastVaddr: "keeps s (upd_pcb a (\<lambda>p. p\<lparr>lastVaddr := f p\<rparr>) s)"
  by (rule keeps_upd_pcb) simp_all

lemma keeps_thread_args:
  assumes "thread_args L args flags tcb pcb s = Some s'"
  shows "keeps s s'"
proof -
  obtain arg s1 where a: "vstrtok args (at_filter L) s = Some (arg, s1)"
    using assms by (auto simp: thread_args_def bind_eq_Some_conv)
  obtain pg s2 where p: "PgMgr_reqPg s1 = (pg, s2)" by fastforce
  define s3 where "s3 = mapPg (lastVaddr (pcbs s2 pcb)) pg flags s2"
  obtain vec cnt s4 s6 where o: "thread_words (at_filter L) arg (lastVaddr (pcbs s2 pcb)) 0 s3 = Some (vec, cnt, s4)"
      "word_vector vec (lastVaddr (pcbs s2 pcb)) (unat cnt) (upd_tcb tcb (\<lambda>t. t\<lparr>argc := cnt, argv := vec\<rparr>) s4) = Some s6"
      and s': "s' = upd_pcb pcb (\<lambda>p. p\<lparr>lastVaddr := lastVaddr p + PAGE_SIZE\<rparr>) s6"
    using assms by (auto simp: thread_args_def Let_def a p s3_def [symmetric] bind_eq_Some_conv)
  have "keeps s s1" by (rule keeps_vstrtok [OF a])
  also have "keeps s1 s2" by (rule keeps_reqPg [OF p])
  also have "keeps s2 s3" unfolding s3_def by (rule keeps_mapPg)
  also have "keeps s3 s4" by (rule keeps_thread_words [OF o(1)])
  also have "keeps s4 (upd_tcb tcb (\<lambda>t. t\<lparr>argc := cnt, argv := vec\<rparr>) s4)" by (rule keeps_upd_tcb) simp_all
  also have "keeps \<dots> s6" by (rule keeps_word_vector [OF o(2)])
  also have "keeps s6 s'" unfolding s' by (rule keeps_lastVaddr)
  finally show ?thesis .
qed

lemma keeps_thread_page: "keeps s (thread_page pcb flags s)"
proof -
  obtain pg s1 where p: "PgMgr_reqPg s = (pg, s1)" by fastforce
  have "keeps s s1" by (rule keeps_reqPg [OF p])
  also have "keeps s1 (mapPg (lastVaddr (pcbs s1 pcb)) pg flags s1)" by (rule keeps_mapPg)
  also have "keeps \<dots> (thread_page pcb flags s)" by (simp add: thread_page_def p keeps_lastVaddr)
  finally show ?thesis .
qed

lemma keeps_tls_loop:
  fixes s :: "'a tmgr_scheme"
  assumes "tls_loop pcb flags i s = Some s'"
  shows "keeps s s'"
proof (rule tls_loop.raw_induct [where P = "\<lambda>pcb flags i s y. keeps s y", OF _ assms])
  fix f :: "addr \<Rightarrow> u64 \<Rightarrow> u64 \<Rightarrow> 'a tmgr_scheme \<Rightarrow> 'a tmgr_scheme option" and pcb flags i and s y :: "'a tmgr_scheme"
  assume ih: "\<And>pcb flags i s y. f pcb flags i s = Some y \<Longrightarrow> keeps s y"
    and b: "(if i * PAGE_SIZE < tlsSize (pcbs s pcb) then f pcb flags (i + 1) (thread_page pcb flags s) else Some s) = Some y"
  show "keeps s y"
  proof (cases "i * PAGE_SIZE < tlsSize (pcbs s pcb)")
    case True
    then have "keeps (thread_page pcb flags s) y" using b ih by simp
    then show ?thesis by (rule keeps_trans [OF keeps_thread_page])
  qed (use b in simp)
qed

lemma keeps_queues: "keeps s (s\<lparr>tasksToLoad := q\<rparr>)"
  by (simp add: keeps_def)

lemma keeps_push_load: "push_load d s = Some s' \<Longrightarrow> keeps s (s' :: 'a tmgr_scheme)"
  by (auto simp: push_load_def bind_eq_Some_conv dest!: Queue_push_frame keeps_heap elim: keeps_trans [OF _ keeps_queues])

lemma keeps_thread_tls:
  assumes "thread_tls flags tcb pcb s = Some s'"
  shows "keeps s s'"
proof (cases "ogTLS (pcbs s pcb) \<noteq> 0 \<and> tlsSize (pcbs s pcb) > 0")
  case True
  define base where "base = lastVaddr (pcbs s pcb)"
  obtain t1 t2 where o: "tls_loop pcb flags 0 s = Some t1"
      "vmemcpy base (ogTLS (pcbs t1 pcb)) (unat (tlsSize (pcbs t1 pcb))) t1 = Some t2"
      "vwrites (base + tlsSize (pcbs t2 pcb)) (u64_bytes (base + tlsSize (pcbs t2 pcb)))
         (upd_tcb tcb (\<lambda>t. t\<lparr>ctxReg := (ctxReg t)\<lparr>ctx_fs := base + tlsSize (pcbs t2 pcb)\<rparr>\<rparr>) t2) = Some s'"
    using assms True by (auto simp: thread_tls_def Let_def base_def bind_eq_Some_conv)
  have "keeps s t1" by (rule keeps_tls_loop [OF o(1)])
  also have "keeps t1 t2" by (rule keeps_vmemcpy [OF o(2)])
  also have "keeps t2 (upd_tcb tcb (\<lambda>t. t\<lparr>ctxReg := (ctxReg t)\<lparr>ctx_fs := base + tlsSize (pcbs t2 pcb)\<rparr>\<rparr>) t2)"
    by (rule keeps_upd_tcb) simp_all
  also have "keeps \<dots> s'" by (rule keeps_vwrites [OF o(3)])
  finally show ?thesis .
qed (use assms in \<open>auto simp: thread_tls_def\<close>)

section \<open>The task table after the creation of a thread\<close>

text \<open>
  \<open>thread_registered s dpl pcb task s'\<close>: as \<open>registered\<close> below, but with the process and parent of the header
  \<open>pcb\<close>, of which the thread has a copy.
\<close>

definition thread_registered :: "'a tmgr_scheme \<Rightarrow> u8 \<Rightarrow> addr \<Rightarrow> addr \<Rightarrow> 'a tmgr_scheme \<Rightarrow> bool" where
  "thread_registered s dpl pcb task s' \<longleftrightarrow>
     tasks s' = (tasks s)[unat (tasksCount s) := task] \<and> tasksCount s' = tasksCount s + 1 \<and>
     tid (tcb_of s' task) = tasksCount s \<and> pid (pcb_of s' task) = pid (pcbs s pcb) \<and> ppid (pcb_of s' task) = ppid (pcbs s pcb) \<and>
     ctx_cs (ctxReg (tcb_of s' task)) = (if dpl = 3 then USER_CODE else KERNEL_CODE) \<and>
     ctx_ss (ctxReg (tcb_of s' task)) = (if dpl = 3 then USER_DATA else KERNEL_DATA) \<and>
     ctx_gs (ctxReg (tcb_of s' task)) = task \<and>
     (\<forall>t. t \<noteq> task \<longrightarrow> TCB (hdrs s' t) = TCB (hdrs s t) \<and> PCB (hdrs s' t) = PCB (hdrs s t)) \<and>
     (\<forall>a. a \<noteq> TCB (hdrs s' task) \<longrightarrow> tid (tcbs s' a) = tid (tcbs s a)) \<and>
     (\<forall>a. a \<noteq> PCB (hdrs s' task) \<longrightarrow> pid (pcbs s' a) = pid (pcbs s a) \<and> ppid (pcbs s' a) = ppid (pcbs s a))"

lemma thread_registered_tid: "thread_registered s dpl pcb task s' \<Longrightarrow> tid (tcb_of s' task) = tasksCount s"
  by (simp add: thread_registered_def)

text \<open>The steps of \<open>createThread\<close> between those that keep the table.\<close>

lemma thread_steps:
  assumes "keeps s s2"
    and "keeps (s2\<lparr>hdrs := (hdrs s2)(task := zero_Hdr\<lparr>TCB := tcb, PCB := pcb\<rparr>),
                   tcbs := (tcbs s2)(tcb := zero_TCB\<lparr>ctxReg := zero_ctx\<lparr>ctx_ss := (if dpl = 3 then USER_DATA else KERNEL_DATA),
                     ctx_cs := (if dpl = 3 then USER_CODE else KERNEL_CODE)\<rparr>\<rparr>)\<rparr>) s6"
    and "keeps (upd_tcb tcb (\<lambda>t. t\<lparr>stack := stk, tid := tasksCount s6, tcb_statusEnd := False,
                  ctxReg := (ctxReg t)\<lparr>ctx_rsp := stk, ctx_rbp := stk, ctx_gs := task\<rparr>\<rparr>)
                (s6\<lparr>tasksCount := tasksCount s6 + 1, tasks := (tasks s6)[unat (tasksCount s6) := task]\<rparr>)) s11"
    and "keeps (upd_hdr task (\<lambda>h. h\<lparr>PCB := npcb, estimate := e\<rparr>)
                 (s11\<lparr>pcbs := (pcbs s11)(npcb := (pcbs s11 pcb)\<lparr>pd := q\<rparr>)\<rparr>)) s'"
  shows "thread_registered s dpl pcb task s' \<and> TCB (hdrs s' task) = tcb"
  using assms by (simp add: thread_registered_def keeps_def upd_tcb_def upd_hdr_def)

lemma thread_stack_keeps:
  assumes "thread_stack flags task tcb pcb s = Some s'"
  obtains s1 stk where "keeps s s1"
    "s' = upd_tcb tcb (\<lambda>t. t\<lparr>stack := stk, tid := tasksCount s1, tcb_statusEnd := False,
                  ctxReg := (ctxReg t)\<lparr>ctx_rsp := stk, ctx_rbp := stk, ctx_gs := task\<rparr>\<rparr>)
                (s1\<lparr>tasksCount := tasksCount s1 + 1, tasks := (tasks s1)[unat (tasksCount s1) := task]\<rparr>)"
proof -
  define stk where "stk = lastVaddr (pcbs (thread_page pcb flags s) pcb) - 32"
  obtain s2 s3 where o: "vwrites stk (u64_bytes (stk + 8)) (thread_page pcb flags s) = Some s2"
      "vwrites (stk + 8) threadEnd s2 = Some s3"
      and s': "s' = upd_tcb tcb (\<lambda>t. t\<lparr>stack := stk, tid := tasksCount s3, tcb_statusEnd := False,
                  ctxReg := (ctxReg t)\<lparr>ctx_rsp := stk, ctx_rbp := stk, ctx_gs := task\<rparr>\<rparr>)
                (s3\<lparr>tasksCount := tasksCount s3 + 1, tasks := (tasks s3)[unat (tasksCount s3) := task]\<rparr>)"
    using assms unfolding thread_stack_def Let_def stk_def [symmetric] bind_eq_Some_conv by blast
  have "keeps s s3"
    by (rule keeps_trans [OF keeps_trans [OF keeps_thread_page keeps_vwrites [OF o(1)]] keeps_vwrites [OF o(2)]])
  then show ?thesis using that s' by blast
qed

lemma thread_finish_keeps:
  assumes "thread_finish loader func flags est task tcb pcb s = Some (r, s')"
  obtains s1 npcb q where "keeps s s1" "r = tid (tcbs s' tcb)"
    "keeps (upd_hdr task (\<lambda>h. h\<lparr>PCB := npcb, estimate := est\<rparr>)
        (s1\<lparr>pcbs := (pcbs s1)(npcb := (pcbs s1 pcb)\<lparr>pd := q\<rparr>)\<rparr>)) s'"
proof -
  define s0 where "s0 = upd_tcb tcb (\<lambda>t. t\<lparr>ctxReg := (ctxReg t)\<lparr>ctx_rdi := scast (argc t), ctx_rsi := argv t, ctx_rip := func\<rparr>\<rparr>)
      (thread_page pcb flags s)"
  obtain npcb s1 where z: "kpkZalloc sizeof_ProcessHdr s0 = Some (npcb, s1)"
    using assms by (auto simp: thread_finish_def Let_def s0_def [symmetric] bind_eq_Some_conv)
  define s2 where "s2 = upd_hdr task (\<lambda>h. h\<lparr>PCB := npcb, estimate := est\<rparr>)
        (s1\<lparr>pcbs := (pcbs s1)(npcb := (pcbs s1 pcb)\<lparr>pd := read64 (kmem s1) (userPD_slot s1)\<rparr>)\<rparr>)"
  have o: "(if func = loader then push_thread 0 (tid (tcbs s2 tcb)) s2 else push_load (tid (tcbs s2 tcb)) s2) = Some s'"
      "r = tid (tcbs s' tcb)"
    using assms z by (auto simp: thread_finish_def Let_def s0_def [symmetric] s2_def [symmetric] bind_eq_Some_conv split: if_splits)
  have "keeps s (thread_page pcb flags s)" by (rule keeps_thread_page)
  also have "keeps \<dots> s0" unfolding s0_def by (rule keeps_upd_tcb) simp_all
  also have "keeps s0 s1" by (rule keeps_zalloc [OF z])
  finally have "keeps s s1" .
  moreover have "keeps s2 s'" using o(1) keeps_push_thread keeps_push_load by (auto split: if_splits)
  ultimately show ?thesis using that o(2) unfolding s2_def by blast
qed

lemma createThread_table:
  assumes "createThread L loader func dpl args pcb s = Some (r, s')" "unat (tasksCount s) \<noteq> MAX_TASKS_COUNT"
  shows "r = tasksCount s \<and> (\<exists>task. thread_registered s dpl pcb task s')"
proof -
  define s0 where "s0 = set_userPD (pd (pcbs s pcb)) s"
  define s1 where "s1 = s0\<lparr>kmem := (kmem s0)(at_filter L := 0x20, at_filter L + 1 := 0)\<rparr>"
  define flags where "flags = (if dpl = 3 then PDE_P OR PDE_R OR PDE_U else PDE_P OR PDE_R)"
  obtain task tcb s2 s3 s4 s5 est where o: "thread_header dpl pcb s1 = Some (task, tcb, s2)"
      "(if args \<noteq> 0 then thread_args L args flags tcb pcb s2 else Some s2) = Some s3"
      "thread_stack flags task tcb pcb s3 = Some s4" "thread_tls flags tcb pcb s4 = Some s5"
      "thread_finish loader func flags est task tcb pcb s5 = Some (r, s')"
    using assms unfolding createThread_def Let_def s0_def [symmetric] s1_def [symmetric] flags_def [symmetric]
    by (auto simp only: if_False bind_eq_Some_conv split_paired_Ex prod.case)
  obtain t1 where z: "keeps s1 t1" "s2 = t1\<lparr>hdrs := (hdrs t1)(task := zero_Hdr\<lparr>TCB := tcb, PCB := pcb\<rparr>),
            tcbs := (tcbs t1)(tcb := zero_TCB\<lparr>ctxReg := zero_ctx\<lparr>ctx_ss := (if dpl = 3 then USER_DATA else KERNEL_DATA),
                      ctx_cs := (if dpl = 3 then USER_CODE else KERNEL_CODE)\<rparr>\<rparr>)\<rparr>"
  proof -
    obtain v1 v2 where v: "kpkZalloc sizeof_TaskHeader s1 = Some (task, v1)" "kpkZalloc sizeof_ThreadHdr v1 = Some (tcb, v2)"
        "s2 = v2\<lparr>hdrs := (hdrs v2)(task := zero_Hdr\<lparr>TCB := tcb, PCB := pcb\<rparr>),
            tcbs := (tcbs v2)(tcb := zero_TCB\<lparr>ctxReg := zero_ctx\<lparr>ctx_ss := (if dpl = 3 then USER_DATA else KERNEL_DATA),
                      ctx_cs := (if dpl = 3 then USER_CODE else KERNEL_CODE)\<rparr>\<rparr>)\<rparr>"
      using o(1) by (auto simp: thread_header_def bind_eq_Some_conv split: if_splits)
    show ?thesis by (rule that [OF keeps_trans [OF keeps_zalloc [OF v(1)] keeps_zalloc [OF v(2)]] v(3)])
  qed
  have k1: "keeps s t1"
    using keeps_trans [OF keeps_trans [OF keeps_set_userPD keeps_kmem] z(1) [unfolded s1_def s0_def]] .
  have k2: "keeps s2 s3" using o(2) keeps_thread_args by (auto split: if_splits)
  obtain u stk where u: "keeps s3 u" "s4 = upd_tcb tcb (\<lambda>t. t\<lparr>stack := stk, tid := tasksCount u, tcb_statusEnd := False,
                  ctxReg := (ctxReg t)\<lparr>ctx_rsp := stk, ctx_rbp := stk, ctx_gs := task\<rparr>\<rparr>)
                (u\<lparr>tasksCount := tasksCount u + 1, tasks := (tasks u)[unat (tasksCount u) := task]\<rparr>)"
    using thread_stack_keeps [OF o(3)] by blast
  obtain w npcb q where w: "keeps s5 w" "r = tid (tcbs s' tcb)"
      "keeps (upd_hdr task (\<lambda>h. h\<lparr>PCB := npcb, estimate := est\<rparr>) (w\<lparr>pcbs := (pcbs w)(npcb := (pcbs w pcb)\<lparr>pd := q\<rparr>)\<rparr>)) s'"
    using thread_finish_keeps [OF o(5)] by blast
  have "thread_registered s dpl pcb task s' \<and> TCB (hdrs s' task) = tcb"
    by (rule thread_steps [OF k1 keeps_trans [OF k2 u(1), unfolded z(2)]
          keeps_trans [OF keeps_thread_tls [OF o(4)] w(1), unfolded u(2)] w(3)])
  then have g: "thread_registered s dpl pcb task s'" "TCB (hdrs s' task) = tcb" by blast+
  show ?thesis using thread_registered_tid [OF g(1)] g w(2) by auto
qed

section \<open>The task table after the creation of a process\<close>

text \<open>
  \<open>registered s dpl ppid0 task s'\<close>: the slot numbered by the count of tasks holds \<open>task\<close>, with the number of the slot
  as thread and process id, the given parent, the segments of the privilege level and the task as
  base of \<open>gs\<close>; every other header is as before. The code does not check that the slot is free: the
  task that was in it, if any, is no longer in the table.
\<close>

definition registered :: "'a tmgr_scheme \<Rightarrow> u8 \<Rightarrow> u8 \<Rightarrow> addr \<Rightarrow> 'a tmgr_scheme \<Rightarrow> bool" where
  "registered s dpl ppid0 task s' \<longleftrightarrow>
     tasks s' = (tasks s)[unat (tasksCount s) := task] \<and> tasksCount s' = tasksCount s + 1 \<and>
     tid (tcb_of s' task) = tasksCount s \<and> pid (pcb_of s' task) = tasksCount s \<and> ppid (pcb_of s' task) = ppid0 \<and>
     ctx_cs (ctxReg (tcb_of s' task)) = (if dpl = 3 then USER_CODE else KERNEL_CODE) \<and>
     ctx_ss (ctxReg (tcb_of s' task)) = (if dpl = 3 then USER_DATA else KERNEL_DATA) \<and>
     ctx_gs (ctxReg (tcb_of s' task)) = task \<and>
     (\<forall>t. t \<noteq> task \<longrightarrow> TCB (hdrs s' t) = TCB (hdrs s t) \<and> PCB (hdrs s' t) = PCB (hdrs s t)) \<and>
     (\<forall>a. a \<noteq> TCB (hdrs s' task) \<longrightarrow> tid (tcbs s' a) = tid (tcbs s a)) \<and>
     (\<forall>a. a \<noteq> PCB (hdrs s' task) \<longrightarrow> pid (pcbs s' a) = pid (pcbs s a) \<and> ppid (pcbs s' a) = ppid (pcbs s a))"

lemma registered_keeps: "registered s dpl ppid0 task s1 \<Longrightarrow> keeps s1 s' \<Longrightarrow> registered s dpl ppid0 task s'"
  by (simp add: registered_def keeps_def)

lemma keeps_registered: "keeps s s1 \<Longrightarrow> registered s1 dpl ppid0 task s' \<Longrightarrow> registered s dpl ppid0 task s'"
  by (simp add: registered_def keeps_def)

text \<open>\<open>keeps_off\<close>: as \<open>keeps\<close>, except for one task with its headers.\<close>

definition keeps_off :: "addr \<Rightarrow> 'a tmgr_scheme \<Rightarrow> 'a tmgr_scheme \<Rightarrow> bool" where
  "keeps_off task s s' \<longleftrightarrow> tasks s' = tasks s \<and> tasksCount s' = tasksCount s \<and>
     (\<forall>t. t \<noteq> task \<longrightarrow> TCB (hdrs s' t) = TCB (hdrs s t) \<and> PCB (hdrs s' t) = PCB (hdrs s t)) \<and>
     (\<forall>a. a \<noteq> TCB (hdrs s' task) \<longrightarrow> tid (tcbs s' a) = tid (tcbs s a)) \<and>
     (\<forall>a. a \<noteq> PCB (hdrs s' task) \<longrightarrow> pid (pcbs s' a) = pid (pcbs s a) \<and> ppid (pcbs s' a) = ppid (pcbs s a))"

lemma keeps_off_keeps: "keeps_off task s s1 \<Longrightarrow> keeps s1 s' \<Longrightarrow> keeps_off task s s'"
  by (simp add: keeps_off_def keeps_def)

lemma alloc_task_off:
  assumes "alloc_task s = Some (task, s')"
  shows "keeps_off task s (s' :: 'a tmgr_scheme)"
proof -
  obtain s1 tcb s2 pcb s3 where z: "kpkZalloc sizeof_TaskHeader s = Some (task, s1)"
      "kpkZalloc sizeof_ThreadHdr s1 = Some (tcb, s2)" "kpkZalloc sizeof_ProcessHdr s2 = Some (pcb, s3)"
      and s': "s' = s3\<lparr>hdrs := (hdrs s3)(task := zero_Hdr\<lparr>TCB := tcb, PCB := pcb\<rparr>),
                  tcbs := (tcbs s3)(tcb := zero_TCB), pcbs := (pcbs s3)(pcb := zero_PCB)\<rparr>"
    using assms by (auto simp: alloc_task_def bind_eq_Some_conv split: if_splits)
  have "keeps s s3" using z keeps_zalloc keeps_trans by metis
  then show ?thesis unfolding s' by (simp add: keeps_off_def keeps_def)
qed

lemma process_header_registered:
  "keeps_off task s s1 \<Longrightarrow> registered s dpl ppid0 task (process_header task dpl ppid0 v arg s1)"
  by (simp add: registered_def keeps_off_def process_header_def Let_def upd_tcb_def upd_pcb_def)

lemma start_process_registers:
  assumes "start_process P A L pg0 fd arg dpl ppid0 s = Some (r, s')"
  shows "\<exists>task. r = uint (tasksCount s) \<and> registered s dpl ppid0 task s'"
proof -
  obtain st s1 task s2 buffer n0 s3 n n1 s4 lastV s6 s7 rc s8 where o: "on_fs (kfstat fd) s = Some (st, s1)"
      "alloc_task s1 = Some (task, s2)" "kpkZalloc n0 s2 = Some (buffer, s3)"
      "on_fs (kfread P A fd buffer n1) s3 = Some (n, s4)"
      "loadELF pg0 buffer task (set_userPD 0 s4) = Some (lastV, s6)" "kpkFree buffer s6 = Some s7"
      "on_fs (kfclose fd) s7 = Some (rc, s8)"
      and rest: "(case PgMgr_reqPg s8 of (pg, s9) \<Rightarrow>
         process_args L task (lastV + PAGE_SIZE) (process_header task dpl ppid0 (lastV + PAGE_SIZE) arg
           (mapPg lastV pg (PDE_P OR PDE_R OR PDE_U) s9)) \<bind> (\<lambda>s12.
         push_thread 0 (tid (tcb_of (set_userPD (read64 (kmem s4) (userPD_slot s4)) s12) task))
           (set_userPD (read64 (kmem s4) (userPD_slot s4)) s12) \<bind> (\<lambda>s14. Some (uint (tid (tcb_of s14 task)), s14)))) = Some (r, s')"
    using assms unfolding start_process_def Let_def by (auto simp: bind_eq_Some_conv split: if_splits)
  obtain pg s9 where p: "PgMgr_reqPg s8 = (pg, s9)" by fastforce
  define s10 where "s10 = mapPg lastV pg (PDE_P OR PDE_R OR PDE_U) s9"
  obtain s12 where a: "process_args L task (lastV + PAGE_SIZE) (process_header task dpl ppid0 (lastV + PAGE_SIZE) arg s10) = Some s12"
      "push_thread 0 (tid (tcb_of (set_userPD (read64 (kmem s4) (userPD_slot s4)) s12) task))
           (set_userPD (read64 (kmem s4) (userPD_slot s4)) s12) = Some s'" "r = uint (tid (tcb_of s' task))"
    using rest p by (auto simp: s10_def bind_eq_Some_conv)
  note ks = keeps_zalloc [OF o(3)] keeps_on_fs [OF o(4)] keeps_set_userPD [of s4 0] keeps_loadELF [OF o(5)] keeps_free [OF o(6)]
    keeps_on_fs [OF o(7)] keeps_reqPg [OF p]
  have "keeps_off task s1 s9"
    by (rule keeps_off_keeps [OF alloc_task_off [OF o(2)]]) (meson ks keeps_trans)
  then have "keeps_off task s1 s10" unfolding s10_def by (rule keeps_off_keeps) (rule keeps_mapPg)
  then have "registered s1 dpl ppid0 task (process_header task dpl ppid0 (lastV + PAGE_SIZE) arg s10)"
    by (rule process_header_registered)
  then have "registered s1 dpl ppid0 task s12" by (rule registered_keeps) (rule keeps_process_args [OF a(1)])
  then have "registered s1 dpl ppid0 task s'"
    using registered_keeps keeps_set_userPD keeps_push_thread [OF a(2)] by metis
  then have "registered s dpl ppid0 task s'" by (rule keeps_registered [OF keeps_on_fs [OF o(1)]])
  moreover have "tid (tcb_of s' task) = tasksCount s" using calculation by (simp add: registered_def)
  ultimately show ?thesis using a(3) by auto
qed

lemma createProcess_table:
  assumes "createProcess P A L pg0 args dpl ppid0 s = Some (r, s')"
  shows "if r = - 1 then keeps s s'
    else r = uint (tasksCount s) \<and> r < int MAX_TASKS_COUNT \<and> (\<exists>task. registered s dpl ppid0 task s')"
proof (cases "unat (tasksCount s) = MAX_TASKS_COUNT")
  case True
  then show ?thesis using assms by (auto simp: createProcess_def)
next
  case free: False
  define s0 where "s0 = s\<lparr>kmem := (kmem s)(at_filter L := 0x20, at_filter L + 1 := 0)\<rparr>"
  obtain s1 arg s2 where o: "vcopy_in (at_args L) args 100 s0 = Some s1"
      "on_fs (strtok_st (at_args L) (at_filter L)) s1 = Some (arg, s2)"
      and rest: "(if arg = 0 then Some (- 1, kpwarn ''Incorrect executable/task name!'' s2)
         else on_fs (kfopen P A arg) s2 \<bind> (\<lambda>(fd, s3). if fd < 0 then Some (- 1, kpwarn ''No such ELF!'' s3)
           else start_process P A L pg0 fd arg dpl ppid0 s3)) = Some (r, s')"
    using assms free by (auto simp: createProcess_def s0_def [symmetric] bind_eq_Some_conv simp del: vcopy_in.simps)
  have k2: "keeps s s2"
    using keeps_kmem [of s, folded s0_def] keeps_vcopy_in [OF o(1)] keeps_on_fs [OF o(2)] keeps_trans unfolding s0_def by blast
  show ?thesis
  proof (cases "arg = 0")
    case True
    then show ?thesis using rest k2 by (auto intro: keeps_trans)
  next
    case False
    then obtain fd s3 where f: "on_fs (kfopen P A arg) s2 = Some (fd, s3)"
        and fin: "(if fd < 0 then Some (- 1, kpwarn ''No such ELF!'' s3) else start_process P A L pg0 fd arg dpl ppid0 s3) = Some (r, s')"
      using rest by (auto simp: bind_eq_Some_conv)
    have k3: "keeps s s3" using k2 keeps_on_fs [OF f] by (rule keeps_trans)
    show ?thesis
    proof (cases "fd < 0")
      case True
      then show ?thesis using fin k3 by (auto intro: keeps_trans)
    next
      case False
      then have "start_process P A L pg0 fd arg dpl ppid0 s3 = Some (r, s')" using fin by simp
      then obtain task where t: "r = uint (tasksCount s3)" "registered s3 dpl ppid0 task s'"
        using start_process_registers by blast
      have c: "tasksCount s3 = tasksCount s" using k3 by (simp add: keeps_def)
      moreover have "uint (tasksCount s) < 255"
      proof -
        have "unat (tasksCount s) \<noteq> 255" using free by (simp add: MAX_TASKS_COUNT_def)
        moreover have "unat (tasksCount s) < 256" using unsigned_less [where 'a = nat, of "tasksCount s"] by simp
        ultimately have "int (unat (tasksCount s)) < 255" by linarith
        then show ?thesis by simp
      qed
      moreover have "registered s dpl ppid0 task s'" by (rule keeps_registered [OF k3 t(2)])
      ultimately have g: "r = uint (tasksCount s)" "r < int MAX_TASKS_COUNT" "\<exists>task. registered s dpl ppid0 task s'"
        using t(1) by (auto simp: MAX_TASKS_COUNT_def)
      have "0 \<le> uint (tasksCount s)" by simp
      then have "r \<noteq> - 1" using g(1) by linarith
      then show ?thesis using g by simp
    qed
  qed
qed

section \<open>Example devices\<close>

definition demo_ports :: "unit ports" where
  "demo_ports = \<lparr>pInByte = \<lambda>_ d. (0, d), pInWord = \<lambda>_ d. (0, d), pInDWord = \<lambda>_ d. (0, d),
     pOutByte = \<lambda>_ _ d. d, pOutWord = \<lambda>_ _ d. d, pOutDWord = \<lambda>_ _ d. d\<rparr>"

definition demo_fs_addrs :: fs_addrs where
  "demo_fs_addrs = \<lparr>at_slash = 0x9000, at_hdr = 0x9100, at_local = 0x9200, at_name = 0x9300, at_fat16 = 0x9400\<rparr>"

end
