(* ===== verification/Syscall.thy ===== *)
theory Syscall
  imports Process Keyboard Pci Pit Kstdio
begin

text \<open>
  The system call handler \<open>syscallISR\<close> of \<open>src/src/kernel/interrupts/interrupts.cpp\<close>: one definition
  per group of cases, and the switch that composes them. The handler gets the registers of the
  caller: the number in \<open>rax\<close>, its first parameter in \<open>rdi\<close>, and what \<open>va_arg\<close> takes from \<open>rsi\<close> and
  \<open>rdx\<close>. Pointers of the caller go through the page tables.

  A result of \<open>None\<close> is a page fault, a failed \<open>CATCH_FIRE\<close>, a busy wait for the lock of the screen
  or a loop that never ends. Messages of \<open>kpwarn\<close> are collected in \<open>kout\<close>; all other output goes to the
  text screen.
\<close>

section \<open>State\<close>

record regs =
  r_rax :: u64
  r_rdi :: u64
  r_rsi :: u64
  r_rdx :: u64

record 'd sys = "'d kernel" +
  sc_kbd :: keyboard
  sc_pci :: "'d pci"
  sc_pit :: "'d pit"
  vLock :: bool

text \<open>
  What the handler is run with: the ports and mapped registers, the timer interrupts that arrive
  while it waits, the addresses of local variables and string constants of the functions it calls, the
  uninitialised \<open>pg\<close> of \<open>loadPHDR\<close>, the address of \<open>loader\<close>, and whether the compiler evaluates the
  arguments of a call from left to right.
\<close>

record 'd sys_env =
  e_ports :: "'d ports"
  e_mmio :: "'d mmio"
  e_irqs :: "nat \<Rightarrow> nat"
  e_fs :: fs_addrs
  e_proc :: proc_addrs
  e_pg0 :: addr
  e_loader :: addr
  e_ltr :: bool

datatype outcome = Returns u64 | Waits u8 | Stops

type_synonym 'd call = "'d sys \<Rightarrow> (outcome \<times> 'd sys) option"

definition SYS_PUTCH :: u64 where "SYS_PUTCH = 0"
definition SYS_PUTS :: u64 where "SYS_PUTS = 1"
definition SYS_GETPID :: u64 where "SYS_GETPID = 2"
definition SYS_GETPPID :: u64 where "SYS_GETPPID = 3"
definition SYS_GETTID :: u64 where "SYS_GETTID = 4"
definition SYS_FORK :: u64 where "SYS_FORK = 5"
definition SYS_EXECVE :: u64 where "SYS_EXECVE = 6"
definition SYS_EXIT :: u64 where "SYS_EXIT = 7"
definition SYS_MMAP :: u64 where "SYS_MMAP = 8"
definition SYS_SCHED_YIELD :: u64 where "SYS_SCHED_YIELD = 9"
definition SYS_SLEEP :: u64 where "SYS_SLEEP = 10"
definition SYS_KILL :: u64 where "SYS_KILL = 11"
definition SYS_CREATE_THREAD :: u64 where "SYS_CREATE_THREAD = 12"
definition SYS_THREAD_JOIN :: u64 where "SYS_THREAD_JOIN = 13"
definition SYS_MUNMAP :: u64 where "SYS_MUNMAP = 14"
definition SYS_PROMPT :: u64 where "SYS_PROMPT = 15"
definition SYS_LSPCI :: u64 where "SYS_LSPCI = 16"
definition SYS_FREE :: u64 where "SYS_FREE = 17"
definition SYS_CLEAR :: u64 where "SYS_CLEAR = 18"
definition SYS_PS :: u64 where "SYS_PS = 19"
definition SYS_SHUTDOWN :: u64 where "SYS_SHUTDOWN = 20"
definition SYS_REBOOT :: u64 where "SYS_REBOOT = 21"
definition SYS_FGETS :: u64 where "SYS_FGETS = 22"
definition SYS_CREATE_PROCESS :: u64 where "SYS_CREATE_PROCESS = 23"

lemmas sys_numbers = SYS_PUTCH_def SYS_PUTS_def SYS_GETPID_def SYS_GETPPID_def SYS_GETTID_def SYS_FORK_def
  SYS_EXECVE_def SYS_EXIT_def SYS_MMAP_def SYS_SCHED_YIELD_def SYS_SLEEP_def SYS_KILL_def SYS_CREATE_THREAD_def
  SYS_THREAD_JOIN_def SYS_MUNMAP_def SYS_PROMPT_def SYS_LSPCI_def SYS_FREE_def SYS_CLEAR_def SYS_PS_def
  SYS_SHUTDOWN_def SYS_REBOOT_def SYS_FGETS_def SYS_CREATE_PROCESS_def

section \<open>Output\<close>

text \<open>
  \<open>kprintf\<close> with a string constant as its format, for the conversions the system calls use. A number
  is the register it is passed in, \<open>%s\<close> prints up to the first NUL.
\<close>

datatype karg = Num u64 | Str "byte list"

fun kprint :: "byte list \<Rightarrow> karg list \<Rightarrow> 'a TextMode_scheme \<Rightarrow> 'a TextMode_scheme option" where
  "kprint [] args s = Some s"
| "kprint (c # cs) args s =
     (if c \<noteq> 0x25 then kprint cs args (putChar c 15 s)
      else case (cs, args) of
          (d # ds, Num n # args1) \<Rightarrow> if d = 0x78 then kprint ds args1 (printHex (sint n) s) else None
        | (d # ds, Str bs # args1) \<Rightarrow>
            if d = 0x73 then kprint ds args1 (fold (\<lambda>b. putChar b 15) (takeWhile (\<lambda>b. b \<noteq> 0) bs) s) else None
        | _ \<Rightarrow> None)"

definition lit :: "string \<Rightarrow> byte list" where
  "lit = map of_char"

definition put_lit :: "string \<Rightarrow> u8 \<Rightarrow> 'a TextMode_scheme \<Rightarrow> 'a TextMode_scheme" where
  "put_lit cs color s = fold (\<lambda>b. putChar b color) (lit cs) s"

text \<open>A signed byte and an unsigned byte, promoted to \<open>int\<close> and passed in a register.\<close>

definition int_arg :: "u8 \<Rightarrow> karg" where "int_arg b = Num (ucast (scast b :: u32))"
definition uint_arg :: "u8 \<Rightarrow> karg" where "uint_arg b = Num (ucast b)"

definition show_pci :: "'d pci \<Rightarrow> 'a TextMode_scheme \<Rightarrow> 'a TextMode_scheme option" where
  "show_pci p s =
     fold (\<lambda>row r. r \<bind> kprint (lit ''{%x, %x, %x, %x, %x, %x, %x}\<newline>'') (map Num row)) (printPCIDevices p)
       (kprint (lit ''{Device ID, Vendor ID, Class Code, Subclass, Prog IF, Revision ID, Header Type}\<newline>'') [] s)"

definition show_ps :: "'b tmgr_scheme \<Rightarrow> 'a TextMode_scheme \<Rightarrow> 'a TextMode_scheme option" where
  "show_ps t s =
     fold (\<lambda>(ti, p, pp, name) r. r \<bind> kprint (lit ''{%x, %x, %x, %s}\<newline>'') [uint_arg ti, int_arg p, int_arg pp, Str name])
       (printPS t) (Some (put_lit ''{TID, PID, PPID, Process Name}\<newline>'' 15 s))"

definition RESERVED_MEM :: u32 where "RESERVED_MEM = 2"
definition ACPI_RECLAIMABLE_MEM :: u32 where "ACPI_RECLAIMABLE_MEM = 3"
definition ACPI_NVS_MEM :: u32 where "ACPI_NVS_MEM = 4"
definition BAD_MEM :: u32 where "BAD_MEM = 5"

definition md_attr :: "mem \<Rightarrow> nat \<Rightarrow> u32" where
  "md_attr m i = of_nat (read_le 4 m (MEM_MAP_ADDR + of_nat (24 * i) + 20))"

definition region_format :: "u32 \<Rightarrow> string option" where
  "region_format ty =
     (if ty = USABLE_MEM then Some ''{%x, %x, Usable Memory, %x}\<newline>''
      else if ty = RESERVED_MEM then Some ''{%x, %x, Reserved Memory, %x}\<newline>''
      else if ty = ACPI_RECLAIMABLE_MEM then Some ''{%x, %x, ACPI Reclaimable Memory, %x}\<newline>''
      else if ty = ACPI_NVS_MEM then Some ''{%x, %x, ACPI NVS Memory, %x}\<newline>''
      else if ty = BAD_MEM then Some ''{%x, %x, Corrupted Memory, %x}\<newline>''
      else None)"

definition show_region :: "mem \<Rightarrow> nat \<Rightarrow> 'a TextMode_scheme \<Rightarrow> 'a TextMode_scheme option" where
  "show_region m i s =
     (let md = memMap m (int i)
      in case region_format (md_type md) of
           Some f \<Rightarrow> kprint (lit f) [Num (baseAddr md), Num (md_length md), Num (ucast (md_type md)), Num (ucast (md_attr m i))] s
         | None \<Rightarrow> kprint (lit ''Unknown Memory Type: %x\<newline>'') [Num (ucast (md_type md))] s)"

definition show_free :: "'b mmu_scheme \<Rightarrow> 'a TextMode_scheme \<Rightarrow> 'a TextMode_scheme option" where
  "show_free t s =
     do { s1 \<leftarrow> kprint (lit ''Used Memory: %x Bytes\<newline>'') [Num (usedMem t)] s;
          s2 \<leftarrow> kprint (lit ''Free Memory: %x Bytes\<newline>'') [Num (freeMem t)] s1;
          let s3 = put_lit ''Memory Map:\<newline>{Base Address, Size, Type, Attribute}\<newline>'' 15 s2;
          fold (\<lambda>i r. r \<bind> show_region (kmem t) i) [0..<unat (memRegionCount t)] (Some s3) }"

section \<open>The lock of the screen\<close>

definition acquireLock :: "'d sys \<Rightarrow> 'd sys option" where
  "acquireLock s = (if vLock s then None else Some (s\<lparr>vLock := True\<rparr>))"

definition releaseLock :: "'d sys \<Rightarrow> 'd sys" where
  "releaseLock s = s\<lparr>vLock := False\<rparr>"

definition locked :: "('d sys \<Rightarrow> (u64 \<times> 'd sys) option) \<Rightarrow> 'd call" where
  "locked f s = do { s1 \<leftarrow> acquireLock s; (r, s2) \<leftarrow> f s1; Some (Returns r, releaseLock s2) }"

definition vga :: "(keyboard \<Rightarrow> keyboard option) \<Rightarrow> 'd sys \<Rightarrow> (u64 \<times> 'd sys) option" where
  "vga f s = do { k \<leftarrow> f (sc_kbd s); Some (0, s\<lparr>sc_kbd := k\<rparr>) }"

section \<open>The cases\<close>

text \<open>The task of the caller, from the two halves that \<open>rdmsr\<close> returns.\<close>

definition rdmsr :: "u64 \<Rightarrow> u64 \<times> u64" where
  "rdmsr msr = (take_bit 32 msr, drop_bit 32 msr)"

definition current_task :: "u64 \<Rightarrow> addr" where
  "current_task msr = (case rdmsr msr of (eax, edx) \<Rightarrow> push_bit 32 edx + eax)"

definition sys_putch :: "u64 \<Rightarrow> 'd call" where
  "sys_putch arg1 s = locked (vga (\<lambda>k. Some (putChar (ucast arg1) 15 k))) s"

text \<open>The bytes at virtual addresses; what is not mapped is checked before it is read.\<close>

definition vview :: "'a mmu_scheme \<Rightarrow> mem" where
  "vview s v = (case vread s v of Some b \<Rightarrow> b | None \<Rightarrow> 0)"

definition sys_puts :: "u64 \<Rightarrow> 'd call" where
  "sys_puts arg1 s =
     locked (\<lambda>s1. do { len \<leftarrow> vstrlen s1 arg1;
                       (n, k) \<leftarrow> putString (vview s1) arg1 15 (sc_kbd s1);
                       Some (n, s1\<lparr>sc_kbd := k\<rparr>) }) s"

definition sys_getpid :: "u64 \<Rightarrow> 'd call" where
  "sys_getpid msr s = Some (Returns (scast (pid (pcb_of s (current_task msr)))), s)"

definition sys_getppid :: "u64 \<Rightarrow> 'd call" where
  "sys_getppid msr s = Some (Returns (scast (ppid (pcb_of s (current_task msr)))), s)"

definition sys_gettid :: "u64 \<Rightarrow> 'd call" where
  "sys_gettid msr s = Some (Returns (ucast (tid (tcb_of s (current_task msr)))), s)"

definition sys_stub :: "'d call" where
  "sys_stub s = locked (\<lambda>s1. Some (0, kpwarn ''STUBBED!'' s1)) s"

definition sys_exit :: "u64 \<Rightarrow> 'd call" where
  "sys_exit msr s =
     do { (w, s1) \<leftarrow> endTask (current_task msr) (schedYield (current_task msr) s);
          Some (case w of Some i \<Rightarrow> Waits i | None \<Rightarrow> Returns 0, s1) }"

definition sys_sched_yield :: "u64 \<Rightarrow> 'd call" where
  "sys_sched_yield msr s = Some (Returns 0, schedYield (current_task msr) s)"

text \<open>The timer shares the device with the disk.\<close>

definition on_pit :: "('d pit \<Rightarrow> 'd pit option) \<Rightarrow> 'd sys \<Rightarrow> 'd sys option" where
  "on_pit f s =
     do { p \<leftarrow> f (apic.dev_update (\<lambda>_. disk_state.dev (kfs s)) (sc_pit s));
          Some (s\<lparr>sc_pit := p, kfs := disk_state.dev_update (\<lambda>_. apic.dev p) (kfs s)\<rparr>) }"

definition sys_sleep :: "'d sys_env \<Rightarrow> u64 \<Rightarrow> 'd call" where
  "sys_sleep E ms s = do { s1 \<leftarrow> on_pit (sleep (e_mmio E) (e_irqs E) ms) s; Some (Returns 0, s1) }"

text \<open>Two \<open>va_arg\<close> in the arguments of one call: the first to be evaluated gets \<open>rsi\<close>.\<close>

definition va_args :: "'d sys_env \<Rightarrow> regs \<Rightarrow> u64 \<times> u64" where
  "va_args E r = (if e_ltr E then (r_rsi r, r_rdx r) else (r_rdx r, r_rsi r))"

definition sys_create_thread :: "'d sys_env \<Rightarrow> u64 \<Rightarrow> regs \<Rightarrow> 'd call" where
  "sys_create_thread E msr r s =
     (case va_args E r of (func, args) \<Rightarrow>
        do { (t, s1) \<leftarrow> createThread (e_proc E) (e_loader E) func 3 args (PCB (hdrs s (current_task msr))) s;
             Some (Returns (ucast t), schedYield (current_task msr) s1) })"

definition sys_thread_join :: "u64 \<Rightarrow> u64 \<Rightarrow> 'd call" where
  "sys_thread_join msr arg1 s =
     do { ready \<leftarrow> taskReady (ucast arg1) s;
          Some (if ready then (Returns 1, s) else (Returns 0, schedYield (current_task msr) s)) }"

definition sys_prompt :: "'d call" where
  "sys_prompt s = locked (vga (\<lambda>k. Some (put_lit ''$:>'' 10 k))) s"

definition sys_lspci :: "'d call" where
  "sys_lspci s = locked (vga (show_pci (sc_pci s))) s"

definition sys_free :: "'d call" where
  "sys_free s = locked (vga (show_free s)) s"

definition sys_clear :: "'d call" where
  "sys_clear s = locked (vga (\<lambda>k. Some (snd (setColumn 0 (snd (setLine 0 (vga_clear k))))))) s"

definition sys_ps :: "'d call" where
  "sys_ps s = locked (vga (show_ps s)) s"

definition on_dev :: "('d \<Rightarrow> 'd) \<Rightarrow> 'd sys \<Rightarrow> 'd sys" where
  "on_dev f s = s\<lparr>kfs := disk_state.dev_update f (kfs s)\<rparr>"

definition sys_shutdown :: "'d sys_env \<Rightarrow> 'd call" where
  "sys_shutdown E s = Some (Stops, on_dev (pOutWord (e_ports E) 0x604 0x2000) s)"

partial_function (option) reboot_loop :: "'d ports \<Rightarrow> u8 \<Rightarrow> 'd \<Rightarrow> 'd option" where
  "reboot_loop P good d =
     (if good AND 2 \<noteq> 0 then case pInByte P 0x64 d of (b, d1) \<Rightarrow> reboot_loop P b d1 else Some d)"

definition sys_reboot :: "'d sys_env \<Rightarrow> 'd call" where
  "sys_reboot E s =
     do { d \<leftarrow> reboot_loop (e_ports E) 2 (disk_state.dev (kfs s));
          Some (Returns 0, on_dev (\<lambda>_. pOutWord (e_ports E) 0x64 0xfe d) s) }"

text \<open>
  \<open>readKeyboard\<close> into the memory of the caller. The bytes written are those up to the returned length, or
  the whole buffer when no end of line is found in it.
\<close>

definition fgets_count :: "keyboard \<Rightarrow> u64 \<Rightarrow> u64 \<Rightarrow> nat" where
  "fgets_count k sz n =
     (if \<not> lineON k then 0 else if n \<noteq> 0 then unat n else min (unat sz) KEYBOARD_BUFFER_MAX_SIZE)"

definition sys_fgets :: "'d sys_env \<Rightarrow> regs \<Rightarrow> 'd call" where
  "sys_fgets E r s =
     (case va_args E r of (buf, sz) \<Rightarrow>
        do { (n, m, k) \<leftarrow> readKeyboard buf sz (vview s) (sc_kbd s);
             s1 \<leftarrow> vwrites buf (map (\<lambda>i. m (buf + of_nat i)) [0..<fgets_count (sc_kbd s) sz n]) s;
             Some (Returns n, s1\<lparr>sc_kbd := k\<rparr>) })"

definition sys_create_process :: "'d sys_env \<Rightarrow> u64 \<Rightarrow> u64 \<Rightarrow> 'd call" where
  "sys_create_process E msr arg1 s =
     do { (r, s1) \<leftarrow> createProcess (e_ports E) (e_fs E) (e_proc E) (e_pg0 E) arg1 3 (pid (pcb_of s (current_task msr))) s;
          Some (Returns (of_int r), schedYield (current_task msr) s1) }"

definition sys_unknown :: "u64 \<Rightarrow> 'd call" where
  "sys_unknown sysNo s = locked (vga (kprint (lit ''%x Syscall does not exit yet!\<newline>'') [Num sysNo])) s"

definition syscallISR :: "'d sys_env \<Rightarrow> u64 \<Rightarrow> regs \<Rightarrow> 'd call" where
  "syscallISR E msr r s =
     (let sysNo = r_rax r; arg1 = r_rdi r
      in if sysNo = SYS_PUTCH then sys_putch arg1 s
         else if sysNo = SYS_PUTS then sys_puts arg1 s
         else if sysNo = SYS_GETPID then sys_getpid msr s
         else if sysNo = SYS_GETPPID then sys_getppid msr s
         else if sysNo = SYS_GETTID then sys_gettid msr s
         else if sysNo = SYS_FORK then sys_stub s
         else if sysNo = SYS_EXECVE then sys_stub s
         else if sysNo = SYS_EXIT then sys_exit msr s
         else if sysNo = SYS_MMAP then sys_stub s
         else if sysNo = SYS_SCHED_YIELD then sys_sched_yield msr s
         else if sysNo = SYS_SLEEP then sys_sleep E (r_rsi r) s
         else if sysNo = SYS_KILL then sys_stub s
         else if sysNo = SYS_CREATE_THREAD then sys_create_thread E msr r s
         else if sysNo = SYS_THREAD_JOIN then sys_thread_join msr arg1 s
         else if sysNo = SYS_MUNMAP then sys_stub s
         else if sysNo = SYS_PROMPT then sys_prompt s
         else if sysNo = SYS_LSPCI then sys_lspci s
         else if sysNo = SYS_FREE then sys_free s
         else if sysNo = SYS_CLEAR then sys_clear s
         else if sysNo = SYS_PS then sys_ps s
         else if sysNo = SYS_SHUTDOWN then sys_shutdown E s
         else if sysNo = SYS_REBOOT then sys_reboot E s
         else if sysNo = SYS_FGETS then sys_fgets E r s
         else if sysNo = SYS_CREATE_PROCESS then sys_create_process E msr arg1 s
         else sys_unknown sysNo s)"

section \<open>Output of the calls\<close>

lemma scast_Suc:
  assumes "unat (i :: u32) + 1 < 2 ^ 31"
  shows "(scast (i + 1) :: u64) = scast i + 1"
proof -
  have s: "(scast x :: u64) = of_nat (unat x)" if "unat x < 2 ^ 31" for x :: u32
  proof -
    from that have "int (unat x) < int (2 ^ 31)" by (simp only: of_nat_less_iff)
    then have "uint x < 2 ^ 31" by simp
    moreover have "- (2 ^ 31) \<le> uint x" by (rule order_trans [of _ 0]) simp_all
    ultimately have "signed_take_bit 31 (uint x) = uint x" by (intro signed_take_bit_int_eq_self)
    then have "sint x = uint x" by (simp add: sint_uint)
    then have "(of_int (sint x) :: u64) = of_int (uint x)" by (rule arg_cong)
    then show ?thesis by simp
  qed
  have "unat (i + 1) = unat i + 1" using assms by (simp add: unat_word_ariths)
  then show ?thesis using s [of i] s [of "i + 1"] assms by simp
qed

text \<open>\<open>kprint\<close> is what \<open>kprintf\<close> does when its format is in memory and its arguments are numbers.\<close>

lemma kformat_kprint:
  assumes "cstr m (fmt + scast i) cs" "unat i + length cs + 1 < 2 ^ 31" "kprint cs (map Num ap) s = Some s'"
  shows "kformat_loop str 15 fmt i ap m s = Some (m, s')"
  using assms
proof (induction "length cs" arbitrary: cs i ap s rule: less_induct)
  case less
  show ?case
  proof (cases cs)
    case Nil
    then show ?thesis using less.prems by (simp add: kformat_loop.simps)
  next
    case (Cons c cs1)
    have i1: "(scast (i + 1) :: u64) = scast i + 1" using less.prems(2) Cons by (intro scast_Suc) simp
    have u1: "unat (i + 1) = unat i + 1" using less.prems(2) Cons by (simp add: unat_word_ariths)
    have c: "m (fmt + scast i) = c" "c \<noteq> 0" "cstr m (fmt + scast (i + 1)) cs1"
      using less.prems(1) i1 Cons by (simp_all add: ac_simps)
    show ?thesis
    proof (cases "c = 0x25")
      case False
      then have "kformat_loop str 15 fmt (i + 1) ap m (putChar c 15 s) = Some (m, s')"
        using less.hyps [OF _ c(3), of ap "putChar c 15 s"] less.prems(2,3) u1 Cons by simp
      then show ?thesis using False c by (simp add: kformat_loop.simps [of str 15 fmt i])
    next
      case True
      then obtain d ds n ap1 where d: "cs1 = d # ds" "ap = n # ap1" "d = 0x78" "kprint ds (map Num ap1) (printHex (sint n) s) = Some s'"
        using less.prems(3) Cons by (auto split: list.splits karg.splits if_splits)
      have i2: "(scast (i + 2) :: u64) = scast (i + 1) + 1"
        using scast_Suc [of "i + 1"] u1 less.prems(2) d(1) Cons by (simp add: add.assoc)
      have u2: "unat (i + 2) = unat i + 2" using less.prems(2) d(1) Cons by (simp add: unat_word_ariths)
      have m: "m (fmt + scast (i + 1)) = 0x78" "cstr m (fmt + scast (i + 2)) ds" using c(3) d(1,3) i2 by (simp_all add: add.assoc)
      have "kformat_loop str 15 fmt (i + 2) ap1 m (printHex (sint n) s) = Some (m, s')"
        using less.hyps [OF _ m(2) _ d(4)] less.prems(2) u2 Cons d(1) by simp
      then show ?thesis using True c d m by (simp add: kformat_loop.simps [of str 15 fmt i] kconv_def)
    qed
  qed
qed

lemma kprintf_kprint:
  assumes "cstr m fmt cs" "length cs + 1 < 2 ^ 31" "kprint cs (map Num ap) s = Some s'"
  shows "kprintf str fmt ap m s = Some (m, s')"
  using kformat_kprint [of m fmt 0 cs ap s s' str] assms by (simp add: kprintf_def)

text \<open>
  The string that a program writes: the characters appear on the terminal in the order of the string, and
  the call returns their number.
\<close>

definition vcstr :: "'a mmu_scheme \<Rightarrow> addr \<Rightarrow> byte list \<Rightarrow> bool" where
  "vcstr s a cs \<longleftrightarrow> cstr (vview s) a cs \<and> length cs < 2 ^ 64 \<and> (\<forall>i \<le> length cs. vread s (a + of_nat i) \<noteq> None)"

lemma vstrlen_cstr:
  assumes "vcstr s a cs"
  shows "vstrlen s a = Some (of_nat (length cs))"
proof -
  have rd: "vread s (a + of_nat i) = Some (vview s (a + of_nat i))" if "i \<le> length cs" for i
    using assms that by (auto simp: vcstr_def vview_def)
  have v: "vview s (a + of_nat i) = (cs @ [0]) ! i" if "i \<le> length cs" for i
    using assms that cstr_nth [of "vview s" a cs i] by (simp add: vcstr_def)
  have nz: "0 \<notin> set cs" using assms cstr_nonzero by (auto simp: vcstr_def)
  have "vstrlen_loop s a (of_nat i) = Some (of_nat (length cs))" if "i \<le> length cs" for i
    using that
  proof (induction "length cs - i" arbitrary: i)
    case 0
    then show ?case using rd [of i] v [of i] by (simp add: vstrlen_loop.simps nth_append)
  next
    case (Suc k)
    then have "i < length cs" by simp
    then have "cs ! i \<noteq> 0" using nz by (metis nth_mem)
    moreover have "vstrlen_loop s a (of_nat (Suc i)) = Some (of_nat (length cs))"
      using Suc.hyps(1) [of "Suc i"] Suc.hyps(2) Suc.prems by simp
    ultimately show ?case using rd [of i] v [of i] Suc.prems \<open>i < length cs\<close>
      by (simp add: vstrlen_loop.simps [of s a "of_nat i"] nth_append add.commute)
  qed
  from this [of 0] show ?thesis by (simp add: vstrlen_def)
qed

lemma translate_vLock [simp]: "translate (s\<lparr>vLock := b\<rparr>) = translate s" "vread (s\<lparr>vLock := b\<rparr>) = vread s" "vview (s\<lparr>vLock := b\<rparr>) = vview s"
proof -
  show t: "translate (s\<lparr>vLock := b\<rparr>) = translate s" by (rule ext) (simp add: translate_def)
  show v: "vread (s\<lparr>vLock := b\<rparr>) = vread s" by (rule ext) (simp add: vread_def t)
  show "vview (s\<lparr>vLock := b\<rparr>) = vview s" by (rule ext) (simp add: vview_def v)
qed

text \<open>
  The string that a program writes: the characters appear on the terminal in the order of the string, and
  the call returns their number.
\<close>

lemma sys_puts_prints:
  assumes "vcstr s a cs" "\<not> vLock s"
  shows "sys_puts a s = Some (Returns (of_nat (length cs)), s\<lparr>sc_kbd := fold (\<lambda>c. putChar c 15) cs (sc_kbd s)\<rparr>)"
proof -
  have c: "cstr (vview s) a cs" "length cs < 2 ^ 64" using assms(1) by (simp_all add: vcstr_def)
  have "vcstr (s\<lparr>vLock := True\<rparr>) a cs" using assms(1) by (simp add: vcstr_def)
  note l = vstrlen_cstr [OF this]
  have "putString (vview s) a 15 (sc_kbd s) = Some (of_nat (length cs), fold (\<lambda>c. putChar c 15) cs (sc_kbd s))"
    using putString_loop_fold [OF c(2), of 0 "vview s" a 15 "sc_kbd s"] strlen_cstr [OF c(1)] cstr_map_nth [OF c(1)]
    by (simp add: putString_def)
  then show ?thesis using l assms(2) by (simp add: sys_puts_def locked_def acquireLock_def releaseLock_def)
qed

lemma sys_puts_terminal:
  assumes "vcstr s a cs" "\<not> vLock s" "vga_ok (sc_kbd s)" "sys_puts a s = Some (out, s')"
  shows "out = Returns (of_nat (length cs)) \<and> screen (sc_kbd s') = fold (\<lambda>c. term_put c 15) cs (screen (sc_kbd s)) \<and> vga_ok (sc_kbd s')"
  using sys_puts_prints [OF assms(1,2)] fold_putChar_screen [OF assms(3), of 15 cs] assms(4) by auto

section \<open>What the calls keep\<close>

lemma current_task_msr [simp]: "current_task msr = msr"
proof -
  have "push_bit 32 (drop_bit 32 msr) + take_bit 32 msr = push_bit 32 (drop_bit 32 msr) OR take_bit 32 msr"
    by (rule disjunctive_add) (simp add: bit_simps)
  also have "\<dots> = msr" by (rule bit_eqI) (auto simp: bit_simps)
  finally show ?thesis by (simp add: current_task_def rdmsr_def)
qed

text \<open>The table of tasks and the lock.\<close>

definition same_table :: "'d sys \<Rightarrow> 'd sys \<Rightarrow> bool" where
  "same_table s s' \<longleftrightarrow> keeps s s' \<and> vLock s' = vLock s"

lemma same_table_refl [simp]: "same_table s s"
  by (simp add: same_table_def)

lemma same_table_yield [simp]: "same_table s (schedYield t s)"
  unfolding same_table_def schedYield_def
  by (intro conjI keeps_upd_tcb) (simp_all add: upd_tcb_def)

lemma same_table_dev [simp]: "same_table s (on_dev f s)"
  by (simp add: same_table_def on_dev_def keeps_def)

lemma same_table_pit: "on_pit f s = Some s' \<Longrightarrow> same_table s s'"
  by (auto simp: same_table_def on_pit_def bind_eq_Some_conv keeps_def)

text \<open>A call under the lock returns with the lock free, and nothing but the screen or the warnings changed.\<close>

lemma locked_table:
  assumes "locked f s = Some (out, s')" "\<And>s1 r s2. f s1 = Some (r, s2) \<Longrightarrow> keeps s1 s2"
  shows "same_table s s'"
proof -
  obtain r s2 where l: "\<not> vLock s" "f (s\<lparr>vLock := True\<rparr>) = Some (r, s2)" "s' = s2\<lparr>vLock := False\<rparr>"
    using assms(1) by (auto simp: locked_def acquireLock_def releaseLock_def bind_eq_Some_conv split: if_splits)
  have "keeps (s\<lparr>vLock := True\<rparr>) s2" by (rule assms(2) [OF l(2)])
  then show ?thesis using l(1,3) by (simp add: same_table_def keeps_def)
qed

lemma vga_keeps: "vga f s = Some (r, s') \<Longrightarrow> keeps s s'"
  by (auto simp: vga_def bind_eq_Some_conv keeps_def)

lemma locked_vga_table: "locked (vga f) s = Some (out, s') \<Longrightarrow> same_table s s'"
  by (erule locked_table) (rule vga_keeps)

lemma sys_puts_table: "sys_puts a s = Some (out, s') \<Longrightarrow> same_table s s'"
  unfolding sys_puts_def by (erule locked_table) (auto simp: bind_eq_Some_conv keeps_def)

lemma sys_stub_table: "sys_stub s = Some (out, s') \<Longrightarrow> same_table s s'"
  unfolding sys_stub_def by (erule locked_table) auto

lemma vwrites_kmem: "vwrites v bs s = Some s' \<Longrightarrow> \<exists>m. s' = s\<lparr>kmem := m\<rparr>"
proof (induction bs arbitrary: v s)
  case Nil
  then show ?case by (intro exI [of _ "kmem s"]) simp
next
  case (Cons b bs)
  then obtain m m' where "s' = s\<lparr>kmem := m\<rparr>\<lparr>kmem := m'\<rparr>" by (fastforce simp: vwrite_def bind_eq_Some_conv)
  then show ?case by (intro exI [of _ m']) simp
qed

lemma sys_fgets_table:
  assumes "sys_fgets E r s = Some (out, s')"
  shows "same_table s s'"
proof -
  obtain v bs s1 k where "vwrites v bs s = Some s1" "s' = s1\<lparr>sc_kbd := k\<rparr>"
    using assms by (auto simp: sys_fgets_def bind_eq_Some_conv split: prod.splits)
  then show ?thesis using vwrites_kmem [of v bs s s1] by (auto simp: same_table_def keeps_def)
qed

lemma sys_sleep_table: "sys_sleep E ms s = Some (out, s') \<Longrightarrow> same_table s s'"
  by (auto simp: sys_sleep_def bind_eq_Some_conv dest: same_table_pit)

lemma sys_thread_join_table: "sys_thread_join msr a s = Some (out, s') \<Longrightarrow> same_table s s'"
  by (auto simp: sys_thread_join_def bind_eq_Some_conv split: if_splits)

lemma sys_reboot_table: "sys_reboot E s = Some (out, s') \<Longrightarrow> same_table s s'"
  by (auto simp: sys_reboot_def bind_eq_Some_conv)

lemmas call_tables = locked_vga_table sys_puts_table sys_stub_table sys_fgets_table sys_sleep_table
  sys_thread_join_table sys_reboot_table

lemma syscall_table:
  assumes "syscallISR E msr r s = Some (out, s')" "r_rax r \<notin> {SYS_EXIT, SYS_CREATE_THREAD, SYS_CREATE_PROCESS}"
  shows "same_table s s'"
  using assms unfolding syscallISR_def Let_def sys_putch_def sys_prompt_def sys_lspci_def sys_free_def sys_clear_def sys_ps_def
    sys_unknown_def
  by (auto split: if_splits dest: call_tables simp: sys_getpid_def sys_getppid_def sys_gettid_def sys_sched_yield_def sys_shutdown_def)

section \<open>Calls that create tasks\<close>

lemma keeps_yield: "keeps s (schedYield t s)"
  unfolding schedYield_def by (intro keeps_upd_tcb) simp_all

lemma thread_registered_keeps:
  "thread_registered s dpl pcb task s1 \<Longrightarrow> keeps s1 s' \<Longrightarrow> thread_registered s dpl pcb task s'"
  by (simp add: thread_registered_def keeps_def)

lemma sys_create_process_table:
  assumes "sys_create_process E msr a s = Some (out, s')"
  shows "keeps s s' \<and> out = Returns (- 1) \<or>
    out = Returns (ucast (tasksCount s)) \<and> (\<exists>task. registered s 3 (pid (pcb_of s msr)) task s')"
proof -
  obtain r s1 where c: "createProcess (e_ports E) (e_fs E) (e_proc E) (e_pg0 E) a 3 (pid (pcb_of s msr)) s = Some (r, s1)"
      "out = Returns (of_int r)" "s' = schedYield msr s1"
    using assms by (auto simp: sys_create_process_def bind_eq_Some_conv)
  show ?thesis
  proof (cases "r = - 1")
    case True
    then show ?thesis using createProcess_table [OF c(1)] c(2,3) keeps_trans [OF _ keeps_yield] by auto
  next
    case False
    then obtain task where t: "r = uint (tasksCount s)" "registered s 3 (pid (pcb_of s msr)) task s1"
      using createProcess_table [OF c(1)] by auto
    have "registered s 3 (pid (pcb_of s msr)) task s'" unfolding c(3) by (rule registered_keeps [OF t(2) keeps_yield])
    moreover have "out = Returns (ucast (tasksCount s))" using c(2) t(1) by (simp add: unsigned_of_int)
    ultimately show ?thesis by blast
  qed
qed

lemma sys_create_thread_table:
  assumes "sys_create_thread E msr r s = Some (out, s')"
  shows "keeps s s' \<and> out = Returns 0 \<or>
    out = Returns (ucast (tasksCount s)) \<and> (\<exists>task. thread_registered s 3 (PCB (hdrs s msr)) task s')"
proof -
  obtain func args t s1 where c: "createThread (e_proc E) (e_loader E) func 3 args (PCB (hdrs s msr)) s = Some (t, s1)"
      "out = Returns (ucast t)" "s' = schedYield msr s1"
    using assms by (auto simp: sys_create_thread_def bind_eq_Some_conv split: prod.splits)
  show ?thesis
  proof (cases "unat (tasksCount s) = MAX_TASKS_COUNT")
    case True
    then have "t = 0" "keeps s s1" using c(1) by (auto simp: createThread_def)
    then show ?thesis using c(2,3) keeps_trans [OF _ keeps_yield] by auto
  next
    case False
    then obtain task where t: "t = tasksCount s" "thread_registered s 3 (PCB (hdrs s msr)) task s1"
      using createThread_table [OF c(1)] by blast
    have "thread_registered s 3 (PCB (hdrs s msr)) task s'" unfolding c(3) by (rule thread_registered_keeps [OF t(2) keeps_yield])
    then show ?thesis using c(2) t(1) by blast
  qed
qed

section \<open>The end of a task\<close>

lemma endTask_loop_table:
  fixes s :: "'a tmgr_scheme"
  assumes "endTask_loop n p i s = Some (w, s')"
  shows "tasks s' = tasks s \<and> tasksCount s' = tasksCount s"
proof -
  have "tasks (snd (w, s')) = tasks s \<and> tasksCount (snd (w, s')) = tasksCount s"
  proof (rule endTask_loop.raw_induct
      [where P = "\<lambda>n p i s y. tasks (snd y) = tasks s \<and> tasksCount (snd y) = tasksCount s", OF _ assms])
    fix f :: "u8 \<Rightarrow> u8 \<Rightarrow> u8 \<Rightarrow> 'a tmgr_scheme \<Rightarrow> (u8 option \<times> 'a tmgr_scheme) option" and n p i and s :: "'a tmgr_scheme" and y
    assume ih: "\<And>n p i s y. f n p i s = Some y \<Longrightarrow> tasks (snd y) = tasks s \<and> tasksCount (snd y) = tasksCount s"
      and b: "(if i \<le> n
      then if unat i \<ge> length (tasks s) then None
           else let task = tasks s ! unat i
                in if task \<noteq> 0 \<and> pid (pcb_of s task) = p \<and> uint (tid (tcb_of s task)) \<noteq> sint p
                   then Some (Some i,
                          upd_tcb (TCB (hdrs s task)) (\<lambda>t. t\<lparr>tcb_statusEnd := True, timeSlices := 0\<rparr>)
                            (upd_pcb (PCB (hdrs s task)) (\<lambda>q. q\<lparr>pcb_statusEnd := True\<rparr>) s))
                   else f n p (i + 1) s
      else Some (None, s)) = Some y"
    show "tasks (snd y) = tasks s \<and> tasksCount (snd y) = tasksCount s"
      using b ih [of n p "i + 1" s y] by (auto simp: Let_def upd_tcb_def upd_pcb_def split: if_splits)
  qed
  then show ?thesis by simp
qed

lemma endTask_tail_table:
  fixes s :: "'a tmgr_scheme"
  assumes "endTask_tail task s = Some s'"
  shows "tasks s' = tasks s \<and> tasksCount s' = tasksCount s"
proof -
  have "tasks s0 = tasks s \<and> tasksCount s0 = tasksCount s" if "kpkFree a s = Some s0" for a s0
    using keeps_free [OF that] by (simp add: keeps_def)
  then show ?thesis using assms
    by (auto simp: endTask_tail_def bind_eq_Some_conv upd_tcb_def upd_pcb_def upd_hdr_def split: if_splits)
qed

lemma sys_exit_table:
  assumes "sys_exit msr s = Some (out, s')"
  shows "tasks s' = tasks s \<and> tasksCount s' = tasksCount s"
proof -
  define s0 where "s0 = schedYield msr s"
  have k: "tasks s0 = tasks s" "tasksCount s0 = tasksCount s" using keeps_yield [of s msr] by (simp_all add: s0_def keeps_def)
  obtain w where "endTask msr s0 = Some (w, s')"
    using assms by (auto simp: sys_exit_def s0_def bind_eq_Some_conv)
  then have "tasks s' = tasks s0 \<and> tasksCount s' = tasksCount s0"
    by (auto simp: endTask_def endTask_pid_def bind_eq_Some_conv split: if_splits option.splits
        dest!: endTask_loop_table endTask_tail_table)
  then show ?thesis using k by simp
qed

section \<open>Properties\<close>

text \<open>
  C13. What a system call can do to the tasks, whenever the handler returns. A call other than exit, thread creation, process
  creation and \<open>SYS_FGETS\<close>
  leaves the task table with every header, id, code, stack and \<open>gs\<close> selector, and the lock of the screen as they were. Process
  creation returns -1 and leaves the table as it was, or returns the count of tasks, raises it by one and puts a task that
  runs with user privilege and is the child of the caller in the slot of that number. Thread creation returns 0 and leaves the
  table, or puts a task with user privilege and the process of the caller in the slot numbered by the count of tasks. Neither checks that
  this slot is free. Exit leaves the table's entries. Task headers are objects in stores of their own here, which stores of bytes do not
  reach: nothing is said of \<open>SYS_FGETS\<close>, which writes through a pointer of the caller without a check, and for the two
  creations the program file and its arguments are taken not to be loaded over the kernel's task headers.
\<close>

theorem syscall_tasks:
  assumes "syscallISR E msr r s = Some (out, s')"
  shows "if r_rax r = SYS_CREATE_PROCESS
    then keeps s s' \<and> out = Returns (- 1) \<or>
         out = Returns (ucast (tasksCount s)) \<and> (\<exists>task. registered s 3 (pid (pcb_of s msr)) task s')
    else if r_rax r = SYS_CREATE_THREAD
    then keeps s s' \<and> out = Returns 0 \<or>
         out = Returns (ucast (tasksCount s)) \<and> (\<exists>task. thread_registered s 3 (PCB (hdrs s msr)) task s')
    else if r_rax r = SYS_EXIT then tasks s' = tasks s \<and> tasksCount s' = tasksCount s
    else r_rax r = SYS_FGETS \<or> keeps s s' \<and> vLock s' = vLock s"
proof (cases "r_rax r \<in> {SYS_EXIT, SYS_CREATE_THREAD, SYS_CREATE_PROCESS}")
  case False
  then show ?thesis using syscall_table [OF assms] by (simp add: same_table_def)
next
  case True
  then consider "r_rax r = SYS_EXIT" | "r_rax r = SYS_CREATE_THREAD" | "r_rax r = SYS_CREATE_PROCESS" by blast
  then show ?thesis
  proof cases
    case 1
    then have "sys_exit msr s = Some (out, s')" using assms by (simp add: syscallISR_def sys_numbers)
    then show ?thesis using sys_exit_table [of msr s out s'] 1 by (simp add: sys_numbers)
  next
    case 2
    then have "sys_create_thread E msr r s = Some (out, s')" using assms by (simp add: syscallISR_def sys_numbers)
    from sys_create_thread_table [OF this] show ?thesis using 2 by (simp add: sys_numbers)
  next
    case 3
    then have "sys_create_process E msr (r_rdi r) s = Some (out, s')" using assms by (simp add: syscallISR_def sys_numbers)
    from sys_create_process_table [OF this] show ?thesis using 3 by (simp add: sys_numbers)
  qed
qed

text \<open>A machine with two tasks, and one whose table is full.\<close>

definition demo_mmio :: "unit mmio" where
  "demo_mmio = \<lparr>mInDWord = \<lambda>_ d. (0, d), mOutDWord = \<lambda>_ _ d. d\<rparr>"

definition demo_env :: "unit sys_env" where
  "demo_env = \<lparr>e_ports = demo_ports, e_mmio = demo_mmio, e_irqs = \<lambda>_. 0, e_fs = demo_fs_addrs,
     e_proc = \<lparr>at_args = 0x8000, at_filter = 0x8100\<rparr>, e_pg0 = 0, e_loader = 0x100000, e_ltr = False\<rparr>"

definition demo_sys :: "unit sys" where
  "demo_sys = tmgr.extend demo_tmgr \<lparr>kfs = demo_fs, sc_kbd = demo_keyboard,
     sc_pci = \<lparr>pdev = (), pciDevs = [], PCIDevicesCount = 0\<rparr>,
     sc_pit = \<lparr>kmem = \<lambda>_. 0, kout = [], madt = 0, dev = (), ioapic = 0, ioapicisoCount = 0, ioapiciso = [],
       ioapicnsCount = 0, ioapicns = [], lapicnCount = 0, lapicn = [], lapicao = 0, lx2apicCount = 0, lx2apic = [],
       lapic = [], lapicCount = 0, ticks = 0, polls = 0\<rparr>, vLock = False\<rparr>"

definition demo_full :: "unit sys" where
  "demo_full = demo_sys\<lparr>tasksCount := 255\<rparr>"

lemma demo_exit_end: "\<exists>w s1. endTask 0x5000 (schedYield 0x5000 demo_sys) = Some (w, s1)"
  by (simp add: endTask_def endTask_tail_def schedYield_def upd_tcb_def demo_sys_def tmgr.extend_def demo_tmgr_def demo_tcb_def zero_PCB_def)

lemma syscall_tasks_witness:
  "(\<exists>s'. syscallISR demo_env 0x5000 \<lparr>r_rax = SYS_PROMPT, r_rdi = 0, r_rsi = 0, r_rdx = 0\<rparr> demo_sys = Some (Returns 0, s') \<and>
      sc_kbd s' = put_lit ''$:>'' 10 demo_keyboard \<and> keeps demo_sys s' \<and> \<not> vLock s') \<and>
   (\<exists>s'. syscallISR demo_env 0x5000 \<lparr>r_rax = SYS_CREATE_PROCESS, r_rdi = 0x40000000, r_rsi = 0, r_rdx = 0\<rparr> demo_full =
      Some (Returns (- 1), s') \<and> keeps demo_full s') \<and>
   (\<exists>out s'. syscallISR demo_env 0x5000 \<lparr>r_rax = SYS_EXIT, r_rdi = 0, r_rsi = 0, r_rdx = 0\<rparr> demo_sys = Some (out, s') \<and>
      tasks s' = tasks demo_sys)"
proof (intro conjI)
  let ?s = "demo_sys\<lparr>sc_kbd := put_lit ''$:>'' 10 demo_keyboard\<rparr>"
  have c: "syscallISR demo_env 0x5000 \<lparr>r_rax = SYS_PROMPT, r_rdi = 0, r_rsi = 0, r_rdx = 0\<rparr> demo_sys = Some (Returns 0, ?s)"
    by (simp add: syscallISR_def sys_numbers sys_prompt_def locked_def acquireLock_def releaseLock_def vga_def demo_sys_def
        tmgr.extend_def)
  have "\<not> vLock demo_sys" by (simp add: demo_sys_def tmgr.extend_def)
  then show "\<exists>s'. syscallISR demo_env 0x5000 \<lparr>r_rax = SYS_PROMPT, r_rdi = 0, r_rsi = 0, r_rdx = 0\<rparr> demo_sys = Some (Returns 0, s') \<and>
      sc_kbd s' = put_lit ''$:>'' 10 demo_keyboard \<and> keeps demo_sys s' \<and> \<not> vLock s'"
    using syscall_tasks [OF c] c by (intro exI [of _ ?s]) (simp add: sys_numbers)
next
  let ?s = "schedYield 0x5000 (kpwarn ''Maximum tasks reached! Retry again later!'' demo_full)"
  have c: "syscallISR demo_env 0x5000 \<lparr>r_rax = SYS_CREATE_PROCESS, r_rdi = 0x40000000, r_rsi = 0, r_rdx = 0\<rparr> demo_full = Some (Returns (- 1), ?s)"
    by (simp add: syscallISR_def sys_numbers sys_create_process_def createProcess_def demo_full_def MAX_TASKS_COUNT_def)
  have "(ucast (tasksCount demo_full) :: u64) \<noteq> - 1" by (simp add: demo_full_def)
  then show "\<exists>s'. syscallISR demo_env 0x5000 \<lparr>r_rax = SYS_CREATE_PROCESS, r_rdi = 0x40000000, r_rsi = 0, r_rdx = 0\<rparr> demo_full =
      Some (Returns (- 1), s') \<and> keeps demo_full s'"
    using syscall_tasks [OF c] c by (intro exI [of _ ?s]) (simp add: sys_numbers)
next
  obtain w s1 where e: "endTask 0x5000 (schedYield 0x5000 demo_sys) = Some (w, s1)" using demo_exit_end by blast
  let ?o = "case w of Some i \<Rightarrow> Waits i | None \<Rightarrow> Returns 0"
  have c: "syscallISR demo_env 0x5000 \<lparr>r_rax = SYS_EXIT, r_rdi = 0, r_rsi = 0, r_rdx = 0\<rparr> demo_sys = Some (?o, s1)"
    using e by (simp add: syscallISR_def sys_numbers sys_exit_def)
  show "\<exists>out s'. syscallISR demo_env 0x5000 \<lparr>r_rax = SYS_EXIT, r_rdi = 0, r_rsi = 0, r_rdx = 0\<rparr> demo_sys = Some (out, s') \<and>
      tasks s' = tasks demo_sys"
    using syscall_tasks [OF c] c by (intro exI [of _ ?o] exI [of _ s1]) (simp add: sys_numbers)
qed

end
