(* ===== verification/Boot.thy ===== *)
theory Boot
  imports Syscall Gdt Idt
begin

text \<open>
  The start of the kernel, \<open>src/src/kernel/kernelMain.cpp\<close>: \<open>kernelMain\<close>, which the first processor runs
  after the constructors, and \<open>APEntry\<close>, which every other one runs. The state puts the segment tables and
  the interrupt tables beside the kernel's; the three share memory, heap and devices.
\<close>

section \<open>State\<close>

record 'd machine = "'d kernel" +
  m_gdt :: gdt_state
  m_ints :: "'d ints"

definition to_gdt :: "'d machine \<Rightarrow> gdt_state" where
  "to_gdt s = (m_gdt s)\<lparr>kmem := kmem s, kout := kout s, topChunk := topChunk s, bucket := bucket s\<rparr>"

definition on_gdt :: "(gdt_state \<Rightarrow> gdt_state option) \<Rightarrow> 'd machine \<Rightarrow> 'd machine option" where
  "on_gdt f s =
     do { g \<leftarrow> f (to_gdt s);
          Some (s\<lparr>kmem := kmem g, kout := kout g, topChunk := topChunk g, bucket := bucket g, m_gdt := g\<rparr>) }"

definition to_ints :: "'d machine \<Rightarrow> 'd ints" where
  "to_ints s = apic.dev_update (\<lambda>_. disk_state.dev (kfs s)) ((m_ints s)\<lparr>kmem := kmem s, kout := kout s\<rparr>)"

definition on_ints :: "('d ints \<Rightarrow> 'd ints option) \<Rightarrow> 'd machine \<Rightarrow> 'd machine option" where
  "on_ints f s =
     do { i \<leftarrow> f (to_ints s);
          Some (s\<lparr>kmem := kmem i, kout := kout i, m_ints := i, kfs := disk_state.dev_update (\<lambda>_. apic.dev i) (kfs s)\<rparr>) }"

text \<open>
  Addresses: the constant table of segment descriptors, the path of the shell on the stack, the entry points
  of the two kernel threads.
\<close>

record 'd boot_env =
  b_env :: "'d sys_env"
  b_handlers :: handlers
  b_kgdt :: addr
  b_shell :: addr
  b_reaper :: addr

section \<open>Operations\<close>

definition kernelMain :: "'d boot_env \<Rightarrow> 'd machine \<Rightarrow> 'd machine option" where
  "kernelMain B s =
     do { let E = b_env B;
          s1 \<leftarrow> on_gdt (createProperGDTs (b_kgdt B)) s;
          gdtr \<leftarrow> loadProperGDT 0 (to_gdt s1);
          s2 \<leftarrow> on_ints (initInterrupts (e_ports E) (e_mmio E) (e_irqs E) (b_handlers B)) s1;
          s3 \<leftarrow> vwrites (b_shell B) (lit ''/bin/shell'' @ [0]) s2;
          (r, s4) \<leftarrow> createProcess (e_ports E) (e_fs E) (e_proc E) (e_pg0 E) (b_shell B) 3 (- 1) s3;
          _ \<leftarrow> CATCH_FIRE (r < 0);
          (t1, s5) \<leftarrow> createThread (e_proc E) (e_loader E) (b_reaper B) 0 0 (getKernelPHdr s4) s4;
          (t2, s6) \<leftarrow> createThread (e_proc E) (e_loader E) (e_loader E) 0 0 (getKernelPHdr s5) s5;
          Some s6 }"

text \<open>What another processor does before it waits for interrupts; the result is what it loads with \<open>lgdt\<close> and \<open>ltr\<close>.\<close>

definition APEntry :: "'d mmio \<Rightarrow> (nat \<Rightarrow> nat) \<Rightarrow> 'd machine \<Rightarrow> (((u16 \<times> u64) \<times> u16) \<times> 'd machine) option" where
  "APEntry M irqs s =
     do { let (lapicID, i) = getLAPICID M (to_ints s);
          s1 \<leftarrow> on_ints (\<lambda>_. Some i) s;
          g \<leftarrow> loadProperGDT lapicID (to_gdt s1);
          s2 \<leftarrow> on_ints (APEntry_timer M irqs) s1;
          Some (g, s2) }"

section \<open>The tasks after the start\<close>

lemma keeps_on_gdt: "on_gdt f s = Some s' \<Longrightarrow> keeps s s'"
  by (auto simp: on_gdt_def bind_eq_Some_conv keeps_def)

lemma keeps_on_ints: "on_ints f s = Some s' \<Longrightarrow> keeps s s'"
  by (auto simp: on_ints_def bind_eq_Some_conv keeps_def)

text \<open>
  The kernel starts with three tasks more: the shell, with user privilege, and behind it the reaper and the
  loader, with kernel privilege, in the slots numbered by the count of tasks; the code does not check that they are free.
\<close>

lemma kernelMain_tasks:
  assumes "kernelMain B s = Some s'" "unat (tasksCount s) + 3 \<le> MAX_TASKS_COUNT"
  shows "\<exists>t0 t1 t2 u v. registered s 3 (- 1) t0 u \<and> thread_registered u 0 (kernelPHdr u) t1 v \<and>
    thread_registered v 0 (kernelPHdr v) t2 s' \<and> tasksCount s' = tasksCount s + 3 \<and>
    tasks s' = (tasks s)[unat (tasksCount s) := t0, unat (tasksCount s) + 1 := t1, unat (tasksCount s) + 2 := t2]"
proof -
  define E where "E = b_env B"
  obtain s1 g s2 s3 r s4 x s5 y where o: "on_gdt (createProperGDTs (b_kgdt B)) s = Some s1"
      "on_ints (initInterrupts (e_ports E) (e_mmio E) (e_irqs E) (b_handlers B)) s1 = Some s2"
      "vwrites (b_shell B) (lit ''/bin/shell'' @ [0]) s2 = Some s3"
      "createProcess (e_ports E) (e_fs E) (e_proc E) (e_pg0 E) (b_shell B) 3 (- 1) s3 = Some (r, s4)" "\<not> r < 0"
      "createThread (e_proc E) (e_loader E) (b_reaper B) 0 0 (kernelPHdr s4) s4 = Some (x, s5)"
      "createThread (e_proc E) (e_loader E) (e_loader E) 0 0 (kernelPHdr s5) s5 = Some (y, s')"
    using assms(1) unfolding kernelMain_def Let_def E_def [symmetric] by (auto simp: bind_eq_Some_conv split: if_splits)
  have k: "keeps s s3"
    by (rule keeps_trans [OF keeps_trans [OF keeps_on_gdt [OF o(1)] keeps_on_ints [OF o(2)]] keeps_vwrites [OF o(3)]])
  have "r \<noteq> - 1" using o(5) by auto
  then obtain t0 where "registered s3 3 (- 1) t0 s4" using createProcess_table [OF o(4)] by auto
  then have t0: "registered s 3 (- 1) t0 s4" by (rule keeps_registered [OF k])
  then have c4: "tasksCount s4 = tasksCount s + 1" "tasks s4 = (tasks s)[unat (tasksCount s) := t0]" by (simp_all add: registered_def)
  have u: "unat (tasksCount s + 1) = unat (tasksCount s) + 1" "unat (tasksCount s + 2) = unat (tasksCount s) + 2"
    using assms(2) by (simp_all add: MAX_TASKS_COUNT_def unat_word_ariths)
  obtain t1 where t1: "thread_registered s4 0 (kernelPHdr s4) t1 s5"
    using createThread_table [OF o(6)] c4(1) u(1) assms(2) by (auto simp: MAX_TASKS_COUNT_def)
  then have c5: "tasksCount s5 = tasksCount s + 2" "tasks s5 = (tasks s4)[unat (tasksCount s) + 1 := t1]"
    using c4(1) u(1) by (simp_all add: thread_registered_def)
  obtain t2 where t2: "thread_registered s5 0 (kernelPHdr s5) t2 s'"
    using createThread_table [OF o(7)] c5(1) u(2) assms(2) by (auto simp: MAX_TASKS_COUNT_def)
  then have "tasksCount s' = tasksCount s + 3" "tasks s' = (tasks s5)[unat (tasksCount s) + 2 := t2]"
    using c5(1) u(2) by (simp_all add: thread_registered_def)
  then show ?thesis using t0 t1 t2 c4(2) c5(2)
    by (intro exI [of _ t0] exI [of _ t1] exI [of _ t2] exI [of _ s4] exI [of _ s5]) simp
qed

end
