(* ===== verification/Ulibc.thy ===== *)
theory Ulibc
  imports Syscall
begin

text \<open>
  The user-space C library, \<open>src/src/user/libc\<close>: strings, number formatting, \<open>printf\<close> and the wrappers of
  the system calls. A program runs on the memory of its address space and on what is behind the two
  software interrupts it uses, \<open>int 0x80\<close> for system calls and \<open>int 0x22\<close> to let other tasks run: the
  kernel's state is a type parameter, and the interrupts are operations on it and on the memory.
  Registers that an \<open>asm\<close> statement does not set keep some value, the field \<open>junk\<close>. \<open>None\<close> is a
  loop that never ends, or a fault.
\<close>

section \<open>Programs\<close>

record 'k user =
  u_mem :: mem
  u_kern :: 'k

record 'k uenv =
  int80 :: "regs \<Rightarrow> 'k user \<Rightarrow> (u64 \<times> 'k user) option"
  int22 :: "'k user \<Rightarrow> 'k user option"
  junk :: regs
  at_printf :: addr
  at_itoa :: addr

section \<open>Strings\<close>

text \<open>
  Up to \<open>strtok\<close>, the functions of \<open>string.cpp\<close> have the text of those of the kernel's \<open>kstring.cpp\<close>.
\<close>

definition u_strlen :: "mem \<Rightarrow> addr \<Rightarrow> u64 option" where "u_strlen = strlen"
definition u_strcpy :: "addr \<Rightarrow> addr \<Rightarrow> mem \<Rightarrow> (u64 \<times> mem) option" where "u_strcpy = strcpy"
definition u_strncpy :: "addr \<Rightarrow> addr \<Rightarrow> u64 \<Rightarrow> mem \<Rightarrow> u64 \<times> mem" where "u_strncpy = strncpy"
definition u_memcpy :: "addr \<Rightarrow> addr \<Rightarrow> u64 \<Rightarrow> mem \<Rightarrow> addr \<times> mem" where "u_memcpy = memcpy"
definition u_memset :: "addr \<Rightarrow> byte \<Rightarrow> u64 \<Rightarrow> mem \<Rightarrow> addr \<times> mem" where "u_memset = memset"
definition u_strcmp :: "mem \<Rightarrow> addr \<Rightarrow> addr \<Rightarrow> int option" where "u_strcmp = strcmp"
definition u_istrcmp :: "mem \<Rightarrow> addr \<Rightarrow> addr \<Rightarrow> int option" where "u_istrcmp = istrcmp"
definition u_strncmp :: "mem \<Rightarrow> addr \<Rightarrow> addr \<Rightarrow> u64 \<Rightarrow> int option" where "u_strncmp = strncmp"
definition u_istrncmp :: "mem \<Rightarrow> addr \<Rightarrow> addr \<Rightarrow> u64 \<Rightarrow> int option" where "u_istrncmp = istrncmp"
definition u_strtok :: "addr \<Rightarrow> addr \<Rightarrow> addr \<times> mem \<Rightarrow> (addr \<times> addr \<times> mem) option" where "u_strtok = strtok"

lemmas u_string_defs = u_strlen_def u_strcpy_def u_strncpy_def u_memcpy_def u_memset_def u_strcmp_def u_istrcmp_def
  u_strncmp_def u_istrncmp_def u_strtok_def

text \<open>\<open>strcat(char*, char*)\<close> writes from the start of the destination, not behind the string in it.\<close>

partial_function (option) strcat_loop :: "addr \<Rightarrow> addr \<Rightarrow> u64 \<Rightarrow> mem \<Rightarrow> mem option" where
  "strcat_loop dst src i m =
     (if m (src + i) \<noteq> 0 then strcat_loop dst src (i + 1) (m(dst + i := m (src + i))) else Some (m(dst + i := 0)))"

definition strcat :: "addr \<Rightarrow> addr \<Rightarrow> mem \<Rightarrow> mem option" where
  "strcat dst src m = strcat_loop dst src 0 m"

definition strcat_char :: "addr \<Rightarrow> byte \<Rightarrow> mem \<Rightarrow> mem option" where
  "strcat_char dst src m = do { idx \<leftarrow> u_strlen m dst; Some (m(dst + idx := src, dst + (idx + 1) := 0)) }"

function strncat_loop :: "addr \<Rightarrow> addr \<Rightarrow> u64 \<Rightarrow> u64 \<Rightarrow> mem \<Rightarrow> mem" where
  "strncat_loop dst src n i m =
     (if m (src + i) \<noteq> 0 \<and> i < n then strncat_loop dst src n (i + 1) (m(dst + i := m (src + i))) else m(dst + i := 0))"
  by pat_completeness auto
termination
  by (relation "measure (\<lambda>(dst, src, n, i, m). unat (n - i))") (auto simp: word_loop_measure)

declare strncat_loop.simps [simp del]

definition strncat :: "addr \<Rightarrow> addr \<Rightarrow> u64 \<Rightarrow> mem \<Rightarrow> mem" where
  "strncat dst src n m = strncat_loop dst src n 0 m"

section \<open>Numbers\<close>

text \<open>\<open>reverse\<close> and \<open>itoa\<close> of \<open>stdlib.cpp\<close> have the text of those of the kernel's \<open>kstdlib.cpp\<close>.\<close>

definition u_reverse :: "addr \<Rightarrow> int \<Rightarrow> mem \<Rightarrow> mem" where "u_reverse = reverse_str"
definition u_itoa :: "addr \<Rightarrow> int \<Rightarrow> int \<Rightarrow> mem \<Rightarrow> mem option" where "u_itoa = itoa"

primrec put_chars :: "byte list \<Rightarrow> addr \<Rightarrow> u64 \<Rightarrow> mem \<Rightarrow> (u64 \<times> mem) option" where
  "put_chars [] str idx m = Some (idx, m)"
| "put_chars (c # cs) str idx m = do { m1 \<leftarrow> strcat_char (str + idx) c m; put_chars cs str (idx + 1) m1 }"

definition u_printHex :: "int \<Rightarrow> addr \<Rightarrow> mem \<Rightarrow> (u64 \<times> mem) option" where
  "u_printHex num str m =
     do { m1 \<leftarrow> strcat_char str 0x30 m;
          m2 \<leftarrow> strcat_char str 0x78 m1;
          m3 \<leftarrow> strcat_char str 0x30 m2;
          idx \<leftarrow> u_strlen m3 str;
          if num = 0 then Some (idx, m3) else put_chars (hex_out (hex_acc num 0)) str idx m3 }"

section \<open>System calls\<close>

text \<open>The numbers of the calls in the header of the library; they are those of the kernel.\<close>

definition u_SYS_PUTCH :: u64 where "u_SYS_PUTCH = 0"
definition u_SYS_PUTS :: u64 where "u_SYS_PUTS = 1"
definition u_SYS_GETPID :: u64 where "u_SYS_GETPID = 2"
definition u_SYS_GETPPID :: u64 where "u_SYS_GETPPID = 3"
definition u_SYS_GETTID :: u64 where "u_SYS_GETTID = 4"
definition u_SYS_FORK :: u64 where "u_SYS_FORK = 5"
definition u_SYS_EXECVE :: u64 where "u_SYS_EXECVE = 6"
definition u_SYS_EXIT :: u64 where "u_SYS_EXIT = 7"
definition u_SYS_MMAP :: u64 where "u_SYS_MMAP = 8"
definition u_SYS_SCHED_YIELD :: u64 where "u_SYS_SCHED_YIELD = 9"
definition u_SYS_SLEEP :: u64 where "u_SYS_SLEEP = 10"
definition u_SYS_KILL :: u64 where "u_SYS_KILL = 11"
definition u_SYS_CREATE_THREAD :: u64 where "u_SYS_CREATE_THREAD = 12"
definition u_SYS_THREAD_JOIN :: u64 where "u_SYS_THREAD_JOIN = 13"
definition u_SYS_MUNMAP :: u64 where "u_SYS_MUNMAP = 14"
definition u_SYS_PROMPT :: u64 where "u_SYS_PROMPT = 15"
definition u_SYS_LSPCI :: u64 where "u_SYS_LSPCI = 16"
definition u_SYS_FREE :: u64 where "u_SYS_FREE = 17"
definition u_SYS_CLEAR :: u64 where "u_SYS_CLEAR = 18"
definition u_SYS_PS :: u64 where "u_SYS_PS = 19"
definition u_SYS_SHUTDOWN :: u64 where "u_SYS_SHUTDOWN = 20"
definition u_SYS_REBOOT :: u64 where "u_SYS_REBOOT = 21"
definition u_SYS_FGETS :: u64 where "u_SYS_FGETS = 22"
definition u_SYS_CREATE_PROCESS :: u64 where "u_SYS_CREATE_PROCESS = 23"

lemma call_numbers [simp]:
  "u_SYS_PUTCH = SYS_PUTCH" "u_SYS_PUTS = SYS_PUTS" "u_SYS_GETPID = SYS_GETPID" "u_SYS_GETPPID = SYS_GETPPID"
  "u_SYS_GETTID = SYS_GETTID" "u_SYS_FORK = SYS_FORK" "u_SYS_EXECVE = SYS_EXECVE" "u_SYS_EXIT = SYS_EXIT"
  "u_SYS_MMAP = SYS_MMAP" "u_SYS_SCHED_YIELD = SYS_SCHED_YIELD" "u_SYS_SLEEP = SYS_SLEEP" "u_SYS_KILL = SYS_KILL"
  "u_SYS_CREATE_THREAD = SYS_CREATE_THREAD" "u_SYS_THREAD_JOIN = SYS_THREAD_JOIN" "u_SYS_MUNMAP = SYS_MUNMAP" "u_SYS_PROMPT = SYS_PROMPT"
  "u_SYS_LSPCI = SYS_LSPCI" "u_SYS_FREE = SYS_FREE" "u_SYS_CLEAR = SYS_CLEAR" "u_SYS_PS = SYS_PS"
  "u_SYS_SHUTDOWN = SYS_SHUTDOWN" "u_SYS_REBOOT = SYS_REBOOT" "u_SYS_FGETS = SYS_FGETS" "u_SYS_CREATE_PROCESS = SYS_CREATE_PROCESS"
  by (simp_all add: u_SYS_PUTCH_def SYS_PUTCH_def u_SYS_PUTS_def SYS_PUTS_def u_SYS_GETPID_def SYS_GETPID_def u_SYS_GETPPID_def SYS_GETPPID_def
      u_SYS_GETTID_def SYS_GETTID_def u_SYS_FORK_def SYS_FORK_def u_SYS_EXECVE_def SYS_EXECVE_def u_SYS_EXIT_def SYS_EXIT_def
      u_SYS_MMAP_def SYS_MMAP_def u_SYS_SCHED_YIELD_def SYS_SCHED_YIELD_def u_SYS_SLEEP_def SYS_SLEEP_def u_SYS_KILL_def SYS_KILL_def
      u_SYS_CREATE_THREAD_def SYS_CREATE_THREAD_def u_SYS_THREAD_JOIN_def SYS_THREAD_JOIN_def u_SYS_MUNMAP_def SYS_MUNMAP_def u_SYS_PROMPT_def SYS_PROMPT_def
      u_SYS_LSPCI_def SYS_LSPCI_def u_SYS_FREE_def SYS_FREE_def u_SYS_CLEAR_def SYS_CLEAR_def u_SYS_PS_def SYS_PS_def
      u_SYS_SHUTDOWN_def SYS_SHUTDOWN_def u_SYS_REBOOT_def SYS_REBOOT_def u_SYS_FGETS_def SYS_FGETS_def u_SYS_CREATE_PROCESS_def SYS_CREATE_PROCESS_def)

definition syscall0 :: "'k uenv \<Rightarrow> u64 \<Rightarrow> 'k user \<Rightarrow> (u64 \<times> 'k user) option" where
  "syscall0 E n s = int80 E ((junk E)\<lparr>r_rax := n\<rparr>) s"

definition syscall1 :: "'k uenv \<Rightarrow> u64 \<Rightarrow> u64 \<Rightarrow> 'k user \<Rightarrow> (u64 \<times> 'k user) option" where
  "syscall1 E n a s = int80 E ((junk E)\<lparr>r_rax := n, r_rdi := a\<rparr>) s"

definition syscall2 :: "'k uenv \<Rightarrow> u64 \<Rightarrow> u64 \<Rightarrow> u64 \<Rightarrow> 'k user \<Rightarrow> (u64 \<times> 'k user) option" where
  "syscall2 E n a b s = int80 E ((junk E)\<lparr>r_rax := n, r_rdi := a, r_rsi := b\<rparr>) s"

definition syscall3 :: "'k uenv \<Rightarrow> u64 \<Rightarrow> u64 \<Rightarrow> u64 \<Rightarrow> u64 \<Rightarrow> 'k user \<Rightarrow> (u64 \<times> 'k user) option" where
  "syscall3 E n a b c s = int80 E ((junk E)\<lparr>r_rax := n, r_rdi := a, r_rsi := b, r_rdx := c\<rparr>) s"

definition u_putch :: "'k uenv \<Rightarrow> byte \<Rightarrow> 'k user \<Rightarrow> 'k user option" where
  "u_putch E c s = map_option snd (syscall1 E u_SYS_PUTCH (scast c) s)"

definition u_puts :: "'k uenv \<Rightarrow> addr \<Rightarrow> 'k user \<Rightarrow> (u64 \<times> 'k user) option" where
  "u_puts E str s = syscall1 E u_SYS_PUTS str s"

definition u_getpid :: "'k uenv \<Rightarrow> 'k user \<Rightarrow> (u8 \<times> 'k user) option" where
  "u_getpid E s = map_option (apfst ucast) (syscall0 E u_SYS_GETPID s)"

definition u_getppid :: "'k uenv \<Rightarrow> 'k user \<Rightarrow> (u8 \<times> 'k user) option" where
  "u_getppid E s = map_option (apfst ucast) (syscall0 E u_SYS_GETPPID s)"

definition u_gettid :: "'k uenv \<Rightarrow> 'k user \<Rightarrow> (u8 \<times> 'k user) option" where
  "u_gettid E s = map_option (apfst ucast) (syscall0 E u_SYS_GETTID s)"

definition u_fork :: "'k uenv \<Rightarrow> 'k user \<Rightarrow> (u8 \<times> 'k user) option" where
  "u_fork E s = map_option (apfst ucast) (syscall0 E u_SYS_FORK s)"

definition u_execve :: "'k uenv \<Rightarrow> addr \<Rightarrow> addr \<Rightarrow> 'k user \<Rightarrow> (u8 \<times> 'k user) option" where
  "u_execve E pathname vec s = map_option (apfst ucast) (syscall2 E u_SYS_EXECVE pathname vec s)"

definition u_mmap :: "'k uenv \<Rightarrow> addr \<Rightarrow> u64 \<Rightarrow> u32 \<Rightarrow> 'k user \<Rightarrow> (u64 \<times> 'k user) option" where
  "u_mmap E a len prot s = syscall3 E u_SYS_MMAP a len (ucast prot) s"

definition u_schedYield :: "'k uenv \<Rightarrow> 'k user \<Rightarrow> 'k user option" where
  "u_schedYield E s = do { (r, s1) \<leftarrow> syscall0 E u_SYS_SCHED_YIELD s; int22 E s1 }"

definition u_exit :: "'k uenv \<Rightarrow> 'k user \<Rightarrow> 'k user option" where
  "u_exit E s = do { (r, s1) \<leftarrow> syscall0 E u_SYS_EXIT s; int22 E s1 }"

definition u_sleep :: "'k uenv \<Rightarrow> u64 \<Rightarrow> 'k user \<Rightarrow> 'k user option" where
  "u_sleep E ms s = map_option snd (syscall1 E u_SYS_SLEEP ms s)"

definition u_createThread :: "'k uenv \<Rightarrow> addr \<Rightarrow> addr \<Rightarrow> 'k user \<Rightarrow> (u32 \<times> 'k user) option" where
  "u_createThread E func args s = map_option (apfst ucast) (syscall2 E u_SYS_CREATE_THREAD func args s)"

partial_function (option) threadJoin_loop :: "'k uenv \<Rightarrow> u8 \<Rightarrow> 'k user \<Rightarrow> 'k user option" where
  "threadJoin_loop E t s =
     do { (r, s1) \<leftarrow> syscall1 E u_SYS_THREAD_JOIN (ucast t) s;
          s2 \<leftarrow> int22 E s1;
          if (ucast r :: u8) = 0 then threadJoin_loop E t s2 else Some s2 }"

definition u_threadJoin :: "'k uenv \<Rightarrow> u8 \<Rightarrow> 'k user \<Rightarrow> (int \<times> 'k user) option" where
  "u_threadJoin E t s = map_option (Pair 0) (threadJoin_loop E t s)"

definition u_munmap :: "'k uenv \<Rightarrow> addr \<Rightarrow> u64 \<Rightarrow> 'k user \<Rightarrow> (u32 \<times> 'k user) option" where
  "u_munmap E a len s = map_option (apfst ucast) (syscall2 E u_SYS_MUNMAP a len s)"

definition u_prompt :: "'k uenv \<Rightarrow> 'k user \<Rightarrow> 'k user option" where
  "u_prompt E s = map_option snd (syscall0 E u_SYS_PROMPT s)"

definition u_lspci :: "'k uenv \<Rightarrow> 'k user \<Rightarrow> 'k user option" where
  "u_lspci E s = map_option snd (syscall0 E u_SYS_LSPCI s)"

definition u_free :: "'k uenv \<Rightarrow> 'k user \<Rightarrow> 'k user option" where
  "u_free E s = map_option snd (syscall0 E u_SYS_FREE s)"

definition u_clear :: "'k uenv \<Rightarrow> 'k user \<Rightarrow> 'k user option" where
  "u_clear E s = map_option snd (syscall0 E u_SYS_CLEAR s)"

definition u_ps :: "'k uenv \<Rightarrow> 'k user \<Rightarrow> 'k user option" where
  "u_ps E s = map_option snd (syscall0 E u_SYS_PS s)"

definition u_shutdown :: "'k uenv \<Rightarrow> 'k user \<Rightarrow> 'k user option" where
  "u_shutdown E s = map_option snd (syscall0 E u_SYS_SHUTDOWN s)"

definition u_reboot :: "'k uenv \<Rightarrow> 'k user \<Rightarrow> 'k user option" where
  "u_reboot E s = map_option snd (syscall0 E u_SYS_REBOOT s)"

partial_function (option) u_fgets :: "'k uenv \<Rightarrow> addr \<Rightarrow> u64 \<Rightarrow> 'k user \<Rightarrow> (u64 \<times> 'k user) option" where
  "u_fgets E buffer maxSize s =
     do { (r, s1) \<leftarrow> syscall2 E u_SYS_FGETS buffer maxSize s;
          if r = 0 then u_fgets E buffer maxSize s1 else Some (r, s1) }"

definition u_createProcess :: "'k uenv \<Rightarrow> addr \<Rightarrow> 'k user \<Rightarrow> (u8 \<times> 'k user) option" where
  "u_createProcess E fileName s =
     do { (r, s1) \<leftarrow> syscall1 E u_SYS_CREATE_PROCESS fileName s; s2 \<leftarrow> int22 E s1; Some (ucast r, s2) }"

section \<open>\<open>printf\<close>\<close>

text \<open>One conversion: \<open>str\<close> is the buffer, \<open>num\<close> the static one of \<open>itoa\<close>, \<open>idx\<close> the length so far.\<close>

definition u_conv :: "addr \<Rightarrow> addr \<Rightarrow> byte \<Rightarrow> u64 \<Rightarrow> u64 list \<Rightarrow> mem \<Rightarrow> (u64 \<times> u64 list \<times> mem) option" where
  "u_conv str num c idx ap m =
     (if c = 0x73
      then (case ap of [] \<Rightarrow> None
            | a # ap1 \<Rightarrow> do { m1 \<leftarrow> strcat (str + idx) a m; len \<leftarrow> u_strlen m1 a; Some (idx + len, ap1, m1) })
      else if c = 0x64
      then (case ap of [] \<Rightarrow> None
            | a # ap1 \<Rightarrow> do { m1 \<leftarrow> u_itoa num (sint (ucast a :: u32)) 10 m; m2 \<leftarrow> strcat (str + idx) num m1;
                              idx1 \<leftarrow> u_strlen m2 str; Some (idx1, ap1, m2) })
      else if c = 0x78 \<or> c = 0x58
      then (case ap of [] \<Rightarrow> None
            | a # ap1 \<Rightarrow> do { (idx1, m1) \<leftarrow> u_printHex (sint a) str m; Some (idx1, ap1, m1) })
      else if c = 0x25 then do { m1 \<leftarrow> strcat_char (str + idx) 0x25 m; Some (idx + 1, ap, m1) }
      else Some (idx, ap, m))"

partial_function (option) printf_loop ::
    "addr \<Rightarrow> addr \<Rightarrow> addr \<Rightarrow> u32 \<Rightarrow> u64 \<Rightarrow> u64 list \<Rightarrow> mem \<Rightarrow> (u64 \<times> mem) option" where
  "printf_loop str num format i idx ap m =
     (if m (format + scast i) = 0 then Some (idx, m)
      else if m (format + scast i) = 0x25
      then do { (idx1, ap1, m1) \<leftarrow> u_conv str num (m (format + scast (i + 1))) idx ap m;
                printf_loop str num format (i + 2) idx1 ap1 m1 }
      else do { m1 \<leftarrow> strcat_char (str + idx) (m (format + scast i)) m;
                printf_loop str num format (i + 1) (idx + 1) ap m1 })"

definition u_printf :: "'k uenv \<Rightarrow> addr \<Rightarrow> u64 list \<Rightarrow> 'k user \<Rightarrow> 'k user option" where
  "u_printf E format ap s =
     do { let str = at_printf E;
          (idx, m) \<leftarrow> printf_loop str (at_itoa E) format 0 0 ap (snd (u_memset str 0 200 (u_mem s)));
          (n, s1) \<leftarrow> u_puts E str (s\<lparr>u_mem := m(str + idx := 0)\<rparr>);
          Some s1 }"

section \<open>Copying and appending strings\<close>

text \<open>A string that lies in a block apart from the one that changes.\<close>

lemma cstr_frame:
  assumes "apart a n b k" "unat d + length cs < unat n" "\<And>x. \<not> within b k x \<Longrightarrow> m' x = m x"
  shows "cstr m' (a + d) cs = cstr m (a + d) cs"
proof (rule cstr_cong)
  fix i assume i: "i \<le> length cs"
  have "unat n < 2 ^ 64" using unsigned_less [where 'a = nat, of n] by simp
  then have "unat (d + of_nat i) = unat d + i" using assms(2) i by (simp add: unat_word_ariths unsigned_of_nat take_bit_nat_eq_self)
  then have "d + of_nat i < n" using assms(2) i by (simp add: word_less_nat_alt)
  then have "\<not> within b k (a + (d + of_nat i))" by (rule apart_not_within [OF assms(1)])
  then show "m' (a + d + of_nat i) = m (a + d + of_nat i)" using assms(3) by (simp add: add.assoc)
qed

lemma strcat_loop_puts:
  assumes "cstr m (src + i) cs" "\<And>j k. j < length cs \<Longrightarrow> k \<le> length cs \<Longrightarrow> dst + i + of_nat j \<noteq> src + i + of_nat k"
  shows "strcat_loop dst src i m = Some (puts_at (dst + i) (cs @ [0]) m)"
  using assms
proof (induction cs arbitrary: i m)
  case Nil
  then show ?case by (simp add: strcat_loop.simps fun_eq_iff)
next
  case (Cons c cs)
  have "cstr (m(dst + i := c)) (src + (i + 1)) cs = cstr m (src + (i + 1)) cs"
  proof (rule cstr_cong)
    fix k assume "k \<le> length cs"
    then show "(m(dst + i := c)) (src + (i + 1) + of_nat k) = m (src + (i + 1) + of_nat k)"
      using Cons.prems(2) [of 0 "Suc k"] by (simp add: algebra_simps)
  qed
  then have "cstr (m(dst + i := c)) (src + (i + 1)) cs" using Cons.prems(1) by (simp add: algebra_simps)
  moreover have "dst + (i + 1) + of_nat j \<noteq> src + (i + 1) + of_nat k" if "j < length cs" "k \<le> length cs" for j k
    using Cons.prems(2) [of "Suc j" "Suc k"] that by (simp add: algebra_simps)
  ultimately have "strcat_loop dst src (i + 1) (m(dst + i := c)) = Some (puts_at (dst + (i + 1)) (cs @ [0]) (m(dst + i := c)))"
    by (rule Cons.IH)
  then show ?case using Cons.prems(1) by (simp add: strcat_loop.simps [of dst src i] add.assoc)
qed

lemma strcat_puts:
  assumes "cstr m src cs" "apart dst n src n" "length cs < unat n"
  shows "strcat dst src m = Some (puts_at dst (cs @ [0]) m)"
proof -
  have "unat n < 2 ^ 64" using unsigned_less [where 'a = nat, of n] by simp
  have ne: "dst + of_nat j \<noteq> src + of_nat k" if "j < length cs" "k \<le> length cs" for j k
  proof
    assume e: "dst + of_nat j = src + of_nat k"
    have "(of_nat j :: u64) < n" "(of_nat k :: u64) < n" using that assms(3) \<open>unat n < 2 ^ 64\<close>
      by (simp_all add: word_less_nat_alt unsigned_of_nat take_bit_nat_eq_self)
    then show False using apart_not_within [OF assms(2), of "of_nat j"] e by (simp add: within_def)
  qed
  show ?thesis using strcat_loop_puts [of m src 0 cs dst] assms(1) ne by (simp add: strcat_def)
qed

lemma cstr_puts_at:
  assumes "0 \<notin> set cs" "length cs + 1 < 2 ^ 64"
  shows "cstr (puts_at a (cs @ [0]) m) a cs"
  using assms by (auto simp: cstr_iff puts_at_nth nth_append unsigned_of_nat take_bit_nat_eq_self)

lemma puts_at_inside:
  fixes e n x :: u64
  assumes "\<not> within e n x" "k + length cs \<le> unat n"
  shows "puts_at (e + of_nat k) cs m x = m x"
proof (rule puts_at_off)
  have n: "unat n < 2 ^ 64" using unsigned_less [where 'a = nat, of n] by simp
  then show "length cs < 2 ^ 64" using assms(2) by linarith
  have "unat (of_nat k :: u64) + unat (of_nat (length cs) :: u64) \<le> unat n"
    using assms(2) n by (simp add: unsigned_of_nat take_bit_nat_eq_self)
  then show "\<not> within (e + of_nat k) (of_nat (length cs)) x" using within_shift assms(1) by blast
qed

text \<open>A string written directly behind bytes that are there continues them.\<close>

lemma cstr_puts_behind:
  assumes "\<And>i. i < length xs \<Longrightarrow> m (e + of_nat i) = xs ! i" "0 \<notin> set xs" "0 \<notin> set ys" "length xs + length ys + 1 < 2 ^ 64"
  shows "cstr (puts_at (e + of_nat (length xs)) (ys @ [0]) m) e (xs @ ys)"
proof -
  have "puts_at e xs m = m"
  proof
    fix x
    have "m x = xs ! unat (x - e)" if "unat (x - e) < length xs" using assms(1) [OF that] by simp
    then show "puts_at e xs m x = m x" using assms(4) by (simp add: puts_at_nth)
  qed
  then have "puts_at (e + of_nat (length xs)) (ys @ [0]) m = puts_at e ((xs @ ys) @ [0]) m"
    using puts_at_append [of e xs "ys @ [0]" m] by simp
  then show ?thesis using cstr_puts_at [of "xs @ ys" e m] assms by simp
qed

text \<open>\<open>strcat(char*, char)\<close> appends one character to the string.\<close>

lemma strcat_char_appends:
  assumes "cstr m dst cs" "c \<noteq> 0" "length cs + 2 < 2 ^ 64"
  shows "\<exists>m'. strcat_char dst c m = Some m' \<and> cstr m' dst (cs @ [c]) \<and>
    (\<forall>x. \<not> within dst (of_nat (length cs + 2)) x \<longrightarrow> m' x = m x)"
proof -
  let ?l = "of_nat (length cs) :: u64"
  let ?m = "m(dst + ?l := c, dst + (?l + 1) := 0)"
  have m: "m (dst + of_nat i) = cs ! i" if "i < length cs" for i using assms(1) that by (simp add: cstr_iff)
  have ne: "of_nat i \<noteq> ?l" "of_nat i \<noteq> ?l + 1" if "i < length cs" for i
  proof -
    have "unat (of_nat i :: u64) = i" "unat ?l = length cs" "unat (?l + 1) = length cs + 1"
      using that assms(3) by (simp_all add: unat_word_ariths unsigned_of_nat take_bit_nat_eq_self)
    then show "of_nat i \<noteq> ?l" "of_nat i \<noteq> ?l + 1" using that by (auto simp: word_unat_eq_iff)
  qed
  have "cstr ?m dst (cs @ [c])"
    unfolding cstr_iff using m ne assms(1,2) cstr_nonzero by (auto simp: nth_append less_Suc_eq ac_simps)
  moreover have "?m x = m x" if "\<not> within dst (of_nat (length cs + 2)) x" for x
  proof -
    have "unat ?l < unat (of_nat (length cs + 2) :: u64)" "unat (?l + 1) < unat (of_nat (length cs + 2) :: u64)"
      using assms(3) by (simp_all add: unat_word_ariths unsigned_of_nat take_bit_nat_eq_self)
    then have "x \<noteq> dst + ?l" "x \<noteq> dst + (?l + 1)" using that by (auto simp: within_def word_less_nat_alt)
    then show ?thesis by simp
  qed
  moreover have "strcat_char dst c m = Some ?m" using strlen_cstr [OF assms(1)] by (simp add: strcat_char_def u_strlen_def)
  ultimately show ?thesis by blast
qed

section \<open>What \<open>printf\<close> prints\<close>

lemma strcat_char_end:
  assumes "cstr m str cs"
  shows "strcat_char (str + of_nat (length cs)) c m = strcat_char str c m"
proof -
  have "cstr m (str + of_nat (length cs)) []" using assms by (simp add: cstr_iff)
  from strlen_cstr [OF this] strlen_cstr [OF assms] show ?thesis by (simp add: strcat_char_def u_strlen_def add.assoc)
qed

text \<open>\<open>appends str n cs ds m m'\<close>: the string at \<open>str\<close> has become \<open>cs @ ds\<close>, and nothing but its \<open>n\<close> bytes has changed.\<close>

definition appends :: "addr \<Rightarrow> u64 \<Rightarrow> byte list \<Rightarrow> mem \<Rightarrow> mem \<Rightarrow> bool" where
  "appends str n ds m m' \<longleftrightarrow> cstr m' str ds \<and> (\<forall>x. \<not> within str n x \<longrightarrow> m' x = m x)"

lemma appends_trans: "appends str n cs m m1 \<Longrightarrow> appends str n ds m1 m' \<Longrightarrow> appends str n ds m m'"
  by (simp add: appends_def)

lemma within_less: "within a n x \<Longrightarrow> n \<le> k \<Longrightarrow> within a k x"
  by (simp add: within_def)

lemma put_char_appends:
  assumes "cstr m str cs" "c \<noteq> 0" "length cs + 2 \<le> unat n"
  shows "\<exists>m'. strcat_char (str + of_nat (length cs)) c m = Some m' \<and> strcat_char str c m = Some m' \<and> appends str n (cs @ [c]) m m'"
proof -
  have n: "unat n < 2 ^ 64" using unsigned_less [where 'a = nat, of n] by simp
  then have k: "(of_nat (length cs + 2) :: u64) \<le> n"
  proof -
    define l where "l = length cs + 2"
    have "unat (of_nat l :: u64) = l" using n assms(3) unfolding l_def [symmetric] by (simp add: unsigned_of_nat take_bit_nat_eq_self)
    then show ?thesis using assms(3) unfolding l_def [symmetric] by (simp add: word_le_nat_alt)
  qed
  have "length cs + 2 < 2 ^ 64" using n assms(3) by linarith
  from strcat_char_appends [OF assms(1,2) this] obtain m' where "strcat_char str c m = Some m'" "cstr m' str (cs @ [c])"
      "\<And>x. \<not> within str (of_nat (length cs + 2)) x \<Longrightarrow> m' x = m x" by blast
  then show ?thesis using strcat_char_end [OF assms(1), of c] within_less [OF _ k] by (auto simp: appends_def)
qed

lemma put_chars_appends:
  assumes "cstr m str cs" "0 \<notin> set ds" "length cs + length ds + 2 \<le> unat n"
  shows "\<exists>m'. put_chars ds str (of_nat (length cs)) m = Some (of_nat (length (cs @ ds)), m') \<and> appends str n (cs @ ds) m m'"
  using assms
proof (induction ds arbitrary: cs m)
  case Nil
  then show ?case by (auto simp: appends_def)
next
  case (Cons d ds)
  obtain m1 where m1: "strcat_char (str + of_nat (length cs)) d m = Some m1" "appends str n (cs @ [d]) m m1"
    using put_char_appends [OF Cons.prems(1), of d n] Cons.prems(2,3) by auto
  have "cstr m1 str (cs @ [d])" using m1(2) by (simp add: appends_def)
  then obtain m' where m': "put_chars ds str (of_nat (length (cs @ [d]))) m1 = Some (of_nat (length ((cs @ [d]) @ ds)), m')"
      "appends str n ((cs @ [d]) @ ds) m1 m'"
    using Cons.IH [of m1 "cs @ [d]"] Cons.prems(2,3) by auto
  then show ?case using m1 appends_trans [OF m1(2) m'(2)] by (intro exI [of _ m']) (simp add: add.commute)
qed

lemma hex_char_nonzero: "d < 16 \<Longrightarrow> hex_char d \<noteq> 0"
  by (auto simp: hex_char_def word_unat_eq_iff unat_word_ariths unsigned_of_nat take_bit_nat_eq_self)

lemma digits_less: "2 \<le> b \<Longrightarrow> d \<in> set (digits b n) \<Longrightarrow> d < b"
proof (induction b n rule: digits.induct)
  case (1 b n)
  then show ?case by (subst (asm) (2) digits.simps) (auto split: if_splits)
qed

lemma hexs_nonzero: "0 \<notin> set (hexs n)"
proof
  assume "0 \<in> set (hexs n)"
  then obtain d where "d \<in> set (digits 16 n)" "hex_char d = 0" by (auto simp: hexs_def split: if_splits)
  then show False using digits_less [of 16 d n] hex_char_nonzero [of d] by simp
qed

text \<open>The text a number is printed as, up to nine hexadecimal digits.\<close>

definition hex_text :: "u64 \<Rightarrow> byte list" where
  "hex_text a = lit ''0x0'' @ hexs (unat a)"

lemma u_printHex_appends:
  assumes "cstr m str cs" "unat a < 16 ^ 9" "length cs + length (hex_text a) + 2 \<le> unat n"
  shows "\<exists>m'. u_printHex (sint a) str m = Some (of_nat (length (cs @ hex_text a)), m') \<and> appends str n (cs @ hex_text a) m m'"
proof -
  have len: "length cs + 5 + length (hexs (unat a)) \<le> unat n" using assms(3) by (simp add: hex_text_def lit_def)
  have sa: "sint a = int (unat a)"
  proof -
    have "int (unat a) < int (2 ^ 63)" using assms(2) by (simp only: of_nat_less_iff) simp
    then have "uint a < 2 ^ 63" by simp
    moreover have "- (2 ^ 63) \<le> uint a" by (rule order_trans [of _ 0]) simp_all
    ultimately have "signed_take_bit 63 (uint a) = uint a" by (intro signed_take_bit_int_eq_self)
    then show ?thesis by (simp add: sint_uint)
  qed
  have h: "hex_out (hex_acc (sint a) 0) = hexs (unat a)"
    using hex_acc_out [of "unat a" 9 0] assms(2) by (simp add: sa hex_out.simps [of 0])
  obtain m1 where m1: "strcat_char str 0x30 m = Some m1" "appends str n (cs @ [0x30]) m m1"
    using put_char_appends [OF assms(1), of "0x30" n] len by auto
  then have c1: "cstr m1 str (cs @ [0x30])" by (simp add: appends_def)
  obtain m2 where m2: "strcat_char str 0x78 m1 = Some m2" "appends str n ((cs @ [0x30]) @ [0x78]) m1 m2"
    using put_char_appends [OF c1, of "0x78" n] len by auto
  then have c2: "cstr m2 str ((cs @ [0x30]) @ [0x78])" by (simp add: appends_def)
  obtain m3 where m3: "strcat_char str 0x30 m2 = Some m3" "appends str n (((cs @ [0x30]) @ [0x78]) @ [0x30]) m2 m3"
    using put_char_appends [OF c2, of "0x30" n] len by auto
  then have c3: "cstr m3 str (((cs @ [0x30]) @ [0x78]) @ [0x30])" by (simp add: appends_def)
  let ?cs = "((cs @ [0x30]) @ [0x78]) @ [0x30]"
  have a3: "appends str n ?cs m m3" by (rule appends_trans [OF appends_trans [OF m1(2) m2(2)] m3(2)])
  have e: "?cs @ hexs (unat a) = cs @ hex_text a" by (simp add: hex_text_def lit_def)
  obtain m4 where m4: "put_chars (hexs (unat a)) str (of_nat (length ?cs)) m3 = Some (of_nat (length (cs @ hex_text a)), m4)"
      "appends str n (cs @ hex_text a) m3 m4"
    using put_chars_appends [OF c3 hexs_nonzero, of "unat a" n] len unfolding e by auto
  show ?thesis
  proof (cases "a = 0")
    case True
    then have "hexs (unat a) = []" by (simp add: hexs_def)
    then have "?cs = cs @ hex_text a" using e by simp
    then show ?thesis using m1(1) m2(1) m3(1) strlen_cstr [OF c3] a3 True
      by (intro exI [of _ m3]) (simp add: u_printHex_def u_strlen_def)
  next
    case False
    then have "sint a \<noteq> 0" using sa by (auto simp: word_uint_eq_iff)
    then show ?thesis using m1(1) m2(1) m3(1) strlen_cstr [OF c3] m4 h appends_trans [OF a3 m4(2)]
      by (intro exI [of _ m4]) (simp add: u_printHex_def u_strlen_def)
  qed
qed

text \<open>The text of a format with its numbers, as a list.\<close>

fun uformat :: "byte list \<Rightarrow> u64 list \<Rightarrow> byte list option" where
  "uformat [] ap = Some []"
| "uformat (c # cs) ap =
     (if c \<noteq> 0x25 then map_option ((#) c) (uformat cs ap)
      else case (cs, ap) of
          (d # ds, a # ap1) \<Rightarrow> if d = 0x78 \<and> unat a < 16 ^ 9 then map_option ((@) (hex_text a)) (uformat ds ap1) else None
        | _ \<Rightarrow> None)"

lemma scast_add_nat:
  "unat (i :: u32) + k < 2 ^ 31 \<Longrightarrow> (scast (i + of_nat k) :: u64) = scast i + of_nat k \<and> unat (i + of_nat k) = unat i + k"
proof (induction k)
  case (Suc k)
  then have h: "unat (i + of_nat k) = unat i + k" "(scast (i + of_nat k) :: u64) = scast i + of_nat k" by simp_all
  have e: "i + of_nat (Suc k) = (i + of_nat k) + 1" "(of_nat (Suc k) :: u64) = of_nat k + 1" by simp_all
  have "(scast ((i + of_nat k) + 1) :: u64) = scast (i + of_nat k) + 1"
    by (rule scast_Suc) (use h(1) Suc.prems in linarith)
  moreover have "unat ((i + of_nat k) + 1) = unat (i + of_nat k) + 1"
    using h(1) Suc.prems by (subst unat_word_ariths(1)) simp
  ultimately show ?case unfolding e h by simp
qed simp

lemma cstr_append: "cstr m a (xs @ ys) \<Longrightarrow> cstr m (a + of_nat (length xs)) ys"
  by (induction xs arbitrary: a) (auto simp: add.assoc [symmetric])

text \<open>What is left of a format after the characters \<open>xs\<close>, once more text is in a buffer apart from it.\<close>

lemma format_rest:
  fixes i :: u32 and fmt :: addr
  assumes "cstr m (fmt + scast i) (xs @ rest)" "unat i + length (xs @ rest) + 1 < 2 ^ 31"
    and "\<And>j. j \<le> length (xs @ rest) \<Longrightarrow> \<not> within str n (fmt + scast i + of_nat j)" "appends str n ys m m'"
  shows "unat (i + of_nat (length xs)) = unat i + length xs" "cstr m' (fmt + scast (i + of_nat (length xs))) rest"
    and "j \<le> length rest \<Longrightarrow> \<not> within str n (fmt + scast (i + of_nat (length xs)) + of_nat j)"
proof -
  let ?a = "fmt + scast (i + of_nat (length xs))"
  have i: "(scast (i + of_nat (length xs)) :: u64) = scast i + of_nat (length xs)" "unat (i + of_nat (length xs)) = unat i + length xs"
    using scast_add_nat [of i "length xs"] assms(2) by simp_all
  have w: "\<not> within str n (?a + of_nat j)" if "j \<le> length rest" for j
    using assms(3) [of "length xs + j"] that by (simp add: i add.assoc)
  have "cstr m ?a rest" using cstr_append [OF assms(1)] by (simp add: i add.assoc)
  moreover have "cstr m' ?a rest = cstr m ?a rest"
    by (rule cstr_cong) (use assms(4) w in \<open>simp add: appends_def\<close>)
  ultimately show "cstr m' ?a rest" by simp
  show "unat (i + of_nat (length xs)) = unat i + length xs" by (rule i(2))
  show "j \<le> length rest \<Longrightarrow> \<not> within str n (?a + of_nat j)" by (rule w)
qed

lemma printf_loop_appends:
  assumes "cstr m (fmt + scast i) cs" "unat i + length cs + 1 < 2 ^ 31"
    and "\<And>j. j \<le> length cs \<Longrightarrow> \<not> within str n (fmt + scast i + of_nat j)"
    and "cstr m str pre" "uformat cs ap = Some ds" "length pre + length ds + 2 \<le> unat n"
  shows "\<exists>m'. printf_loop str num fmt i (of_nat (length pre)) ap m = Some (of_nat (length (pre @ ds)), m') \<and>
    appends str n (pre @ ds) m m'"
  using assms
proof (induction cs ap arbitrary: i m pre ds rule: uformat.induct)
  case (1 ap)
  then show ?case by (auto simp: printf_loop.simps appends_def)
next
  case (2 c cs ap)
  have c: "m (fmt + scast i) = c" "c \<noteq> 0" using "2.prems"(1) by simp_all
  show ?case
  proof (cases "c = 0x25")
    case False
    then obtain ds1 where d: "ds = c # ds1" "uformat cs ap = Some ds1" using "2.prems"(5) by auto
    obtain m1 where m1: "strcat_char (str + of_nat (length pre)) c m = Some m1" "appends str n (pre @ [c]) m m1"
      using put_char_appends [OF "2.prems"(4) c(2), of n] "2.prems"(6) d(1) by auto
    have "cstr m1 str (pre @ [c])" using m1(2) by (simp add: appends_def)
    then obtain m' where m': "printf_loop str num fmt (i + 1) (of_nat (length (pre @ [c]))) ap m1 =
        Some (of_nat (length ((pre @ [c]) @ ds1)), m')" "appends str n ((pre @ [c]) @ ds1) m1 m'"
      using "2.IH"(1) [OF False, of m1 "i + 1" "pre @ [c]" ds1] format_rest [of m fmt i "[c]" cs str n _ m1, OF _ _ _ m1(2)]
        "2.prems"(1,2,3,6) d by auto
    then show ?thesis using False c m1(1) d(1) appends_trans [OF m1(2) m'(2)]
      by (intro exI [of _ m']) (simp add: printf_loop.simps [of str num fmt i] add.commute)
  next
    case True
    then obtain x xs a ap1 ds1 where d: "cs = x # xs" "ap = a # ap1" "x = 0x78" "unat a < 16 ^ 9"
        "ds = hex_text a @ ds1" "uformat xs ap1 = Some ds1"
      using "2.prems"(5) by (auto split: list.splits if_splits)
    obtain m1 where m1: "u_printHex (sint a) str m = Some (of_nat (length (pre @ hex_text a)), m1)"
        "appends str n (pre @ hex_text a) m m1"
      using u_printHex_appends [OF "2.prems"(4) d(4), of n] "2.prems"(6) d(5) by auto
    have x: "m (fmt + scast (i + 1)) = 0x78" using "2.prems"(1,2) d(1,3) scast_Suc [of i] by (simp add: add.assoc)
    have "cstr m1 str (pre @ hex_text a)" using m1(2) by (simp add: appends_def)
    then obtain m' where m': "printf_loop str num fmt (i + 2) (of_nat (length (pre @ hex_text a))) ap1 m1 =
        Some (of_nat (length ((pre @ hex_text a) @ ds1)), m')" "appends str n ((pre @ hex_text a) @ ds1) m1 m'"
      using "2.IH"(2) [of cs ap x xs a ap1 m1 "i + 2" "pre @ hex_text a" ds1]
        format_rest [of m fmt i "[c, x]" xs str n _ m1, OF _ _ _ m1(2)] True "2.prems"(1,2,3,6) d by auto
    have "u_conv str num 0x78 (of_nat (length pre)) ap m = Some (of_nat (length (pre @ hex_text a)), ap1, m1)"
      using m1(1) d(2) by (simp add: u_conv_def)
    then show ?thesis using True c m'(1) d(5) x appends_trans [OF m1(2) m'(2)]
      by (intro exI [of _ m']) (simp add: printf_loop.simps [of str num fmt i])
  qed
qed

text \<open>
  A format of plain characters and numbers of up to nine hexadecimal digits whose text fits in the buffer
  of 200 bytes: \<open>printf\<close> makes one call of \<open>puts\<close>, with exactly that text.
\<close>

lemma printf_puts:
  assumes "cstr (u_mem s) fmt cs" "length cs + 1 < 2 ^ 31" "apart fmt (of_nat (length cs + 1)) (at_printf E) 200"
    and "uformat cs ap = Some ds" "length ds + 2 \<le> 200"
  shows "\<exists>m. u_printf E fmt ap s = map_option snd (u_puts E (at_printf E) (s\<lparr>u_mem := m\<rparr>)) \<and> cstr m (at_printf E) ds \<and>
    (\<forall>x. \<not> within (at_printf E) 200 x \<longrightarrow> m x = u_mem s x)"
proof -
  let ?str = "at_printf E" and ?m0 = "snd (u_memset (at_printf E) 0 200 (u_mem s))"
  have m0: "?m0 x = (if within ?str 200 x then 0 else u_mem s x)" for x by (simp add: u_memset_def memset_apply)
  have w: "\<not> within ?str 200 (fmt + of_nat j)" if "j \<le> length cs" for j
  proof (rule apart_not_within [OF assms(3)])
    have "unat (of_nat j :: u64) = j" "unat (of_nat (length cs + 1) :: u64) = length cs + 1"
      using that assms(2) by (simp_all add: unsigned_of_nat take_bit_nat_eq_self unat_word_ariths)
    then show "(of_nat j :: u64) < of_nat (length cs + 1)" using that unfolding word_less_nat_alt by linarith
  qed
  have f0: "cstr ?m0 fmt cs" using assms(1) cstr_cong [of cs ?m0 fmt "u_mem s"] w m0 by simp
  have s0: "cstr ?m0 ?str []" by (simp add: m0 within_def)
  obtain m where m: "printf_loop ?str (at_itoa E) fmt 0 0 ap ?m0 = Some (of_nat (length ds), m)" "appends ?str 200 ds ?m0 m"
    using printf_loop_appends [of ?m0 fmt 0 cs ?str 200 "[]" ap ds "at_itoa E"] f0 s0 w assms(2,4,5) by auto
  have z: "m (?str + of_nat (length ds)) = 0" using m(2) by (simp add: appends_def cstr_iff)
  then have "m(?str + of_nat (length ds) := 0) = m" by (simp add: fun_eq_iff)
  then have "u_printf E fmt ap s = map_option snd (u_puts E ?str (s\<lparr>u_mem := m\<rparr>))"
    using m(1) by (simp add: u_printf_def Let_def map_option_case split: option.splits)
  then show ?thesis using m(2) m0 by (auto simp: appends_def)
qed

section \<open>Programs on this kernel\<close>

text \<open>
  \<open>int 0x80\<close> of a program whose memory is what the page tables of the kernel's state show: the handler \<open>syscallISR\<close>, after which
  the program continues on the memory it then has. A call that waits or stops does not return.
\<close>

definition kernel_int80 :: "'d sys_env \<Rightarrow> u64 \<Rightarrow> regs \<Rightarrow> 'd sys user \<Rightarrow> (u64 \<times> 'd sys user) option" where
  "kernel_int80 K msr r u =
     do { (out, k) \<leftarrow> syscallISR K msr r (u_kern u);
          case out of Returns v \<Rightarrow> Some (v, \<lparr>u_mem = vview k, u_kern = k\<rparr>) | _ \<Rightarrow> None }"

text \<open>
  C14. \<open>puts\<close> of a program, from the wrapper through \<open>int 0x80\<close>, the handler and the page tables to the screen: called with the
  address of a NUL-terminated string in mapped memory, while nobody holds the lock of the screen, it returns the length of
  the string, and exactly its characters are appended to the terminal, in white.
\<close>

theorem u_puts_terminal:
  assumes "int80 E = kernel_int80 K msr" "vcstr (u_kern u) a cs" "\<not> vLock (u_kern u)" "vga_ok (sc_kbd (u_kern u))"
  shows "\<exists>u'. u_puts E a u = Some (of_nat (length cs), u') \<and>
    screen (sc_kbd (u_kern u')) = fold (\<lambda>c. term_put c 15) cs (screen (sc_kbd (u_kern u))) \<and> vga_ok (sc_kbd (u_kern u'))"
proof -
  let ?k = "(u_kern u)\<lparr>sc_kbd := fold (\<lambda>c. putChar c 15) cs (sc_kbd (u_kern u))\<rparr>"
  have p: "sys_puts a (u_kern u) = Some (Returns (of_nat (length cs)), ?k)" by (rule sys_puts_prints [OF assms(2,3)])
  have "u_puts E a u = Some (of_nat (length cs), \<lparr>u_mem = vview ?k, u_kern = ?k\<rparr>)"
    using p by (simp add: u_puts_def syscall1_def assms(1) kernel_int80_def syscallISR_def sys_numbers)
  then show ?thesis using sys_puts_terminal [OF assms(2,3,4) p] by auto
qed

text \<open>
  A concrete program: one page mapped at 1 GiB onto a frame that holds the first bytes of an ELF header, up to the first NUL.
\<close>

definition demo_mapped :: "unit sys" where
  "demo_mapped = mapPg 0x40000000 0 7 (tmgr.extend demo_load (tmgr.more demo_sys))"

definition demo_kenv :: "unit sys uenv" where
  "demo_kenv = \<lparr>int80 = kernel_int80 demo_env 0x5000, int22 = Some, junk = \<lparr>r_rax = 0, r_rdi = 0, r_rsi = 0, r_rdx = 0\<rparr>,
     at_printf = 0x4000, at_itoa = 0x5000\<rparr>"

lemma sys_mmu_more:
  fixes s s' :: "'d sys"
  assumes "mmu.more s = mmu.more s'"
  shows "vLock s = vLock s'" "sc_kbd s = sc_kbd s'"
  using assms by (cases s; cases s'; simp)+

lemma demo_mapped_reads: "i \<le> 7 \<Longrightarrow> vread demo_mapped (0x40000100 + of_nat i) = Some (demo_elf ! i)"
proof -
  assume i: "i \<le> 7"
  let ?s = "tmgr.extend demo_load (tmgr.more demo_sys)"
  have f: "kmem ?s = kmem demo_load" "PgsMap ?s = PgsMap demo_load" "bitmapIdx ?s = bitmapIdx demo_load" "PML4 ?s = PML4 demo_load"
    by (simp_all add: tmgr.extend_def)
  note c = mmu_fields_cong [OF f]
  have fr: "3 + 1 \<le> pg_free_frames ?s" using demo_load_ok(3) c(3) by simp
  have fl: "bit (7 :: u64) 0" "bit (7 :: u64) 1" "(7 :: u64) < 4096" by (simp_all add: bit_iff_odd)
  have inv: "map_inv_own [0x1000 \<mapsto> []] ?s" using demo_load_ok(1) c(1) by simp
  obtain own' where "map_inv_own own' demo_mapped" and m: "extends [0x1000 \<mapsto> []] ?s own' demo_mapped"
      and "1 \<le> pg_free_frames demo_mapped"
      and tr: "\<And>w. translate demo_mapped w = (if take_bit 36 (drop_bit 12 w) = take_bit 36 (drop_bit 12 (0x40000000 :: addr))
         then Some (getPgAddr 0 OR (w AND 0xfff)) else translate ?s w)"
    using mapPg_step [OF inv fr fl, of "0x40000000" 0, folded demo_mapped_def] that by blast
  have i': "i = 0 \<or> i = 1 \<or> i = 2 \<or> i = 3 \<or> i = 4 \<or> i = 5 \<or> i = 6 \<or> i = 7" using i by linarith
  have t: "translate demo_mapped (0x40000100 + of_nat i) = Some (0x100 + of_nat i)"
    using i' by (elim disjE) (simp_all add: tr getPgAddr_def)
  have "(0x100 + of_nat i :: addr) div PAGE_SIZE = 0" using i' by (elim disjE) (simp_all add: PAGE_SIZE_def)
  then have "kmem demo_mapped (0x100 + of_nat i) = kmem ?s (0x100 + of_nat i)"
    using m demo_load_ok(2) c(2) unfolding extends_def by metis
  then show ?thesis using t demo_bytes [of i] i f(1) by (simp add: vread_def)
qed

lemma demo_mapped_string: "vcstr demo_mapped 0x40000100 [0x7f, 0x45, 0x4c, 0x46, 2, 1, 1]"
proof -
  let ?cs = "[0x7f, 0x45, 0x4c, 0x46, 2, 1, 1] :: byte list"
  have e: "demo_elf ! i = (?cs @ [0]) ! i" if "i \<le> 7" for i
  proof -
    from that have "i = 0 \<or> i = 1 \<or> i = 2 \<or> i = 3 \<or> i = 4 \<or> i = 5 \<or> i = 6 \<or> i = 7" by linarith
    then show ?thesis by (elim disjE) (simp_all add: demo_elf_def)
  qed
  have v: "vview demo_mapped (0x40000100 + of_nat i) = (?cs @ [0]) ! i" if "i \<le> 7" for i
    using demo_mapped_reads [OF that] e [OF that] by (simp add: vview_def)
  have "cstr (vview demo_mapped) 0x40000100 ?cs"
    unfolding cstr_iff
  proof (intro conjI allI impI)
    fix i assume "i < length ?cs"
    then show "vview demo_mapped (0x40000100 + of_nat i) = ?cs ! i" using v [of i] nth_append [of ?cs "[0]" i] by simp
  next
    show "vview demo_mapped (0x40000100 + of_nat (length ?cs)) = 0" using v [of 7] by simp
  qed simp
  then show ?thesis using demo_mapped_reads by (simp add: vcstr_def)
qed

theorem u_puts_terminal_witness:
  "\<exists>u'. u_puts demo_kenv 0x40000100 \<lparr>u_mem = vview demo_mapped, u_kern = demo_mapped\<rparr> = Some (of_nat 7, u') \<and>
    screen (sc_kbd (u_kern u')) = fold (\<lambda>c. term_put c 15) [0x7f, 0x45, 0x4c, 0x46, 2, 1, 1] (screen (sc_kbd demo_mapped)) \<and>
    vga_ok (sc_kbd (u_kern u'))"
proof -
  have more: "mmu.more demo_mapped = mmu.more (tmgr.extend demo_load (tmgr.more demo_sys))" by (simp add: demo_mapped_def mapPg_more)
  have l: "\<not> vLock demo_mapped" "sc_kbd demo_mapped = demo_keyboard"
    using sys_mmu_more [OF more] by (simp_all add: demo_sys_def tmgr.extend_def)
  have k: "vga_ok (sc_kbd demo_mapped)" by (simp add: l(2) demo_keyboard_def vga_ok_def VGA_HEIGHT_def VGA_WIDTH_def)
  show ?thesis
    using u_puts_terminal [of demo_kenv demo_env "0x5000" "\<lparr>u_mem = vview demo_mapped, u_kern = demo_mapped\<rparr>" "0x40000100"
        "[0x7f, 0x45, 0x4c, 0x46, 2, 1, 1]"] demo_mapped_string l(1) k
    by (simp add: demo_kenv_def)
qed

end
