(* ===== verification/Shell.thy ===== *)
theory Shell
  imports Ulibc
begin

text \<open>
  The user programs of \<open>src/src/user/programs\<close>: the shell, \<open>shell.cpp\<close>, and the test program, \<open>test.cpp\<close>. The
  loop of the shell has no end, so that a run is a number of rounds. Strings and buffers are in the
  memory of the program, at the addresses of the parameter \<open>A\<close>.
\<close>

section \<open>State\<close>

record shell_addrs =
  at_cmd :: addr
  at_invalid :: addr
  at_help :: addr
  at_buffer :: addr
  at_bin :: addr
  at_elf :: addr
  at_fmt_tid :: addr
  at_fmt_pid :: addr
  at_fmt_ppid :: addr

text \<open>The thread-local variables of both programs.\<close>

record ids =
  my_tid :: u8
  my_pid :: u8
  my_ppid :: u8

definition MAX_CMD_LENGTH :: u64 where "MAX_CMD_LENGTH = 100"
definition CMD_COUNT :: nat where "CMD_COUNT = 9"

definition cmd :: "string list" where
  "cmd = [''lspci'', ''free'', ''clear'', ''ps'', ''shutdown'', ''gettid'', ''getpid'', ''getppid'', ''help'']"

text \<open>The message of \<open>help\<close>, line by line.\<close>

definition helpCmd :: "string list" where
  "helpCmd = [''List of available commands:'', ''lspci - Show available connected PCI Devices'',
     ''free - Show Free/Used Memory and the BIOS Memory Map'', ''clear - Clear the screen'', ''ps - Show running Threads and Processes'',
     ''shutdown - Shutdown the Machine'', ''gettid - Get the current Thread ID'', ''getpid - Get the current Process ID'',
     ''getppid - Get the current Parent Process ID'', ''help - Show this message'']"

definition help_text :: "byte list" where
  "help_text = concat (map (\<lambda>l. lit l @ [0x0a]) helpCmd)"

section \<open>The shell\<close>

text \<open>\<open>tid\<close> is unsigned, \<open>pid\<close> and \<open>ppid\<close> are signed when they are passed to \<open>printf\<close>.\<close>

definition u8_word :: "u8 \<Rightarrow> u64" where "u8_word b = ucast b"
definition i8_word :: "u8 \<Rightarrow> u64" where "i8_word b = ucast (scast b :: u32)"

definition get_ids :: "'k uenv \<Rightarrow> 'k user \<Rightarrow> (ids \<times> 'k user) option" where
  "get_ids E s =
     do { (t, s1) \<leftarrow> u_gettid E s;
          (p, s2) \<leftarrow> u_getpid E s1;
          (q, s3) \<leftarrow> u_getppid E s2;
          Some (\<lparr>my_tid = t, my_pid = p, my_ppid = q\<rparr>, s3) }"

definition removeLead :: "shell_addrs \<Rightarrow> mem \<Rightarrow> mem" where
  "removeLead A m =
     (if m (at_buffer A) = 0x20 then snd (u_memcpy (at_buffer A) (at_buffer A + 1) MAX_CMD_LENGTH m) else m)"

text \<open>The loop over the commands: the index of the first that matches, or \<open>CMD_COUNT\<close>.\<close>

primrec find_cmd :: "shell_addrs \<Rightarrow> mem \<Rightarrow> nat list \<Rightarrow> nat option" where
  "find_cmd A m [] = Some CMD_COUNT"
| "find_cmd A m (i # is) =
     do { r \<leftarrow> u_strcmp m (at_cmd A + MAX_CMD_LENGTH * of_nat i) (at_buffer A);
          if r = 0 then Some i else find_cmd A m is }"

definition builtin :: "'k uenv \<Rightarrow> shell_addrs \<Rightarrow> ids \<Rightarrow> nat \<Rightarrow> 'k user \<Rightarrow> 'k user option" where
  "builtin E A I i s =
     (if i = 0 then u_lspci E s
      else if i = 1 then u_free E s
      else if i = 2 then u_clear E s
      else if i = 3 then u_ps E s
      else if i = 4 then u_shutdown E s
      else if i = 5 then u_printf E (at_fmt_tid A) [u8_word (my_tid I)] s
      else if i = 6 then u_printf E (at_fmt_pid A) [i8_word (my_pid I)] s
      else if i = 7 then u_printf E (at_fmt_ppid A) [i8_word (my_ppid I)] s
      else if i = 8 then map_option snd (u_puts E (at_help A) s)
      else Some s)"

text \<open>The path of the program: \<open>binPath\<close>, then the line; and the process that runs it.\<close>

definition build_path :: "shell_addrs \<Rightarrow> mem \<Rightarrow> mem option" where
  "build_path A m = strcat (at_elf A + 6 - 1) (at_buffer A) (snd (u_memcpy (at_elf A) (at_bin A) 6 m))"

definition run_path :: "'k uenv \<Rightarrow> shell_addrs \<Rightarrow> 'k user \<Rightarrow> 'k user option" where
  "run_path E A s =
     do { (childPid, s1) \<leftarrow> u_createProcess E (at_elf A) s;
          s2 \<leftarrow> (if sint childPid < 0 then map_option snd (u_puts E (at_invalid A) s1)
                 else map_option snd (u_threadJoin E childPid s1));
          Some (s2\<lparr>u_mem := snd (u_memset (at_elf A) 0 100 (u_mem s2))\<rparr>) }"

definition shell_command :: "'k uenv \<Rightarrow> shell_addrs \<Rightarrow> ids \<Rightarrow> 'k user \<Rightarrow> 'k user option" where
  "shell_command E A I s =
     do { let m = removeLead A (u_mem s);
          i \<leftarrow> find_cmd A m [0..<CMD_COUNT];
          if i = CMD_COUNT
          then do { m1 \<leftarrow> build_path A m; run_path E A (s\<lparr>u_mem := m1\<rparr>) }
          else builtin E A I i (s\<lparr>u_mem := m\<rparr>) }"

definition shell_round :: "'k uenv \<Rightarrow> shell_addrs \<Rightarrow> ids \<Rightarrow> 'k user \<Rightarrow> 'k user option" where
  "shell_round E A I s =
     do { s1 \<leftarrow> u_prompt E s;
          (n, s2) \<leftarrow> u_fgets E (at_buffer A) MAX_CMD_LENGTH s1;
          shell_command E A I s2 }"

primrec shell_rounds :: "'k uenv \<Rightarrow> shell_addrs \<Rightarrow> ids \<Rightarrow> nat \<Rightarrow> 'k user \<Rightarrow> 'k user option" where
  "shell_rounds E A I 0 s = Some s"
| "shell_rounds E A I (Suc n) s = do { s1 \<leftarrow> shell_round E A I s; shell_rounds E A I n s1 }"

text \<open>The first \<open>n\<close> rounds of \<open>main\<close>.\<close>

definition shell_main :: "'k uenv \<Rightarrow> shell_addrs \<Rightarrow> nat \<Rightarrow> 'k user \<Rightarrow> 'k user option" where
  "shell_main E A n s =
     do { (I, s1) \<leftarrow> get_ids E (s\<lparr>u_mem := puts_at (at_bin A) (lit ''/bin/'' @ [0]) (u_mem s)\<rparr>);
          shell_rounds E A I n s1 }"

section \<open>The test program\<close>

record test_addrs =
  at_hello :: addr
  at_count :: addr
  at_arg :: addr
  at_args_str :: addr
  at_finished :: addr
  at_test :: addr

primrec print_args :: "'k uenv \<Rightarrow> test_addrs \<Rightarrow> addr \<Rightarrow> nat list \<Rightarrow> 'k user \<Rightarrow> 'k user option" where
  "print_args E T vec [] s = Some s"
| "print_args E T vec (i # is) s =
     do { s1 \<leftarrow> u_printf E (at_arg T) [of_nat i, read64 (u_mem s) (vec + 8 * of_nat i)] s;
          print_args E T vec is s1 }"

text \<open>What \<open>main\<close> and \<open>test\<close> print: the ids and the arguments. \<open>argc\<close> is a signed integer.\<close>

definition say_hello :: "'k uenv \<Rightarrow> test_addrs \<Rightarrow> ids \<Rightarrow> u32 \<Rightarrow> addr \<Rightarrow> 'k user \<Rightarrow> 'k user option" where
  "say_hello E T I n vec s =
     do { s1 \<leftarrow> u_printf E (at_hello T) [u8_word (my_tid I), i8_word (my_pid I), i8_word (my_ppid I)] s;
          s2 \<leftarrow> u_printf E (at_count T) [ucast n] s1;
          print_args E T vec [0..<nat (sint n)] s2 }"

definition test :: "'k uenv \<Rightarrow> test_addrs \<Rightarrow> u32 \<Rightarrow> addr \<Rightarrow> 'k user \<Rightarrow> 'k user option" where
  "test E T n vec s = do { (I, s1) \<leftarrow> get_ids E s; say_hello E T I n vec s1 }"

definition test_main :: "'k uenv \<Rightarrow> test_addrs \<Rightarrow> u32 \<Rightarrow> addr \<Rightarrow> 'k user \<Rightarrow> (int \<times> 'k user) option" where
  "test_main E T n vec s =
     do { (I, si) \<leftarrow> get_ids E s;
          s0 \<leftarrow> say_hello E T I n vec (si\<lparr>u_mem := puts_at (at_args_str T) (lit ''arg-1 arg-2 arg-3'' @ [0]) (u_mem si)\<rparr>);
          (t0, s1) \<leftarrow> u_createThread E (at_test T) 0 s0;
          (t1, s2) \<leftarrow> u_createThread E (at_test T) (at_args_str T) s1;
          let childTid = (ucast t1 :: u8);
          (r, s3) \<leftarrow> u_threadJoin E childTid s2;
          s4 \<leftarrow> u_printf E (at_finished T) [u8_word childTid] s3;
          Some (0, s4) }"

section \<open>Commands and programs\<close>

text \<open>
  The memory of the shell: the table of commands, \<open>binPath\<close>, the formats and the help message, and the buffers apart from them and from
  each other. One byte behind \<open>buffer\<close> is read by \<open>removeLead\<close>.
\<close>

definition shell_text :: "shell_addrs \<Rightarrow> (addr \<times> byte list) list" where
  "shell_text A = [(at_fmt_tid A, lit ''Shell TID: %x'' @ [0x0a]), (at_fmt_pid A, lit ''Shell PID: %x'' @ [0x0a]),
     (at_fmt_ppid A, lit ''Shell PPID: %x'' @ [0x0a]), (at_help A, help_text)]"

definition shell_layout :: "'k uenv \<Rightarrow> shell_addrs \<Rightarrow> bool" where
  "shell_layout E A \<longleftrightarrow> apart (at_cmd A) 900 (at_buffer A) 100 \<and> apart (at_bin A) 6 (at_buffer A) 100 \<and>
     apart (at_buffer A) 100 (at_elf A) 100 \<and> apart (at_bin A) 6 (at_elf A) 100 \<and>
     (\<forall>(a, t) \<in> set (shell_text A). apart a (of_nat (length t + 1)) (at_buffer A) 100 \<and> apart a (of_nat (length t + 1)) (at_printf E) 200)"

definition shell_strings :: "shell_addrs \<Rightarrow> mem \<Rightarrow> bool" where
  "shell_strings A m \<longleftrightarrow> (\<forall>i < 9. cstr m (at_cmd A + 100 * of_nat i) (lit (cmd ! i))) \<and> cstr m (at_bin A) (lit ''/bin/'') \<and>
     (\<forall>(a, t) \<in> set (shell_text A). cstr m a t)"

text \<open>
  What a command line means: a call of the kernel without arguments, a text on the screen, or a program to run.
\<close>

datatype action = Call u64 | Print "byte list" | Launch "byte list"

definition meaning :: "ids \<Rightarrow> byte list \<Rightarrow> action" where
  "meaning I line = (case map_of
     [(lit ''lspci'', Call SYS_LSPCI), (lit ''free'', Call SYS_FREE), (lit ''clear'', Call SYS_CLEAR), (lit ''ps'', Call SYS_PS),
      (lit ''shutdown'', Call SYS_SHUTDOWN),
      (lit ''gettid'', Print (lit ''Shell TID: '' @ hex_text (ucast (my_tid I)) @ [0x0a])),
      (lit ''getpid'', Print (lit ''Shell PID: '' @ hex_text (ucast (scast (my_pid I) :: u32)) @ [0x0a])),
      (lit ''getppid'', Print (lit ''Shell PPID: '' @ hex_text (ucast (scast (my_ppid I) :: u32)) @ [0x0a])),
      (lit ''help'', Print help_text)] line of
     Some a \<Rightarrow> a | None \<Rightarrow> Launch (lit ''/bin/'' @ line))"

text \<open>
  What it is to do one of these in the state \<open>t\<close>, with result \<open>r\<close>: the interrupts that are raised, with the number of the call and its argument in the
  registers. A program is run by asking for a process, yielding, and either complaining or waiting for it; then the path is
  cleared.
\<close>

fun performs :: "'k uenv \<Rightarrow> shell_addrs \<Rightarrow> action \<Rightarrow> 'k user \<Rightarrow> 'k user option \<Rightarrow> bool" where
  "performs E A (Call n) t r \<longleftrightarrow> r = map_option snd (int80 E ((junk E)\<lparr>r_rax := n\<rparr>) t)"
| "performs E A (Print txt) t r \<longleftrightarrow>
     (\<exists>a. cstr (u_mem t) a txt \<and> r = map_option snd (int80 E ((junk E)\<lparr>r_rax := SYS_PUTS, r_rdi := a\<rparr>) t))"
| "performs E A (Launch path) t r \<longleftrightarrow>
     (\<exists>a. cstr (u_mem t) a path \<and> r =
        do { (v, t1) \<leftarrow> int80 E ((junk E)\<lparr>r_rax := SYS_CREATE_PROCESS, r_rdi := a\<rparr>) t;
             t2 \<leftarrow> int22 E t1;
             t3 \<leftarrow> (if sint (ucast v :: u8) < 0
                    then map_option snd (int80 E ((junk E)\<lparr>r_rax := SYS_PUTS, r_rdi := at_invalid A\<rparr>) t2)
                    else threadJoin_loop E (ucast v) t2);
             Some (t3\<lparr>u_mem := zeroed (at_elf A) 100 (u_mem t3)\<rparr>) })"

text \<open>The command line without one leading blank.\<close>

definition command_of :: "byte list \<Rightarrow> byte list" where
  "command_of cs = (case cs of [] \<Rightarrow> [] | c # r \<Rightarrow> if c = 0x20 then r else cs)"

lemma removeLead_line:
  assumes "cstr m (at_buffer A) cs" "length cs < 100"
  shows "cstr (removeLead A m) (at_buffer A) (command_of cs)"
    "\<And>x. \<not> within (at_buffer A) 100 x \<Longrightarrow> removeLead A m x = m x"
proof -
  let ?b = "at_buffer A"
  have mc: "snd (u_memcpy ?b (?b + 1) 100 m) = (\<lambda>x. if within ?b 100 x then m (?b + 1 + (x - ?b)) else m x)"
    using memcpy_loop_spec [of ?b "?b + 1" 100 0 m] by (simp add: u_memcpy_def memcpy_def within_def fun_eq_iff)
  show "\<And>x. \<not> within ?b 100 x \<Longrightarrow> removeLead A m x = m x"
    by (simp add: removeLead_def MAX_CMD_LENGTH_def mc)
  show "cstr (removeLead A m) ?b (command_of cs)"
  proof (cases "m ?b = 0x20")
    case True
    then obtain r where cs: "cs = 0x20 # r" "cstr m (?b + 1) r" using assms(1) by (cases cs) auto
    have rl: "removeLead A m (?b + of_nat i) = m (?b + 1 + of_nat i)" if "i \<le> length r" for i
    proof -
      have "(of_nat i :: u64) < 100" using that assms(2) cs(1) by (simp add: word_less_nat_alt unsigned_of_nat take_bit_nat_eq_self)
      then show ?thesis using True by (simp add: removeLead_def MAX_CMD_LENGTH_def mc within_def)
    qed
    have "cstr (removeLead A m) ?b r" using cs(2) rl by (simp add: cstr_iff)
    then show ?thesis using cs(1) by (simp add: command_of_def)
  next
    case False
    then have "command_of cs = cs" using assms(1) by (cases cs) (auto simp: command_of_def)
    then show ?thesis using False assms(1) by (simp add: removeLead_def)
  qed
qed

lemma command_of_length: "length (command_of cs) \<le> length cs"
  by (simp add: command_of_def split: list.splits)

lemma cmd_lengths: "i < 9 \<Longrightarrow> length (lit (cmd ! i)) < 9"
  by (simp add: lit_def cmd_def numeral_eq_Suc less_Suc_eq_0_disj) auto

lemma cmd_length: "length cmd = 9"
  by (simp add: cmd_def)

lemma cmd_inj:
  assumes "lit (cmd ! i) = lit (cmd ! j)" "i < 9" "j < 9"
  shows "i = j"
proof -
  have "distinct (map lit cmd)" by (simp add: lit_def cmd_def)
  then show ?thesis using assms nth_eq_iff_index_eq [of "map lit cmd" i j] by (simp add: cmd_length)
qed

lemma find_cmd_find:
  assumes "shell_strings A m" "cstr m (at_buffer A) line" "\<forall>i \<in> set is. i < 9"
  shows "find_cmd A m is = Some (case find (\<lambda>i. lit (cmd ! i) = line) is of Some i \<Rightarrow> i | None \<Rightarrow> 9)"
  using assms(3)
proof (induction "is")
  case Nil
  then show ?case by (simp add: CMD_COUNT_def)
next
  case (Cons i "is")
  have c: "cstr m (at_cmd A + 100 * of_nat i) (lit (cmd ! i))" using assms(1) Cons.prems by (simp add: shell_strings_def)
  have "length (lit (cmd ! i)) < 2 ^ 32" using cmd_lengths [of i] Cons.prems by simp
  from str_compare_zero [OF c assms(2) this, of "(=)"] obtain r where
      "strcmp m (at_cmd A + 100 * of_nat i) (at_buffer A) = Some r" "r = 0 \<longleftrightarrow> lit (cmd ! i) = line"
    by (auto simp: strcmp_def list.rel_eq)
  then show ?case using Cons by (simp add: u_strcmp_def MAX_CMD_LENGTH_def)
qed

lemma shell_text_length: "\<forall>(a, t) \<in> set (shell_text A). length t < 2 ^ 16"
  by (simp add: shell_text_def help_text_def helpCmd_def lit_def)

lemma removeLead_strings:
  assumes "shell_layout E A" "shell_strings A m" "\<And>x. \<not> within (at_buffer A) 100 x \<Longrightarrow> m' x = m x"
  shows "shell_strings A m'"
  unfolding shell_strings_def
proof (intro conjI allI impI ballI)
  fix i :: nat assume i: "i < 9"
  have u: "unat (100 * of_nat i :: u64) = 100 * i" using i by (simp add: unat_word_ariths unsigned_of_nat take_bit_nat_eq_self)
  have "apart (at_cmd A) 900 (at_buffer A) 100" using assms(1) by (simp add: shell_layout_def)
  from cstr_frame [OF this _ assms(3), of "100 * of_nat i" "lit (cmd ! i)"]
  have "cstr m' (at_cmd A + 100 * of_nat i) (lit (cmd ! i)) = cstr m (at_cmd A + 100 * of_nat i) (lit (cmd ! i))"
    using u i cmd_lengths [OF i] by simp
  then show "cstr m' (at_cmd A + 100 * of_nat i) (lit (cmd ! i))" using assms(2) i by (simp add: shell_strings_def)
next
  have "apart (at_bin A) 6 (at_buffer A) 100" using assms(1) by (simp add: shell_layout_def)
  from cstr_frame [OF this _ assms(3), of 0 "lit ''/bin/''"]
  have "cstr m' (at_bin A) (lit ''/bin/'') = cstr m (at_bin A) (lit ''/bin/'')" by (simp add: lit_def)
  then show "cstr m' (at_bin A) (lit ''/bin/'')" using assms(2) by (simp add: shell_strings_def)
next
  fix p assume p: "p \<in> set (shell_text A)"
  obtain a t where e: "p = (a, t)" by fastforce
  have "apart a (of_nat (length t + 1)) (at_buffer A) 100" "cstr m a t"
    using assms(1,2) p e by (auto simp: shell_layout_def shell_strings_def)
  moreover have "length t < 2 ^ 16" using shell_text_length p e by fastforce
  then have "unat (of_nat (length t + 1) :: u64) = length t + 1" by (subst unsigned_of_nat) (simp add: take_bit_nat_eq_self)
  ultimately have "cstr m' a t" using cstr_frame [where d = 0 and a = a and n = "of_nat (length t + 1)" and cs = t, OF _ _ assms(3)] by simp
  then show "case p of (a, t) \<Rightarrow> cstr m' a t" by (simp add: e)
qed

lemma build_path_path:
  assumes "shell_layout E A" "shell_strings A m" "cstr m (at_buffer A) line" "length line < 95"
  shows "\<exists>m'. build_path A m = Some m' \<and> cstr m' (at_elf A) (lit ''/bin/'' @ line) \<and>
    (\<forall>x. \<not> within (at_elf A) 100 x \<longrightarrow> m' x = m x)"
proof -
  let ?e = "at_elf A"
  define m1 where "m1 = snd (u_memcpy ?e (at_bin A) 6 m)"
  have sep: "apart (at_bin A) 6 ?e 100" "apart (at_buffer A) 100 ?e 100" using assms(1) by (simp_all add: shell_layout_def)
  have "(6 :: u64) \<le> ?e - at_bin A" using sep(1) by (simp add: apart_def)
  then have m1: "m1 x = (if within ?e 6 x then m (at_bin A + (x - ?e)) else m x)" for x
    using memcpy_loop_spec [of ?e "at_bin A" 6 0 m x] by (simp add: m1_def u_memcpy_def memcpy_def within_def)
  have f1: "m1 x = m x" if "\<not> within ?e 100 x" for x using that within_less [of ?e 6 x 100] by (auto simp: m1)
  have "cstr m1 (at_buffer A) line"
    using cstr_frame [OF sep(2) _ f1, of 0 line] assms(3,4) by simp
  moreover have "apart (?e + 5) 95 (at_buffer A) 95"
    using apart_sub [OF sep(2) [unfolded apart_sym [of "at_buffer A"]], of 5 95 0 95] by simp
  ultimately have "strcat (?e + 5) (at_buffer A) m1 = Some (puts_at (?e + 5) (line @ [0]) m1)"
    using strcat_puts [of m1 "at_buffer A" line "?e + 5" 95] assms(4) by simp
  moreover have "?e + 6 - 1 = ?e + 5" by simp
  ultimately have s: "build_path A m = Some (puts_at (?e + 5) (line @ [0]) m1)"
    by (simp only: build_path_def m1_def [symmetric])
  let ?m = "puts_at (?e + 5) (line @ [0]) m1"
  have l5: "length (lit ''/bin/'') = 5" by (simp add: lit_def)
  have v: "m1 (?e + of_nat i) = lit ''/bin/'' ! i" if "i < 5" for i
    using cstr_nth [of m "at_bin A" "lit ''/bin/''" i] assms(2) that l5
    by (simp add: m1 within_def word_less_nat_alt unsigned_of_nat take_bit_nat_eq_self shell_strings_def nth_append)
  have "cstr ?m ?e (lit ''/bin/'' @ line)"
    using cstr_puts_behind [of "lit ''/bin/''" m1 ?e line] v l5 cstr_nonzero [OF assms(3)] assms(4) by (simp add: lit_def)
  moreover have "?m x = m x" if "\<not> within ?e 100 x" for x
    using puts_at_inside [OF that, of 5 "line @ [0]" m1] f1 [OF that] assms(4) by simp
  ultimately show ?thesis using s by blast
qed

text \<open>The commands do what their names mean.\<close>

lemma printf_prints:
  fixes s :: "'k user"
  assumes "shell_layout E A" "shell_strings A (u_mem s)" "(fmt, pre @ [0x25, 0x78, 0x0a]) \<in> set (shell_text A)"
    and "0x25 \<notin> set pre" "length pre \<le> 12" "unat v < 2 ^ 32"
  shows "\<exists>m. performs E A (Print (pre @ hex_text v @ [0x0a])) (s\<lparr>u_mem := m\<rparr>) (u_printf E fmt [v] s) \<and>
    (\<forall>x. \<not> within (at_printf E) 200 x \<longrightarrow> m x = u_mem s x)"
proof -
  let ?f = "pre @ [0x25, 0x78, 0x0a]"
  have f: "cstr (u_mem s) fmt ?f" "apart fmt (of_nat (length ?f + 1)) (at_printf E) 200"
    using assms(1-3) by (auto simp: shell_strings_def shell_layout_def)
  have u: "uformat ?f [v] = Some (pre @ hex_text v @ [0x0a])"
    using assms(4,6) by (induction pre) auto
  have "length (hexs (unat v)) \<le> 8"
    using length_digits [of 16 "unat v" 7] assms(6) by (simp add: hexs_def)
  then have l: "length (pre @ hex_text v @ [0x0a]) + 2 \<le> 200" "length ?f + 1 < 2 ^ 31" using assms(5) by (simp_all add: hex_text_def lit_def)
  obtain m where m: "u_printf E fmt [v] s = map_option snd (u_puts E (at_printf E) (s\<lparr>u_mem := m\<rparr>))"
      "cstr m (at_printf E) (pre @ hex_text v @ [0x0a])" "\<forall>x. \<not> within (at_printf E) 200 x \<longrightarrow> m x = u_mem s x"
    using printf_puts [OF f(1) l(2) f(2) u l(1)] by blast
  then show ?thesis by (intro exI [of _ m]) (auto simp: u_puts_def syscall1_def)
qed

text \<open>The memory of the shell outside its buffers.\<close>

definition shell_frame :: "'k uenv \<Rightarrow> shell_addrs \<Rightarrow> mem \<Rightarrow> mem \<Rightarrow> bool" where
  "shell_frame E A m m' \<longleftrightarrow> (\<forall>x. \<not> within (at_buffer A) 100 x \<and> \<not> within (at_elf A) 100 x \<and> \<not> within (at_printf E) 200 x \<longrightarrow> m' x = m x)"

lemma builtin_performs:
  fixes s :: "'k user"
  assumes L: "shell_layout E A" "shell_strings A (u_mem s)" and i: "i < 9"
  shows "\<exists>m. performs E A (meaning I (lit (cmd ! i))) (s\<lparr>u_mem := m\<rparr>) (builtin E A I i s) \<and> shell_frame E A (u_mem s) m"
proof -
  have t: "(at_fmt_tid A, lit ''Shell TID: '' @ [0x25, 0x78, 0x0a]) \<in> set (shell_text A)"
      "(at_fmt_pid A, lit ''Shell PID: '' @ [0x25, 0x78, 0x0a]) \<in> set (shell_text A)"
      "(at_fmt_ppid A, lit ''Shell PPID: '' @ [0x25, 0x78, 0x0a]) \<in> set (shell_text A)" "(at_help A, help_text) \<in> set (shell_text A)"
    by (simp_all add: shell_text_def lit_def)
  have w: "unat (u8_word b) < 2 ^ 32" "unat (i8_word b) < 2 ^ 32" for b
    using unsigned_less [of b, where 'a = nat] unsigned_less [of "scast b :: u32", where 'a = nat]
    by (simp_all add: u8_word_def i8_word_def unsigned_ucast_eq take_bit_nat_eq_self)
  have h: "cstr (u_mem s) (at_help A) help_text" using L(2) t(4) by (auto simp: shell_strings_def)
  have self: "\<exists>m. performs E A a (s\<lparr>u_mem := m\<rparr>) r \<and> shell_frame E A (u_mem s) m" if "performs E A a s r" for a r
    using that by (intro exI [of _ "u_mem s"]) (simp add: shell_frame_def)
  have pr: "\<exists>m. performs E A (Print (pre @ hex_text v @ [0x0a])) (s\<lparr>u_mem := m\<rparr>) (u_printf E fmt [v] s) \<and> shell_frame E A (u_mem s) m"
    if "(fmt, pre @ [0x25, 0x78, 0x0a]) \<in> set (shell_text A)" "0x25 \<notin> set pre" "length pre \<le> 12" "unat v < 2 ^ 32" for fmt pre v
    using printf_prints [OF L that] by (auto simp: shell_frame_def)
  note call = u_lspci_def u_free_def u_clear_def u_ps_def u_shutdown_def syscall0_def
  note m = meaning_def cmd_def
  from i have "i \<in> {0, 1, 2, 3, 4, 5, 6, 7, 8}" by auto
  then consider "i = 0" | "i = 1" | "i = 2" | "i = 3" | "i = 4" | "i = 5" | "i = 6" | "i = 7" | "i = 8" by auto
  then show ?thesis
  proof cases
    case 6
    then show ?thesis using pr [OF t(1) _ _ w(1) [of "my_tid I"]] by (simp add: m builtin_def u8_word_def) (simp add: lit_def)
  next
    case 7
    then show ?thesis using pr [OF t(2) _ _ w(2) [of "my_pid I"]] by (simp add: m builtin_def i8_word_def) (simp add: lit_def)
  next
    case 8
    then show ?thesis using pr [OF t(3) _ _ w(2) [of "my_ppid I"]] by (simp add: m builtin_def i8_word_def) (simp add: lit_def)
  next
    case 9
    have "performs E A (Print help_text) s (map_option snd (u_puts E (at_help A) s))"
      using h by (auto simp: u_puts_def syscall1_def)
    then show ?thesis using self 9 by (simp add: m builtin_def lit_def del: performs.simps)
  qed (rule self, simp add: m builtin_def call lit_def)+
qed

lemma run_path_performs:
  assumes "cstr (u_mem s) (at_elf A) path"
  shows "performs E A (Launch path) s (run_path E A s)"
proof -
  have z: "snd (u_memset a 0 n m) = zeroed a n m" for a n m by (simp add: u_memset_def memset_zeroed)
  have j: "map_option snd (u_threadJoin E t u) = threadJoin_loop E t u" for t u
    by (cases "threadJoin_loop E t u") (simp_all add: u_threadJoin_def)
  show ?thesis unfolding performs.simps
    by (intro exI [of _ "at_elf A"] conjI assms)
      (simp add: run_path_def u_createProcess_def u_puts_def syscall1_def z j Option.bind_assoc split_def cong: if_cong)
qed

section \<open>Property\<close>

text \<open>
  C15. The shell does what its user types. On a line of at most 94 characters, after one leading blank is dropped: for \<open>lspci\<close>,
  \<open>free\<close>, \<open>clear\<close>, \<open>ps\<close> and \<open>shutdown\<close> it raises \<open>int 0x80\<close> with the kernel's number of that call, and nothing else; for \<open>gettid\<close>,
  \<open>getpid\<close> and \<open>getppid\<close> it calls \<open>SYS_PUTS\<close> with the address of a string that is the name and the number in hexadecimal; for \<open>help\<close>
  the same with the help message; for every other line it asks for a process with the path \<open>/bin/\<close> and the line, yields, complains if the number it gets is
  negative as a signed byte and waits for the process otherwise, and clears the path. Up to the first interrupt only the three buffers of the
  program have changed.
\<close>

theorem shell_dispatch:
  assumes "shell_layout E A" "shell_strings A (u_mem s)" "cstr (u_mem s) (at_buffer A) cs" "length cs < 95"
  shows "\<exists>m. performs E A (meaning I (command_of cs)) (s\<lparr>u_mem := m\<rparr>) (shell_command E A I s) \<and> shell_frame E A (u_mem s) m"
proof -
  define m where "m = removeLead A (u_mem s)"
  have line: "cstr m (at_buffer A) (command_of cs)" and fr: "\<And>x. \<not> within (at_buffer A) 100 x \<Longrightarrow> m x = u_mem s x"
    using removeLead_line [OF assms(3)] assms(4) by (simp_all add: m_def)
  have strs: "shell_strings A m" by (rule removeLead_strings [OF assms(1,2) fr])
  let ?f = "find (\<lambda>i. lit (cmd ! i) = command_of cs) [0..<9]"
  have f: "find_cmd A m [0..<CMD_COUNT] = Some (case ?f of Some i \<Rightarrow> i | None \<Rightarrow> 9)"
    using find_cmd_find [OF strs line, of "[0..<9]"] by (simp add: CMD_COUNT_def)
  show ?thesis
  proof (cases ?f)
    case (Some i)
    then have i: "i < 9" "lit (cmd ! i) = command_of cs" by (auto simp: find_Some_iff)
    have "shell_command E A I s = builtin E A I i (s\<lparr>u_mem := m\<rparr>)"
      using f Some i(1) by (simp add: shell_command_def m_def [symmetric] CMD_COUNT_def)
    moreover obtain m' where m': "performs E A (meaning I (lit (cmd ! i))) (s\<lparr>u_mem := m'\<rparr>) (builtin E A I i (s\<lparr>u_mem := m\<rparr>))"
        "shell_frame E A m m'"
      using builtin_performs [OF assms(1) _ i(1), of "s\<lparr>u_mem := m\<rparr>" I] strs by auto
    moreover have "shell_frame E A (u_mem s) m'" using m'(2) fr by (simp add: shell_frame_def)
    ultimately show ?thesis unfolding i(2) by metis
  next
    case None
    then have n: "command_of cs \<noteq> lit (cmd ! i)" if "i < 9" for i using that by (auto simp: find_None_iff)
    obtain m' where m': "build_path A m = Some m'" "cstr m' (at_elf A) (lit ''/bin/'' @ command_of cs)"
        "\<And>x. \<not> within (at_elf A) 100 x \<Longrightarrow> m' x = m x"
      using build_path_path [OF assms(1) strs line] command_of_length [of cs] assms(4) by auto
    have "shell_command E A I s = run_path E A (s\<lparr>u_mem := m'\<rparr>)"
      using f None m'(1) by (simp add: shell_command_def m_def [symmetric] CMD_COUNT_def)
    moreover have "meaning I (command_of cs) = Launch (lit ''/bin/'' @ command_of cs)"
      using n [of 0] n [of 1] n [of 2] n [of 3] n [of 4] n [of 5] n [of 6] n [of 7] n [of 8] by (simp add: meaning_def cmd_def)
    ultimately show ?thesis
      using run_path_performs [of "s\<lparr>u_mem := m'\<rparr>" A _ E] m'(2,3) fr by (intro exI [of _ m']) (simp add: shell_frame_def del: performs.simps)
  qed
qed

text \<open>Strings at increasing addresses do not disturb each other.\<close>

definition put_strings :: "(addr \<times> byte list) list \<Rightarrow> mem" where
  "put_strings bs = fold (\<lambda>(a, t). puts_at a (t @ [0])) bs (\<lambda>_. 0)"

lemma put_strings_cstr:
  assumes "sorted_wrt (\<lambda>(a, t) (b, u). unat a + length t < unat b) bs" "\<forall>(a, t) \<in> set bs. 0 \<notin> set t \<and> unat a + length t < 2 ^ 63"
    and "(a, t) \<in> set bs"
  shows "cstr (put_strings bs) a t"
  using assms
proof (induction bs rule: rev_induct)
  case (snoc p bs)
  obtain b u where p: "p = (b, u)" by fastforce
  have e: "put_strings (bs @ [p]) = puts_at b (u @ [0]) (put_strings bs)" by (simp add: put_strings_def p)
  show ?case
  proof (cases "(a, t) \<in> set bs")
    case True
    have lt: "unat a + length t < unat b" "unat b + length u < 2 ^ 63"
      using snoc.prems(1,2) True p by (auto simp: sorted_wrt_append)
    have "puts_at b (u @ [0]) (put_strings bs) (a + of_nat i) = put_strings bs (a + of_nat i)" if "i \<le> length t" for i
    proof (rule puts_at_off)
      have n: "unat (of_nat (length (u @ [0])) :: u64) = length u + 1"
        using lt(2) by (subst unsigned_of_nat) (simp add: take_bit_nat_eq_self)
      have "unat (a + of_nat i) = unat a + i"
        using that lt by (simp add: unat_word_ariths unsigned_of_nat take_bit_nat_eq_self)
      then show "\<not> within b (of_nat (length (u @ [0]))) (a + of_nat i)"
        using within_range [of b "of_nat (length (u @ [0]))" "a + of_nat i"] n lt that by simp
      show "length (u @ [0]) < 2 ^ 64" using lt(2) by simp
    qed
    moreover have "cstr (put_strings bs) a t" using snoc True by (simp add: sorted_wrt_append)
    ultimately show ?thesis unfolding e using cstr_cong [of t "puts_at b (u @ [0]) (put_strings bs)" a "put_strings bs"] by simp
  next
    case False
    then show ?thesis using snoc.prems(2,3) p unfolding e by (auto intro: cstr_puts_at)
  qed
qed simp

text \<open>A shell in which \<open>ps\<close>, with a leading blank, has been typed.\<close>

definition demo_addrs :: shell_addrs where
  "demo_addrs = \<lparr>at_cmd = 0x1000, at_invalid = 0x2000, at_help = 0x2100, at_buffer = 0x3000, at_bin = 0x3100, at_elf = 0x3200,
     at_fmt_tid = 0x2400, at_fmt_pid = 0x2500, at_fmt_ppid = 0x2600\<rparr>"

definition demo_strings :: "(addr \<times> byte list) list" where
  "demo_strings = [(0x1000, lit ''lspci''), (0x1064, lit ''free''), (0x10c8, lit ''clear''), (0x112c, lit ''ps''), (0x1190, lit ''shutdown''),
     (0x11f4, lit ''gettid''), (0x1258, lit ''getpid''), (0x12bc, lit ''getppid''), (0x1320, lit ''help''), (0x2100, help_text),
     (0x2400, lit ''Shell TID: %x'' @ [0x0a]), (0x2500, lit ''Shell PID: %x'' @ [0x0a]), (0x2600, lit ''Shell PPID: %x'' @ [0x0a]),
     (0x3000, lit '' ps''), (0x3100, lit ''/bin/'')]"

definition demo_user :: "unit user" where
  "demo_user = \<lparr>u_mem = put_strings demo_strings, u_kern = ()\<rparr>"

definition demo_uenv :: "unit uenv" where
  "demo_uenv = \<lparr>int80 = \<lambda>r s. Some (0, s), int22 = Some, junk = \<lparr>r_rax = 0, r_rdi = 0, r_rsi = 0, r_rdx = 0\<rparr>,
     at_printf = 0x4000, at_itoa = 0x5000\<rparr>"

lemma demo_string: "(a, t) \<in> set demo_strings \<Longrightarrow> cstr (u_mem demo_user) a t"
proof -
  have l: "length help_text = 363" "0 \<notin> set help_text" by (simp_all add: help_text_def helpCmd_def lit_def)
  have "sorted_wrt (\<lambda>(a, t) (b, u). unat a + length t < unat b) demo_strings"
      "\<forall>(a, t) \<in> set demo_strings. 0 \<notin> set t \<and> unat a + length t < 2 ^ 63"
    using l by (simp_all add: demo_strings_def) (simp_all add: lit_def)
  then show "(a, t) \<in> set demo_strings \<Longrightarrow> cstr (u_mem demo_user) a t" using put_strings_cstr by (simp add: demo_user_def)
qed

lemma demo_shell:
  "shell_layout demo_uenv demo_addrs" "shell_strings demo_addrs (u_mem demo_user)" "cstr (u_mem demo_user) (at_buffer demo_addrs) (lit '' ps'')"
proof -
  have l: "length help_text = 363" by (simp add: help_text_def helpCmd_def lit_def)
  show "shell_layout demo_uenv demo_addrs"
    by (simp add: shell_layout_def shell_text_def demo_addrs_def demo_uenv_def apart_def l) (simp add: lit_def)
  have "cstr (u_mem demo_user) (0x1000 + 100 * of_nat i) (lit (cmd ! i))" if "i < 9" for i
  proof -
    from that have "i \<in> {0, 1, 2, 3, 4, 5, 6, 7, 8}" by auto
    then show ?thesis by (auto simp: cmd_def demo_strings_def intro!: demo_string)
  qed
  moreover have "cstr (u_mem demo_user) a t" if "(a, t) \<in> set (shell_text demo_addrs)" for a t
    by (rule demo_string) (use that in \<open>auto simp: shell_text_def demo_addrs_def demo_strings_def\<close>)
  moreover have "cstr (u_mem demo_user) 0x3100 (lit ''/bin/'')" by (rule demo_string) (simp add: demo_strings_def)
  ultimately show "shell_strings demo_addrs (u_mem demo_user)" by (auto simp: shell_strings_def) (simp_all add: demo_addrs_def)
  show "cstr (u_mem demo_user) (at_buffer demo_addrs) (lit '' ps'')"
    by (rule demo_string) (simp add: demo_addrs_def demo_strings_def)
qed

theorem shell_dispatch_witness:
  "\<exists>m. shell_command demo_uenv demo_addrs \<lparr>my_tid = 5, my_pid = 5, my_ppid = 255\<rparr> demo_user =
     map_option snd (int80 demo_uenv ((junk demo_uenv)\<lparr>r_rax := SYS_PS\<rparr>) (demo_user\<lparr>u_mem := m\<rparr>)) \<and>
     shell_frame demo_uenv demo_addrs (u_mem demo_user) m"
proof -
  let ?I = "\<lparr>my_tid = 5, my_pid = 5, my_ppid = 255\<rparr>"
  have c: "command_of (lit '' ps'') = lit ''ps''" by (simp add: command_of_def lit_def)
  have "meaning ?I (lit ''ps'') = Call SYS_PS" by (simp add: meaning_def lit_def)
  moreover have l: "length (lit '' ps'') < 95" by (simp add: lit_def)
  ultimately show ?thesis using shell_dispatch [OF demo_shell l, of ?I] unfolding c by auto
qed

end
