(* ===== verification/Spec2Isabelle.thy ===== *)
theory Spec2Isabelle
  imports Kstring Kdsa Allocator Kpkheap Kqueue Bitmap Paging_Alloc Paging_Map Task Vga Kstdio Keyboard Ports Ata
    Filesystem Disk Fat_Volume Fat_Open Fat_File Vfs_File Gdt Acpi Pic Apic Pit Idt Pci Elf Process Syscall Boot Ulibc Shell
begin

text \<open>
  \<^bold>\<open>KhhraspokOS.\<close> A model of the C++ sources of the KhhraspokOS kernel (\<open>src/src/kernel\<close>) and of its user
  space (\<open>src/src/user\<close>), with the theorems that make its parts correct. Every definition is a
  translation of the lines of one function or type; the names are those of the source, with a prefix or
  suffix where HOL or another part has the name already.

  \<^bold>\<open>The program.\<close> A 64-bit kernel for PC hardware. The boot loader leaves the memory map of the BIOS and a
  first set of page tables and enters \<open>kernelMain\<close>, which sets up segment tables, interrupt controllers,
  timer and interrupt table, wakes the other processors and starts three tasks: the shell, loaded from a
  FAT16 disk, and two kernel threads that hand out and reap tasks. From then on everything happens in
  interrupt handlers: the local timer calls the scheduler, the keyboard fills a ring of characters, \<open>int
  0x80\<close> runs a system call. The user library wraps the system calls, and the shell reads lines, runs its
  commands and starts programs.

  \<^bold>\<open>Conventions.\<close> Integers keep their width: \<open>u8\<close> to \<open>u64\<close> are words, whose arithmetic wraps. Memory is a function
  from 64-bit addresses to bytes (\<open>kmem\<close>), structures that the code overlays on it are read and written little
  endian, and structures that only typed pointers reach (tasks, files) are in one store per type. State
  is passed explicitly, in records that extend each other: \<open>kernel_mem\<close>, \<open>heap\<close>, \<open>mmu\<close>, \<open>tmgr\<close>, \<open>kernel\<close>, \<open>sys\<close>
  and \<open>machine\<close> are successive layers of one state. Stores through typed pointers and through byte addresses do not
  meet: a program that passes the address of a kernel structure to \<open>SYS_FGETS\<close>, which the kernel does not check, changes the
  bytes there and not the structure, and no theorem is about that. Address 0 is mapped, as on the machine, where the first pages
  are: a store there goes on. A result of \<open>None\<close> is the end of what the source defines: a
  failed \<open>CATCH_FIRE\<close>, which stops the machine, an access outside an array or through a page that is not
  mapped, or a loop without end. No definition uses fuel: loops are structural, have a termination
  proof, or are \<open>partial_function\<close>s into \<open>option\<close>, and then the theorems say that they return. Messages of \<open>kpwarn\<close> are
  the list \<open>kout\<close>. Devices, compiler choices (the order of evaluation of arguments, the value of uninitialised variables and
  unset registers) and addresses chosen by the linker are parameters.

  \<^bold>\<open>Theories.\<close> The first group is memory and data structures.

  \<^item> \<open>Prelude\<close>: types, address ranges (\<open>within\<close>, \<open>apart\<close>), little-endian memory, words.
  \<^item> \<open>Kstring\<close> (\<open>libk/kstring.cpp\<close>): the string functions. They return on NUL-terminated strings and compute
    copies, comparisons and tokens; \<open>istrncmp\<close> compares its last character exactly.
  \<^item> \<open>Kdsa\<close>, \<open>Kqueue\<close>, \<open>Bitmap\<close> (\<open>libk/kdsa.cpp\<close>, \<open>kdsa.hpp\<close>): linked stack and queue on the heap, bit map. The locale \<open>fifo\<close> is what a
    queue promises and \<open>bit_store\<close> what a bit map promises; both are interpreted on the code's operations,
    so that any sequence of pushes and pops gives the results of a list.
  \<^item> \<open>Allocator\<close>: the locales \<open>region_allocator\<close> and \<open>zeroing_allocator\<close>, with what a client may conclude from a
    sequence of allocations. They are interpreted on the heap and on the page frames.
  \<^item> \<open>Kpkheap\<close> (\<open>memory/heap/kpkheap.cpp\<close>): disjoint and zeroed blocks on a heap whose free lists are empty, reuse of one freed
    chunk, what happens on an exhausted heap. Reused chunks may overlap their neighbours (\<open>kpkMalloc_reuse_overlap\<close>), so that the
    theorems on the heap and on its clients say which free lists are empty.
  \<^item> \<open>Paging_Alloc\<close>, \<open>Paging_Map\<close> (\<open>memory/paging/paging.cpp\<close>): page frames with an invariant over every reachable state; \<open>mapPg\<close>
    against the four-level walk of the processor, \<open>translate\<close>. The walk is the one for pages of 4 KiB: it does not read the PS
    bit, which no caller sets. The number of frames, \<open>pg_lim\<close>, is the bound of the code, \<open>length * 8\<close>, although \<open>length\<close> counts
    frames already.

  The second group is tasks.

  \<^item> \<open>Task\<close> (\<open>task/task.cpp\<close>): scheduler, loader, reaper, ending of tasks. The scheduler implements a round-robin pass
    over the lists that the queues stand for.
  \<^item> \<open>Elf\<close> (\<open>elfLoader/elfLoader.cpp\<close>): the loader. After \<open>loadELF\<close> the segments of a file, its static thread-local storage
    included, are in the new address space, byte by byte. The loadable segments lie back to back, and at most one segment of thread-local
    storage follows them (\<open>layout_ok\<close>), which the loader does not check. Where the set-up of that storage writes into a loadable segment, its bytes
    are not those of the file.
  \<^item> \<open>Process\<close> (\<open>task/task.cpp\<close>): the two \<open>createTask\<close>. The relation \<open>keeps\<close> says what a step leaves alone of the task table, and
    \<open>registered\<close> and \<open>thread_registered\<close> what a creation adds to it: a task in the slot numbered by the count of tasks, which the code does
    not check to be free.
  \<^item> \<open>Syscall\<close> (\<open>interrupts/interrupts.cpp\<close>): the handler of \<open>int 0x80\<close>, on the composed state: which calls change the task table,
    and how.
  \<^item> \<open>Boot\<close> (\<open>kernelMain.cpp\<close>): the composition of the initialisers, and the tasks after it.

  The third group is devices and descriptor tables.

  \<^item> \<open>Vga\<close>, \<open>Kstdio\<close> (\<open>video/VGA/textMode.cpp\<close>, \<open>libk/kstdio.cpp\<close>, \<open>libk/kstdlib.cpp\<close>): the screen as a refinement of a terminal; number formatting.
  \<^item> \<open>Keyboard\<close> (\<open>drivers/KEYBOARD/keyboard.cpp\<close>): the ring buffer; a line typed with letters, blanks, shift, caps lock, backspace and
    releases of keys is what is read.
  \<^item> \<open>Ports\<close>, \<open>Ata\<close>, \<open>Pci\<close> (\<open>includes/io.hpp\<close>, \<open>drivers/ATA\<close>, \<open>drivers/PCI\<close>): the locales \<open>ata_drive\<close> and \<open>pci_hw\<close> are the documented behaviour of the
    hardware; they are interpreted on devices defined here. The drive of \<open>ata_drive\<close> takes a command in every state and reports no
    error: faults of the drive are outside the theorems.
  \<^item> \<open>Filesystem\<close> (\<open>filesystem\<close>): path parser, FAT16 driver, virtual file system.
  \<^item> \<open>Disk\<close>: \<open>readDisk\<close> as its clients see it, over the heap and the drive: the bytes of the disk arrive, and the buffer is
    recycled. \<open>disk_heap U n\<close> is the invariant that carries a sequence of reads: the memory \<open>U\<close> of the clients, the
    parked buffers and the free part of the heap are disjoint, and \<open>n\<close> bytes are left; each access uses 48 of them, because
    the nodes of the free lists are never given back.
  \<^item> \<open>Fat_Volume\<close>, \<open>Fat_Open\<close>, \<open>Fat_File\<close>, \<open>Vfs_File\<close>: the file system on a volume image. Directory search, parsing of a path and its
    resolution are functions of the bytes on the disk, and a file that is opened with \<open>fopen\<close> and read with \<open>fread\<close> is the
    concatenation of its clusters.
    The specification compares names up to the case of letters. The volume has what the code assumes: clusters of 128 sectors, names of
    up to seven characters, chains that end with the mark 0xffff, directories of one cluster whose entries are in front of their end,
    and no entry that the comparison of the code takes for the name and the case of letters does not (\<open>clash\<close>).
  \<^item> \<open>Gdt\<close>, \<open>Idt\<close> (\<open>GDT/gdt.cpp\<close>, \<open>interrupts/interrupts.cpp\<close>): descriptors as the processor decodes them, the interrupt table, start of
    the other processors.
  \<^item> \<open>Acpi\<close>, \<open>Pic\<close>, \<open>Apic\<close>, \<open>Pit\<close> (\<open>memory/acpi\<close>, \<open>interrupts\<close>): table parsing, interrupt controllers (locale
    \<open>ioapic_hw\<close>, whose registers keep the value written to them), timer.

  The fourth group is user space.

  \<^item> \<open>Ulibc\<close> (\<open>user/libc\<close>): strings, \<open>printf\<close>, the wrappers of the system calls; \<open>u_puts_terminal\<close> goes from a program's \<open>puts\<close> through the
    page tables, the handler and the screen to the terminal.
  \<^item> \<open>Shell\<close> (\<open>user/programs\<close>): the shell and the test program.

  \<^bold>\<open>Concurrency.\<close> Each definition is one run of a handler or function without interruption. A busy wait for another
  processor or for the lock of the screen is a result of its own, and what other parties do in between is an
  argument: the timer interrupts of \<open>sleep\<close>, the sequence of key strokes, the sequence of scheduler ticks, the sequence of allocator
  operations. Interrupts in the middle of a function and the memory model of several processors are not modelled.

  \<^bold>\<open>Flaws.\<close> Where the code does not do what it means to, the definitions do what the code does, and a lemma may
  say so: \<open>kpkMalloc_exhausted\<close> (writes to address 0 and returns 32), \<open>istrcmp_digit_letter\<close> (a digit and a letter are equal), the end of
  \<open>endTask\<close>, which frees a thread that has been told to end before and then stores through the cleared pointer, the endless loop of \<open>parseMADT\<close> on an address override, the divisor that \<open>initPIT\<close> never loads, \<open>strcat\<close>, which overwrites. The theorems are then about the inputs
  on which the code is right, as their hypotheses say.

  \<^bold>\<open>Not modelled.\<close> The assembly files (boot loader, entry code, interrupt stubs, port instructions), the linker scripts and
  the Makefiles; the formatting of \<open>dumpCPU\<close>, whose lines are a list of labels and values; declarations without a body in the headers, constants
  of the headers that no code uses, and the structures of \<open>elf.hpp\<close> and \<open>acpi.hpp\<close> that no code reads.
\<close>

end
